(* ===== verification/Kernel_Prelude.thy ===== *)
theory Kernel_Prelude
  imports Main "HOL-Library.Word"
begin

text \<open>
  Shared vocabulary of the development: the machine types of the kernel, the \<open>Result\<close> type of
  Rust, saturating arithmetic, the \<open>for\<close>-loops that stop at the first matching slot of a table,
  and the list and word facts the component theories have in common.

  A \<open>u8\<close>, \<open>u16\<close>, \<open>u32\<close> or \<open>u64\<close> is a word of that width; a \<open>usize\<close> that is an index or a count
  of a fixed-size table is a \<^typ>\<open>nat\<close>; signed integers are \<^typ>\<open>int\<close> with saturation or
  wrap-around written out where the code can leave the range.
\<close>

unbundle bit_operations_syntax

type_synonym u8 = "8 word"
type_synonym u16 = "16 word"
type_synonym u32 = "32 word"
type_synonym u64 = "64 word"

text \<open>Process identifiers: \<open>src/src/process/types.rs\<close>, line 6.\<close>

type_synonym Pid = u64

named_theorems ring_simps \<open>arithmetic and contents of ring buffers\<close>
named_theorems slot_simps \<open>first matching slot of a table\<close>
named_theorems sched_simps \<open>unfolding of scheduler operations\<close>

datatype ('a, 'e) result = Ok 'a | Err 'e

fun is_ok :: "('a, 'e) result \<Rightarrow> bool" where
  "is_ok (Ok _) = True"
| "is_ok (Err _) = False"

section \<open>Saturating and wrapping arithmetic\<close>

definition saturating_add :: "'w::len word \<Rightarrow> 'w word \<Rightarrow> 'w word" where
  "saturating_add a b = (if uint a + uint b < 2 ^ LENGTH('w) then a + b else - 1)"

definition saturating_sub :: "'w::len word \<Rightarrow> 'w word \<Rightarrow> 'w word" where
  "saturating_sub a b = (if b \<le> a then a - b else 0)"

definition i64_max :: int where "i64_max = 9223372036854775807"

definition i64_min :: int where "i64_min = - 9223372036854775808"

text \<open>\<open>i64\<close> saturating operations clamp the mathematical result to the range.\<close>

definition sat_i64 :: "int \<Rightarrow> int" where
  "sat_i64 x = max i64_min (min i64_max x)"

text \<open>Plain \<open>i64\<close> and \<open>i8\<close> operations wrap around (two's complement).\<close>

definition wrap_i64 :: "int \<Rightarrow> int" where
  "wrap_i64 x = (x + 9223372036854775808) mod 18446744073709551616 - 9223372036854775808"

definition wrap_i8 :: "int \<Rightarrow> int" where
  "wrap_i8 x = (x + 128) mod 256 - 128"

text \<open>\<open>clamp(lo, hi)\<close> of \<open>core::cmp::Ord\<close>.\<close>

definition clamp :: "'a::linorder \<Rightarrow> 'a \<Rightarrow> 'a \<Rightarrow> 'a" where
  "clamp x lo hi = (if x < lo then lo else if hi < x then hi else x)"

section \<open>First matching slot\<close>

text \<open>
  The code finds table entries with a \<open>for\<close> loop over the slots that returns at the first match
  (or with \<open>iter().find\<close> / \<open>position\<close>); \<open>find_slot\<close> is the index at which that loop stops.
\<close>

fun find_slot :: "('a \<Rightarrow> bool) \<Rightarrow> 'a list \<Rightarrow> nat option" where
  "find_slot P [] = None"
| "find_slot P (x # xs) = (if P x then Some 0 else map_option Suc (find_slot P xs))"

definition modify_nth :: "nat \<Rightarrow> ('a \<Rightarrow> 'a) \<Rightarrow> 'a list \<Rightarrow> 'a list" where
  "modify_nth i f xs = (if i < length xs then xs[i := f (xs ! i)] else xs)"

lemma find_slot_SomeD:
  "find_slot P xs = Some i \<Longrightarrow> i < length xs \<and> P (xs ! i) \<and> (\<forall>j<i. \<not> P (xs ! j))"
proof (induction xs arbitrary: i)
  case (Cons x xs)
  show ?case
  proof (cases "P x")
    case False
    then obtain k where k: "find_slot P xs = Some k" "i = Suc k" using Cons.prems by auto
    then show ?thesis using Cons.IH [OF k(1)] False by (auto simp: less_Suc_eq_0_disj)
  qed (use Cons.prems in auto)
qed simp

lemma find_slot_None_iff [slot_simps]: "find_slot P xs = None \<longleftrightarrow> (\<forall>x\<in>set xs. \<not> P x)"
  by (induction xs) auto

lemma find_slot_Some_iff [slot_simps]:
  "find_slot P xs = Some i \<longleftrightarrow> i < length xs \<and> P (xs ! i) \<and> (\<forall>j<i. \<not> P (xs ! j))"
proof
  assume r: "i < length xs \<and> P (xs ! i) \<and> (\<forall>j<i. \<not> P (xs ! j))"
  then have "find_slot P xs \<noteq> None" using nth_mem [of i xs] by (auto simp: find_slot_None_iff)
  then obtain k where k: "find_slot P xs = Some k" by blast
  then have "i = k" using r find_slot_SomeD [OF k] by (metis linorder_neqE_nat)
  then show "find_slot P xs = Some i" using k by simp
qed (use find_slot_SomeD in blast)

lemma find_slot_unique:
  assumes "i < length xs" "P (xs ! i)" "\<And>j. j < length xs \<Longrightarrow> P (xs ! j) \<Longrightarrow> j = i"
  shows "find_slot P xs = Some i"
proof -
  have "\<not> P (xs ! j)" if "j < i" for j using assms(1) assms(3) [of j] that by auto
  then show ?thesis using assms(1,2) by (simp add: find_slot_Some_iff)
qed

lemma find_slot_exists: "x \<in> set xs \<Longrightarrow> P x \<Longrightarrow> \<exists>i. find_slot P xs = Some i"
  by (metis find_slot_None_iff option.exhaust)

lemma length_modify_nth [simp]: "length (modify_nth i f xs) = length xs"
  by (simp add: modify_nth_def)

lemma nth_modify_nth [simp]:
  "j < length xs \<Longrightarrow> modify_nth i f xs ! j = (if i = j then f (xs ! j) else xs ! j)"
  by (auto simp: modify_nth_def)

lemma nth_update_if: "xs[i := x] ! j = (if i = j \<and> j < length xs then x else xs ! j)"
  by (cases "i = j") (auto simp: list_update_beyond not_less)

lemma list_all_update [intro]: "list_all P xs \<Longrightarrow> P x \<Longrightarrow> list_all P (xs[i := x])"
  by (auto simp: list_all_length nth_update_if)

lemma list_all_nthD: "list_all P xs \<Longrightarrow> i < length xs \<Longrightarrow> P (xs ! i)"
  by (simp add: list_all_length)

lemma find_upt_least:
  assumes "a \<le> m" "m < b" "P m" "\<And>j. a \<le> j \<Longrightarrow> j < m \<Longrightarrow> \<not> P j"
  shows "find P [a..<b] = Some m"
  unfolding find_Some_iff using assms by (intro exI [of _ "m - a"]) simp

section \<open>Word facts\<close>

lemma unat_of_nat_small: "n < 2 ^ LENGTH('w) \<Longrightarrow> unat (of_nat n :: 'w::len word) = n"
  by (simp add: unsigned_of_nat take_bit_nat_eq_self)

lemma saturating_add_uint:
  "uint (saturating_add a (b :: 'w::len word)) = min (uint a + uint b) (2 ^ LENGTH('w) - 1)"
proof (cases "uint a + uint b < 2 ^ LENGTH('w)")
  case True
  then have "uint (a + b) = uint a + uint b"
    by (simp add: uint_word_ariths)
  then show ?thesis using True by (simp add: saturating_add_def)
next
  case False
  then show ?thesis by (simp add: saturating_add_def unsigned_minus_1_eq_mask mask_eq_exp_minus_1)
qed

lemma saturating_sub_uint: "uint (saturating_sub a b) = max 0 (uint a - uint b)"
proof (cases "b \<le> a")
  case True
  then have "uint (a - b) = uint a - uint b" by (simp add: word_le_def uint_sub_lem [symmetric])
  then show ?thesis using True by (simp add: saturating_sub_def word_le_def)
qed (simp add: saturating_sub_def word_le_def)

lemma saturating_sub_le [simp]: "saturating_sub a b \<le> a"
  by (simp add: word_le_def saturating_sub_uint)

lemma saturating_add_ge [simp]: "a \<le> saturating_add a b"
  using uint_lt2p [of a] by (simp add: word_le_def saturating_add_uint)

lemma sat_i64_bounds [simp]: "i64_min \<le> sat_i64 x" "sat_i64 x \<le> i64_max"
  by (auto simp: sat_i64_def i64_min_def i64_max_def)

lemma sat_i64_id: "i64_min \<le> x \<Longrightarrow> x \<le> i64_max \<Longrightarrow> sat_i64 x = x"
  by (simp add: sat_i64_def)

lemma wrap_i64_id: "i64_min \<le> x \<Longrightarrow> x \<le> i64_max \<Longrightarrow> wrap_i64 x = x"
  by (simp add: wrap_i64_def i64_min_def i64_max_def)

lemma wrap_i8_id: "- 128 \<le> x \<Longrightarrow> x \<le> 127 \<Longrightarrow> wrap_i8 x = x"
  by (simp add: wrap_i8_def)

lemma clamp_bounds [simp]: "lo \<le> hi \<Longrightarrow> lo \<le> clamp x lo hi" "lo \<le> hi \<Longrightarrow> clamp x lo hi \<le> hi"
  by (auto simp: clamp_def)

lemma clamp_id [simp]: "lo \<le> x \<Longrightarrow> x \<le> hi \<Longrightarrow> clamp x lo hi = x"
  by (auto simp: clamp_def)

end
