(* ===== verification/Ring_Buffer.thy ===== *)
theory Ring_Buffer
  imports Kernel_Prelude
begin

text \<open>
  Ring buffers and the interface they promise.  The pipes, both directions of a socketpair and the
  queues of a pseudo-terminal are arrays addressed by a read position, a write position and a
  count; the copy loops of \<open>src/src/ipc/pipe.rs\<close> are \<open>ring_write_loop\<close> and \<open>ring_read_loop\<close>.
  \<open>ring_contents\<close> abstracts such an array to the list of queued elements.  The locale
  \<open>byte_fifo\<close> is the contract of a bounded byte queue, \<open>message_fifo\<close> that of a bounded queue
  of whole messages; both are interpreted in the theories of the components.
\<close>

section \<open>The copy loops\<close>

text \<open>\<open>for i in 0..to_write\<close>: store the next element at the write position and advance it.\<close>

fun ring_write_loop :: "nat \<Rightarrow> 'a list \<Rightarrow> nat \<Rightarrow> 'a list \<Rightarrow> 'a list \<times> nat" where
  "ring_write_loop sz d w [] = (d, w)"
| "ring_write_loop sz d w (b # bs) = ring_write_loop sz (d[w := b]) ((w + 1) mod sz) bs"

text \<open>\<open>for i in i..i + n\<close>: copy the element at the read position to \<open>buffer[i]\<close> and advance.\<close>

fun ring_read_loop :: "nat \<Rightarrow> 'a list \<Rightarrow> nat \<Rightarrow> nat \<Rightarrow> nat \<Rightarrow> 'a list \<Rightarrow> 'a list \<times> nat" where
  "ring_read_loop sz d r i 0 buf = (buf, r)"
| "ring_read_loop sz d r i (Suc n) buf =
     ring_read_loop sz d ((r + 1) mod sz) (Suc i) n (buf[i := d ! r])"

section \<open>Abstraction to a list\<close>

definition ring_contents :: "nat \<Rightarrow> 'a list \<Rightarrow> nat \<Rightarrow> nat \<Rightarrow> 'a list" where
  "ring_contents sz d r c = map (\<lambda>k. d ! ((r + k) mod sz)) [0..<c]"

definition ring_ok :: "nat \<Rightarrow> 'a list \<Rightarrow> nat \<Rightarrow> nat \<Rightarrow> nat \<Rightarrow> bool" where
  "ring_ok sz d r w c \<longleftrightarrow>
     0 < sz \<and> length d = sz \<and> r < sz \<and> c \<le> sz \<and> w = (r + c) mod sz"

datatype 'a fifo_op = FWrite "'a list" | FRead "'a list"

text \<open>
  A sequence of writes and reads, with what was accepted by the writes and what was delivered by
  the reads accumulated in order.
\<close>

fun fifo_run :: "('s \<Rightarrow> 'a list \<Rightarrow> 's \<times> nat) \<Rightarrow> ('s \<Rightarrow> 'a list \<Rightarrow> 's \<times> 'a list \<times> nat) \<Rightarrow>
    's \<Rightarrow> 'a fifo_op list \<Rightarrow> 's \<times> 'a list \<times> 'a list" where
  "fifo_run wr rd s [] = (s, [], [])"
| "fifo_run wr rd s (FWrite xs # ops) =
     (case wr s xs of (s1, n) \<Rightarrow>
      case fifo_run wr rd s1 ops of (s2, acc, del) \<Rightarrow> (s2, take n xs @ acc, del))"
| "fifo_run wr rd s (FRead buf # ops) =
     (case rd s buf of (s1, buf1, n) \<Rightarrow>
      case fifo_run wr rd s1 ops of (s2, acc, del) \<Rightarrow> (s2, acc, take n buf1 @ del))"

section \<open>Lemmas on the loops\<close>

lemma length_ring_contents [simp]: "length (ring_contents sz d r c) = c"
  by (simp add: ring_contents_def)

lemma ring_contents_0 [simp]: "ring_contents sz d r 0 = []"
  by (simp add: ring_contents_def)

lemma ring_okD:
  assumes "ring_ok sz d r w c"
  shows "0 < sz" "length d = sz" "r < sz" "c \<le> sz" "w = (r + c) mod sz" "w < sz"
  using assms by (auto simp: ring_ok_def)

lemma mod_offset_le:
  assumes "(r + i) mod sz = (r + j) mod (sz::nat)" "i \<le> j" "j < sz"
  shows "i = j"
proof -
  have "sz dvd (r + j) - (r + i)" using assms by (intro mod_eq_dvd_iff_nat [THEN iffD1]) simp_all
  then show ?thesis using assms(2,3) by (auto dest: dvd_imp_le)
qed

lemma ring_offset_inj:
  assumes "(r + i) mod sz = (r + j) mod (sz::nat)" "i < sz" "j < sz"
  shows "i = j"
  using mod_offset_le [of r i sz j] mod_offset_le [of r j sz i] assms by linarith

lemma ring_push_ok:
  assumes ok: "ring_ok sz d r w c" and "c < sz"
  shows "ring_ok sz (d[w := b]) r ((w + 1) mod sz) (c + 1)"
    and "ring_contents sz (d[w := b]) r (c + 1) = ring_contents sz d r c @ [b]"
proof -
  note k = ring_okD [OF ok]
  show "ring_ok sz (d[w := b]) r ((w + 1) mod sz) (c + 1)"
    using k assms(2) by (simp add: ring_ok_def mod_Suc_eq)
  have "(d[w := b]) ! ((r + i) mod sz) = d ! ((r + i) mod sz)" if "i < c" for i
    using k assms(2) that ring_offset_inj [of r i sz c] by (auto simp: nth_list_update)
  then show "ring_contents sz (d[w := b]) r (c + 1) = ring_contents sz d r c @ [b]"
    using k by (simp add: ring_contents_def)
qed

lemma ring_pop_ok:
  assumes ok: "ring_ok sz d r w c" and "0 < c"
  shows "ring_ok sz d ((r + 1) mod sz) w (c - 1)"
    and "ring_contents sz d r c = d ! r # ring_contents sz d ((r + 1) mod sz) (c - 1)"
proof -
  note k = ring_okD [OF ok]
  have "((r + 1) mod sz + (c - 1)) mod sz = (r + c) mod sz"
    using mod_add_left_eq [of "r + 1" sz "c - 1"] assms(2) by simp
  then show "ring_ok sz d ((r + 1) mod sz) w (c - 1)"
    using k assms(2) by (simp add: ring_ok_def)
  have "[0..<c] = 0 # map Suc [0..<c - 1]"
    using assms(2) by (metis Suc_diff_1 map_Suc_upt upt_conv_Cons)
  then show "ring_contents sz d r c = d ! r # ring_contents sz d ((r + 1) mod sz) (c - 1)"
    using k by (simp add: ring_contents_def mod_simps)
qed

lemma ring_write_loop_ok:
  assumes "ring_ok sz d r w c" "c + length bs \<le> sz" "ring_write_loop sz d w bs = (d', w')"
  shows "ring_ok sz d' r w' (c + length bs) \<and>
         ring_contents sz d' r (c + length bs) = ring_contents sz d r c @ bs"
  using assms
proof (induction bs arbitrary: d w c)
  case (Cons b bs)
  then have c: "c < sz" by simp
  show ?case
    using Cons.IH [OF ring_push_ok(1) [OF Cons.prems(1) c, of b]] Cons.prems
      ring_push_ok(2) [OF Cons.prems(1) c, of b] by simp
qed simp

lemma ring_read_loop_ok:
  assumes "ring_ok sz d r w c" "n \<le> c" "i + n \<le> length buf"
    "ring_read_loop sz d r i n buf = (buf', r')"
  shows "ring_ok sz d r' w (c - n) \<and> ring_contents sz d r' (c - n) = drop n (ring_contents sz d r c)
     \<and> buf' = take i buf @ take n (ring_contents sz d r c) @ drop (i + n) buf"
  using assms
proof (induction n arbitrary: r c i buf)
  case (Suc n)
  then have c: "0 < c" and i: "i < length buf" by simp_all
  have IH: "ring_ok sz d r' w (c - 1 - n) \<and>
     ring_contents sz d r' (c - 1 - n) = drop n (ring_contents sz d ((r + 1) mod sz) (c - 1)) \<and>
     buf' = take (Suc i) (buf[i := d ! r]) @ take n (ring_contents sz d ((r + 1) mod sz) (c - 1))
        @ drop (Suc i + n) (buf[i := d ! r])"
    using Suc.prems by (intro Suc.IH [OF ring_pop_ok(1) [OF Suc.prems(1) c]]) simp_all
  then show ?case
    using ring_pop_ok(2) [OF Suc.prems(1) c] i by (simp add: take_Suc_conv_app_nth)
qed simp

text \<open>The loops with the bounds the callers compute for them.\<close>

lemma ring_write_bounded:
  assumes "ring_ok sz d r w c"
    "ring_write_loop sz d w (take (min (length xs) (sz - c)) xs) = (d', w')"
  shows "ring_ok sz d' r w' (c + min (length xs) (sz - c))"
    and "ring_contents sz d' r (c + min (length xs) (sz - c)) =
      ring_contents sz d r c @ take (min (length xs) (sz - c)) xs"
  using ring_write_loop_ok [OF assms(1) _ assms(2)] ring_okD(4) [OF assms(1)] by (auto simp: min_def)

lemma ring_read_bounded:
  assumes "ring_ok sz d r w c" "ring_read_loop sz d r 0 (min (length buf) c) buf = (buf', r')"
  shows "ring_ok sz d r' w (c - min (length buf) c)"
    and "ring_contents sz d r' (c - min (length buf) c) =
      drop (min (length buf) c) (ring_contents sz d r c)"
    and "buf' = take (min (length buf) c) (ring_contents sz d r c) @ drop (min (length buf) c) buf"
  using ring_read_loop_ok [OF assms(1) _ _ assms(2)] by auto

section \<open>The interface of a bounded byte queue\<close>

locale byte_fifo =
  fixes capacity :: nat
    and inv :: "'s \<Rightarrow> bool"
    and contents :: "'s \<Rightarrow> 'a list"
    and wr :: "'s \<Rightarrow> 'a list \<Rightarrow> 's \<times> nat"
    and rd :: "'s \<Rightarrow> 'a list \<Rightarrow> 's \<times> 'a list \<times> nat"
  assumes bounded: "inv s \<Longrightarrow> length (contents s) \<le> capacity"
    and write_law: "inv s \<Longrightarrow> wr s xs = (s1, n) \<Longrightarrow>
      inv s1 \<and> n = min (length xs) (capacity - length (contents s)) \<and>
      contents s1 = contents s @ take n xs"
    and read_law: "inv s \<Longrightarrow> rd s buf = (s1, buf1, n) \<Longrightarrow>
      inv s1 \<and> n = min (length buf) (length (contents s)) \<and>
      contents s1 = drop n (contents s) \<and> buf1 = take n (contents s) @ drop n buf"
begin

text \<open>One step of a history: what was accepted is what was delivered plus what is queued.\<close>

lemma write_history:
  assumes "inv s" "wr s xs = (s1, n)" "acc = del @ contents s"
  shows "acc @ take n xs = del @ contents s1"
  using write_law [OF assms(1,2)] assms(3) by simp

lemma read_history:
  assumes "inv s" "rd s buf = (s1, buf1, n)" "acc = del @ contents s"
  shows "acc = (del @ take n buf1) @ contents s1"
proof -
  have "take n buf1 = take n (contents s)" using read_law [OF assms(1,2)] by simp
  then show ?thesis using read_law [OF assms(1,2)] assms(3) by simp
qed

lemma stream_order:
  "inv s \<Longrightarrow> acc0 = del0 @ contents s \<Longrightarrow> fifo_run wr rd s ops = (s1, acc, del) \<Longrightarrow>
   inv s1 \<and> acc0 @ acc = (del0 @ del) @ contents s1"
proof (induction ops arbitrary: s acc del acc0 del0)
  case (Cons op ops)
  show ?case
  proof (cases op)
    case (FWrite xs)
    obtain s0 n where w: "wr s xs = (s0, n)" by (cases "wr s xs")
    obtain acc' where r: "fifo_run wr rd s0 ops = (s1, acc', del)" "acc = take n xs @ acc'"
      using Cons.prems FWrite w by (auto split: prod.splits)
    show ?thesis
      using Cons.IH [OF _ write_history [OF Cons.prems(1) w Cons.prems(2)] r(1)]
        write_law [OF Cons.prems(1) w] r(2) by simp
  next
    case (FRead buf)
    obtain s0 buf0 n where w: "rd s buf = (s0, buf0, n)" by (cases "rd s buf")
    obtain del' where r: "fifo_run wr rd s0 ops = (s1, acc, del')" "del = take n buf0 @ del'"
      using Cons.prems FRead w by (auto split: prod.splits)
    show ?thesis
      using Cons.IH [OF _ read_history [OF Cons.prems(1) w Cons.prems(2)] r(1)]
        read_law [OF Cons.prems(1) w] r(2) by simp
  qed
qed simp

lemma write_all_or_full:
  assumes "inv s" "wr s xs = (s1, n)" "n < length xs"
  shows "length (contents s1) = capacity"
  using write_law [OF assms(1,2)] bounded [OF assms(1)] assms(3) by auto

lemma read_after_write:
  assumes "inv s" "contents s = []" "length xs \<le> capacity" "wr s xs = (s1, n)"
    "length buf = length xs" "rd s1 buf = (s2, buf1, m)"
  shows "buf1 = xs \<and> m = length xs \<and> contents s2 = []"
  using write_law [OF assms(1,4)] read_law [of s1 buf s2 buf1 m] assms by simp

end

section \<open>The interface of a bounded queue of messages\<close>

fun push_all :: "('s \<Rightarrow> 'm \<Rightarrow> 's option) \<Rightarrow> 's \<Rightarrow> 'm list \<Rightarrow> 's option" where
  "push_all push s [] = Some s"
| "push_all push s (m # ms) = (case push s m of None \<Rightarrow> None | Some s1 \<Rightarrow> push_all push s1 ms)"

fun pop_n :: "('s \<Rightarrow> ('s \<times> 'm) option) \<Rightarrow> 's \<Rightarrow> nat \<Rightarrow> ('s \<times> 'm list) option" where
  "pop_n pop s 0 = Some (s, [])"
| "pop_n pop s (Suc n) = (case pop s of None \<Rightarrow> None
    | Some (s1, m) \<Rightarrow> map_option (\<lambda>(s2, ms). (s2, m # ms)) (pop_n pop s1 n))"

text \<open>
  A push either stores one message, in the form \<open>stored\<close> in which the queue keeps it, or refuses;
  a pop removes the oldest one.
\<close>

locale message_fifo =
  fixes capacity :: nat
    and inv :: "'s \<Rightarrow> bool"
    and contents :: "'s \<Rightarrow> 'm list"
    and stored :: "'m \<Rightarrow> 'm"
    and push :: "'s \<Rightarrow> 'm \<Rightarrow> 's option"
    and pop :: "'s \<Rightarrow> ('s \<times> 'm) option"
  assumes bounded: "inv s \<Longrightarrow> length (contents s) \<le> capacity"
    and push_refuses: "inv s \<Longrightarrow> push s m = None \<longleftrightarrow> length (contents s) = capacity"
    and push_law: "inv s \<Longrightarrow> push s m = Some s1 \<Longrightarrow> inv s1 \<and> contents s1 = contents s @ [stored m]"
    and pop_refuses: "inv s \<Longrightarrow> pop s = None \<longleftrightarrow> contents s = []"
    and pop_law: "inv s \<Longrightarrow> pop s = Some (s1, m) \<Longrightarrow> inv s1 \<and> contents s = m # contents s1"
begin

lemma push_all_ok:
  "inv s \<Longrightarrow> length (contents s) + length ms \<le> capacity \<Longrightarrow>
   \<exists>s1. push_all push s ms = Some s1 \<and> inv s1 \<and> contents s1 = contents s @ map stored ms"
proof (induction ms arbitrary: s)
  case (Cons m ms)
  then have "push s m \<noteq> None" using push_refuses [of s m] by auto
  then obtain s0 where s0: "push s m = Some s0" by blast
  from Cons.IH [of s0] Cons.prems push_law [OF Cons.prems(1) s0] s0 show ?case by auto
qed simp

lemma pop_n_ok:
  "inv s \<Longrightarrow> n \<le> length (contents s) \<Longrightarrow>
   \<exists>s1. pop_n pop s n = Some (s1, take n (contents s)) \<and> inv s1 \<and> contents s1 = drop n (contents s)"
proof (induction n arbitrary: s)
  case (Suc n)
  then have "pop s \<noteq> None" using pop_refuses [of s] by auto
  then obtain s0 m where s0: "pop s = Some (s0, m)" by auto
  from Suc.IH [of s0] Suc.prems pop_law [OF Suc.prems(1) s0] s0 show ?case by auto
qed simp

text \<open>Messages come out in the order they went in, none lost and none invented.\<close>

lemma messages_in_order:
  assumes "inv s" "contents s = []" "length ms \<le> capacity"
  shows "\<exists>s1 s2. push_all push s ms = Some s1 \<and> pop_n pop s1 (length ms) = Some (s2, map stored ms)"
proof -
  obtain s1 where s1: "push_all push s ms = Some s1" "inv s1" "contents s1 = map stored ms"
    using push_all_ok [OF assms(1), of ms] assms by auto
  then obtain s2 where "pop_n pop s1 (length ms) = Some (s2, map stored ms)"
    using pop_n_ok [of s1 "length ms"] by auto
  with s1(1) show ?thesis by blast
qed

end

end
