(* ===== verification/Pipe.thy ===== *)
theory Pipe
  imports Ring_Buffer
begin

text \<open>
  POSIX pipes: \<open>src/src/ipc/pipe.rs\<close>, lines 1 to 185.  A \<open>PipeBuffer\<close> is a record with the
  fields of the struct; the static table \<open>PIPES\<close> is a list of \<open>MAX_PIPES\<close> of them, passed to and
  returned by every operation (each operation holds the table's lock from its first statement to
  its end, so it is one atomic step).  A read takes the caller's buffer and returns it filled.
\<close>

section \<open>State and operations\<close>

definition PIPE_BUF_SIZE :: nat where "PIPE_BUF_SIZE = 4096"

definition MAX_PIPES :: nat where "MAX_PIPES = 16"

datatype PipeState = Open | ReadClosed | WriteClosed | Closed

record PipeBuffer =
  pb_data :: "u8 list"
  pb_read_pos :: nat
  pb_write_pos :: nat
  pb_count :: nat
  pb_state :: PipeState

definition PipeBuffer_new :: PipeBuffer where
  "PipeBuffer_new = \<lparr> pb_data = replicate PIPE_BUF_SIZE 0, pb_read_pos = 0, pb_write_pos = 0,
     pb_count = 0, pb_state = Closed \<rparr>"

definition pb_is_empty :: "PipeBuffer \<Rightarrow> bool" where
  "pb_is_empty p \<longleftrightarrow> pb_count p = 0"

definition pb_is_full :: "PipeBuffer \<Rightarrow> bool" where
  "pb_is_full p \<longleftrightarrow> PIPE_BUF_SIZE \<le> pb_count p"

definition pb_available_space :: "PipeBuffer \<Rightarrow> nat" where
  "pb_available_space p = PIPE_BUF_SIZE - pb_count p"

definition pb_write :: "PipeBuffer \<Rightarrow> u8 list \<Rightarrow> PipeBuffer \<times> nat" where
  "pb_write p xs =
     (let available = pb_available_space p;
          to_write = min (length xs) available;
          (d, w) = ring_write_loop PIPE_BUF_SIZE (pb_data p) (pb_write_pos p) (take to_write xs)
      in (p\<lparr> pb_data := d, pb_write_pos := w, pb_count := pb_count p + to_write \<rparr>, to_write))"

definition pb_read :: "PipeBuffer \<Rightarrow> u8 list \<Rightarrow> PipeBuffer \<times> u8 list \<times> nat" where
  "pb_read p buffer =
     (let to_read = min (length buffer) (pb_count p);
          (buf, r) = ring_read_loop PIPE_BUF_SIZE (pb_data p) (pb_read_pos p) 0 to_read buffer
      in (p\<lparr> pb_read_pos := r, pb_count := pb_count p - to_read \<rparr>, buf, to_read))"

type_synonym pipes = "PipeBuffer list"

definition PIPES_init :: pipes where
  "PIPES_init = replicate MAX_PIPES PipeBuffer_new"

definition create_pipe :: "pipes \<Rightarrow> pipes \<times> (nat \<times> nat, string) result" where
  "create_pipe ps =
     (case find_slot (\<lambda>p. pb_state p = Closed) ps of
        Some idx \<Rightarrow> (ps[idx := PipeBuffer_new\<lparr> pb_state := Open \<rparr>], Ok (idx, idx))
      | None \<Rightarrow> (ps, Err ''Too many pipes open''))"

definition pipe_read :: "pipes \<Rightarrow> nat \<Rightarrow> u8 list \<Rightarrow> pipes \<times> u8 list \<times> (nat, string) result" where
  "pipe_read ps pipe_id buffer =
     (if MAX_PIPES \<le> pipe_id then (ps, buffer, Err ''Invalid pipe ID'')
      else let p = ps ! pipe_id in
        (case pb_state p of
           Closed \<Rightarrow> (ps, buffer, Err ''Pipe is closed'')
         | ReadClosed \<Rightarrow> (ps, buffer, Err ''Pipe read end closed'')
         | _ \<Rightarrow> (if pb_state p = WriteClosed \<and> pb_is_empty p then (ps, buffer, Ok 0)
                else let (p', buffer', n) = pb_read p buffer in (ps[pipe_id := p'], buffer', Ok n))))"

definition pipe_write :: "pipes \<Rightarrow> nat \<Rightarrow> u8 list \<Rightarrow> pipes \<times> (nat, string) result" where
  "pipe_write ps pipe_id xs =
     (if MAX_PIPES \<le> pipe_id then (ps, Err ''Invalid pipe ID'')
      else let p = ps ! pipe_id in
        (case pb_state p of
           Closed \<Rightarrow> (ps, Err ''Pipe is closed'')
         | ReadClosed \<Rightarrow> (ps, Err ''Pipe read end closed (SIGPIPE)'')
         | WriteClosed \<Rightarrow> (ps, Err ''Pipe write end closed'')
         | Open \<Rightarrow> (if pb_is_full p then (ps, Err ''Pipe buffer full (would block)'')
                   else let (p', n) = pb_write p xs in (ps[pipe_id := p'], Ok n))))"

definition close_pipe_read :: "pipes \<Rightarrow> nat \<Rightarrow> pipes \<times> (unit, string) result" where
  "close_pipe_read ps pipe_id =
     (if MAX_PIPES \<le> pipe_id then (ps, Err ''Invalid pipe ID'')
      else let p = ps ! pipe_id in
        (case pb_state p of
           Open \<Rightarrow> (ps[pipe_id := p\<lparr> pb_state := ReadClosed \<rparr>], Ok ())
         | WriteClosed \<Rightarrow> (ps[pipe_id := p\<lparr> pb_state := Closed \<rparr>], Ok ())
         | _ \<Rightarrow> (ps, Err ''Invalid pipe state'')))"

definition close_pipe_write :: "pipes \<Rightarrow> nat \<Rightarrow> pipes \<times> (unit, string) result" where
  "close_pipe_write ps pipe_id =
     (if MAX_PIPES \<le> pipe_id then (ps, Err ''Invalid pipe ID'')
      else let p = ps ! pipe_id in
        (case pb_state p of
           Open \<Rightarrow> (ps[pipe_id := p\<lparr> pb_state := WriteClosed \<rparr>], Ok ())
         | ReadClosed \<Rightarrow> (ps[pipe_id := p\<lparr> pb_state := Closed \<rparr>], Ok ())
         | _ \<Rightarrow> (ps, Err ''Invalid pipe state'')))"

section \<open>Sequences of system calls\<close>

text \<open>
  The calls a client can make, in any order and on any pipe, together with a history that records
  for every pipe what its writes accepted and its reads delivered since it was last created.
\<close>

datatype pipe_call = CCreate | CRead nat "u8 list" | CWrite nat "u8 list" | CCloseRead nat
  | CCloseWrite nat

type_synonym pipe_hist = "(u8 list \<times> u8 list) list"

fun pipe_exec :: "pipes \<times> pipe_hist \<Rightarrow> pipe_call \<Rightarrow> pipes \<times> pipe_hist" where
  "pipe_exec (ps, h) CCreate =
     (case create_pipe ps of (ps', Ok (i, _)) \<Rightarrow> (ps', h[i := ([], [])]) | (ps', Err _) \<Rightarrow> (ps', h))"
| "pipe_exec (ps, h) (CRead i buffer) =
     (case pipe_read ps i buffer of
        (ps', buffer', Ok n) \<Rightarrow> (ps', modify_nth i (apsnd (\<lambda>d. d @ take n buffer')) h)
      | (ps', _, Err _) \<Rightarrow> (ps', h))"
| "pipe_exec (ps, h) (CWrite i xs) =
     (case pipe_write ps i xs of
        (ps', Ok n) \<Rightarrow> (ps', modify_nth i (apfst (\<lambda>a. a @ take n xs)) h)
      | (ps', Err _) \<Rightarrow> (ps', h))"
| "pipe_exec (ps, h) (CCloseRead i) = (fst (close_pipe_read ps i), h)"
| "pipe_exec (ps, h) (CCloseWrite i) = (fst (close_pipe_write ps i), h)"

definition pipe_run :: "pipe_call list \<Rightarrow> pipes \<times> pipe_hist" where
  "pipe_run calls = foldl pipe_exec (PIPES_init, replicate MAX_PIPES ([], [])) calls"

section \<open>Invariant and abstraction\<close>

definition pb_ok :: "PipeBuffer \<Rightarrow> bool" where
  "pb_ok p \<longleftrightarrow> ring_ok PIPE_BUF_SIZE (pb_data p) (pb_read_pos p) (pb_write_pos p) (pb_count p)"

definition pb_contents :: "PipeBuffer \<Rightarrow> u8 list" where
  "pb_contents p = ring_contents PIPE_BUF_SIZE (pb_data p) (pb_read_pos p) (pb_count p)"

definition pipes_ok :: "pipes \<Rightarrow> bool" where
  "pipes_ok ps \<longleftrightarrow> length ps = MAX_PIPES \<and> list_all pb_ok ps"

lemma pb_contents_length [simp]: "length (pb_contents p) = pb_count p"
  by (simp add: pb_contents_def)

lemma pb_state_irrelevant [simp]:
  "pb_ok (p\<lparr> pb_state := st \<rparr>) = pb_ok p" "pb_contents (p\<lparr> pb_state := st \<rparr>) = pb_contents p"
  by (simp_all add: pb_ok_def pb_contents_def)

lemma PipeBuffer_new_ok [simp]: "pb_ok PipeBuffer_new" "pb_contents PipeBuffer_new = []"
  by (simp_all add: pb_ok_def pb_contents_def PipeBuffer_new_def ring_ok_def PIPE_BUF_SIZE_def)

lemma pb_write_law:
  assumes "pb_ok p" "pb_write p xs = (p1, n)"
  shows "pb_ok p1 \<and> n = min (length xs) (PIPE_BUF_SIZE - length (pb_contents p)) \<and>
    pb_contents p1 = pb_contents p @ take n xs \<and> pb_state p1 = pb_state p"
  using assms ring_write_bounded [of PIPE_BUF_SIZE "pb_data p" "pb_read_pos p" "pb_write_pos p" "pb_count p" xs]
  by (auto simp: pb_write_def pb_available_space_def Let_def pb_ok_def pb_contents_def split: prod.splits)

lemma pb_read_law:
  assumes "pb_ok p" "pb_read p buf = (p1, buf1, n)"
  shows "pb_ok p1 \<and> n = min (length buf) (length (pb_contents p)) \<and>
    pb_contents p1 = drop n (pb_contents p) \<and> buf1 = take n (pb_contents p) @ drop n buf \<and>
    pb_state p1 = pb_state p"
  using assms ring_read_bounded [of PIPE_BUF_SIZE "pb_data p" "pb_read_pos p" "pb_write_pos p" "pb_count p" buf]
  by (auto simp: pb_read_def Let_def pb_ok_def pb_contents_def split: prod.splits)

interpretation pipe_fifo: byte_fifo PIPE_BUF_SIZE pb_ok pb_contents pb_write pb_read
proof
  show "length (pb_contents p) \<le> PIPE_BUF_SIZE" if "pb_ok p" for p
    using that by (simp add: pb_ok_def ring_ok_def)
qed (use pb_write_law pb_read_law in blast)+

section \<open>The table of pipes\<close>

lemma pipes_okD: "pipes_ok ps \<Longrightarrow> i < MAX_PIPES \<Longrightarrow> pb_ok (ps ! i) \<and> i < length ps"
  by (auto simp: pipes_ok_def list_all_length)

lemma pipes_ok_update: "pipes_ok ps \<Longrightarrow> pb_ok p \<Longrightarrow> pipes_ok (ps[i := p])"
  by (auto simp: pipes_ok_def)

lemma apsnd_append_Nil [simp]: "apsnd (\<lambda>d. d) p = p"
  by (cases p) simp

lemma PIPES_init_ok: "pipes_ok PIPES_init"
  by (simp add: pipes_ok_def PIPES_init_def list_all_iff)

text \<open>The table invariant with the history of each pipe.\<close>

definition pipes_inv :: "pipes \<times> pipe_hist \<Rightarrow> bool" where
  "pipes_inv sh = (pipes_ok (fst sh) \<and> length (snd sh) = MAX_PIPES \<and>
     (\<forall>i<MAX_PIPES. fst (snd sh ! i) = snd (snd sh ! i) @ pb_contents (fst sh ! i)))"

lemma pipes_invD:
  assumes "pipes_inv (ps, h)" "i < MAX_PIPES"
  shows "pb_ok (ps ! i)" "length ps = MAX_PIPES" "length h = MAX_PIPES"
    "fst (h ! i) = snd (h ! i) @ pb_contents (ps ! i)"
  using assms by (auto simp: pipes_inv_def pipes_ok_def list_all_length)

lemma pipes_inv_update:
  assumes "pipes_inv (ps, h)" "pb_ok p" "fst ad = snd ad @ pb_contents p"
  shows "pipes_inv (ps[i := p], h[i := ad])"
  using assms by (auto simp: pipes_inv_def pipes_ok_update nth_update_if pipes_ok_def [of ps])

lemma pipes_inv_state:
  assumes "pipes_inv (ps, h)" "i < MAX_PIPES"
  shows "pipes_inv (ps[i := (ps ! i)\<lparr> pb_state := st \<rparr>], h)"
  using pipes_inv_update [OF assms(1), of "(ps ! i)\<lparr> pb_state := st \<rparr>" "h ! i" i]
    pipes_invD [OF assms] by simp

lemma pipes_inv_create: "pipes_inv (ps, h) \<Longrightarrow> pipes_inv (pipe_exec (ps, h) CCreate)"
  by (auto simp: create_pipe_def intro!: pipes_inv_update split: option.splits)

lemma pipes_inv_write:
  assumes "pipes_inv (ps, h)"
  shows "pipes_inv (pipe_exec (ps, h) (CWrite i xs))"
proof (cases "i < MAX_PIPES \<and> pb_state (ps ! i) = Open \<and> \<not> pb_is_full (ps ! i)")
  case True
  then have i: "i < MAX_PIPES" by simp
  obtain p' n where w: "pb_write (ps ! i) xs = (p', n)" by (cases "pb_write (ps ! i) xs")
  note ok = pipes_invD [OF assms i]
  have "pipes_inv (ps[i := p'], h[i := apfst (\<lambda>a. a @ take n xs) (h ! i)])"
    using pb_write_law [OF ok(1) w] pipe_fifo.write_history [OF ok(1) w ok(4)]
    by (intro pipes_inv_update [OF assms]) simp_all
  then show ?thesis using True w ok by (simp add: pipe_write_def modify_nth_def)
qed (use assms in \<open>cases "pb_state (ps ! i)"; auto simp: pipe_write_def Let_def\<close>)

lemma pipes_inv_read:
  assumes "pipes_inv (ps, h)"
  shows "pipes_inv (pipe_exec (ps, h) (CRead i buf))"
proof (cases "i < MAX_PIPES \<and> pb_state (ps ! i) \<in> {Open, WriteClosed}
    \<and> \<not> (pb_state (ps ! i) = WriteClosed \<and> pb_is_empty (ps ! i))")
  case True
  then have i: "i < MAX_PIPES" by simp
  obtain p' buf' n where r: "pb_read (ps ! i) buf = (p', buf', n)" by (cases "pb_read (ps ! i) buf")
  note ok = pipes_invD [OF assms i]
  have "pipes_inv (ps[i := p'], h[i := apsnd (\<lambda>d. d @ take n buf') (h ! i)])"
    using pb_read_law [OF ok(1) r] pipe_fifo.read_history [OF ok(1) r ok(4)]
    by (intro pipes_inv_update [OF assms]) simp_all
  then show ?thesis using True r ok by (auto simp: pipe_read_def modify_nth_def)
next
  case False
  then show ?thesis using assms
    by (cases "pb_state (ps ! i)") (auto simp: pipe_read_def modify_nth_def Let_def)
qed

lemma pipes_inv_close:
  "pipes_inv (ps, h) \<Longrightarrow> pipes_inv (pipe_exec (ps, h) (CCloseRead i))"
  "pipes_inv (ps, h) \<Longrightarrow> pipes_inv (pipe_exec (ps, h) (CCloseWrite i))"
  by (auto simp: close_pipe_read_def close_pipe_write_def Let_def intro: pipes_inv_state
      split: PipeState.splits)

lemmas pipes_inv_steps = pipes_inv_create pipes_inv_write pipes_inv_read pipes_inv_close

lemma pipes_inv_exec: "pipes_inv sh \<Longrightarrow> pipes_inv (pipe_exec sh c)"
  by (cases sh; cases c) (simp_all only: pipes_inv_steps)

lemma pipes_inv_foldl: "pipes_inv sh \<Longrightarrow> pipes_inv (foldl pipe_exec sh calls)"
  by (induction calls arbitrary: sh) (simp_all add: pipes_inv_exec)

lemma pipes_inv_init: "pipes_inv (PIPES_init, replicate MAX_PIPES ([], []))"
  using PIPES_init_ok by (simp add: pipes_inv_def PIPES_init_def)

section \<open>Properties\<close>

text \<open>
  C12: Pipes are byte streams.  For every sequence of create, read, write and close calls, on any
  pipes and in any order, the table stays well-formed and for each pipe the bytes accepted by its
  writes since its creation are exactly the bytes delivered by its reads followed by the bytes
  still queued: nothing is lost, duplicated, reordered or leaked from another pipe.
\<close>

theorem pipe_stream:
  assumes "i < MAX_PIPES"
  shows "case pipe_run calls of (ps, h) \<Rightarrow>
    pipes_ok ps \<and> fst (h ! i) = snd (h ! i) @ pb_contents (ps ! i)"
  using pipes_inv_foldl [OF pipes_inv_init, of calls] assms
  by (auto simp: pipe_run_def pipes_inv_def split: prod.splits)

theorem pipe_stream_witness:
  "0 < MAX_PIPES \<and> (case pipe_run [CCreate, CWrite 0 [1, 2, 3], CRead 0 [0, 0], CCloseWrite 0] of
     (ps, h) \<Rightarrow> pipes_ok ps \<and> fst (h ! 0) = snd (h ! 0) @ pb_contents (ps ! 0))"
  using pipe_stream [of 0 "[CCreate, CWrite 0 [1, 2, 3], CRead 0 [0, 0], CCloseWrite 0]"]
  by (simp add: MAX_PIPES_def)

text \<open>
  Closing the write end loses no data.  On a pipe whose write end is closed, a read with a
  buffer as long as the queue returns everything that was queued, and every later read reports
  end of file (zero bytes, buffer and table unchanged), while writes are refused.
\<close>

theorem pipe_drain_then_eof:
  assumes "pipes_ok ps" "i < MAX_PIPES" "pb_state (ps ! i) = WriteClosed"
    and "length buf = length (pb_contents (ps ! i))"
  shows "\<exists>ps'. pipe_read ps i buf = (ps', pb_contents (ps ! i), Ok (length buf)) \<and>
    pipe_read ps' i buf2 = (ps', buf2, Ok 0) \<and>
    pipe_write ps' i xs = (ps', Err ''Pipe write end closed'')"
proof -
  note ok = pipes_okD [OF assms(1,2)]
  obtain p' buf' n where r: "pb_read (ps ! i) buf = (p', buf', n)" by (cases "pb_read (ps ! i) buf")
  have l: "pb_count p' = 0" "pb_state p' = WriteClosed" "buf' = pb_contents (ps ! i)" "n = length buf"
    using pb_read_law [OF _ r] ok assms by (auto simp flip: pb_contents_length [of p'])
  show ?thesis
  proof (cases "pb_is_empty (ps ! i)")
    case True
    then show ?thesis using assms ok
      by (auto simp: pipe_read_def pipe_write_def Let_def pb_is_empty_def simp flip: pb_contents_length)
  next
    case False
    then show ?thesis using assms ok r l
      by (simp add: pipe_read_def pipe_write_def Let_def pb_is_empty_def)
  qed
qed

theorem pipe_drain_then_eof_witness:
  "\<exists>ps'. pipe_read (PIPES_init[3 := PipeBuffer_new\<lparr> pb_state := WriteClosed \<rparr>]) 3 [] = (ps', [], Ok 0) \<and>
    pipe_read ps' 3 [7] = (ps', [7], Ok 0) \<and>
    pipe_write ps' 3 [1] = (ps', Err ''Pipe write end closed'')"
  using pipe_drain_then_eof [of "PIPES_init[3 := PipeBuffer_new\<lparr> pb_state := WriteClosed \<rparr>]" 3 "[]" "[7]" "[1]"]
    pipes_ok_update [OF PIPES_init_ok, of "PipeBuffer_new\<lparr> pb_state := WriteClosed \<rparr>" 3]
  by (simp add: PIPES_init_def MAX_PIPES_def nth_update_if)

end
