(* ===== verification/Socketpair.thy ===== *)
theory Socketpair
  imports Pipe
begin

text \<open>
  Socketpairs (AF\_UNIX): \<open>src/src/ipc/pipe.rs\<close>, lines 196 to 452.  A \<open>SocketpairBuffer\<close> holds
  one ring per direction; both directions interpret \<open>byte_fifo\<close>, and the histories of the two
  directions are shown never to mix.
\<close>

section \<open>State and operations\<close>

definition MAX_SOCKETPAIRS :: nat where "MAX_SOCKETPAIRS = 8"

datatype SocketpairState = SPOpen | FirstClosed | SecondClosed | SPClosed

record SocketpairBuffer =
  buf_0_to_1 :: "u8 list"
  read_pos_0_to_1 :: nat
  write_pos_0_to_1 :: nat
  count_0_to_1 :: nat
  buf_1_to_0 :: "u8 list"
  read_pos_1_to_0 :: nat
  write_pos_1_to_0 :: nat
  count_1_to_0 :: nat
  sp_state :: SocketpairState

definition SocketpairBuffer_new :: SocketpairBuffer where
  "SocketpairBuffer_new = \<lparr> buf_0_to_1 = replicate PIPE_BUF_SIZE 0, read_pos_0_to_1 = 0,
     write_pos_0_to_1 = 0, count_0_to_1 = 0, buf_1_to_0 = replicate PIPE_BUF_SIZE 0,
     read_pos_1_to_0 = 0, write_pos_1_to_0 = 0, count_1_to_0 = 0, sp_state = SPClosed \<rparr>"

definition write_from_0 :: "SocketpairBuffer \<Rightarrow> u8 list \<Rightarrow> SocketpairBuffer \<times> nat" where
  "write_from_0 s xs =
     (let available = PIPE_BUF_SIZE - count_0_to_1 s;
          to_write = min (length xs) available;
          (d, w) = ring_write_loop PIPE_BUF_SIZE (buf_0_to_1 s) (write_pos_0_to_1 s) (take to_write xs)
      in (s\<lparr> buf_0_to_1 := d, write_pos_0_to_1 := w, count_0_to_1 := count_0_to_1 s + to_write \<rparr>,
          to_write))"

definition write_from_1 :: "SocketpairBuffer \<Rightarrow> u8 list \<Rightarrow> SocketpairBuffer \<times> nat" where
  "write_from_1 s xs =
     (let available = PIPE_BUF_SIZE - count_1_to_0 s;
          to_write = min (length xs) available;
          (d, w) = ring_write_loop PIPE_BUF_SIZE (buf_1_to_0 s) (write_pos_1_to_0 s) (take to_write xs)
      in (s\<lparr> buf_1_to_0 := d, write_pos_1_to_0 := w, count_1_to_0 := count_1_to_0 s + to_write \<rparr>,
          to_write))"

definition read_to_0 :: "SocketpairBuffer \<Rightarrow> u8 list \<Rightarrow> SocketpairBuffer \<times> u8 list \<times> nat" where
  "read_to_0 s buffer =
     (let to_read = min (length buffer) (count_1_to_0 s);
          (buf, r) = ring_read_loop PIPE_BUF_SIZE (buf_1_to_0 s) (read_pos_1_to_0 s) 0 to_read buffer
      in (s\<lparr> read_pos_1_to_0 := r, count_1_to_0 := count_1_to_0 s - to_read \<rparr>, buf, to_read))"

definition read_to_1 :: "SocketpairBuffer \<Rightarrow> u8 list \<Rightarrow> SocketpairBuffer \<times> u8 list \<times> nat" where
  "read_to_1 s buffer =
     (let to_read = min (length buffer) (count_0_to_1 s);
          (buf, r) = ring_read_loop PIPE_BUF_SIZE (buf_0_to_1 s) (read_pos_0_to_1 s) 0 to_read buffer
      in (s\<lparr> read_pos_0_to_1 := r, count_0_to_1 := count_0_to_1 s - to_read \<rparr>, buf, to_read))"

definition is_read_empty_for_0 :: "SocketpairBuffer \<Rightarrow> bool" where
  "is_read_empty_for_0 s \<longleftrightarrow> count_1_to_0 s = 0"

definition is_read_empty_for_1 :: "SocketpairBuffer \<Rightarrow> bool" where
  "is_read_empty_for_1 s \<longleftrightarrow> count_0_to_1 s = 0"

definition is_write_full_for_0 :: "SocketpairBuffer \<Rightarrow> bool" where
  "is_write_full_for_0 s \<longleftrightarrow> PIPE_BUF_SIZE \<le> count_0_to_1 s"

definition is_write_full_for_1 :: "SocketpairBuffer \<Rightarrow> bool" where
  "is_write_full_for_1 s \<longleftrightarrow> PIPE_BUF_SIZE \<le> count_1_to_0 s"

type_synonym socketpairs = "SocketpairBuffer list"

definition SOCKETPAIRS_init :: socketpairs where
  "SOCKETPAIRS_init = replicate MAX_SOCKETPAIRS SocketpairBuffer_new"

definition create_socketpair :: "socketpairs \<Rightarrow> socketpairs \<times> (nat, string) result" where
  "create_socketpair sps =
     (case find_slot (\<lambda>s. sp_state s = SPClosed) sps of
        Some idx \<Rightarrow> (sps[idx := SocketpairBuffer_new\<lparr> sp_state := SPOpen \<rparr>], Ok idx)
      | None \<Rightarrow> (sps, Err ''Too many socketpairs open''))"

definition socketpair_read :: "socketpairs \<Rightarrow> nat \<Rightarrow> nat \<Rightarrow> u8 list \<Rightarrow>
    socketpairs \<times> u8 list \<times> (nat, string) result" where
  "socketpair_read sps pair_id ep buffer =
     (if MAX_SOCKETPAIRS \<le> pair_id then (sps, buffer, Err ''Invalid socketpair ID'')
      else let pair = sps ! pair_id in
        if sp_state pair = SPClosed then (sps, buffer, Err ''Socketpair is closed'')
        else if sp_state pair = FirstClosed \<and> ep = 0 then (sps, buffer, Err ''This socket end is closed'')
        else if sp_state pair = SecondClosed \<and> ep = 1 then (sps, buffer, Err ''This socket end is closed'')
        else let (pair', buffer', bytes) = (if ep = 0 then read_to_0 pair buffer else read_to_1 pair buffer)
          in (sps[pair_id := pair'], buffer', Ok bytes))"

definition socketpair_write :: "socketpairs \<Rightarrow> nat \<Rightarrow> nat \<Rightarrow> u8 list \<Rightarrow>
    socketpairs \<times> (nat, string) result" where
  "socketpair_write sps pair_id ep xs =
     (if MAX_SOCKETPAIRS \<le> pair_id then (sps, Err ''Invalid socketpair ID'')
      else let pair = sps ! pair_id in
        if sp_state pair = SPClosed then (sps, Err ''Socketpair is closed'')
        else if sp_state pair = FirstClosed \<and> ep = 0 then (sps, Err ''This socket end is closed'')
        else if sp_state pair = SecondClosed \<and> ep = 1 then (sps, Err ''This socket end is closed'')
        else if sp_state pair = FirstClosed \<and> ep = 1 then (sps, Err ''Peer socket closed (SIGPIPE)'')
        else if sp_state pair = SecondClosed \<and> ep = 0 then (sps, Err ''Peer socket closed (SIGPIPE)'')
        else let is_full = (if ep = 0 then is_write_full_for_0 pair else is_write_full_for_1 pair) in
          if is_full then (sps, Err ''Socketpair buffer full (would block)'')
          else let (pair', bytes) = (if ep = 0 then write_from_0 pair xs else write_from_1 pair xs)
            in (sps[pair_id := pair'], Ok bytes))"

definition close_socketpair_end :: "socketpairs \<Rightarrow> nat \<Rightarrow> nat \<Rightarrow> socketpairs \<times> (unit, string) result" where
  "close_socketpair_end sps pair_id ep =
     (if MAX_SOCKETPAIRS \<le> pair_id then (sps, Err ''Invalid socketpair ID'')
      else let pair = sps ! pair_id in
        if sp_state pair = SPOpen \<and> ep = 0 then (sps[pair_id := pair\<lparr> sp_state := FirstClosed \<rparr>], Ok ())
        else if sp_state pair = SPOpen \<and> ep = 1 then (sps[pair_id := pair\<lparr> sp_state := SecondClosed \<rparr>], Ok ())
        else if sp_state pair = FirstClosed \<and> ep = 1 \<or> sp_state pair = SecondClosed \<and> ep = 0
          then (sps[pair_id := pair\<lparr> sp_state := SPClosed \<rparr>], Ok ())
        else (sps, Err ''Invalid socketpair state or already closed''))"

definition socketpair_has_data :: "socketpairs \<Rightarrow> nat \<Rightarrow> nat \<Rightarrow> (bool, string) result" where
  "socketpair_has_data sps pair_id ep =
     (if MAX_SOCKETPAIRS \<le> pair_id then Err ''Invalid socketpair ID''
      else let pair = sps ! pair_id in
        if sp_state pair = SPClosed then Err ''Socketpair is closed''
        else Ok (if ep = 0 then \<not> is_read_empty_for_0 pair else \<not> is_read_empty_for_1 pair))"

section \<open>Sequences of system calls\<close>

datatype sp_call = SPCreate | SPRead nat nat "u8 list" | SPWrite nat nat "u8 list" | SPClose nat nat

text \<open>Accepted and delivered bytes of each direction, since the pair was last created.\<close>

record sp_log =
  acc01 :: "u8 list"
  del01 :: "u8 list"
  acc10 :: "u8 list"
  del10 :: "u8 list"

definition sp_log_empty :: sp_log where
  "sp_log_empty = \<lparr> acc01 = [], del01 = [], acc10 = [], del10 = [] \<rparr>"

fun sp_exec :: "socketpairs \<times> sp_log list \<Rightarrow> sp_call \<Rightarrow> socketpairs \<times> sp_log list" where
  "sp_exec (sps, h) SPCreate =
     (case create_socketpair sps of
        (sps', Ok i) \<Rightarrow> (sps', h[i := sp_log_empty]) | (sps', Err _) \<Rightarrow> (sps', h))"
| "sp_exec (sps, h) (SPRead i ep buffer) =
     (case socketpair_read sps i ep buffer of
        (sps', buffer', Ok n) \<Rightarrow> (sps', modify_nth i (\<lambda>l.
            if ep = 0 then l\<lparr> del10 := del10 l @ take n buffer' \<rparr>
            else l\<lparr> del01 := del01 l @ take n buffer' \<rparr>) h)
      | (sps', _, Err _) \<Rightarrow> (sps', h))"
| "sp_exec (sps, h) (SPWrite i ep xs) =
     (case socketpair_write sps i ep xs of
        (sps', Ok n) \<Rightarrow> (sps', modify_nth i (\<lambda>l.
            if ep = 0 then l\<lparr> acc01 := acc01 l @ take n xs \<rparr>
            else l\<lparr> acc10 := acc10 l @ take n xs \<rparr>) h)
      | (sps', Err _) \<Rightarrow> (sps', h))"
| "sp_exec (sps, h) (SPClose i ep) = (fst (close_socketpair_end sps i ep), h)"

definition sp_run :: "sp_call list \<Rightarrow> socketpairs \<times> sp_log list" where
  "sp_run calls = foldl sp_exec (SOCKETPAIRS_init, replicate MAX_SOCKETPAIRS sp_log_empty) calls"

section \<open>Invariant and abstraction\<close>

definition sp_ok :: "SocketpairBuffer \<Rightarrow> bool" where
  "sp_ok s \<longleftrightarrow>
     ring_ok PIPE_BUF_SIZE (buf_0_to_1 s) (read_pos_0_to_1 s) (write_pos_0_to_1 s) (count_0_to_1 s) \<and>
     ring_ok PIPE_BUF_SIZE (buf_1_to_0 s) (read_pos_1_to_0 s) (write_pos_1_to_0 s) (count_1_to_0 s)"

definition contents01 :: "SocketpairBuffer \<Rightarrow> u8 list" where
  "contents01 s = ring_contents PIPE_BUF_SIZE (buf_0_to_1 s) (read_pos_0_to_1 s) (count_0_to_1 s)"

definition contents10 :: "SocketpairBuffer \<Rightarrow> u8 list" where
  "contents10 s = ring_contents PIPE_BUF_SIZE (buf_1_to_0 s) (read_pos_1_to_0 s) (count_1_to_0 s)"

lemma sp_contents_length [simp]:
  "length (contents01 s) = count_0_to_1 s" "length (contents10 s) = count_1_to_0 s"
  by (simp_all add: contents01_def contents10_def)

lemma sp_state_irrelevant [simp]:
  "sp_ok (s\<lparr> sp_state := st \<rparr>) = sp_ok s" "contents01 (s\<lparr> sp_state := st \<rparr>) = contents01 s"
  "contents10 (s\<lparr> sp_state := st \<rparr>) = contents10 s"
  by (simp_all add: sp_ok_def contents01_def contents10_def)

lemma SocketpairBuffer_new_ok [simp]:
  "sp_ok SocketpairBuffer_new" "contents01 SocketpairBuffer_new = []" "contents10 SocketpairBuffer_new = []"
  by (simp_all add: sp_ok_def contents01_def contents10_def SocketpairBuffer_new_def ring_ok_def
      PIPE_BUF_SIZE_def)

lemma write_from_0_law:
  assumes "sp_ok s" "write_from_0 s xs = (s1, n)"
  shows "sp_ok s1 \<and> n = min (length xs) (PIPE_BUF_SIZE - length (contents01 s)) \<and>
    contents01 s1 = contents01 s @ take n xs \<and> contents10 s1 = contents10 s"
  using assms ring_write_bounded [of PIPE_BUF_SIZE "buf_0_to_1 s" "read_pos_0_to_1 s" "write_pos_0_to_1 s"
      "count_0_to_1 s" xs]
  by (auto simp: write_from_0_def Let_def sp_ok_def contents01_def contents10_def split: prod.splits)

lemma write_from_1_law:
  assumes "sp_ok s" "write_from_1 s xs = (s1, n)"
  shows "sp_ok s1 \<and> n = min (length xs) (PIPE_BUF_SIZE - length (contents10 s)) \<and>
    contents10 s1 = contents10 s @ take n xs \<and> contents01 s1 = contents01 s"
  using assms ring_write_bounded [of PIPE_BUF_SIZE "buf_1_to_0 s" "read_pos_1_to_0 s" "write_pos_1_to_0 s"
      "count_1_to_0 s" xs]
  by (auto simp: write_from_1_def Let_def sp_ok_def contents01_def contents10_def split: prod.splits)

lemma read_to_0_law:
  assumes "sp_ok s" "read_to_0 s buf = (s1, buf1, n)"
  shows "sp_ok s1 \<and> n = min (length buf) (length (contents10 s)) \<and>
    contents10 s1 = drop n (contents10 s) \<and> buf1 = take n (contents10 s) @ drop n buf \<and>
    contents01 s1 = contents01 s"
  using assms ring_read_bounded [of PIPE_BUF_SIZE "buf_1_to_0 s" "read_pos_1_to_0 s" "write_pos_1_to_0 s"
      "count_1_to_0 s" buf]
  by (auto simp: read_to_0_def Let_def sp_ok_def contents01_def contents10_def split: prod.splits)

lemma read_to_1_law:
  assumes "sp_ok s" "read_to_1 s buf = (s1, buf1, n)"
  shows "sp_ok s1 \<and> n = min (length buf) (length (contents01 s)) \<and>
    contents01 s1 = drop n (contents01 s) \<and> buf1 = take n (contents01 s) @ drop n buf \<and>
    contents10 s1 = contents10 s"
  using assms ring_read_bounded [of PIPE_BUF_SIZE "buf_0_to_1 s" "read_pos_0_to_1 s" "write_pos_0_to_1 s"
      "count_0_to_1 s" buf]
  by (auto simp: read_to_1_def Let_def sp_ok_def contents01_def contents10_def split: prod.splits)

lemma sp_bounded: "sp_ok s \<Longrightarrow> length (contents01 s) \<le> PIPE_BUF_SIZE \<and> length (contents10 s) \<le> PIPE_BUF_SIZE"
  by (simp add: sp_ok_def ring_ok_def)

interpretation sp01: byte_fifo PIPE_BUF_SIZE sp_ok contents01 write_from_0 read_to_1
proof (unfold_locales, goal_cases)
  case 1
  from sp_bounded [OF this] show ?case by blast
next
  case 2
  from write_from_0_law [OF this] show ?case by blast
next
  case 3
  from read_to_1_law [OF this] show ?case by blast
qed

interpretation sp10: byte_fifo PIPE_BUF_SIZE sp_ok contents10 write_from_1 read_to_0
proof (unfold_locales, goal_cases)
  case 1
  from sp_bounded [OF this] show ?case by blast
next
  case 2
  from write_from_1_law [OF this] show ?case by blast
next
  case 3
  from read_to_0_law [OF this] show ?case by blast
qed

section \<open>The table of socketpairs\<close>

definition sp_log_ok :: "sp_log \<Rightarrow> SocketpairBuffer \<Rightarrow> bool" where
  "sp_log_ok l s \<longleftrightarrow> acc01 l = del01 l @ contents01 s \<and> acc10 l = del10 l @ contents10 s"

definition sps_inv :: "socketpairs \<times> sp_log list \<Rightarrow> bool" where
  "sps_inv sh \<longleftrightarrow> length (fst sh) = MAX_SOCKETPAIRS \<and> length (snd sh) = MAX_SOCKETPAIRS \<and>
     (\<forall>i<MAX_SOCKETPAIRS. sp_ok (fst sh ! i) \<and> sp_log_ok (snd sh ! i) (fst sh ! i))"

lemma sps_invD:
  assumes "sps_inv (sps, h)" "i < MAX_SOCKETPAIRS"
  shows "sp_ok (sps ! i)" "sp_log_ok (h ! i) (sps ! i)" "length sps = MAX_SOCKETPAIRS"
    "length h = MAX_SOCKETPAIRS"
  using assms by (auto simp: sps_inv_def)

lemma sps_inv_update:
  assumes "sps_inv (sps, h)" "sp_ok s" "sp_log_ok l s"
  shows "sps_inv (sps[i := s], h[i := l])"
  using assms by (auto simp: sps_inv_def nth_update_if)

lemma sps_inv_state:
  assumes "sps_inv (sps, h)" "i < MAX_SOCKETPAIRS"
  shows "sps_inv (sps[i := (sps ! i)\<lparr> sp_state := st \<rparr>], h)"
  using sps_inv_update [OF assms(1), of "(sps ! i)\<lparr> sp_state := st \<rparr>" "h ! i" i] sps_invD [OF assms]
  by (simp add: sp_log_ok_def)

lemma sps_inv_create: "sps_inv (sps, h) \<Longrightarrow> sps_inv (sp_exec (sps, h) SPCreate)"
  by (auto simp: create_socketpair_def sp_log_ok_def sp_log_empty_def intro!: sps_inv_update
      split: option.splits)

lemma sp_log_write:
  assumes "sp_ok s" "sp_log_ok l s"
  shows "write_from_0 s xs = (s1, n) \<Longrightarrow> sp_log_ok (l\<lparr> acc01 := acc01 l @ take n xs \<rparr>) s1"
    and "write_from_1 s xs = (s1, n) \<Longrightarrow> sp_log_ok (l\<lparr> acc10 := acc10 l @ take n xs \<rparr>) s1"
proof -
  assume w: "write_from_0 s xs = (s1, n)"
  show "sp_log_ok (l\<lparr> acc01 := acc01 l @ take n xs \<rparr>) s1"
    using sp01.write_history [OF assms(1) w, of "acc01 l" "del01 l"] write_from_0_law [OF assms(1) w] assms(2)
    by (simp add: sp_log_ok_def)
next
  assume w: "write_from_1 s xs = (s1, n)"
  show "sp_log_ok (l\<lparr> acc10 := acc10 l @ take n xs \<rparr>) s1"
    using sp10.write_history [OF assms(1) w, of "acc10 l" "del10 l"] write_from_1_law [OF assms(1) w] assms(2)
    by (simp add: sp_log_ok_def)
qed

lemma sp_log_read:
  assumes "sp_ok s" "sp_log_ok l s"
  shows "read_to_1 s buf = (s1, buf1, n) \<Longrightarrow> sp_log_ok (l\<lparr> del01 := del01 l @ take n buf1 \<rparr>) s1"
    and "read_to_0 s buf = (s1, buf1, n) \<Longrightarrow> sp_log_ok (l\<lparr> del10 := del10 l @ take n buf1 \<rparr>) s1"
proof -
  assume r: "read_to_1 s buf = (s1, buf1, n)"
  show "sp_log_ok (l\<lparr> del01 := del01 l @ take n buf1 \<rparr>) s1"
    using sp01.read_history [OF assms(1) r, of "acc01 l" "del01 l"] read_to_1_law [OF assms(1) r] assms(2)
    by (simp add: sp_log_ok_def)
next
  assume r: "read_to_0 s buf = (s1, buf1, n)"
  show "sp_log_ok (l\<lparr> del10 := del10 l @ take n buf1 \<rparr>) s1"
    using sp10.read_history [OF assms(1) r, of "acc10 l" "del10 l"] read_to_0_law [OF assms(1) r] assms(2)
    by (simp add: sp_log_ok_def)
qed

text \<open>A call either is refused and changes nothing, or moves bytes of one direction of one pair.\<close>

lemma socketpair_write_outcome:
  "(\<exists>e. socketpair_write sps i ep xs = (sps, Err e)) \<or>
   (i < MAX_SOCKETPAIRS \<and>
    (\<exists>s' n. (if ep = 0 then write_from_0 (sps ! i) xs else write_from_1 (sps ! i) xs) = (s', n) \<and>
      socketpair_write sps i ep xs = (sps[i := s'], Ok n)))"
  unfolding socketpair_write_def Let_def by (simp split: prod.split)

lemma socketpair_read_outcome:
  "(\<exists>e. socketpair_read sps i ep buf = (sps, buf, Err e)) \<or>
   (i < MAX_SOCKETPAIRS \<and>
    (\<exists>s' b n. (if ep = 0 then read_to_0 (sps ! i) buf else read_to_1 (sps ! i) buf) = (s', b, n) \<and>
      socketpair_read sps i ep buf = (sps[i := s'], b, Ok n)))"
  unfolding socketpair_read_def Let_def by (simp split: prod.split)

lemma sps_inv_write:
  assumes "sps_inv (sps, h)"
  shows "sps_inv (sp_exec (sps, h) (SPWrite i ep xs))"
  using socketpair_write_outcome [of sps i ep xs]
proof (elim disjE conjE exE)
  fix s' n
  assume i: "i < MAX_SOCKETPAIRS" and r: "socketpair_write sps i ep xs = (sps[i := s'], Ok n)"
    and w: "(if ep = 0 then write_from_0 (sps ! i) xs else write_from_1 (sps ! i) xs) = (s', n)"
  note ok = sps_invD [OF assms i]
  have "sp_ok s'" using w write_from_0_law [OF ok(1)] write_from_1_law [OF ok(1)] by (simp split: if_split_asm)
  then show ?thesis using r w i ok sp_log_write [OF ok(1,2)]
    by (cases "ep = 0") (simp_all add: modify_nth_def sps_inv_update [OF assms])
qed (use assms in simp)

lemma sps_inv_read:
  assumes "sps_inv (sps, h)"
  shows "sps_inv (sp_exec (sps, h) (SPRead i ep buf))"
  using socketpair_read_outcome [of sps i ep buf]
proof (elim disjE conjE exE)
  fix s' b n
  assume i: "i < MAX_SOCKETPAIRS" and r: "socketpair_read sps i ep buf = (sps[i := s'], b, Ok n)"
    and w: "(if ep = 0 then read_to_0 (sps ! i) buf else read_to_1 (sps ! i) buf) = (s', b, n)"
  note ok = sps_invD [OF assms i]
  have "sp_ok s'" using w read_to_0_law [OF ok(1)] read_to_1_law [OF ok(1)] by (simp split: if_split_asm)
  then show ?thesis using r w i ok sp_log_read [OF ok(1,2)]
    by (cases "ep = 0") (simp_all add: modify_nth_def sps_inv_update [OF assms])
qed (use assms in simp)

lemma sps_inv_close: "sps_inv (sps, h) \<Longrightarrow> sps_inv (sp_exec (sps, h) (SPClose i ep))"
  by (auto simp: close_socketpair_end_def Let_def intro: sps_inv_state)

lemma sps_inv_exec: "sps_inv sh \<Longrightarrow> sps_inv (sp_exec sh c)"
  by (cases sh; cases c) (simp_all only: sps_inv_create sps_inv_write sps_inv_read sps_inv_close)

lemma sps_inv_foldl: "sps_inv sh \<Longrightarrow> sps_inv (foldl sp_exec sh calls)"
  by (induction calls arbitrary: sh) (simp_all add: sps_inv_exec)

lemma sps_inv_init: "sps_inv (SOCKETPAIRS_init, replicate MAX_SOCKETPAIRS sp_log_empty)"
  by (simp add: sps_inv_def SOCKETPAIRS_init_def sp_log_ok_def sp_log_empty_def)

section \<open>Properties\<close>

text \<open>
  C37: A socketpair is two independent byte streams.  After any sequence of create, read, write and
  close calls, on every pair the bytes accepted at end 0 are those delivered at end 1 followed by
  those still queued towards end 1, and symmetrically for the other direction: no byte is lost or
  reordered, and none comes back to the end that wrote it.
\<close>

theorem socketpair_streams:
  assumes "i < MAX_SOCKETPAIRS"
  shows "case sp_run calls of (sps, h) \<Rightarrow>
    sp_ok (sps ! i) \<and> acc01 (h ! i) = del01 (h ! i) @ contents01 (sps ! i) \<and>
    acc10 (h ! i) = del10 (h ! i) @ contents10 (sps ! i)"
  using sps_inv_foldl [OF sps_inv_init, of calls] assms
  by (auto simp: sp_run_def sps_inv_def sp_log_ok_def split: prod.splits)

theorem socketpair_streams_witness:
  "0 < MAX_SOCKETPAIRS \<and>
   (case sp_run [SPCreate, SPWrite 0 0 [1, 2], SPWrite 0 1 [9], SPRead 0 1 [0], SPRead 0 0 [0, 0]] of
     (sps, h) \<Rightarrow> sp_ok (sps ! 0) \<and> acc01 (h ! 0) = del01 (h ! 0) @ contents01 (sps ! 0) \<and>
       acc10 (h ! 0) = del10 (h ! 0) @ contents10 (sps ! 0))"
  using socketpair_streams [of 0
      "[SPCreate, SPWrite 0 0 [1, 2], SPWrite 0 1 [9], SPRead 0 1 [0], SPRead 0 0 [0, 0]]"]
  by (simp add: MAX_SOCKETPAIRS_def)

end
