(* ===== verification/Ipc_Channel.thy ===== *)
theory Ipc_Channel
  imports Ring_Buffer
begin

text \<open>
  Message channels: \<open>src/src/ipc/core.rs\<close>.  \<open>IpcState\<close> holds the two statics \<open>CHANNELS\<close> and
  \<open>NEXT_CHANNEL_ID\<close>; every operation holds the lock of the table throughout.  A channel interprets
  \<open>message_fifo\<close>, and the identifiers handed out are shown to be distinct and to keep naming
  the channel they were handed out for.
\<close>

section \<open>State and operations\<close>

definition MAX_CHANNELS :: nat where "MAX_CHANNELS = 32"

definition MAX_MESSAGES :: nat where "MAX_MESSAGES = 32"

definition MAX_MESSAGE_SIZE :: nat where "MAX_MESSAGE_SIZE = 256"

record Message =
  msg_len :: nat
  msg_data :: "u8 list"

definition Message_empty :: Message where
  "Message_empty = \<lparr> msg_len = 0, msg_data = replicate MAX_MESSAGE_SIZE 0 \<rparr>"

record Channel =
  ch_id :: u32
  ch_head :: nat
  ch_tail :: nat
  ch_count :: nat
  ch_messages :: "Message list"

datatype IpcError = NoSuchChannel | TableFull | WouldBlock | Empty | InvalidInput

definition Channel_new :: "u32 \<Rightarrow> Channel" where
  "Channel_new i = \<lparr> ch_id = i, ch_head = 0, ch_tail = 0, ch_count = 0,
     ch_messages = replicate MAX_MESSAGES Message_empty \<rparr>"

text \<open>\<open>dst[..n].copy_from_slice(&src[..n])\<close>.\<close>

definition copy_prefix :: "nat \<Rightarrow> 'a list \<Rightarrow> 'a list \<Rightarrow> 'a list" where
  "copy_prefix n src dst = take n src @ drop n dst"

definition Channel_push :: "Channel \<Rightarrow> u8 list \<Rightarrow> Channel \<times> (unit, IpcError) result" where
  "Channel_push c xs =
     (if ch_count c = MAX_MESSAGES then (c, Err WouldBlock)
      else let len = min (length xs) MAX_MESSAGE_SIZE;
               msg = Message_empty\<lparr> msg_data := copy_prefix len xs (msg_data Message_empty), msg_len := len \<rparr>
        in (c\<lparr> ch_messages := (ch_messages c)[ch_tail c := msg], ch_tail := (ch_tail c + 1) mod MAX_MESSAGES,
               ch_count := ch_count c + 1 \<rparr>, Ok ()))"

definition Channel_pop :: "Channel \<Rightarrow> u8 list \<Rightarrow> Channel \<times> u8 list \<times> (nat, IpcError) result" where
  "Channel_pop c dest =
     (if ch_count c = 0 then (c, dest, Err Empty)
      else let msg = ch_messages c ! ch_head c;
               len = min (msg_len msg) (length dest)
        in (c\<lparr> ch_head := (ch_head c + 1) mod MAX_MESSAGES, ch_count := ch_count c - 1 \<rparr>,
            copy_prefix len (msg_data msg) dest, Ok len))"

record IpcState =
  CHANNELS :: "Channel option list"
  NEXT_CHANNEL_ID :: u32

definition ipc_init :: IpcState where
  "ipc_init = \<lparr> CHANNELS = replicate MAX_CHANNELS None, NEXT_CHANNEL_ID = 1 \<rparr>"

definition create_channel :: "IpcState \<Rightarrow> IpcState \<times> (u32, IpcError) result" where
  "create_channel s =
     (case find_slot (\<lambda>slot. slot = None) (CHANNELS s) of
        Some i \<Rightarrow> let cid = NEXT_CHANNEL_ID s in
          (s\<lparr> CHANNELS := (CHANNELS s)[i := Some (Channel_new cid)], NEXT_CHANNEL_ID := cid + 1 \<rparr>, Ok cid)
      | None \<Rightarrow> (s, Err TableFull))"

text \<open>The \<open>find_map\<close> over the slots shared by \<open>send\<close>, \<open>receive\<close> and \<open>clear\<close>.\<close>

definition channel_slot :: "u32 \<Rightarrow> Channel option list \<Rightarrow> nat option" where
  "channel_slot cid cs = find_slot (\<lambda>slot. case slot of Some c \<Rightarrow> ch_id c = cid | None \<Rightarrow> False) cs"

definition ipc_send :: "IpcState \<Rightarrow> u32 \<Rightarrow> u8 list \<Rightarrow> IpcState \<times> (unit, IpcError) result" where
  "ipc_send s cid xs =
     (if xs = [] then (s, Err InvalidInput)
      else case channel_slot cid (CHANNELS s) of
        None \<Rightarrow> (s, Err NoSuchChannel)
      | Some i \<Rightarrow> (case Channel_push (the (CHANNELS s ! i)) xs of (c', r) \<Rightarrow>
          (s\<lparr> CHANNELS := (CHANNELS s)[i := Some c'] \<rparr>, r)))"

definition ipc_receive :: "IpcState \<Rightarrow> u32 \<Rightarrow> u8 list \<Rightarrow> IpcState \<times> u8 list \<times> (nat, IpcError) result" where
  "ipc_receive s cid dest =
     (if dest = [] then (s, dest, Err InvalidInput)
      else case channel_slot cid (CHANNELS s) of
        None \<Rightarrow> (s, dest, Err NoSuchChannel)
      | Some i \<Rightarrow> (case Channel_pop (the (CHANNELS s ! i)) dest of (c', dest', r) \<Rightarrow>
          (s\<lparr> CHANNELS := (CHANNELS s)[i := Some c'] \<rparr>, dest', r)))"

definition ipc_clear :: "IpcState \<Rightarrow> u32 \<Rightarrow> IpcState" where
  "ipc_clear s cid =
     (case channel_slot cid (CHANNELS s) of
        None \<Rightarrow> s
      | Some i \<Rightarrow> s\<lparr> CHANNELS := (CHANNELS s)[i := Some (Channel_new cid)] \<rparr>)"

section \<open>Sequences of calls\<close>

text \<open>
  A history per channel, at the position its identifier gives: the messages its sends accepted
  (as stored) and, for each receive, the size of the destination and the bytes delivered.
\<close>

datatype ipc_call = ICreate | ISend u32 "u8 list" | IReceive u32 "u8 list" | IClear u32

type_synonym ipc_log = "u8 list list \<times> (nat \<times> u8 list) list"

definition ipc_pos :: "u32 \<Rightarrow> nat" where
  "ipc_pos cid = unat cid - 1"

fun ipc_exec :: "IpcState \<times> ipc_log list \<Rightarrow> ipc_call \<Rightarrow> IpcState \<times> ipc_log list" where
  "ipc_exec (s, h) ICreate =
     (case create_channel s of (s', Ok cid) \<Rightarrow> (s', h[ipc_pos cid := ([], [])]) | (s', Err _) \<Rightarrow> (s', h))"
| "ipc_exec (s, h) (ISend cid xs) =
     (case ipc_send s cid xs of
        (s', Ok _) \<Rightarrow> (s', modify_nth (ipc_pos cid) (apfst (\<lambda>a. a @ [take MAX_MESSAGE_SIZE xs])) h)
      | (s', Err _) \<Rightarrow> (s', h))"
| "ipc_exec (s, h) (IReceive cid dest) =
     (case ipc_receive s cid dest of
        (s', dest', Ok n) \<Rightarrow>
          (s', modify_nth (ipc_pos cid) (apsnd (\<lambda>d. d @ [(length dest, take n dest')])) h)
      | (s', _, Err _) \<Rightarrow> (s', h))"
| "ipc_exec (s, h) (IClear cid) =
     (ipc_clear s cid,
      if channel_slot cid (CHANNELS s) = None then h else h[ipc_pos cid := ([], [])])"

definition ipc_run :: "ipc_call list \<Rightarrow> IpcState \<times> ipc_log list" where
  "ipc_run calls = foldl ipc_exec (ipc_init, replicate MAX_CHANNELS ([], [])) calls"

section \<open>Invariant and abstraction\<close>

definition msg_bytes :: "Message \<Rightarrow> u8 list" where
  "msg_bytes m = take (msg_len m) (msg_data m)"

definition msg_ok :: "Message \<Rightarrow> bool" where
  "msg_ok m \<longleftrightarrow> length (msg_data m) = MAX_MESSAGE_SIZE \<and> msg_len m \<le> MAX_MESSAGE_SIZE"

definition ch_ok :: "Channel \<Rightarrow> bool" where
  "ch_ok c \<longleftrightarrow> ring_ok MAX_MESSAGES (ch_messages c) (ch_head c) (ch_tail c) (ch_count c) \<and>
     list_all msg_ok (ch_messages c)"

definition ch_contents :: "Channel \<Rightarrow> u8 list list" where
  "ch_contents c = map msg_bytes (ring_contents MAX_MESSAGES (ch_messages c) (ch_head c) (ch_count c))"

lemma ch_contents_length [simp]: "length (ch_contents c) = ch_count c"
  by (simp add: ch_contents_def)

lemma Message_empty_ok [simp]: "msg_ok Message_empty"
  by (simp add: msg_ok_def Message_empty_def)

lemma Channel_new_ok [simp]:
  "ch_ok (Channel_new i)" "ch_contents (Channel_new i) = []" "ch_id (Channel_new i) = i"
  by (simp_all add: ch_ok_def ch_contents_def Channel_new_def ring_ok_def MAX_MESSAGES_def list_all_iff)

lemma Channel_push_full: "ch_count c = MAX_MESSAGES \<Longrightarrow> Channel_push c xs = (c, Err WouldBlock)"
  by (simp add: Channel_push_def)

lemma Channel_push_law:
  assumes "ch_ok c" "ch_count c < MAX_MESSAGES"
  shows "\<exists>c1. Channel_push c xs = (c1, Ok ()) \<and> ch_ok c1 \<and> ch_id c1 = ch_id c \<and>
     ch_contents c1 = ch_contents c @ [take MAX_MESSAGE_SIZE xs]"
proof -
  let ?n = "min (length xs) MAX_MESSAGE_SIZE"
  let ?m = "Message_empty\<lparr> msg_data := copy_prefix ?n xs (msg_data Message_empty), msg_len := ?n \<rparr>"
  have r: "ring_ok MAX_MESSAGES (ch_messages c) (ch_head c) (ch_tail c) (ch_count c)"
    using assms(1) by (simp add: ch_ok_def)
  have m: "msg_ok ?m" "msg_bytes ?m = take MAX_MESSAGE_SIZE xs"
    by (auto simp: msg_ok_def msg_bytes_def copy_prefix_def Message_empty_def min_def)
  show ?thesis
    using assms m ring_push_ok [OF r assms(2), of ?m]
    by (simp add: Channel_push_def Let_def ch_ok_def ch_contents_def list_all_update)
qed

lemma Channel_pop_empty: "ch_count c = 0 \<Longrightarrow> Channel_pop c dest = (c, dest, Err Empty)"
  by (simp add: Channel_pop_def)

lemma Channel_pop_law:
  assumes "ch_ok c" "0 < ch_count c"
  shows "\<exists>c1 m. Channel_pop c dest = (c1, take (length dest) m @ drop (length m) dest, Ok (min (length m) (length dest)))
     \<and> ch_ok c1 \<and> ch_id c1 = ch_id c \<and> ch_contents c = m # ch_contents c1 \<and> length m \<le> MAX_MESSAGE_SIZE"
proof -
  have r: "ring_ok MAX_MESSAGES (ch_messages c) (ch_head c) (ch_tail c) (ch_count c)"
    using assms(1) by (simp add: ch_ok_def)
  define m where "m = ch_messages c ! ch_head c"
  have m: "msg_ok m" using assms(1) ring_okD [OF r] by (simp add: ch_ok_def list_all_length m_def)
  have b: "length (msg_bytes m) = msg_len m" "msg_len m \<le> MAX_MESSAGE_SIZE"
    using m by (simp_all add: msg_ok_def msg_bytes_def)
  have "copy_prefix (min (msg_len m) (length dest)) (msg_data m) dest =
      take (length dest) (msg_bytes m) @ drop (length (msg_bytes m)) dest"
    using b by (auto simp: copy_prefix_def msg_bytes_def min_def)
  then show ?thesis
    using assms b ring_pop_ok [OF r assms(2)]
    by (intro exI [of _ "fst (Channel_pop c dest)"] exI [of _ "msg_bytes m"])
      (simp add: Channel_pop_def Let_def ch_ok_def ch_contents_def m_def)
qed

text \<open>A channel as a queue of whole messages: pops into a buffer of the maximal message size.\<close>

definition channel_push_msg :: "Channel \<Rightarrow> u8 list \<Rightarrow> Channel option" where
  "channel_push_msg c xs = (case Channel_push c xs of (c', Ok _) \<Rightarrow> Some c' | (_, Err _) \<Rightarrow> None)"

definition channel_pop_msg :: "Channel \<Rightarrow> (Channel \<times> u8 list) option" where
  "channel_pop_msg c = (case Channel_pop c (replicate MAX_MESSAGE_SIZE 0) of
     (c', dest, Ok n) \<Rightarrow> Some (c', take n dest) | (_, _, Err _) \<Rightarrow> None)"

interpretation channel_fifo:
  message_fifo MAX_MESSAGES ch_ok ch_contents "take MAX_MESSAGE_SIZE" channel_push_msg channel_pop_msg
proof (unfold_locales, goal_cases)
  case (1 s)
  then show ?case by (simp add: ch_ok_def ring_ok_def)
next
  case (2 s m)
  then have "ch_count s \<le> MAX_MESSAGES" by (simp add: ch_ok_def ring_ok_def)
  with 2 Channel_push_law [OF 2, of m] show ?case
    by (cases "ch_count s = MAX_MESSAGES") (auto simp: channel_push_msg_def Channel_push_full)
next
  case (3 s m s1)
  then have "ch_count s < MAX_MESSAGES"
    by (auto simp: channel_push_msg_def Channel_push_full ch_ok_def ring_ok_def le_less)
  with 3 Channel_push_law [OF 3(1), of m] show ?case by (auto simp: channel_push_msg_def)
next
  case (4 s)
  with Channel_pop_law [OF 4, of "replicate MAX_MESSAGE_SIZE 0"] show ?case
    by (cases "ch_count s = 0") (auto simp: channel_pop_msg_def Channel_pop_empty simp flip: ch_contents_length)
next
  case (5 s s1 m)
  then have "0 < ch_count s" by (cases "ch_count s = 0") (auto simp: channel_pop_msg_def Channel_pop_empty)
  with 5 Channel_pop_law [OF 5(1), of "replicate MAX_MESSAGE_SIZE 0"] show ?case
    by (auto simp: channel_pop_msg_def)
qed

section \<open>The table of channels\<close>

definition ipc_log_ok :: "ipc_log \<Rightarrow> u8 list list \<Rightarrow> bool" where
  "ipc_log_ok l msgs \<longleftrightarrow>
     (\<exists>taken. fst l = taken @ msgs \<and> list_all2 (\<lambda>(n, b) m. b = take n m) (snd l) taken)"

definition ipc_slot_ok :: "nat \<Rightarrow> nat \<Rightarrow> Channel option \<Rightarrow> ipc_log \<Rightarrow> bool" where
  "ipc_slot_ok k i slot l \<longleftrightarrow>
     (case slot of
        None \<Rightarrow> k \<le> i
      | Some c \<Rightarrow> i < k \<and> ch_id c = of_nat (i + 1) \<and> ch_ok c \<and> ipc_log_ok l (ch_contents c))"

definition ipc_inv :: "nat \<Rightarrow> IpcState \<times> ipc_log list \<Rightarrow> bool" where
  "ipc_inv k sh \<longleftrightarrow> k \<le> MAX_CHANNELS \<and> NEXT_CHANNEL_ID (fst sh) = of_nat (k + 1) \<and>
     length (CHANNELS (fst sh)) = MAX_CHANNELS \<and> length (snd sh) = MAX_CHANNELS \<and>
     (\<forall>i<MAX_CHANNELS. ipc_slot_ok k i (CHANNELS (fst sh) ! i) (snd sh ! i))"

lemma unat_channel_id: "i < MAX_CHANNELS \<Longrightarrow> unat (of_nat (i + 1) :: u32) = i + 1"
  by (rule unat_of_nat_small) (simp add: MAX_CHANNELS_def)

lemma ipc_log_ok_Nil [simp]: "ipc_log_ok ([], []) []"
  by (simp add: ipc_log_ok_def)

lemma ipc_log_ok_send: "ipc_log_ok l ms \<Longrightarrow> ipc_log_ok (apfst (\<lambda>a. a @ [m]) l) (ms @ [m])"
  by (auto simp: ipc_log_ok_def)

lemma ipc_log_ok_receive:
  assumes "ipc_log_ok l (m # ms)"
  shows "ipc_log_ok (apsnd (\<lambda>d. d @ [(n, take n m)]) l) ms"
proof -
  obtain t where t: "fst l = t @ m # ms" "list_all2 (\<lambda>(n, b) m. b = take n m) (snd l) t"
    using assms by (auto simp: ipc_log_ok_def)
  then show ?thesis unfolding ipc_log_ok_def
    by (intro exI [of _ "t @ [m]"]) (auto simp: list_all2_append list_all2_lengthD)
qed

text \<open>An identifier finds exactly the slot it was created for.\<close>

lemma channel_slot_inv:
  assumes "ipc_inv k (s, h)" "channel_slot cid (CHANNELS s) = Some i"
  obtains c where "i < MAX_CHANNELS" "CHANNELS s ! i = Some c" "ch_id c = cid" "ipc_pos cid = i"
    "ch_ok c" "ipc_log_ok (h ! i) (ch_contents c)" "i < k" "cid = of_nat (i + 1)"
proof -
  from assms(2) have "i < length (CHANNELS s)" "case CHANNELS s ! i of Some c \<Rightarrow> ch_id c = cid | None \<Rightarrow> False"
    by (auto simp: channel_slot_def find_slot_Some_iff)
  then obtain c where c: "i < MAX_CHANNELS" "CHANNELS s ! i = Some c" "ch_id c = cid"
    using assms(1) by (auto simp: ipc_inv_def split: option.splits)
  then have "ipc_slot_ok k i (Some c) (h ! i)" using assms(1) by (auto simp: ipc_inv_def)
  then show ?thesis using c unat_channel_id [OF c(1)] by (intro that) (auto simp: ipc_slot_ok_def ipc_pos_def)
qed

lemma ipc_inv_update:
  assumes "ipc_inv k (s, h)" "i < k" "ch_ok c" "ch_id c = of_nat (i + 1)" "ipc_log_ok l (ch_contents c)"
  shows "ipc_inv k (s\<lparr> CHANNELS := (CHANNELS s)[i := Some c] \<rparr>, h[i := l])"
  using assms by (auto simp: ipc_inv_def nth_update_if ipc_slot_ok_def)

lemma ipc_update_same:
  assumes "CHANNELS s ! i = Some c"
  shows "s\<lparr> CHANNELS := (CHANNELS s)[i := Some c] \<rparr> = s"
proof -
  have "(CHANNELS s)[i := Some c] = CHANNELS s" using assms by (metis list_update_id)
  then show ?thesis by simp
qed

lemma ipc_inv_create:
  assumes "ipc_inv k (s, h)"
  shows "\<exists>k'. ipc_inv k' (ipc_exec (s, h) ICreate)"
proof (cases "find_slot (\<lambda>slot. slot = None) (CHANNELS s)")
  case None
  then show ?thesis using assms by (auto simp: create_channel_def)
next
  case (Some i)
  then have i: "i < MAX_CHANNELS" "CHANNELS s ! i = None" "\<forall>j<i. CHANNELS s ! j \<noteq> None"
    using assms by (auto simp: find_slot_Some_iff ipc_inv_def)
  have "k \<le> i" using assms i(1,2) by (auto simp: ipc_inv_def ipc_slot_ok_def split: option.splits)
  moreover have "i \<le> k"
  proof (rule ccontr)
    assume "\<not> i \<le> k"
    then have "ipc_slot_ok k k (CHANNELS s ! k) (h ! k)" "CHANNELS s ! k \<noteq> None"
      using assms i by (auto simp: ipc_inv_def)
    then show False by (auto simp: ipc_slot_ok_def)
  qed
  ultimately have k: "k = i" by simp
  have id: "ipc_pos (of_nat (i + 1)) = i" using unat_channel_id [OF i(1)] by (simp add: ipc_pos_def)
  have "ipc_inv (Suc i) (s\<lparr> CHANNELS := (CHANNELS s)[i := Some (Channel_new (of_nat (i + 1)))],
      NEXT_CHANNEL_ID := of_nat (i + 1) + 1 \<rparr>, h[i := ([], [])])"
    using assms i(1) k
    by (auto simp: ipc_inv_def nth_update_if ipc_slot_ok_def algebra_simps split: option.splits)
  then show ?thesis using Some assms k id by (auto simp: create_channel_def Let_def ipc_inv_def)
qed

lemma ipc_inv_send:
  assumes "ipc_inv k (s, h)"
  shows "ipc_inv k (ipc_exec (s, h) (ISend cid xs))"
proof (cases "xs = [] \<or> channel_slot cid (CHANNELS s) = None")
  case True
  then show ?thesis using assms by (auto simp: ipc_send_def)
next
  case False
  then obtain i where i: "channel_slot cid (CHANNELS s) = Some i" by auto
  obtain c where c: "i < MAX_CHANNELS" "CHANNELS s ! i = Some c" "ch_id c = cid" "ipc_pos cid = i"
      "ch_ok c" "ipc_log_ok (h ! i) (ch_contents c)" "i < k" "cid = of_nat (i + 1)" by (rule channel_slot_inv [OF assms i])
  show ?thesis
  proof (cases "ch_count c = MAX_MESSAGES")
    case True
    then have "ipc_exec (s, h) (ISend cid xs) = (s, h)"
      using False i c by (simp add: ipc_send_def Channel_push_full ipc_update_same)
    then show ?thesis using assms by simp
  next
    case nf: False
    then obtain c1 where "Channel_push c xs = (c1, Ok ())" "ch_ok c1" "ch_id c1 = ch_id c"
        "ch_contents c1 = ch_contents c @ [take MAX_MESSAGE_SIZE xs]"
      using Channel_push_law [OF c(5), of xs] c(5) by (auto simp: ch_ok_def ring_ok_def le_less)
    then show ?thesis
      using False i c assms ipc_log_ok_send [OF c(6)] ipc_inv_update [OF assms c(7), of c1]
      by (simp add: ipc_send_def modify_nth_def ipc_inv_def [of k "(s, h)"])
  qed
qed

lemma ipc_inv_receive:
  assumes "ipc_inv k (s, h)"
  shows "ipc_inv k (ipc_exec (s, h) (IReceive cid dest))"
proof (cases "dest = [] \<or> channel_slot cid (CHANNELS s) = None")
  case True
  then show ?thesis using assms by (auto simp: ipc_receive_def)
next
  case False
  then obtain i where i: "channel_slot cid (CHANNELS s) = Some i" by auto
  obtain c where c: "i < MAX_CHANNELS" "CHANNELS s ! i = Some c" "ch_id c = cid" "ipc_pos cid = i"
      "ch_ok c" "ipc_log_ok (h ! i) (ch_contents c)" "i < k" "cid = of_nat (i + 1)"
    by (rule channel_slot_inv [OF assms i])
  show ?thesis
  proof (cases "ch_count c = 0")
    case True
    then have "ipc_exec (s, h) (IReceive cid dest) = (s, h)"
      using False i c by (simp add: ipc_receive_def Channel_pop_empty ipc_update_same)
    then show ?thesis using assms by simp
  next
    case ne: False
    then obtain c1 m where p: "Channel_pop c dest = (c1, take (length dest) m @ drop (length m) dest,
          Ok (min (length m) (length dest)))" "ch_ok c1" "ch_id c1 = ch_id c" "ch_contents c = m # ch_contents c1"
      using Channel_pop_law [OF c(5), of dest] by auto
    have "take (min (length m) (length dest)) (take (length dest) m @ drop (length m) dest) = take (length dest) m"
      by (simp add: min_def)
    then show ?thesis
      using False i c p assms ipc_log_ok_receive [of "h ! i" m "ch_contents c1" "length dest"]
        ipc_inv_update [OF assms c(7), of c1]
      by (simp add: ipc_receive_def modify_nth_def ipc_inv_def [of k "(s, h)"])
  qed
qed

lemma ipc_inv_clear:
  assumes "ipc_inv k (s, h)"
  shows "ipc_inv k (ipc_exec (s, h) (IClear cid))"
proof (cases "channel_slot cid (CHANNELS s)")
  case (Some i)
  show ?thesis
    by (rule channel_slot_inv [OF assms Some]) (use Some in \<open>simp add: ipc_clear_def ipc_inv_update [OF assms]\<close>)
qed (use assms in \<open>simp add: ipc_clear_def\<close>)

lemma ipc_inv_exec: "ipc_inv k sh \<Longrightarrow> \<exists>k'. ipc_inv k' (ipc_exec sh c)"
  using ipc_inv_create ipc_inv_send ipc_inv_receive ipc_inv_clear by (cases sh; cases c) blast+

lemma ipc_inv_foldl: "ipc_inv k sh \<Longrightarrow> \<exists>k'. ipc_inv k' (foldl ipc_exec sh calls)"
proof (induction calls arbitrary: k sh)
  case (Cons c calls)
  obtain k1 where "ipc_inv k1 (ipc_exec sh c)" using ipc_inv_exec [OF Cons.prems] by blast
  from Cons.IH [OF this] show ?case by simp
qed auto

lemma ipc_inv_init: "ipc_inv 0 (ipc_init, replicate MAX_CHANNELS ([], []))"
  by (simp add: ipc_inv_def ipc_init_def ipc_slot_ok_def)

section \<open>Properties\<close>

text \<open>
  C36: Channels deliver messages whole and in order.  After any sequence of create, send, receive
  and clear calls, the channel in slot \<open>i\<close> has identifier \<open>i + 1\<close>, so identifiers are distinct and
  never change, and the messages it accepted since it was created or cleared are those taken by
  receives followed by those still queued, where each receive returned its message cut to the size
  of the destination buffer.
\<close>

theorem ipc_messages_in_order:
  assumes "ipc_run calls = (s, h)" "i < MAX_CHANNELS" "CHANNELS s ! i = Some c"
  shows "ch_id c = of_nat (i + 1) \<and> (\<exists>taken. fst (h ! i) = taken @ ch_contents c \<and>
    list_all2 (\<lambda>(n, bytes) m. bytes = take n m) (snd (h ! i)) taken)"
proof -
  obtain k where "ipc_inv k (s, h)"
    using ipc_inv_foldl [OF ipc_inv_init, of calls] assms(1) by (auto simp: ipc_run_def)
  then have "ipc_slot_ok k i (Some c) (h ! i)" using assms by (auto simp: ipc_inv_def)
  then show ?thesis by (simp add: ipc_slot_ok_def ipc_log_ok_def)
qed

theorem ipc_messages_in_order_witness:
  "\<exists>s h c. ipc_run [ICreate] = (s, h) \<and> CHANNELS s ! 0 = Some c \<and> ch_id c = 1 \<and>
    (\<exists>taken. fst (h ! 0) = taken @ ch_contents c \<and>
    list_all2 (\<lambda>(n, bytes) m. bytes = take n m) (snd (h ! 0)) taken)"
proof -
  obtain s h where r: "ipc_run [ICreate] = (s, h)" by fastforce
  have "find_slot (\<lambda>slot. slot = None) (replicate MAX_CHANNELS (None :: Channel option)) = Some 0"
    by (simp add: MAX_CHANNELS_def find_slot_Some_iff)
  then have c: "CHANNELS s ! 0 = Some (Channel_new 1)"
    using r by (simp add: ipc_run_def ipc_init_def create_channel_def Let_def MAX_CHANNELS_def) auto
  show ?thesis using ipc_messages_in_order [OF r _ c] r c by (auto simp: MAX_CHANNELS_def)
qed

text \<open>
  Round trip of a fresh channel.  Up to \<open>MAX_MESSAGES\<close> messages pushed into a new channel are
  all accepted, and popping as many returns exactly them, in order, each cut to
  \<open>MAX_MESSAGE_SIZE\<close> bytes.
\<close>

theorem channel_roundtrip:
  assumes "length ms \<le> MAX_MESSAGES"
  shows "\<exists>c1 c2. push_all channel_push_msg (Channel_new cid) ms = Some c1 \<and>
    pop_n channel_pop_msg c1 (length ms) = Some (c2, map (take MAX_MESSAGE_SIZE) ms)"
  using channel_fifo.messages_in_order [of "Channel_new cid" ms] assms by simp

theorem channel_roundtrip_witness:
  "length [[1, 2], [3 :: u8]] \<le> MAX_MESSAGES \<and>
   (\<exists>c1 c2. push_all channel_push_msg (Channel_new 7) [[1, 2], [3]] = Some c1 \<and>
    pop_n channel_pop_msg c1 (length [[1, 2], [3 :: u8]]) = Some (c2, [[1, 2], [3]]))"
  using channel_roundtrip [of "[[1, 2], [3]]" 7] by (simp add: MAX_MESSAGES_def MAX_MESSAGE_SIZE_def)

end
