(* ===== verification/Pty.thy ===== *)
theory Pty
  imports Ring_Buffer
begin

text \<open>
  Pseudo-terminals: \<open>src/src/tty/pty.rs\<close>.  The table \<open>PTYS\<close> is a list of \<open>MAX_PTYS\<close> records.
  Calls to \<open>scheduler::wake_process\<close> are the second component of the result of an operation: the
  process identifiers woken, in order.  \<open>RingBuf\<close> interprets \<open>byte_fifo\<close>; its two \<open>while\<close> loops
  are recursive functions with their own termination proofs.
\<close>

section \<open>State\<close>

definition MAX_PTYS :: nat where "MAX_PTYS = 32"

definition BUF_SIZE :: nat where "BUF_SIZE = 4096"

definition NCCS :: nat where "NCCS = 32"

record Termios =
  c_iflag :: u32
  c_oflag :: u32
  c_cflag :: u32
  c_lflag :: u32
  c_line :: u8
  c_cc :: "u8 list"
  c_ispeed :: u32
  c_ospeed :: u32

definition Termios_default_raw :: Termios where
  "Termios_default_raw = \<lparr> c_iflag = 0, c_oflag = 1, c_cflag = 48, c_lflag = 0, c_line = 0,
     c_cc = replicate NCCS 0, c_ispeed = 38400, c_ospeed = 38400 \<rparr>"

record WinSize =
  ws_row :: u16
  ws_col :: u16
  ws_xpixel :: u16
  ws_ypixel :: u16

definition WinSize_default_80x25 :: WinSize where
  "WinSize_default_80x25 = \<lparr> ws_row = 25, ws_col = 80, ws_xpixel = 0, ws_ypixel = 0 \<rparr>"

record RingBuf =
  rb_data :: "u8 list"
  rb_r :: nat
  rb_w :: nat
  rb_count :: nat

definition RingBuf_new :: RingBuf where
  "RingBuf_new = \<lparr> rb_data = replicate BUF_SIZE 0, rb_r = 0, rb_w = 0, rb_count = 0 \<rparr>"

definition rb_is_empty :: "RingBuf \<Rightarrow> bool" where
  "rb_is_empty b \<longleftrightarrow> rb_count b = 0"

definition rb_is_full :: "RingBuf \<Rightarrow> bool" where
  "rb_is_full b \<longleftrightarrow> BUF_SIZE \<le> rb_count b"

definition rb_available_data :: "RingBuf \<Rightarrow> nat" where
  "rb_available_data b = rb_count b"

text \<open>\<open>while written < src.len() && !self.is_full()\<close>, on the bytes still to write.\<close>

fun rb_write_loop :: "RingBuf \<Rightarrow> u8 list \<Rightarrow> nat \<Rightarrow> RingBuf \<times> nat" where
  "rb_write_loop b [] written = (b, written)"
| "rb_write_loop b (x # xs) written =
     (if rb_is_full b then (b, written)
      else rb_write_loop (b\<lparr> rb_data := (rb_data b)[rb_w b := x], rb_w := (rb_w b + 1) mod BUF_SIZE,
             rb_count := rb_count b + 1 \<rparr>) xs (written + 1))"

definition rb_write :: "RingBuf \<Rightarrow> u8 list \<Rightarrow> RingBuf \<times> nat" where
  "rb_write b src = rb_write_loop b src 0"

text \<open>\<open>while read < dst.len() && !self.is_empty()\<close>.\<close>

function rb_read_loop :: "RingBuf \<Rightarrow> u8 list \<Rightarrow> nat \<Rightarrow> RingBuf \<times> u8 list \<times> nat" where
  "rb_read_loop b dst rd =
     (if rd < length dst \<and> \<not> rb_is_empty b
      then rb_read_loop (b\<lparr> rb_r := (rb_r b + 1) mod BUF_SIZE, rb_count := rb_count b - 1 \<rparr>)
             (dst[rd := rb_data b ! rb_r b]) (rd + 1)
      else (b, dst, rd))"
  by pat_completeness auto

termination
  by (relation "measure (\<lambda>(b, dst, rd). length dst - rd)") auto

definition rb_read :: "RingBuf \<Rightarrow> u8 list \<Rightarrow> RingBuf \<times> u8 list \<times> nat" where
  "rb_read b dst = rb_read_loop b dst 0"

datatype PtyDirection = MasterReads | SlaveReads

datatype PtyIoResult = Bytes nat | IoWouldBlock | Eof

record Pty =
  allocated :: bool
  locked :: bool
  master_open :: bool
  slave_open :: bool
  m2s :: RingBuf
  s2m :: RingBuf
  master_waiter :: "Pid option"
  slave_waiter :: "Pid option"
  termios :: Termios
  winsize :: WinSize

definition Pty_new :: Pty where
  "Pty_new = \<lparr> allocated = False, locked = True, master_open = False, slave_open = False,
     m2s = RingBuf_new, s2m = RingBuf_new, master_waiter = None, slave_waiter = None,
     termios = Termios_default_raw, winsize = WinSize_default_80x25 \<rparr>"

definition Pty_reset :: "Pty \<Rightarrow> Pty" where
  "Pty_reset p = Pty_new\<lparr> allocated := True, master_open := True, locked := True \<rparr>"

definition free_if_unused :: "Pty \<Rightarrow> Pty" where
  "free_if_unused p = (if allocated p \<and> \<not> master_open p \<and> \<not> slave_open p then Pty_new else p)"

type_synonym ptys = "Pty list"

definition PTYS_init :: ptys where
  "PTYS_init = replicate MAX_PTYS Pty_new"

section \<open>Operations\<close>

definition pty_is_allocated :: "ptys \<Rightarrow> nat \<Rightarrow> bool" where
  "pty_is_allocated ps i \<longleftrightarrow> i < MAX_PTYS \<and> allocated (ps ! i)"

text \<open>The identifiers passed to the callback, in order.\<close>

definition list_allocated_ids :: "ptys \<Rightarrow> nat list" where
  "list_allocated_ids ps = filter (\<lambda>i. allocated (ps ! i)) [0..<length ps]"

definition allocate_ptmx :: "ptys \<Rightarrow> ptys \<times> nat option" where
  "allocate_ptmx ps =
     (case find_slot (\<lambda>p. \<not> allocated p) ps of
        Some i \<Rightarrow> (ps[i := Pty_reset (ps ! i)], Some i)
      | None \<Rightarrow> (ps, None))"

definition open_slave :: "ptys \<Rightarrow> nat \<Rightarrow> ptys \<times> (unit, unit) result" where
  "open_slave ps i =
     (if MAX_PTYS \<le> i then (ps, Err ())
      else let p = ps ! i in
        if \<not> allocated p \<or> \<not> master_open p then (ps, Err ())
        else if locked p then (ps, Err ())
        else (ps[i := p\<lparr> slave_open := True \<rparr>], Ok ()))"

text \<open>\<open>if let Some(pid) = waiter.take() { wake_process(pid) }\<close>: the identifiers woken.\<close>

definition waked :: "Pid option \<Rightarrow> Pid list" where
  "waked w = (case w of Some pid \<Rightarrow> [pid] | None \<Rightarrow> [])"

definition close_master :: "ptys \<Rightarrow> nat \<Rightarrow> ptys \<times> Pid list" where
  "close_master ps i =
     (if MAX_PTYS \<le> i then (ps, [])
      else let p = ps ! i in
        if \<not> allocated p then (ps, [])
        else (ps[i := free_if_unused (p\<lparr> master_open := False, slave_waiter := None, master_waiter := None \<rparr>)],
              waked (slave_waiter p) @ waked (master_waiter p)))"

definition close_slave :: "ptys \<Rightarrow> nat \<Rightarrow> ptys \<times> Pid list" where
  "close_slave ps i =
     (if MAX_PTYS \<le> i then (ps, [])
      else let p = ps ! i in
        if \<not> allocated p then (ps, [])
        else (ps[i := free_if_unused (p\<lparr> slave_open := False, master_waiter := None, slave_waiter := None \<rparr>)],
              waked (master_waiter p) @ waked (slave_waiter p)))"

definition pty_try_read :: "ptys \<Rightarrow> nat \<Rightarrow> PtyDirection \<Rightarrow> u8 list \<Rightarrow> Pid option \<Rightarrow>
    ptys \<times> u8 list \<times> PtyIoResult" where
  "pty_try_read ps i dir dst waiter =
     (if MAX_PTYS \<le> i then (ps, dst, Eof)
      else let p = ps ! i in
        if \<not> allocated p then (ps, dst, Eof)
        else (case dir of
          MasterReads \<Rightarrow>
            (if \<not> slave_open p \<and> rb_is_empty (s2m p) then (ps, dst, Eof)
             else if rb_is_empty (s2m p) then
               (case waiter of Some pid \<Rightarrow> (ps[i := p\<lparr> master_waiter := Some pid \<rparr>], dst, IoWouldBlock)
                | None \<Rightarrow> (ps, dst, IoWouldBlock))
             else let (b, dst', n) = rb_read (s2m p) dst in (ps[i := p\<lparr> s2m := b \<rparr>], dst', Bytes n))
        | SlaveReads \<Rightarrow>
            (if \<not> master_open p \<and> rb_is_empty (m2s p) then (ps, dst, Eof)
             else if rb_is_empty (m2s p) then
               (case waiter of Some pid \<Rightarrow> (ps[i := p\<lparr> slave_waiter := Some pid \<rparr>], dst, IoWouldBlock)
                | None \<Rightarrow> (ps, dst, IoWouldBlock))
             else let (b, dst', n) = rb_read (m2s p) dst in (ps[i := p\<lparr> m2s := b \<rparr>], dst', Bytes n))))"

definition pty_try_write :: "ptys \<Rightarrow> nat \<Rightarrow> PtyDirection \<Rightarrow> u8 list \<Rightarrow> (ptys \<times> Pid list) \<times> PtyIoResult" where
  "pty_try_write ps i dir src =
     (if MAX_PTYS \<le> i then ((ps, []), Eof)
      else let p = ps ! i in
        if \<not> allocated p then ((ps, []), Eof)
        else (case dir of
          SlaveReads \<Rightarrow>
            (if \<not> slave_open p then ((ps, []), Eof)
             else if rb_is_full (m2s p) then ((ps, []), IoWouldBlock)
             else let (b, n) = rb_write (m2s p) src in
               if 0 < n then ((ps[i := p\<lparr> m2s := b, slave_waiter := None \<rparr>], waked (slave_waiter p)), Bytes n)
               else ((ps[i := p\<lparr> m2s := b \<rparr>], []), Bytes n))
        | MasterReads \<Rightarrow>
            (if \<not> master_open p then ((ps, []), Eof)
             else if rb_is_full (s2m p) then ((ps, []), IoWouldBlock)
             else let (b, n) = rb_write (s2m p) src in
               if 0 < n then ((ps[i := p\<lparr> s2m := b, master_waiter := None \<rparr>], waked (master_waiter p)), Bytes n)
               else ((ps[i := p\<lparr> s2m := b \<rparr>], []), Bytes n))))"

definition get_termios :: "ptys \<Rightarrow> nat \<Rightarrow> Termios option" where
  "get_termios ps i = (if MAX_PTYS \<le> i \<or> \<not> allocated (ps ! i) then None else Some (termios (ps ! i)))"

definition set_termios :: "ptys \<Rightarrow> nat \<Rightarrow> Termios \<Rightarrow> ptys \<times> bool" where
  "set_termios ps i t = (if MAX_PTYS \<le> i \<or> \<not> allocated (ps ! i) then (ps, False)
     else (ps[i := (ps ! i)\<lparr> termios := t \<rparr>], True))"

definition get_winsize :: "ptys \<Rightarrow> nat \<Rightarrow> WinSize option" where
  "get_winsize ps i = (if MAX_PTYS \<le> i \<or> \<not> allocated (ps ! i) then None else Some (winsize (ps ! i)))"

definition set_winsize :: "ptys \<Rightarrow> nat \<Rightarrow> WinSize \<Rightarrow> ptys \<times> bool" where
  "set_winsize ps i w = (if MAX_PTYS \<le> i \<or> \<not> allocated (ps ! i) then (ps, False)
     else (ps[i := (ps ! i)\<lparr> winsize := w \<rparr>], True))"

definition get_ptn :: "ptys \<Rightarrow> nat \<Rightarrow> u32 option" where
  "get_ptn ps i = (if \<not> pty_is_allocated ps i then None else Some (of_nat i))"

definition set_locked :: "ptys \<Rightarrow> nat \<Rightarrow> bool \<Rightarrow> ptys \<times> bool" where
  "set_locked ps i l = (if MAX_PTYS \<le> i \<or> \<not> allocated (ps ! i) then (ps, False)
     else (ps[i := (ps ! i)\<lparr> locked := l \<rparr>], True))"

definition bytes_available_for_read :: "ptys \<Rightarrow> nat \<Rightarrow> PtyDirection \<Rightarrow> nat" where
  "bytes_available_for_read ps i dir = (if MAX_PTYS \<le> i \<or> \<not> allocated (ps ! i) then 0
     else case dir of MasterReads \<Rightarrow> rb_available_data (s2m (ps ! i))
       | SlaveReads \<Rightarrow> rb_available_data (m2s (ps ! i)))"

section \<open>Sequences of calls\<close>

datatype pty_call = PAlloc | POpenSlave nat | PCloseMaster nat | PCloseSlave nat
  | PRead nat PtyDirection "u8 list" "Pid option" | PWrite nat PtyDirection "u8 list"
  | PSetLocked nat bool | PSetTermios nat Termios | PSetWinsize nat WinSize

fun pty_step :: "ptys \<Rightarrow> pty_call \<Rightarrow> ptys \<times> Pid list" where
  "pty_step ps PAlloc = (fst (allocate_ptmx ps), [])"
| "pty_step ps (POpenSlave i) = (fst (open_slave ps i), [])"
| "pty_step ps (PCloseMaster i) = close_master ps i"
| "pty_step ps (PCloseSlave i) = close_slave ps i"
| "pty_step ps (PRead i dir dst waiter) = (fst (pty_try_read ps i dir dst waiter), [])"
| "pty_step ps (PWrite i dir src) = fst (pty_try_write ps i dir src)"
| "pty_step ps (PSetLocked i l) = (fst (set_locked ps i l), [])"
| "pty_step ps (PSetTermios i t) = (fst (set_termios ps i t), [])"
| "pty_step ps (PSetWinsize i w) = (fst (set_winsize ps i w), [])"

definition pty_run :: "pty_call list \<Rightarrow> ptys" where
  "pty_run calls = foldl (\<lambda>ps c. fst (pty_step ps c)) PTYS_init calls"

section \<open>Ring buffers of a terminal\<close>

declare rb_read_loop.simps [simp del]

definition rb_ok :: "RingBuf \<Rightarrow> bool" where
  "rb_ok b \<longleftrightarrow> ring_ok BUF_SIZE (rb_data b) (rb_r b) (rb_w b) (rb_count b)"

definition rb_contents :: "RingBuf \<Rightarrow> u8 list" where
  "rb_contents b = ring_contents BUF_SIZE (rb_data b) (rb_r b) (rb_count b)"

lemma rb_contents_length [simp]: "length (rb_contents b) = rb_count b"
  by (simp add: rb_contents_def)

lemma rb_is_empty_contents: "rb_is_empty b \<longleftrightarrow> rb_contents b = []"
  by (simp add: rb_is_empty_def flip: length_0_conv)

lemma RingBuf_new_ok [simp]: "rb_ok RingBuf_new" "rb_contents RingBuf_new = []"
  by (simp_all add: rb_ok_def rb_contents_def RingBuf_new_def ring_ok_def BUF_SIZE_def)

lemma rb_write_loop_law:
  "rb_ok b \<Longrightarrow> rb_write_loop b xs k = (b1, n) \<Longrightarrow>
   rb_ok b1 \<and> n = k + min (length xs) (BUF_SIZE - rb_count b) \<and>
   rb_contents b1 = rb_contents b @ take (min (length xs) (BUF_SIZE - rb_count b)) xs"
proof (induction b xs k rule: rb_write_loop.induct)
  case (2 b x xs k)
  show ?case
  proof (cases "rb_is_full b")
    case False
    let ?b = "b\<lparr> rb_data := (rb_data b)[rb_w b := x], rb_w := (rb_w b + 1) mod BUF_SIZE, rb_count := rb_count b + 1 \<rparr>"
    have c: "rb_count b < BUF_SIZE" using False by (simp add: rb_is_full_def)
    have ok: "ring_ok BUF_SIZE (rb_data b) (rb_r b) (rb_w b) (rb_count b)" using 2 by (simp add: rb_ok_def)
    have "rb_ok ?b" "rb_contents ?b = rb_contents b @ [x]"
      using ring_push_ok [OF ok c, of x] by (simp_all add: rb_ok_def rb_contents_def)
    moreover have "BUF_SIZE - rb_count b = Suc (BUF_SIZE - rb_count ?b)" using c by simp
    ultimately show ?thesis using 2 False by auto
  qed (use 2 in \<open>simp add: rb_is_full_def\<close>)
qed simp

lemma rb_read_loop_law:
  "rb_ok b \<Longrightarrow> k \<le> length dst \<Longrightarrow> rb_read_loop b dst k = (b1, dst1, n) \<Longrightarrow>
   rb_ok b1 \<and> n = k + min (length dst - k) (rb_count b) \<and>
   rb_contents b1 = drop (min (length dst - k) (rb_count b)) (rb_contents b) \<and>
   dst1 = take k dst @ take (min (length dst - k) (rb_count b)) (rb_contents b)
      @ drop (k + min (length dst - k) (rb_count b)) dst"
proof (induction b dst k rule: rb_read_loop.induct)
  case (1 b dst k)
  show ?case
  proof (cases "k < length dst \<and> \<not> rb_is_empty b")
    case True
    let ?b = "b\<lparr> rb_r := (rb_r b + 1) mod BUF_SIZE, rb_count := rb_count b - 1 \<rparr>"
    let ?x = "rb_data b ! rb_r b"
    have c: "0 < rb_count b" using True by (simp add: rb_is_empty_def)
    have ok: "ring_ok BUF_SIZE (rb_data b) (rb_r b) (rb_w b) (rb_count b)" using 1 by (simp add: rb_ok_def)
    have b: "rb_ok ?b" "rb_contents b = ?x # rb_contents ?b"
      using ring_pop_ok [OF ok c] by (simp_all add: rb_ok_def rb_contents_def)
    have m: "min (length dst - k) (rb_count b) = Suc (min (length dst - (k + 1)) (rb_count ?b))"
      using True c by (simp add: min_def) linarith
    have "take (k + 1) (dst[k := ?x]) = take k dst @ [?x]" using True by (simp add: take_Suc_conv_app_nth)
    moreover have "rb_read_loop ?b (dst[k := ?x]) (k + 1) = (b1, dst1, n)"
      using 1(4) True by (subst (asm) rb_read_loop.simps) simp
    moreover have "k + 1 \<le> length (dst[k := ?x])" using True by simp
    ultimately show ?thesis using 1(1) [OF True b(1)] unfolding b(2) m by simp
  next
    case False
    then show ?thesis using 1 by (auto simp: rb_read_loop.simps [of b dst k] rb_is_empty_def)
  qed
qed

lemma rb_write_law:
  "rb_ok b \<Longrightarrow> rb_write b xs = (b1, n) \<Longrightarrow>
   rb_ok b1 \<and> n = min (length xs) (BUF_SIZE - length (rb_contents b)) \<and>
   rb_contents b1 = rb_contents b @ take n xs"
  using rb_write_loop_law [of b xs 0 b1 n] by (simp add: rb_write_def)

lemma rb_read_law:
  "rb_ok b \<Longrightarrow> rb_read b dst = (b1, dst1, n) \<Longrightarrow>
   rb_ok b1 \<and> n = min (length dst) (length (rb_contents b)) \<and>
   rb_contents b1 = drop n (rb_contents b) \<and> dst1 = take n (rb_contents b) @ drop n dst"
  using rb_read_loop_law [of b 0 dst b1 dst1 n] by (simp add: rb_read_def)

interpretation rb_fifo: byte_fifo BUF_SIZE rb_ok rb_contents rb_write rb_read
proof (unfold_locales, goal_cases)
  case (1 s)
  then show ?case by (simp add: rb_ok_def ring_ok_def)
next
  case 2
  from rb_write_law [OF this] show ?case .
next
  case 3
  from rb_read_law [OF this] show ?case .
qed

section \<open>The invariant of the table\<close>

text \<open>
  A free slot is pristine, an allocated one has an open end, and a registered waiter waits on an
  empty queue whose writing end is open.
\<close>

definition pty_ok :: "Pty \<Rightarrow> bool" where
  "pty_ok p \<longleftrightarrow> rb_ok (m2s p) \<and> rb_ok (s2m p) \<and> (\<not> allocated p \<longrightarrow> p = Pty_new) \<and>
     (allocated p \<longrightarrow> master_open p \<or> slave_open p) \<and>
     (master_waiter p \<noteq> None \<longrightarrow> rb_is_empty (s2m p) \<and> slave_open p) \<and>
     (slave_waiter p \<noteq> None \<longrightarrow> rb_is_empty (m2s p) \<and> master_open p)"

definition ptys_ok :: "ptys \<Rightarrow> bool" where
  "ptys_ok ps \<longleftrightarrow> length ps = MAX_PTYS \<and> list_all pty_ok ps"

fun waiter_of :: "PtyDirection \<Rightarrow> Pty \<Rightarrow> Pid option" where
  "waiter_of MasterReads p = master_waiter p"
| "waiter_of SlaveReads p = slave_waiter p"

fun queue_of :: "PtyDirection \<Rightarrow> Pty \<Rightarrow> RingBuf" where
  "queue_of MasterReads p = s2m p"
| "queue_of SlaveReads p = m2s p"

fun writer_open :: "PtyDirection \<Rightarrow> Pty \<Rightarrow> bool" where
  "writer_open MasterReads p = slave_open p"
| "writer_open SlaveReads p = master_open p"

lemma Pty_new_ok [simp]: "pty_ok Pty_new"
  by (simp add: pty_ok_def Pty_new_def)

lemma Pty_reset_ok [simp]: "pty_ok (Pty_reset p)"
  by (simp add: pty_ok_def Pty_reset_def Pty_new_def)

lemma ptys_ok_nth: "ptys_ok ps \<Longrightarrow> i < MAX_PTYS \<Longrightarrow> pty_ok (ps ! i)"
  by (simp add: ptys_ok_def list_all_length)

lemma ptys_ok_update: "ptys_ok ps \<Longrightarrow> pty_ok p \<Longrightarrow> ptys_ok (ps[i := p])"
  by (auto simp: ptys_ok_def)

lemma free_if_unused_ok:
  "rb_ok (m2s p) \<Longrightarrow> rb_ok (s2m p) \<Longrightarrow> allocated p \<Longrightarrow> master_waiter p = None \<Longrightarrow> slave_waiter p = None
   \<Longrightarrow> pty_ok (free_if_unused p)"
  by (simp add: free_if_unused_def) (auto simp: pty_ok_def)

lemma rb_write_empty_kept: "rb_ok b \<Longrightarrow> rb_write b xs = (b1, 0) \<Longrightarrow> rb_is_empty b1 = rb_is_empty b"
  using rb_write_law [of b xs b1 0] by (simp add: rb_is_empty_contents)

text \<open>
  What a transition of one slot must respect: who waited is woken, or still waits on an empty queue
  whose writing end is open.
\<close>

definition wait_respected :: "PtyDirection \<Rightarrow> Pty \<Rightarrow> Pty \<Rightarrow> Pid list \<Rightarrow> bool" where
  "wait_respected dir p p' woken \<longleftrightarrow>
     (\<forall>w. waiter_of dir p = Some w \<longrightarrow> w \<in> set woken \<or>
        waiter_of dir p' = Some w \<and> rb_is_empty (queue_of dir p') \<and> writer_open dir p')"

lemma wait_respected_refl: "pty_ok p \<Longrightarrow> wait_respected dir p p woken"
  by (cases dir) (auto simp: wait_respected_def pty_ok_def)

definition slot_step_ok :: "ptys \<Rightarrow> ptys \<Rightarrow> (nat \<Rightarrow> PtyDirection \<Rightarrow> bool) \<Rightarrow> Pid list \<Rightarrow> bool" where
  "slot_step_ok ps ps' excl woken \<longleftrightarrow> ptys_ok ps' \<and>
     (\<forall>i<MAX_PTYS. \<forall>dir. excl i dir \<or> wait_respected dir (ps ! i) (ps' ! i) woken)"

lemma slot_step_id: "ptys_ok ps \<Longrightarrow> slot_step_ok ps ps excl woken"
  by (auto simp: slot_step_ok_def intro: wait_respected_refl ptys_ok_nth)

lemma slot_step_update:
  assumes "ptys_ok ps" "pty_ok p" "\<And>dir. excl i dir \<or> wait_respected dir (ps ! i) p woken"
  shows "slot_step_ok ps (ps[i := p]) excl woken"
  using assms by (auto simp: slot_step_ok_def nth_update_if ptys_ok_update intro: wait_respected_refl ptys_ok_nth)

lemma step_alloc: "ptys_ok ps \<Longrightarrow> slot_step_ok ps (fst (allocate_ptmx ps)) excl woken"
proof (cases "find_slot (\<lambda>p. \<not> allocated p) ps")
  case (Some i)
  assume ok: "ptys_ok ps"
  with Some have "ps ! i = Pty_new"
    using ptys_ok_nth [OF ok, of i] by (auto simp: find_slot_Some_iff ptys_ok_def pty_ok_def)
  then have "wait_respected dir (ps ! i) (Pty_reset (ps ! i)) woken" for dir
    by (cases dir) (simp_all add: wait_respected_def Pty_new_def)
  then show ?thesis using Some ok slot_step_update [OF ok, of "Pty_reset (ps ! i)"] by (simp add: allocate_ptmx_def)
qed (simp add: allocate_ptmx_def slot_step_id)

lemma step_open_slave: "ptys_ok ps \<Longrightarrow> slot_step_ok ps (fst (open_slave ps i)) excl woken"
proof (cases "i < MAX_PTYS \<and> allocated (ps ! i) \<and> master_open (ps ! i) \<and> \<not> locked (ps ! i)")
  case True
  assume ok: "ptys_ok ps"
  let ?p = "(ps ! i)\<lparr> slave_open := True \<rparr>"
  have p: "pty_ok (ps ! i)" using ptys_ok_nth [OF ok] True by blast
  have "wait_respected dir (ps ! i) ?p woken" for dir
    using p by (cases dir) (auto simp: wait_respected_def pty_ok_def)
  then show ?thesis using slot_step_update [OF ok, of ?p excl i woken] True p
    by (simp add: open_slave_def pty_ok_def)
qed (auto simp: open_slave_def Let_def slot_step_id)

lemma wait_woken:
  "wait_respected dir p p' (waked (slave_waiter p) @ waked (master_waiter p))"
  "wait_respected dir p p' (waked (master_waiter p) @ waked (slave_waiter p))"
  by (cases dir; auto simp: wait_respected_def waked_def)+

lemma step_close:
  assumes "ptys_ok ps"
  shows "slot_step_ok ps (fst (close_master ps i)) excl (snd (close_master ps i))"
    and "slot_step_ok ps (fst (close_slave ps i)) excl (snd (close_slave ps i))"
proof -
  have "rb_ok (m2s (ps ! i))" "rb_ok (s2m (ps ! i))" if "i < MAX_PTYS"
    using ptys_ok_nth [OF assms that] by (simp_all add: pty_ok_def)
  then show "slot_step_ok ps (fst (close_master ps i)) excl (snd (close_master ps i))"
    "slot_step_ok ps (fst (close_slave ps i)) excl (snd (close_slave ps i))"
    using assms unfolding close_master_def close_slave_def Let_def
    by (auto intro!: slot_step_update slot_step_id free_if_unused_ok wait_woken)
qed

text \<open>A change of the lock flag, the terminal settings or the window size touches no queue or waiter.\<close>

lemma step_settings:
  assumes "ptys_ok ps" "i < MAX_PTYS" "allocated (ps ! i)" "allocated p"
    and same: "m2s p = m2s (ps ! i)" "s2m p = s2m (ps ! i)" "master_waiter p = master_waiter (ps ! i)"
      "slave_waiter p = slave_waiter (ps ! i)" "master_open p = master_open (ps ! i)"
      "slave_open p = slave_open (ps ! i)"
  shows "slot_step_ok ps (ps[i := p]) excl woken"
proof (rule slot_step_update [OF assms(1)])
  have ok: "pty_ok (ps ! i)" using ptys_ok_nth [OF assms(1,2)] .
  then show "pty_ok p" using assms by (simp add: pty_ok_def)
  show "excl i dir \<or> wait_respected dir (ps ! i) p woken" for dir
    using ok same by (cases dir) (auto simp: wait_respected_def pty_ok_def)
qed

lemma step_set:
  assumes "ptys_ok ps"
  shows "slot_step_ok ps (fst (set_locked ps i l)) excl woken"
    and "slot_step_ok ps (fst (set_termios ps i t)) excl woken"
    and "slot_step_ok ps (fst (set_winsize ps i ws)) excl woken"
  using assms by (simp_all add: set_locked_def set_termios_def set_winsize_def slot_step_id step_settings)

lemma slot_step_update2:
  assumes "ptys_ok ps" "pty_ok p" "excl i MasterReads \<or> wait_respected MasterReads (ps ! i) p woken"
    "excl i SlaveReads \<or> wait_respected SlaveReads (ps ! i) p woken"
  shows "slot_step_ok ps (ps[i := p]) excl woken"
proof (rule slot_step_update [OF assms(1,2)])
  show "excl i dir \<or> wait_respected dir (ps ! i) p woken" for dir by (cases dir) (simp_all add: assms(3,4))
qed

lemma step_read:
  assumes "ptys_ok ps" "\<And>w. waiter = Some w \<Longrightarrow> excl i dir"
  shows "slot_step_ok ps (fst (pty_try_read ps i dir dst waiter)) excl woken"
proof (cases "i < MAX_PTYS \<and> allocated (ps ! i)")
  case True
  then have p: "pty_ok (ps ! i)" using ptys_ok_nth [OF assms(1)] by blast
  obtain b dst' n where r: "rb_read (queue_of dir (ps ! i)) dst = (b, dst', n)" using prod_cases3 by blast
  have b: "rb_ok b" using rb_read_law [OF _ r] p by (cases dir) (simp_all add: pty_ok_def)
  show ?thesis
    using True p assms r b unfolding pty_try_read_def Let_def
    by (cases dir; cases waiter) (auto intro!: slot_step_update2 slot_step_id simp: pty_ok_def wait_respected_def)
qed (auto simp: pty_try_read_def Let_def slot_step_id assms(1))

lemma step_write:
  assumes "ptys_ok ps"
  shows "slot_step_ok ps (fst (fst (pty_try_write ps i dir src))) excl (snd (fst (pty_try_write ps i dir src)))"
proof (cases "i < MAX_PTYS \<and> allocated (ps ! i)")
  case True
  then have p: "pty_ok (ps ! i)" using ptys_ok_nth [OF assms] by blast
  obtain b n where r: "rb_write (queue_of dir (ps ! i)) src = (b, n)" by fastforce
  have b: "rb_ok b" using rb_write_law [OF _ r] p by (cases dir) (simp_all add: pty_ok_def)
  have e: "rb_is_empty b = rb_is_empty (queue_of dir (ps ! i))" if "n = 0"
    using rb_write_empty_kept [of "queue_of dir (ps ! i)" src b] r p that by (cases dir) (simp_all add: pty_ok_def)
  show ?thesis
    using True p assms r b e unfolding pty_try_write_def Let_def
    by (cases dir) (auto intro!: slot_step_update2 slot_step_id simp: pty_ok_def wait_respected_def waked_def)
qed (auto simp: pty_try_write_def Let_def slot_step_id assms(1))

lemmas pty_steps = step_alloc step_open_slave step_close step_set step_read step_write

fun registers_reader :: "pty_call \<Rightarrow> nat \<Rightarrow> PtyDirection \<Rightarrow> bool" where
  "registers_reader (PRead j dir' dst waiter) i dir \<longleftrightarrow> j = i \<and> dir' = dir \<and> waiter \<noteq> None"
| "registers_reader _ i dir \<longleftrightarrow> False"

lemma pty_step_ok:
  "ptys_ok ps \<Longrightarrow> slot_step_ok ps (fst (pty_step ps c)) (registers_reader c) (snd (pty_step ps c))"
  by (cases c) (simp_all add: pty_steps)

lemma ptys_ok_foldl: "ptys_ok ps \<Longrightarrow> ptys_ok (foldl (\<lambda>ps c. fst (pty_step ps c)) ps calls)"
proof (induction calls arbitrary: ps)
  case (Cons c calls)
  have "ptys_ok (fst (pty_step ps c))"
    using pty_step_ok [OF Cons.prems, of c] by (simp add: slot_step_ok_def)
  then show ?case using Cons.IH by simp
qed simp

lemma ptys_ok_run: "ptys_ok (pty_run calls)"
  unfolding pty_run_def by (rule ptys_ok_foldl) (simp add: ptys_ok_def PTYS_init_def list_all_iff)

section \<open>Properties\<close>

text \<open>
  C13: No wakeup of a terminal reader is lost.  In every state reached by any sequence of calls, a
  process registered as waiting for input waits on an empty queue whose writing end is open, so that
  input can still arrive; and every further call either wakes it, or leaves it registered with the
  queue still empty and the writing end still open, or is a read of the same end that registers a
  reader in its place.
\<close>

theorem pty_no_lost_wakeup:
  assumes "i < MAX_PTYS" "waiter_of dir (pty_run calls ! i) = Some w"
    and "pty_step (pty_run calls) c = (ps', woken)"
  shows "rb_is_empty (queue_of dir (pty_run calls ! i)) \<and> writer_open dir (pty_run calls ! i) \<and>
    (w \<in> set woken \<or>
     waiter_of dir (ps' ! i) = Some w \<and> rb_is_empty (queue_of dir (ps' ! i)) \<and> writer_open dir (ps' ! i) \<or>
     registers_reader c i dir)"
proof -
  have ok: "pty_ok (pty_run calls ! i)" using ptys_ok_nth [OF ptys_ok_run assms(1)] .
  have "rb_is_empty (queue_of dir (pty_run calls ! i)) \<and> writer_open dir (pty_run calls ! i)"
    using ok assms(2) by (cases dir) (auto simp: pty_ok_def)
  moreover have "registers_reader c i dir \<or> wait_respected dir (pty_run calls ! i) (ps' ! i) woken"
    using pty_step_ok [OF ptys_ok_run, of calls c] assms by (auto simp: slot_step_ok_def)
  ultimately show ?thesis using assms(2) by (auto simp: wait_respected_def)
qed

lemma pty_run_waiting:
  "pty_run [PAlloc, PSetLocked 0 False, POpenSlave 0, PRead 0 SlaveReads [0] (Some 7)] ! 0 =
   (Pty_reset Pty_new)\<lparr> locked := False, slave_open := True, slave_waiter := Some 7 \<rparr>"
proof -
  have "find_slot (\<lambda>p. \<not> allocated p) PTYS_init = Some 0"
    by (simp add: find_slot_Some_iff PTYS_init_def MAX_PTYS_def Pty_new_def)
  then show ?thesis
    by (simp add: pty_run_def allocate_ptmx_def set_locked_def open_slave_def pty_try_read_def Let_def
        Pty_reset_def MAX_PTYS_def PTYS_init_def Pty_new_def rb_is_empty_def RingBuf_new_def)
qed

theorem pty_no_lost_wakeup_witness:
  "let ps = pty_run [PAlloc, PSetLocked 0 False, POpenSlave 0, PRead 0 SlaveReads [0] (Some 7)] in
   waiter_of SlaveReads (ps ! 0) = Some 7 \<and> rb_is_empty (queue_of SlaveReads (ps ! 0)) \<and> writer_open SlaveReads (ps ! 0) \<and>
   (7 \<in> set (snd (pty_step ps (PCloseMaster 0))) \<or>
     waiter_of SlaveReads (fst (pty_step ps (PCloseMaster 0)) ! 0) = Some 7 \<and>
     rb_is_empty (queue_of SlaveReads (fst (pty_step ps (PCloseMaster 0)) ! 0)) \<and>
     writer_open SlaveReads (fst (pty_step ps (PCloseMaster 0)) ! 0) \<or>
    registers_reader (PCloseMaster 0) 0 SlaveReads)"
  using pty_no_lost_wakeup [of 0 SlaveReads
      "[PAlloc, PSetLocked 0 False, POpenSlave 0, PRead 0 SlaveReads [0] (Some 7)]" 7 "PCloseMaster 0"
      "fst (pty_step (pty_run [PAlloc, PSetLocked 0 False, POpenSlave 0, PRead 0 SlaveReads [0] (Some 7)]) (PCloseMaster 0))"
      "snd (pty_step (pty_run [PAlloc, PSetLocked 0 False, POpenSlave 0, PRead 0 SlaveReads [0] (Some 7)]) (PCloseMaster 0))"]
  unfolding Let_def by (simp add: pty_run_waiting MAX_PTYS_def del: pty_step.simps)

text \<open>
  The ring buffers of a terminal are byte streams.  For every sequence of writes and reads on a
  fresh \<open>RingBuf\<close>, however they interleave and wrap around, the accepted bytes are the delivered
  bytes followed by the queued ones.
\<close>

theorem ringbuf_stream:
  "case fifo_run rb_write rb_read RingBuf_new ops of (b, acc, del) \<Rightarrow>
     rb_ok b \<and> acc = del @ rb_contents b"
  using rb_fifo.stream_order [of RingBuf_new "[]" "[]" ops] by (auto split: prod.splits)

end
