(* ===== verification/Bit_Table.thy ===== *)
theory Bit_Table
  imports Kernel_Prelude
begin

text \<open>
  Sets kept as bits.  Signal masks are single words, CPU masks and the PID bitmap arrays of 64-bit
  words addressed by \<open>i / 64\<close> and \<open>i % 64\<close>.  This theory has the word and word-array facts and the
  interface \<open>bit_table\<close> that the three components implement: a set of indices with membership,
  insertion and removal.
\<close>

section \<open>One word\<close>

text \<open>\<open>1 << n\<close>, for \<open>n\<close> below the width.\<close>

definition one_shl :: "nat \<Rightarrow> 'w::len word" where
  "one_shl n = push_bit n 1"

lemma bit_or_shift [simp]:
  "bit (w OR one_shl n :: 'w::len word) m \<longleftrightarrow> bit w m \<or> m = n \<and> n < LENGTH('w)"
  by (auto simp: one_shl_def bit_simps)

lemma bit_and_not_shift [simp]:
  "bit (w AND NOT (one_shl n) :: 'w::len word) m \<longleftrightarrow> bit w m \<and> m \<noteq> n"
  by (auto simp: one_shl_def bit_simps dest: bit_imp_le_length)

lemma and_shift_eq_0 [simp]:
  "w AND one_shl n = (0 :: 'w::len word) \<longleftrightarrow> \<not> bit w n"
  by (simp add: one_shl_def bit_iff_and_push_bit_not_eq_0)

lemma bit_one_shl [simp]: "bit (one_shl n :: 'w::len word) m \<longleftrightarrow> m = n \<and> n < LENGTH('w)"
  by (auto simp: one_shl_def bit_simps)

lemma bit_less_length: "bit (w :: 'w::len word) n \<Longrightarrow> n < LENGTH('w)"
  by (rule bit_imp_le_length)

lemma word_not_all_ones: "w \<noteq> - 1 \<longleftrightarrow> (\<exists>n<LENGTH('w). \<not> bit (w :: 'w::len word) n)"
  by (auto simp: bit_eq_iff bit_simps)

text \<open>\<open>trailing_zeros\<close> and \<open>count_ones\<close> of the integer types.\<close>

definition trailing_zeros :: "'w::len word \<Rightarrow> nat" where
  "trailing_zeros w = (case find (\<lambda>n. bit w n) [0..<LENGTH('w)] of Some n \<Rightarrow> n | None \<Rightarrow> LENGTH('w))"

definition count_ones :: "'w::len word \<Rightarrow> nat" where
  "count_ones w = length (filter (\<lambda>n. bit w n) [0..<LENGTH('w)])"

lemma trailing_zeros_bit: "trailing_zeros (w :: 'w::len word) < LENGTH('w) \<Longrightarrow> bit w (trailing_zeros w)"
  by (auto simp: trailing_zeros_def find_Some_iff split: option.splits)

lemma trailing_zeros_le: "bit (w :: 'w::len word) n \<Longrightarrow> trailing_zeros w \<le> n"
proof (cases "find (\<lambda>n. bit w n) [0..<LENGTH('w)]")
  case None
  assume "bit w n"
  then show ?thesis using None bit_less_length [of w n] by (auto simp: find_None_iff)
next
  case (Some m)
  assume b: "bit w n"
  from Some obtain i where i: "i < LENGTH('w)" "m = i" "\<forall>j<i. \<not> bit w j"
    by (auto simp: find_Some_iff)
  then show ?thesis using b Some by (auto simp: trailing_zeros_def not_le [symmetric])
qed

lemma count_ones_card: "count_ones (w :: 'w::len word) = card {n. bit w n}"
proof -
  have "{n. bit w n} = set (filter (\<lambda>n. bit w n) [0..<LENGTH('w)])" by (auto dest: bit_less_length)
  then show ?thesis unfolding count_ones_def by (metis distinct_card distinct_filter distinct_upt)
qed

section \<open>Arrays of words\<close>

definition bm_members :: "u64 list \<Rightarrow> nat set" where
  "bm_members ws = {i. i < 64 * length ws \<and> bit (ws ! (i div 64)) (i mod 64)}"

lemma bm_index_lt: "i < 64 * length ws \<longleftrightarrow> i div 64 < length (ws :: 'a list)"
  by (auto simp: div_less_iff_less_mult mult.commute)

lemma bm_members_set:
  assumes "i < 64 * length ws"
  shows "bm_members (ws[i div 64 := ws ! (i div 64) OR one_shl (i mod 64)]) = insert i (bm_members ws)"
proof (rule set_eqI)
  fix j
  have "j div 64 = i div 64 \<and> j mod 64 = i mod 64 \<longleftrightarrow> j = i" by (metis div_mult_mod_eq)
  then show "j \<in> bm_members (ws[i div 64 := ws ! (i div 64) OR one_shl (i mod 64)])
      \<longleftrightarrow> j \<in> insert i (bm_members ws)"
    using assms by (auto simp: bm_members_def nth_update_if bm_index_lt)
qed

lemma bm_members_clear:
  assumes "i < 64 * length ws"
  shows "bm_members (ws[i div 64 := ws ! (i div 64) AND NOT (one_shl (i mod 64))]) = bm_members ws - {i}"
proof (rule set_eqI)
  fix j
  have "j div 64 = i div 64 \<and> j mod 64 = i mod 64 \<longleftrightarrow> j = i" by (metis div_mult_mod_eq)
  then show "j \<in> bm_members (ws[i div 64 := ws ! (i div 64) AND NOT (one_shl (i mod 64))])
      \<longleftrightarrow> j \<in> bm_members ws - {i}"
    using assms by (auto simp: bm_members_def nth_update_if bm_index_lt)
qed

lemma finite_bm_members [simp]: "finite (bm_members ws)"
  by (simp add: bm_members_def)

section \<open>The interface of a set of indices\<close>

datatype bit_op = BSet nat | BClear nat

fun bit_index :: "bit_op \<Rightarrow> nat" where
  "bit_index (BSet i) = i"
| "bit_index (BClear i) = i"

fun bit_run :: "('s \<Rightarrow> nat \<Rightarrow> 's) \<Rightarrow> ('s \<Rightarrow> nat \<Rightarrow> 's) \<Rightarrow> 's \<Rightarrow> bit_op list \<Rightarrow> 's" where
  "bit_run st cl s [] = s"
| "bit_run st cl s (BSet i # ops) = bit_run st cl (st s i) ops"
| "bit_run st cl s (BClear i # ops) = bit_run st cl (cl s i) ops"

locale bit_table =
  fixes valid :: "nat set"
    and inv :: "'s \<Rightarrow> bool"
    and members :: "'s \<Rightarrow> nat set"
    and test :: "'s \<Rightarrow> nat \<Rightarrow> bool"
    and st :: "'s \<Rightarrow> nat \<Rightarrow> 's"
    and cl :: "'s \<Rightarrow> nat \<Rightarrow> 's"
  assumes test_law: "inv s \<Longrightarrow> i \<in> valid \<Longrightarrow> test s i \<longleftrightarrow> i \<in> members s"
    and set_law: "inv s \<Longrightarrow> i \<in> valid \<Longrightarrow> inv (st s i) \<and> members (st s i) = insert i (members s)"
    and clear_law: "inv s \<Longrightarrow> i \<in> valid \<Longrightarrow> inv (cl s i) \<and> members (cl s i) = members s - {i}"
begin

text \<open>The last operation on an index decides its membership; other indices are not disturbed.\<close>

lemma last_operation_wins:
  "inv s \<Longrightarrow> bit_index ` set ops \<subseteq> valid \<Longrightarrow> i \<in> valid \<Longrightarrow>
   inv (bit_run st cl s ops) \<and>
   (test (bit_run st cl s ops) i \<longleftrightarrow>
     (case filter (\<lambda>op. bit_index op = i) (rev ops) of
        [] \<Rightarrow> test s i | op # _ \<Rightarrow> op = BSet i))"
proof (induction ops arbitrary: s)
  case (Cons op ops)
  have i: "bit_index op \<in> valid" "bit_index ` set ops \<subseteq> valid" using Cons.prems(2) by auto
  define s1 where "s1 = (case op of BSet j \<Rightarrow> st s j | BClear j \<Rightarrow> cl s j)"
  have s1: "inv s1" "test s1 i \<longleftrightarrow> (if bit_index op = i then op = BSet i else test s i)"
    using set_law [OF Cons.prems(1)] clear_law [OF Cons.prems(1)] i(1) test_law Cons.prems(1,3)
    by (auto simp: s1_def split: bit_op.splits)
  have "bit_run st cl s (op # ops) = bit_run st cl s1 ops" by (cases op) (simp_all add: s1_def)
  then show ?case using Cons.IH [OF s1(1) i(2) Cons.prems(3)] s1(2) by (auto split: list.splits)
qed simp

end

end
