(* ===== verification/Signal_State.thy ===== *)
theory Signal_State
  imports Bit_Table
begin

text \<open>
  Per-process signal state: \<open>src/src/ipc/signal.rs\<close>.  The pending and blocked masks are 64-bit
  words; \<open>pending_set\<close> and \<open>blocked_set\<close> are the sets of signal numbers they stand for, and both
  masks interpret \<open>bit_table\<close>.
\<close>

section \<open>State and operations\<close>

definition SIGKILL :: u32 where "SIGKILL = 9"

definition SIGCHLD :: u32 where "SIGCHLD = 17"

definition SIGCONT :: u32 where "SIGCONT = 18"

definition SIGSTOP :: u32 where "SIGSTOP = 19"

definition NSIG :: nat where "NSIG = 32"

datatype SignalAction = Default | Ignore | Handler u64

record SignalState =
  pending :: u64
  blocked :: u64
  actions :: "SignalAction list"

definition SignalState_new :: SignalState where
  "SignalState_new = \<lparr> pending = 0, blocked = 0, actions = replicate NSIG Default \<rparr>"

definition reset_to_default :: "SignalState \<Rightarrow> SignalState" where
  "reset_to_default s = s\<lparr> pending := 0, actions := map (\<lambda>_. Default) (actions s) \<rparr>"

definition send_signal :: "SignalState \<Rightarrow> u32 \<Rightarrow> SignalState \<times> (unit, string) result" where
  "send_signal s signum =
     (if signum = 0 \<or> NSIG \<le> unat signum then (s, Err ''Invalid signal number'')
      else (s\<lparr> pending := pending s OR one_shl (unat signum) \<rparr>, Ok ()))"

definition has_pending_signal :: "SignalState \<Rightarrow> u32 option" where
  "has_pending_signal s =
     (let unblockable_mask = one_shl (unat SIGKILL) OR one_shl (unat SIGSTOP);
          effective_blocked = blocked s AND NOT unblockable_mask;
          deliverable = pending s AND NOT effective_blocked
      in if deliverable = 0 then None
         else map_option of_nat (find (\<lambda>signum. deliverable AND one_shl signum \<noteq> 0) [1..<NSIG]))"

definition clear_signal :: "SignalState \<Rightarrow> u32 \<Rightarrow> SignalState" where
  "clear_signal s signum =
     (if unat signum < NSIG then s\<lparr> pending := pending s AND NOT (one_shl (unat signum)) \<rparr> else s)"

definition set_action :: "SignalState \<Rightarrow> u32 \<Rightarrow> SignalAction \<Rightarrow> SignalState \<times> (SignalAction, string) result" where
  "set_action s signum action =
     (if signum = 0 \<or> NSIG \<le> unat signum then (s, Err ''Invalid signal number'')
      else if signum = SIGKILL \<or> signum = SIGSTOP then (s, Err ''Cannot change SIGKILL or SIGSTOP'')
      else (s\<lparr> actions := (actions s)[unat signum := action] \<rparr>, Ok (actions s ! unat signum)))"

definition get_action :: "SignalState \<Rightarrow> u32 \<Rightarrow> (SignalAction, string) result" where
  "get_action s signum =
     (if signum = 0 \<or> NSIG \<le> unat signum then Err ''Invalid signal number''
      else Ok (actions s ! unat signum))"

definition block_signal :: "SignalState \<Rightarrow> u32 \<Rightarrow> SignalState" where
  "block_signal s signum =
     (if unat signum < NSIG \<and> signum \<noteq> SIGKILL \<and> signum \<noteq> SIGSTOP
      then s\<lparr> blocked := blocked s OR one_shl (unat signum) \<rparr> else s)"

definition unblock_signal :: "SignalState \<Rightarrow> u32 \<Rightarrow> SignalState" where
  "unblock_signal s signum =
     (if unat signum < NSIG then s\<lparr> blocked := blocked s AND NOT (one_shl (unat signum)) \<rparr> else s)"

definition default_signal_action :: "u32 \<Rightarrow> SignalAction" where
  "default_signal_action signum = (if signum = SIGCHLD \<or> signum = SIGCONT then Ignore else Default)"

section \<open>Sequences of calls\<close>

datatype sig_call = SSend u32 | SClear u32 | SAction u32 SignalAction | SBlock u32 | SUnblock u32 | SExecReset

fun sig_step :: "SignalState \<Rightarrow> sig_call \<Rightarrow> SignalState" where
  "sig_step s (SSend n) = fst (send_signal s n)"
| "sig_step s (SClear n) = clear_signal s n"
| "sig_step s (SAction n a) = fst (set_action s n a)"
| "sig_step s (SBlock n) = block_signal s n"
| "sig_step s (SUnblock n) = unblock_signal s n"
| "sig_step s SExecReset = reset_to_default s"

definition sig_run :: "sig_call list \<Rightarrow> SignalState" where
  "sig_run calls = foldl sig_step SignalState_new calls"

text \<open>The delivery loop of a client: take the reported signal, clear it, ask again.\<close>

fun deliver :: "nat \<Rightarrow> SignalState \<Rightarrow> u32 list" where
  "deliver 0 s = []"
| "deliver (Suc n) s =
     (case has_pending_signal s of None \<Rightarrow> [] | Some k \<Rightarrow> k # deliver n (clear_signal s k))"

section \<open>Masks as sets\<close>

definition pending_set :: "SignalState \<Rightarrow> nat set" where
  "pending_set s = {n. bit (pending s) n}"

definition blocked_set :: "SignalState \<Rightarrow> nat set" where
  "blocked_set s = {n. bit (blocked s) n}"

definition deliverable_set :: "SignalState \<Rightarrow> nat set" where
  "deliverable_set s = pending_set s - (blocked_set s - {unat SIGKILL, unat SIGSTOP})"

definition sig_ok :: "SignalState \<Rightarrow> bool" where
  "sig_ok s \<longleftrightarrow> pending_set s \<subseteq> {1..<NSIG} \<and> blocked_set s \<subseteq> {..<NSIG} - {unat SIGKILL, unat SIGSTOP} \<and>
     length (actions s) = NSIG \<and> actions s ! unat SIGKILL = Default \<and> actions s ! unat SIGSTOP = Default"

lemma unat_signals [simp]: "unat SIGKILL = 9" "unat SIGSTOP = 19"
  by (simp_all add: SIGKILL_def SIGSTOP_def)

lemma signum_eq: "signum = SIGKILL \<longleftrightarrow> unat signum = 9" "signum = SIGSTOP \<longleftrightarrow> unat signum = 19"
  by (simp_all add: word_unat_eq_iff)

lemma signum_0: "signum = 0 \<longleftrightarrow> unat (signum :: u32) = 0"
  by (simp add: unat_eq_0)

lemma finite_deliverable [simp]: "finite (deliverable_set s)"
proof -
  have "deliverable_set s \<subseteq> {..<64}"
    by (auto simp: deliverable_set_def pending_set_def dest: bit_less_length)
  then show ?thesis by (rule finite_subset) simp
qed

lemma send_signal_set:
  "0 < n \<Longrightarrow> n < NSIG \<Longrightarrow> pending_set (fst (send_signal s (of_nat n))) = insert n (pending_set s)"
  by (auto simp: send_signal_def pending_set_def signum_0 unat_of_nat_small NSIG_def)

lemma clear_signal_set:
  "unat n < NSIG \<Longrightarrow> pending_set (clear_signal s n) = pending_set s - {unat n}"
  by (auto simp: clear_signal_def pending_set_def)

lemma block_signal_set:
  "unat n < NSIG \<Longrightarrow> unat n \<notin> {9, 19} \<Longrightarrow> blocked_set (block_signal s n) = insert (unat n) (blocked_set s)"
  by (auto simp: block_signal_def blocked_set_def signum_eq NSIG_def)

lemma unblock_signal_set:
  "unat n < NSIG \<Longrightarrow> blocked_set (unblock_signal s n) = blocked_set s - {unat n}"
  by (auto simp: unblock_signal_def blocked_set_def)

interpretation pending_bits: bit_table "{1..<NSIG}" sig_ok pending_set "\<lambda>s n. n \<in> pending_set s"
  "\<lambda>s n. fst (send_signal s (of_nat n))" "\<lambda>s n. clear_signal s (of_nat n)"
proof (unfold_locales, goal_cases)
  case (2 s i)
  then show ?case using send_signal_set [of i s]
    by (auto simp: sig_ok_def send_signal_def blocked_set_def)
next
  case (3 s i)
  then have "unat (of_nat i :: u32) = i" by (simp add: unat_of_nat_small NSIG_def)
  then show ?case using 3 clear_signal_set [of "of_nat i" s]
    by (auto simp: sig_ok_def clear_signal_def blocked_set_def)
qed simp

interpretation blocked_bits: bit_table "{..<NSIG} - {9, 19}" sig_ok blocked_set "\<lambda>s n. n \<in> blocked_set s"
  "\<lambda>s n. block_signal s (of_nat n)" "\<lambda>s n. unblock_signal s (of_nat n)"
proof (unfold_locales, goal_cases)
  case (2 s i)
  then have "unat (of_nat i :: u32) = i" by (simp add: unat_of_nat_small NSIG_def)
  then show ?case using 2 block_signal_set [of "of_nat i" s]
    by (auto simp: sig_ok_def block_signal_def pending_set_def)
next
  case (3 s i)
  then have "unat (of_nat i :: u32) = i" by (simp add: unat_of_nat_small NSIG_def)
  then show ?case using 3 unblock_signal_set [of "of_nat i" s]
    by (auto simp: sig_ok_def unblock_signal_def pending_set_def)
qed simp

section \<open>Invariant\<close>

lemma sig_ok_new: "sig_ok SignalState_new"
  by (simp add: sig_ok_def SignalState_new_def pending_set_def blocked_set_def NSIG_def)

lemma sig_ok_set_action: "sig_ok s \<Longrightarrow> sig_ok (fst (set_action s n a))"
  by (auto simp: sig_ok_def set_action_def pending_set_def blocked_set_def signum_eq nth_update_if)

lemma sig_ok_reset: "sig_ok s \<Longrightarrow> sig_ok (reset_to_default s)"
  by (simp add: sig_ok_def reset_to_default_def pending_set_def blocked_set_def NSIG_def)

lemma sig_ok_send: "sig_ok s \<Longrightarrow> sig_ok (fst (send_signal s n))"
  using pending_bits.set_law [of s "unat n"]
  by (cases "n = 0 \<or> NSIG \<le> unat n") (simp_all add: send_signal_def signum_0)

lemma sig_ok_masks:
  "sig_ok s \<Longrightarrow> sig_ok (clear_signal s n)" "sig_ok s \<Longrightarrow> sig_ok (block_signal s n)"
  "sig_ok s \<Longrightarrow> sig_ok (unblock_signal s n)"
  by (auto simp: sig_ok_def clear_signal_def block_signal_def unblock_signal_def pending_set_def
      blocked_set_def signum_eq)

lemma sig_ok_step: "sig_ok s \<Longrightarrow> sig_ok (sig_step s c)"
  by (cases c) (simp_all add: sig_ok_send sig_ok_masks sig_ok_set_action sig_ok_reset)

lemma sig_ok_run: "sig_ok (sig_run calls)"
proof -
  have "sig_ok s \<Longrightarrow> sig_ok (foldl sig_step s calls)" for s
    by (induction calls arbitrary: s) (simp_all add: sig_ok_step)
  then show ?thesis by (simp add: sig_run_def sig_ok_new)
qed

lemma has_pending_Min:
  assumes "sig_ok s"
  shows "has_pending_signal s =
    (if deliverable_set s = {} then None else Some (of_nat (Min (deliverable_set s))))"
proof -
  define d where "d = pending s AND NOT (blocked s AND NOT (one_shl 9 OR one_shl 19))"
  have d: "deliverable_set s = {n. bit d n}"
    by (auto simp: d_def deliverable_set_def pending_set_def blocked_set_def bit_simps dest: bit_less_length)
  have range: "{n. bit d n} \<subseteq> {1..<NSIG}" using assms unfolding d [symmetric]
    by (auto simp: sig_ok_def deliverable_set_def)
  have d0: "d = 0 \<longleftrightarrow> {n. bit d n} = {}" using bit_less_length [of d] by (auto simp: bit_eq_iff)
  have f: "find (\<lambda>n. bit d n) [1..<NSIG] = Some (Min D)" if D: "D = {n. bit d n}" "D \<noteq> {}" for D
  proof (rule find_upt_least)
    have fin: "finite D" using finite_subset [OF range] D by simp
    have m: "Min D \<in> D" using Min_in [OF fin D(2)] .
    then show "1 \<le> Min D" "Min D < NSIG" "bit d (Min D)" using D range by auto
    show "\<not> bit d j" if "j < Min D" for j using Min_le [OF fin, of j] that D(1) by (auto simp: not_le [symmetric])
  qed
  have "has_pending_signal s = (if d = 0 then None else map_option of_nat (find (\<lambda>n. bit d n) [1..<NSIG]))"
    by (simp only: has_pending_signal_def Let_def d_def unat_signals and_shift_eq_0 not_not)
  then show ?thesis using d0 f [OF d] d by auto
qed

lemma deliverable_clear:
  assumes "unat k < NSIG"
  shows "deliverable_set (clear_signal s k) = deliverable_set s - {unat k}"
  using clear_signal_set [OF assms, of s] by (auto simp: deliverable_set_def blocked_set_def clear_signal_def)

lemma deliver_reaches:
  "sig_ok s \<Longrightarrow> n \<in> deliverable_set s \<Longrightarrow> card {m \<in> deliverable_set s. m \<le> n} \<le> k \<Longrightarrow>
   of_nat n \<in> set (deliver k s)"
proof (induction k arbitrary: s)
  case 0
  then show ?case by auto
next
  case (Suc k)
  define m where "m = Min (deliverable_set s)"
  have m: "m \<in> deliverable_set s" "m \<le> n" using Suc.prems(2) by (auto simp: m_def intro: Min_in)
  then have "m < NSIG" using Suc.prems(1) by (auto simp: sig_ok_def deliverable_set_def)
  then have u: "unat (of_nat m :: u32) = m" "unat (of_nat m :: u32) < NSIG"
    by (simp_all add: unat_of_nat_small NSIG_def)
  have p: "has_pending_signal s = Some (of_nat m)"
    using has_pending_Min [OF Suc.prems(1)] Suc.prems(2) by (auto simp: m_def)
  show ?case
  proof (cases "m = n")
    case False
    let ?s = "clear_signal s (of_nat m)"
    have "{j \<in> deliverable_set ?s. j \<le> n} = {j \<in> deliverable_set s. j \<le> n} - {m}"
      using deliverable_clear [OF u(2), of s] u(1) by auto
    then have "card {j \<in> deliverable_set ?s. j \<le> n} \<le> k" using Suc.prems(3) m by simp
    then have "of_nat n \<in> set (deliver k ?s)"
      using Suc.prems False deliverable_clear [OF u(2), of s] u(1)
      by (intro Suc.IH) (auto simp: sig_ok_masks)
    then show ?thesis by (simp add: p)
  qed (simp add: p)
qed

section \<open>Properties\<close>

text \<open>
  C38: The next signal is the lowest deliverable one.  In every state reached by any sequence of
  send, clear, block, unblock, set-action and exec-reset calls, \<open>has_pending_signal\<close> returns the
  least pending signal that is not blocked, where \<open>SIGKILL\<close> and \<open>SIGSTOP\<close> never count as blocked,
  and \<open>None\<close> exactly when there is no such signal.
\<close>

theorem signal_lowest_deliverable:
  "has_pending_signal (sig_run calls) =
    (if deliverable_set (sig_run calls) = {} then None
     else Some (of_nat (Min (deliverable_set (sig_run calls)))))"
  by (rule has_pending_Min [OF sig_ok_run])

text \<open>
  C27: \<open>SIGKILL\<close> and \<open>SIGSTOP\<close> cannot be blocked, caught or ignored.  Whatever calls a process has
  made, both keep their default action and are not in the blocked set; and once \<open>SIGKILL\<close> is sent,
  a client that keeps taking and clearing the reported signal receives it within nine deliveries.
\<close>

theorem signal_kill_always_delivered:
  "actions (sig_run calls) ! 9 = Default \<and> actions (sig_run calls) ! 19 = Default \<and>
   blocked_set (sig_run calls) \<inter> {9, 19} = {} \<and>
   SIGKILL \<in> set (deliver 9 (fst (send_signal (sig_run calls) SIGKILL)))"
proof -
  let ?s = "fst (send_signal (sig_run calls) SIGKILL)"
  note ok = sig_ok_run [of calls]
  have K: "(of_nat 9 :: u32) = SIGKILL" by (simp add: SIGKILL_def)
  have s: "sig_ok ?s" by (rule sig_ok_send [OF ok])
  have "9 \<in> pending_set ?s" using send_signal_set [of 9 "sig_run calls"] K by (auto simp: NSIG_def)
  then have d: "9 \<in> deliverable_set ?s" by (simp add: deliverable_set_def)
  have "{m \<in> deliverable_set ?s. m \<le> 9} \<subseteq> {1..9}" using s by (auto simp: sig_ok_def deliverable_set_def)
  then have "card {m \<in> deliverable_set ?s. m \<le> 9} \<le> 9" using card_mono [of "{1..9::nat}"] by fastforce
  then have "of_nat 9 \<in> set (deliver 9 ?s)" by (rule deliver_reaches [OF s d])
  then show ?thesis using ok K by (auto simp: sig_ok_def)
qed

end
