(* ===== verification/Cpu_Mask.thy ===== *)
theory Cpu_Mask
  imports Bit_Table
begin

text \<open>
  CPU affinity masks: \<open>CpuMask\<close> and its iterator, \<open>src/src/scheduler/types.rs\<close> lines 9 to 160.
  A mask is an array of sixteen words that stands for the set \<open>cm_members\<close> of CPU numbers; it
  interprets \<open>bit_table\<close>.  The iterator is the list of the values its \<open>next\<close> returns.
\<close>

section \<open>Masks\<close>

definition MAX_CPUS :: nat where "MAX_CPUS = 1024"

definition CPU_MASK_WORDS :: nat where "CPU_MASK_WORDS = 16"

record CpuMask =
  bits :: "u64 list"

definition CpuMask_empty :: CpuMask where
  "CpuMask_empty = \<lparr> bits = replicate CPU_MASK_WORDS 0 \<rparr>"

definition CpuMask_all :: CpuMask where
  "CpuMask_all = \<lparr> bits = replicate CPU_MASK_WORDS (- 1) \<rparr>"

definition CpuMask_from_u32 :: "u32 \<Rightarrow> CpuMask" where
  "CpuMask_from_u32 m32 = \<lparr> bits = (replicate CPU_MASK_WORDS 0)[0 := ucast m32] \<rparr>"

definition cm_set :: "CpuMask \<Rightarrow> nat \<Rightarrow> CpuMask" where
  "cm_set m cpu =
     (if cpu < MAX_CPUS then
        let w = cpu div 64; b = cpu mod 64 in m\<lparr> bits := (bits m)[w := bits m ! w OR one_shl b] \<rparr>
      else m)"

definition cm_clear :: "CpuMask \<Rightarrow> nat \<Rightarrow> CpuMask" where
  "cm_clear m cpu =
     (if cpu < MAX_CPUS then
        let w = cpu div 64; b = cpu mod 64 in m\<lparr> bits := (bits m)[w := bits m ! w AND NOT (one_shl b)] \<rparr>
      else m)"

definition cm_is_set :: "CpuMask \<Rightarrow> nat \<Rightarrow> bool" where
  "cm_is_set m cpu =
     (if MAX_CPUS \<le> cpu then False
      else let w = cpu div 64; b = cpu mod 64 in bits m ! w AND one_shl b \<noteq> 0)"

definition cm_is_empty :: "CpuMask \<Rightarrow> bool" where
  "cm_is_empty m = list_all (\<lambda>i. bits m ! i = 0) [0..<CPU_MASK_WORDS]"

definition cm_count :: "CpuMask \<Rightarrow> nat" where
  "cm_count m = sum_list (map (\<lambda>i. count_ones (bits m ! i)) [0..<CPU_MASK_WORDS])"

definition cm_first_set :: "CpuMask \<Rightarrow> nat option" where
  "cm_first_set m =
     map_option (\<lambda>i. i * 64 + trailing_zeros (bits m ! i)) (find (\<lambda>i. bits m ! i \<noteq> 0) [0..<CPU_MASK_WORDS])"

definition cm_as_u64 :: "CpuMask \<Rightarrow> u64" where
  "cm_as_u64 m = bits m ! 0"

lemma and_pred_less: "b \<noteq> 0 \<Longrightarrow> unat (b AND (b - 1)) < unat (b :: u64)"
proof -
  assume "b \<noteq> 0"
  have "unat (b AND (b - 1)) \<le> unat (b - 1)" using word_and_le1 [of b "b - 1"] by (simp add: word_le_nat_alt)
  also have "\<dots> < unat b" using \<open>b \<noteq> 0\<close> by (simp add: unat_sub word_le_nat_alt unat_gt_0 Suc_leI)
  finally show ?thesis .
qed

text \<open>
  The iterator with current word \<open>w\<close> and remaining bits \<open>b\<close>: skip empty words, otherwise yield the
  lowest set bit and clear it.
\<close>

function iter_from :: "u64 list \<Rightarrow> nat \<Rightarrow> u64 \<Rightarrow> nat list" where
  "iter_from ws w b =
     (if b = 0 then
        (if CPU_MASK_WORDS \<le> w + 1 then [] else iter_from ws (w + 1) (ws ! (w + 1)))
      else (w * 64 + trailing_zeros b) # iter_from ws w (b AND (b - 1)))"
  by pat_completeness auto

termination
  by (relation "measures [\<lambda>(ws, w, b). CPU_MASK_WORDS - w, \<lambda>(ws, w, b). unat b]") (auto simp: and_pred_less)

declare iter_from.simps [simp del]

definition iter_set :: "CpuMask \<Rightarrow> nat list" where
  "iter_set m = iter_from (bits m) 0 (bits m ! 0)"

section \<open>Masks as sets\<close>

definition cm_members :: "CpuMask \<Rightarrow> nat set" where
  "cm_members m = bm_members (bits m)"

definition cm_ok :: "CpuMask \<Rightarrow> bool" where
  "cm_ok m \<longleftrightarrow> length (bits m) = CPU_MASK_WORDS"

lemma cm_const_ok [simp]: "cm_ok CpuMask_empty" "cm_ok CpuMask_all" "cm_ok (CpuMask_from_u32 x)"
  by (simp_all add: cm_ok_def CpuMask_empty_def CpuMask_all_def CpuMask_from_u32_def)

lemma cm_members_empty: "cm_members CpuMask_empty = {}"
  by (auto simp: cm_members_def bm_members_def CpuMask_empty_def CPU_MASK_WORDS_def bm_index_lt div_less_iff_less_mult)

lemma cm_members_all: "cm_members CpuMask_all = {..<MAX_CPUS}"
  by (auto simp: cm_members_def bm_members_def CpuMask_all_def CPU_MASK_WORDS_def MAX_CPUS_def div_less_iff_less_mult)

interpretation cpu_bits: bit_table "{..<MAX_CPUS}" cm_ok cm_members cm_is_set cm_set cm_clear
proof (unfold_locales, goal_cases)
  case (1 m i)
  then show ?case by (auto simp: cm_is_set_def cm_ok_def cm_members_def bm_members_def MAX_CPUS_def CPU_MASK_WORDS_def)
next
  case (2 m i)
  then show ?case using bm_members_set [of i "bits m"]
    by (simp add: cm_set_def cm_ok_def cm_members_def MAX_CPUS_def CPU_MASK_WORDS_def Let_def)
next
  case (3 m i)
  then show ?case using bm_members_clear [of i "bits m"]
    by (simp add: cm_clear_def cm_ok_def cm_members_def MAX_CPUS_def CPU_MASK_WORDS_def Let_def)
qed

lemma cm_is_set_iff: "cm_ok m \<Longrightarrow> cm_is_set m i \<longleftrightarrow> i \<in> cm_members m"
  by (auto simp: cm_is_set_def cm_ok_def cm_members_def bm_members_def MAX_CPUS_def CPU_MASK_WORDS_def)

text \<open>Clearing the lowest set bit.\<close>

lemma bit_and_pred:
  assumes "b \<noteq> (0 :: u64)"
  shows "bit (b AND (b - 1)) n \<longleftrightarrow> bit b n \<and> n \<noteq> trailing_zeros b"
proof -
  define k where "k = trailing_zeros b"
  obtain j where j: "bit b j" using assms bit_eq_iff [of b 0] by auto
  then have k64: "k < 64" using trailing_zeros_le [OF j] bit_less_length [OF j] by (simp add: k_def)
  then have bk: "bit b k" using trailing_zeros_bit [of b] by (simp add: k_def)
  have low: "\<not> bit b i" if "i < k" for i using trailing_zeros_le [of b i] that by (auto simp: k_def)
  define h where "h = b AND NOT (one_shl k)"
  have h: "bit h i \<longleftrightarrow> bit b i \<and> i \<noteq> k" for i by (simp add: h_def)
  have "b = h OR one_shl k" by (rule bit_word_eqI) (use bk k64 in \<open>auto simp: h\<close>)
  also have "h OR one_shl k = h + one_shl k" by (rule disjunctive_add [symmetric]) (auto simp: h)
  finally have "b - 1 = h + (one_shl k - 1)" by (simp add: algebra_simps)
  also have "one_shl k - 1 = (mask k :: u64)" by (simp add: one_shl_def mask_eq_exp_minus_1 push_bit_eq_mult)
  also have "h + mask k = h OR mask k" by (rule disjunctive_add) (auto simp: h bit_mask_iff low)
  finally have "bit (b - 1) n \<longleftrightarrow> bit h n \<or> n < k \<and> n < 64" by (auto simp: bit_or_iff bit_mask_iff)
  then show ?thesis using low [of n] by (auto simp: bit_and_iff h k_def)
qed

definition from_word :: "u64 list \<Rightarrow> nat \<Rightarrow> nat set" where
  "from_word ws w = {i \<in> bm_members ws. w * 64 \<le> i}"

lemma from_word_split:
  "w < length ws \<Longrightarrow> from_word ws w = (\<lambda>n. w * 64 + n) ` {n. bit (ws ! w) n} \<union> from_word ws (w + 1)"
proof (intro set_eqI iffI)
  fix i
  assume w: "w < length ws" and i: "i \<in> from_word ws w"
  show "i \<in> (\<lambda>n. w * 64 + n) ` {n. bit (ws ! w) n} \<union> from_word ws (w + 1)"
  proof (cases "(w + 1) * 64 \<le> i")
    case False
    then have "i div 64 = w" using i by (auto simp: from_word_def intro!: div_nat_eqI)
    then have "i = w * 64 + i mod 64" "bit (ws ! w) (i mod 64)" using i by (auto simp: from_word_def bm_members_def)
    then show ?thesis by blast
  qed (use i in \<open>simp add: from_word_def\<close>)
next
  fix i
  assume w: "w < length ws" and i: "i \<in> (\<lambda>n. w * 64 + n) ` {n. bit (ws ! w) n} \<union> from_word ws (w + 1)"
  then show "i \<in> from_word ws w"
  proof (elim UnE imageE CollectE)
    fix n
    assume n: "i = w * 64 + n" "bit (ws ! w) n"
    then have "n < 64" using bit_less_length [OF n(2)] by simp
    then show ?thesis using n w by (simp add: from_word_def bm_members_def)
  qed (simp add: from_word_def)
qed

lemma from_word_end: "length ws \<le> w \<Longrightarrow> from_word ws w = {}"
  by (auto simp: from_word_def bm_members_def)

lemma iter_from_spec:
  "length ws = CPU_MASK_WORDS \<Longrightarrow> w < CPU_MASK_WORDS \<Longrightarrow>
    set (iter_from ws w b) = (\<lambda>n. w * 64 + n) ` {n. bit b n} \<union> from_word ws (w + 1) \<and>
    sorted_wrt (<) (iter_from ws w b)"
proof (induction ws w b rule: iter_from.induct)
  case (1 ws w b)
  show ?case
  proof (cases "b = 0")
    case True
    show ?thesis
    proof (cases "CPU_MASK_WORDS \<le> w + 1")
      case False
      have it: "iter_from ws w b = iter_from ws (w + 1) (ws ! (w + 1))"
        using iter_from.simps [of ws w b] True False by simp
      show ?thesis using 1(1) [OF True False 1(3)] from_word_split [of "w + 1" ws] 1(3) True False
        unfolding it by simp
    qed (use True 1 in \<open>simp add: iter_from.simps [of ws w 0] from_word_end\<close>)
  next
    case False
    let ?k = "trailing_zeros b"
    note IH = 1(2) [OF False 1(3,4)]
    have it: "iter_from ws w b = (w * 64 + ?k) # iter_from ws w (b AND (b - 1))"
      using False by (simp add: iter_from.simps [of ws w b])
    obtain j where j: "bit b j" using False bit_eq_iff [of b 0] by auto
    have k: "bit b ?k" "?k < 64"
      using trailing_zeros_le [OF j] bit_less_length [OF j] trailing_zeros_bit [of b] by simp_all
    have rest: "{n. bit (b AND (b - 1)) n} = {n. bit b n} - {?k}" using bit_and_pred [OF False] by blast
    have "w * 64 + ?k < i" if "i \<in> set (iter_from ws w (b AND (b - 1)))" for i
    proof -
      from that IH have "i \<in> (\<lambda>n. w * 64 + n) ` ({n. bit b n} - {?k}) \<union> from_word ws (w + 1)"
        unfolding rest by blast
      then show ?thesis using trailing_zeros_le [of b] k by (force simp: from_word_def le_less)
    qed
    moreover have "insert ?k ({n. bit b n} - {?k}) = {n. bit b n}" using k by blast
    then have "(\<lambda>n. w * 64 + n) ` {n. bit b n} = insert (w * 64 + ?k) ((\<lambda>n. w * 64 + n) ` ({n. bit b n} - {?k}))"
      by (metis image_insert)
    ultimately show ?thesis using IH unfolding it rest by simp
  qed
qed

lemma cm_members_from_word: "cm_members m = from_word (bits m) 0"
  by (simp add: cm_members_def from_word_def)

lemma iter_set_spec:
  assumes "cm_ok m"
  shows "set (iter_set m) = cm_members m" "sorted_wrt (<) (iter_set m)"
proof -
  have l: "length (bits m) = CPU_MASK_WORDS" "0 < CPU_MASK_WORDS" "0 < length (bits m)"
    using assms by (simp_all add: cm_ok_def CPU_MASK_WORDS_def)
  show "set (iter_set m) = cm_members m" "sorted_wrt (<) (iter_set m)"
    using iter_from_spec [OF l(1,2), of "bits m ! 0"] from_word_split [OF l(3)]
    by (simp_all add: iter_set_def cm_members_from_word)
qed

lemma finite_cm_members [simp]: "finite (cm_members m)"
  by (simp add: cm_members_def)

lemma cm_is_empty_iff:
  assumes "cm_ok m"
  shows "cm_is_empty m \<longleftrightarrow> cm_members m = {}"
proof
  assume "cm_is_empty m"
  then show "cm_members m = {}" using assms
    by (auto simp: cm_is_empty_def cm_members_def bm_members_def cm_ok_def list_all_iff bm_index_lt div_less_iff_less_mult)
next
  assume e: "cm_members m = {}"
  have "bits m ! i = 0" if "i < CPU_MASK_WORDS" for i
  proof (rule bit_word_eqI)
    fix n
    assume "n < LENGTH(64)"
    then show "bit (bits m ! i) n = bit (0 :: u64) n"
      using from_word_split [of i "bits m"] e that assms by (auto simp: cm_members_def from_word_def cm_ok_def)
  qed
  then show "cm_is_empty m" by (simp add: cm_is_empty_def list_all_iff)
qed

lemma cm_member_word:
  assumes "cm_ok m" "i < CPU_MASK_WORDS" "bit (bits m ! i) n"
  shows "i * 64 + n \<in> cm_members m"
  using assms bit_less_length [OF assms(3)] by (auto simp: cm_members_def bm_members_def cm_ok_def)

lemma cm_member_nonzero:
  assumes "cm_ok m" "j \<in> cm_members m"
  shows "j div 64 < CPU_MASK_WORDS" "bit (bits m ! (j div 64)) (j mod 64)" "bits m ! (j div 64) \<noteq> 0"
  using assms by (auto simp: cm_members_def bm_members_def cm_ok_def bm_index_lt CPU_MASK_WORDS_def div_less_iff_less_mult)

lemma cm_first_set_Min:
  assumes "cm_ok m"
  shows "cm_first_set m = (if cm_members m = {} then None else Some (Min (cm_members m)))"
proof (cases "cm_members m = {}")
  case True
  then show ?thesis using cm_is_empty_iff [OF assms]
    by (auto simp: cm_first_set_def cm_is_empty_def list_all_iff find_None_iff)
next
  case False
  then obtain j where j: "j \<in> cm_members m" by blast
  define P where "P i \<longleftrightarrow> bits m ! i \<noteq> 0" for i
  define i where "i = (LEAST i. P i)"
  have Pj: "P (j' div 64)" if "j' \<in> cm_members m" for j' using cm_member_nonzero(3) [OF assms that] by (simp add: P_def)
  have i: "P i" "i \<le> j' div 64" if "j' \<in> cm_members m" for j'
    using LeastI [of P, OF Pj [OF that]] Least_le [of P, OF Pj [OF that]] by (simp_all add: i_def)
  have lt: "i < CPU_MASK_WORDS" using i(2) [OF j] cm_member_nonzero(1) [OF assms j] by simp
  have "find P [0..<CPU_MASK_WORDS] = Some i"
  proof (rule find_upt_least)
    show "\<not> P j'" if "j' < i" for j' using not_less_Least [of j' P] that by (simp add: i_def)
  qed (use lt i(1) [OF j] in simp_all)
  then have f: "cm_first_set m = Some (i * 64 + trailing_zeros (bits m ! i))"
    by (simp add: cm_first_set_def P_def [abs_def])
  obtain n where n: "bit (bits m ! i) n" using i(1) [OF j] bit_eq_iff [of "bits m ! i" 0] by (auto simp: P_def)
  let ?z = "trailing_zeros (bits m ! i)"
  have z: "bit (bits m ! i) ?z" "?z < 64"
    using trailing_zeros_le [OF n] bit_less_length [OF n] trailing_zeros_bit [of "bits m ! i"] by simp_all
  have "Min (cm_members m) = i * 64 + ?z"
  proof (rule Min_eqI)
    show "i * 64 + ?z \<in> cm_members m" by (rule cm_member_word [OF assms lt z(1)])
    fix y
    assume y: "y \<in> cm_members m"
    show "i * 64 + ?z \<le> y"
    proof (cases "y div 64 = i")
      case True
      then have "?z \<le> y mod 64" using trailing_zeros_le cm_member_nonzero(2) [OF assms y] by blast
      then show ?thesis using True div_mult_mod_eq [of y 64] by linarith
    next
      case False
      then have "i + 1 \<le> y div 64" using i(2) [OF y] by simp
      then have "(i + 1) * 64 \<le> y" by (simp add: le_div_geq less_eq_div_iff_mult_less_eq)
      then show ?thesis using z(2) by simp
    qed
  qed simp
  then show ?thesis using f False by simp
qed

lemma card_from_word:
  "w \<le> length ws \<Longrightarrow> card (from_word ws w) = sum_list (map (\<lambda>i. count_ones (ws ! i)) [w..<length ws])"
proof (induction "length ws - w" arbitrary: w)
  case 0
  then show ?case by (simp add: from_word_end)
next
  case (Suc k)
  then have w: "w < length ws" by simp
  have "(\<lambda>n. w * 64 + n) ` {n. bit (ws ! w) n} \<inter> from_word ws (w + 1) = {}"
    using bit_less_length [of "ws ! w"] by (fastforce simp: from_word_def)
  moreover have "card ((\<lambda>n. w * 64 + n) ` {n. bit (ws ! w) n}) = count_ones (ws ! w)"
    by (simp add: card_image inj_on_def count_ones_card)
  moreover have "finite {n. bit (ws ! w) n}"
    by (rule finite_subset [of _ "{..<64}"]) (use bit_less_length [of "ws ! w"] in auto)
  moreover have "finite (from_word ws (w + 1))" by (simp add: from_word_def)
  ultimately have "card (from_word ws w) = count_ones (ws ! w) + card (from_word ws (w + 1))"
    using from_word_split [OF w] by (simp add: card_Un_disjoint)
  moreover have "card (from_word ws (w + 1)) = sum_list (map (\<lambda>i. count_ones (ws ! i)) [w + 1..<length ws])"
    using Suc(2) w by (intro Suc(1)) simp_all
  ultimately show ?case using w by (simp add: upt_conv_Cons)
qed

lemma cm_count_card: "cm_ok m \<Longrightarrow> cm_count m = card (cm_members m)"
  using card_from_word [of 0 "bits m"] by (simp add: cm_count_def cm_ok_def cm_members_from_word)

section \<open>Properties\<close>

text \<open>
  CPU masks are sets of CPU numbers.  On a well-formed mask, counting, emptiness, the first set
  CPU and the iterator agree with the set the mask stands for: the iterator yields every member
  exactly once in ascending order, and after any sequence of \<open>set\<close> and \<open>clear\<close> on valid CPUs the
  last operation on a CPU decides whether it is in the mask.
\<close>

theorem cpu_mask_is_set:
  assumes "cm_ok m"
  shows "set (iter_set m) = cm_members m \<and> sorted_wrt (<) (iter_set m) \<and> cm_count m = card (cm_members m) \<and>
    (cm_is_empty m \<longleftrightarrow> cm_members m = {}) \<and>
    cm_first_set m = (if cm_members m = {} then None else Some (Min (cm_members m))) \<and>
    (bit_index ` set ops \<subseteq> {..<MAX_CPUS} \<longrightarrow> cpu < MAX_CPUS \<longrightarrow>
      cm_is_set (bit_run cm_set cm_clear m ops) cpu =
        (case filter (\<lambda>op. bit_index op = cpu) (rev ops) of [] \<Rightarrow> cm_is_set m cpu | op # _ \<Rightarrow> op = BSet cpu))"
  using iter_set_spec [OF assms] cm_count_card [OF assms] cm_is_empty_iff [OF assms] cm_first_set_Min [OF assms]
    cpu_bits.last_operation_wins [OF assms, of ops cpu] by simp

theorem cpu_mask_is_set_witness:
  "cm_ok CpuMask_all \<and> set (iter_set CpuMask_all) = cm_members CpuMask_all \<and>
   cm_count CpuMask_all = card (cm_members CpuMask_all) \<and>
   \<not> cm_is_set (bit_run cm_set cm_clear CpuMask_all [BClear 5, BSet 700]) 5"
  using cpu_mask_is_set [of CpuMask_all "[BClear 5, BSet 700]" 5] by (simp add: MAX_CPUS_def)

end
