(* ===== verification/Sched_Types.thy ===== *)
theory Sched_Types
  imports Cpu_Mask Signal_State
begin

text \<open>
  The data of the process and scheduler subsystems: \<open>src/src/process/types.rs\<close>, the
  \<open>ProcessEntry\<close>, \<open>SchedPolicy\<close> and \<open>SchedulerStats\<close> types, the constants and the nice-to-weight
  table of \<open>src/src/scheduler/types.rs\<close>, and \<open>NumaPolicy\<close> of \<open>src/src/mm/numa.rs\<close>.  Signed fields
  (\<open>lag: i64\<close>, \<open>nice: i8\<close>, exit codes) are integers.
\<close>

section \<open>Processes\<close>

datatype ProcessState = Ready | Running | Sleeping | Zombie

definition MAX_PROCESSES :: nat where "MAX_PROCESSES = 64"

definition MAX_CMDLINE_SIZE :: nat where "MAX_CMDLINE_SIZE = 1024"

definition KERNEL_STACK_SIZE :: u64 where "KERNEL_STACK_SIZE = 32768"

record Context =
  cx_r15 :: u64
  cx_r14 :: u64
  cx_r13 :: u64
  cx_r12 :: u64
  cx_r11 :: u64
  cx_r10 :: u64
  cx_r9 :: u64
  cx_r8 :: u64
  cx_rsi :: u64
  cx_rdi :: u64
  cx_rbp :: u64
  cx_rdx :: u64
  cx_rcx :: u64
  cx_rbx :: u64
  cx_rax :: u64
  cx_rip :: u64
  cx_rsp :: u64
  cx_rflags :: u64

definition Context_zero :: Context where
  "Context_zero = \<lparr> cx_r15 = 0, cx_r14 = 0, cx_r13 = 0, cx_r12 = 0, cx_r11 = 0, cx_r10 = 0, cx_r9 = 0,
     cx_r8 = 0, cx_rsi = 0, cx_rdi = 0, cx_rbp = 0, cx_rdx = 0, cx_rcx = 0, cx_rbx = 0, cx_rax = 0,
     cx_rip = 0, cx_rsp = 0, cx_rflags = 0x202 \<rparr>"

record Process =
  pid :: Pid
  ppid :: Pid
  tgid :: Pid
  p_state :: ProcessState
  entry_point :: u64
  stack_top :: u64
  heap_start :: u64
  heap_end :: u64
  signal_state :: SignalState
  p_context :: Context
  has_entered_user :: bool
  context_valid :: bool
  is_fork_child :: bool
  is_thread :: bool
  cr3 :: u64
  tty :: nat
  memory_base :: u64
  memory_size :: u64
  user_rip :: u64
  user_rsp :: u64
  user_rflags :: u64
  user_r10 :: u64
  user_r8 :: u64
  user_r9 :: u64
  exit_code :: int
  term_signal :: "int option"
  kernel_stack :: u64
  fs_base :: u64
  clear_child_tid :: u64
  cmdline :: "u8 list"
  cmdline_len :: nat
  open_fds :: u16
  exec_pending :: bool
  exec_entry :: u64
  exec_stack :: u64
  exec_user_data_sel :: u64
  wake_pending :: bool

text \<open>The loop over \<open>argv\<close>: buffer and position, leaving at the first argument that does not fit.\<close>

fun build_cmdline_loop :: "u8 list list \<Rightarrow> u8 list \<Rightarrow> nat \<Rightarrow> u8 list \<times> nat" where
  "build_cmdline_loop [] buffer pos = (buffer, pos)"
| "build_cmdline_loop (arg # argv) buffer pos =
     (if MAX_CMDLINE_SIZE < pos + length arg + 1 then (buffer, pos)
      else let buffer1 = take pos buffer @ arg @ drop (pos + length arg) buffer;
               pos1 = pos + length arg
        in build_cmdline_loop argv (buffer1[pos1 := 0]) (pos1 + 1))"

definition build_cmdline :: "u8 list list \<Rightarrow> u8 list \<times> nat" where
  "build_cmdline argv =
     (case build_cmdline_loop argv (replicate MAX_CMDLINE_SIZE 0) 0 of (buffer, pos) \<Rightarrow>
        (if pos < MAX_CMDLINE_SIZE then buffer[pos := 0] else buffer, pos))"

section \<open>Scheduling constants and weights\<close>

definition SCHED_GRANULARITY_NS :: u64 where "SCHED_GRANULARITY_NS = 2000000"

definition MIN_PREEMPT_GRANULARITY_NS :: u64 where "MIN_PREEMPT_GRANULARITY_NS = 2000000"

definition BASE_SLICE_NS :: u64 where "BASE_SLICE_NS = 4000000"

definition MAX_SLICE_NS :: u64 where "MAX_SLICE_NS = 100000000"

definition DEFAULT_TIME_SLICE :: u64 where "DEFAULT_TIME_SLICE = 4"

definition NICE_0_WEIGHT :: u64 where "NICE_0_WEIGHT = 1024"

definition NICE_TO_WEIGHT :: "u64 list" where
  "NICE_TO_WEIGHT =
    [88761, 71755, 56483, 46273, 36291, 29154, 23254, 18705, 14949, 11916,
     9548, 7620, 6100, 4904, 3906, 3121, 2501, 1991, 1586, 1277,
     1024, 820, 655, 526, 423, 335, 272, 215, 172, 137,
     110, 87, 70, 56, 45, 36, 29, 23, 18, 15]"

text \<open>The clamped table index of a nice value.\<close>

definition nice_index :: "int \<Rightarrow> nat" where
  "nice_index n = (let idx = n + 20 in if idx < 0 then 0 else if 39 < idx then 39 else nat idx)"

definition nice_to_weight :: "int \<Rightarrow> u64" where
  "nice_to_weight n = NICE_TO_WEIGHT ! nice_index n"

datatype SchedPolicy = Normal | Realtime | Batch | Idle

definition NUMA_NO_NODE :: u32 where "NUMA_NO_NODE = 0xFFFFFFFF"

datatype NumaPolicy = Local | Bind u32 | Interleave | Preferred u32

record ProcessEntry =
  process :: Process
  vruntime :: u64
  vdeadline :: u64
  lag :: int
  weight :: u64
  slice_ns :: u64
  slice_remaining_ns :: u64
  priority :: u8
  base_priority :: u8
  time_slice :: u64
  total_time :: u64
  wait_time :: u64
  last_scheduled :: u64
  cpu_burst_count :: u64
  avg_cpu_burst :: u64
  policy :: SchedPolicy
  nice :: int
  quantum_level :: u8
  preempt_count :: u64
  voluntary_switches :: u64
  cpu_affinity :: CpuMask
  last_cpu :: u16
  numa_preferred_node :: u32
  numa_policy :: NumaPolicy

definition Process_empty :: Process where
  "Process_empty = \<lparr> pid = 0, ppid = 0, tgid = 0, p_state = Ready, entry_point = 0, stack_top = 0,
     heap_start = 0, heap_end = 0, signal_state = SignalState_new, p_context = Context_zero,
     has_entered_user = False, context_valid = False, is_fork_child = False, is_thread = False, cr3 = 0,
     tty = 0, memory_base = 0, memory_size = 0, user_rip = 0, user_rsp = 0, user_rflags = 0, user_r10 = 0,
     user_r8 = 0, user_r9 = 0, exit_code = 0, term_signal = None, kernel_stack = 0, fs_base = 0,
     clear_child_tid = 0, cmdline = replicate MAX_CMDLINE_SIZE 0, cmdline_len = 0, open_fds = 0,
     exec_pending = False, exec_entry = 0, exec_stack = 0, exec_user_data_sel = 0, wake_pending = False \<rparr>"

definition ProcessEntry_empty :: ProcessEntry where
  "ProcessEntry_empty = \<lparr> process = Process_empty, vruntime = 0, vdeadline = 0, lag = 0,
     weight = NICE_0_WEIGHT, slice_ns = BASE_SLICE_NS, slice_remaining_ns = BASE_SLICE_NS, priority = 128,
     base_priority = 128, time_slice = DEFAULT_TIME_SLICE, total_time = 0, wait_time = 0,
     last_scheduled = 0, cpu_burst_count = 0, avg_cpu_burst = 0, policy = Normal, nice = 0,
     quantum_level = 0, preempt_count = 0, voluntary_switches = 0, cpu_affinity = CpuMask_all,
     last_cpu = 0, numa_preferred_node = NUMA_NO_NODE, numa_policy = Local \<rparr>"

record SchedulerStats =
  total_context_switches :: u64
  total_preemptions :: u64
  total_voluntary_switches :: u64
  idle_time :: u64
  last_idle_start :: u64
  load_balance_count :: u64
  migration_count :: u64

definition SchedulerStats_new :: SchedulerStats where
  "SchedulerStats_new = \<lparr> total_context_switches = 0, total_preemptions = 0, total_voluntary_switches = 0,
     idle_time = 0, last_idle_start = 0, load_balance_count = 0, migration_count = 0 \<rparr>"

section \<open>Facts on the weights\<close>

lemma nice_index_lt [simp]: "nice_index n < 40"
  by (auto simp: nice_index_def Let_def)

lemma nice_index_id: "- 20 \<le> n \<Longrightarrow> n \<le> 19 \<Longrightarrow> nice_index n = nat (n + 20)"
  by (simp add: nice_index_def)

lemma length_NICE_TO_WEIGHT [simp]: "length NICE_TO_WEIGHT = 40"
  by (simp add: NICE_TO_WEIGHT_def)

lemma NICE_TO_WEIGHT_bounds: "\<forall>w \<in> set NICE_TO_WEIGHT. 15 \<le> w \<and> w \<le> 88761"
  by (simp add: NICE_TO_WEIGHT_def)

lemma nice_to_weight_bounds: "15 \<le> nice_to_weight n" "nice_to_weight n \<le> 88761"
  using NICE_TO_WEIGHT_bounds nth_mem [of "nice_index n" NICE_TO_WEIGHT] by (auto simp: nice_to_weight_def)

lemma nice_to_weight_pos [simp]: "nice_to_weight n \<noteq> 0"
  using nice_to_weight_bounds(1) [of n] by auto

end
