(* ===== verification/Sched_Priority.thy ===== *)
theory Sched_Priority
  imports Sched_Types "HOL-Library.Signed_Division"
begin

text \<open>
  EEVDF arithmetic and policy operations: \<open>src/src/scheduler/priority.rs\<close>.  The process table is a
  list of optional entries; an operation that takes \<open>PROCESS_TABLE.lock()\<close> for its whole body is a
  function on that list.  Where one such operation calls another while it still holds the lock,
  the lock is explicit and \<open>None\<close> is the spin that never ends.  A product computed in \<open>u128\<close> is a
  product of naturals; plain \<open>i64\<close> and \<open>i8\<close> arithmetic wraps.
\<close>

type_synonym proc_table = "ProcessEntry option list"

section \<open>Virtual time\<close>

definition INV_WEIGHT :: "u64 list" where
  "INV_WEIGHT =
    [48388, 59856, 76040, 92818, 118348, 147320, 184698, 229616, 287308, 360437,
     449829, 563644, 704093, 875809, 1099582, 1376151, 1717300, 2157191, 2708050, 3363326,
     4194304, 5237765, 6557202, 8165337, 10153587, 12820798, 15790321, 19976592, 24970740, 31350126,
     39045157, 49367440, 61356676, 76695844, 95443717, 119304647, 148102320, 186737708, 238609294,
     286331153]"

definition nice_to_inv_weight :: "int \<Rightarrow> u64" where
  "nice_to_inv_weight n = INV_WEIGHT ! nice_index n"

definition ms_to_ns :: "u64 \<Rightarrow> u64" where
  "ms_to_ns ms = ms * 1000000"

definition ns_to_ms :: "u64 \<Rightarrow> u64" where
  "ns_to_ms ns = ns div 1000000"

definition calculate_time_slice :: "u8 \<Rightarrow> u64" where
  "calculate_time_slice quantum = ns_to_ms BASE_SLICE_NS"

definition calc_delta_vruntime :: "u64 \<Rightarrow> u64 \<Rightarrow> u64" where
  "calc_delta_vruntime delta_exec_ns w =
     (if w = 0 then delta_exec_ns else of_nat (unat delta_exec_ns * unat NICE_0_WEIGHT div unat w))"

definition calc_delta_vruntime_fast :: "u64 \<Rightarrow> int \<Rightarrow> u64" where
  "calc_delta_vruntime_fast delta_exec_ns n =
     of_nat (drop_bit 32 (unat delta_exec_ns * unat NICE_0_WEIGHT * unat (nice_to_inv_weight n)))"

definition calc_vdeadline :: "u64 \<Rightarrow> u64 \<Rightarrow> u64 \<Rightarrow> u64" where
  "calc_vdeadline vrt slc w =
     (if w = 0 then saturating_add vrt slc
      else let delta = of_nat (unat slc * unat NICE_0_WEIGHT div unat w) in saturating_add vrt delta)"

definition calc_vdeadline_fast :: "u64 \<Rightarrow> u64 \<Rightarrow> int \<Rightarrow> u64" where
  "calc_vdeadline_fast vrt slc n =
     (let delta = of_nat (drop_bit 32 (unat slc * unat NICE_0_WEIGHT * unat (nice_to_inv_weight n)))
      in saturating_add vrt delta)"

definition is_eligible :: "ProcessEntry \<Rightarrow> bool" where
  "is_eligible e \<longleftrightarrow> 0 \<le> lag e"

definition is_nearly_eligible :: "ProcessEntry \<Rightarrow> bool" where
  "is_nearly_eligible e \<longleftrightarrow> - 1000000 \<le> lag e"

definition is_wakeup_eligible :: "ProcessEntry \<Rightarrow> bool" where
  "is_wakeup_eligible e \<longleftrightarrow> - 500000 \<le> lag e"

definition calculate_dynamic_priority :: "u8 \<Rightarrow> u64 \<Rightarrow> u64 \<Rightarrow> int \<Rightarrow> u8" where
  "calculate_dynamic_priority base wait cpu n = of_int ((n + 20) * 255 sdiv 39)"

text \<open>The minimum over the live entries; the lock is taken by the function itself.\<close>

definition live_vruntimes :: "proc_table \<Rightarrow> u64 list" where
  "live_vruntimes table = [vruntime e. Some e \<leftarrow> table, p_state (process e) \<noteq> Zombie]"

definition update_min_vruntime :: "bool \<Rightarrow> proc_table \<Rightarrow> u64 \<Rightarrow> u64 option" where
  "update_min_vruntime table_locked table MIN_VRUNTIME =
     (if table_locked then None
      else let min_vrt = foldl (\<lambda>m v. if v < m then v else m) (- 1) (live_vruntimes table)
        in Some (if min_vrt \<noteq> - 1 then min_vrt else MIN_VRUNTIME))"

definition place_entity :: "u64 \<Rightarrow> ProcessEntry \<Rightarrow> bool \<Rightarrow> ProcessEntry" where
  "place_entity min_vrt e is_new =
     (let e1 = (if is_new then e\<lparr> vruntime := min_vrt, lag := 0 \<rparr>
                else if vruntime e < min_vrt
                then let credit = BASE_SLICE_NS div 2 in e\<lparr> vruntime := saturating_sub min_vrt credit \<rparr>
                else e)
      in e1\<lparr> vdeadline := calc_vdeadline (vruntime e1) (slice_ns e1) (weight e1) \<rparr>)"

definition update_curr :: "ProcessEntry \<Rightarrow> u64 \<Rightarrow> ProcessEntry" where
  "update_curr e delta_exec_ns =
     (let delta_vrt = calc_delta_vruntime delta_exec_ns (weight e);
          remaining = saturating_sub (slice_remaining_ns e) delta_exec_ns
      in e\<lparr> vruntime := saturating_add (vruntime e) delta_vrt,
            slice_remaining_ns := remaining,
            lag := sat_i64 (lag e - sint delta_vrt),
            total_time := saturating_add (total_time e) (ns_to_ms delta_exec_ns),
            time_slice := ns_to_ms remaining \<rparr>)"

section \<open>Preemption and slices\<close>

text \<open>The loop of \<open>check_preempt_curr\<close> over the slots.\<close>

fun preempt_scan :: "ProcessEntry \<Rightarrow> proc_table \<Rightarrow> bool" where
  "preempt_scan cur [] = False"
| "preempt_scan cur (None # slots) = preempt_scan cur slots"
| "preempt_scan cur (Some e # slots) =
     (if p_state (process e) \<noteq> Ready then preempt_scan cur slots
      else if pid (process e) = pid (process cur) then preempt_scan cur slots
      else if policy e = Realtime \<and> policy cur \<noteq> Realtime then True
      else if is_eligible e \<and> vdeadline e < vdeadline cur \<and>
        SCHED_GRANULARITY_NS < saturating_sub (vdeadline cur) (vdeadline e) then True
      else preempt_scan cur slots)"

definition check_preempt_curr :: "ProcessEntry \<Rightarrow> proc_table \<Rightarrow> bool" where
  "check_preempt_curr cur table =
     (if slice_remaining_ns cur = 0 then True
      else if policy cur = Realtime then False
      else preempt_scan cur table)"

fun base_slice :: "SchedPolicy \<Rightarrow> u64" where
  "base_slice Realtime = BASE_SLICE_NS * 2"
| "base_slice Normal = BASE_SLICE_NS"
| "base_slice Batch = BASE_SLICE_NS * 4"
| "base_slice Idle = BASE_SLICE_NS"

definition grown_slice :: "ProcessEntry \<Rightarrow> u64" where
  "grown_slice e =
     (let prev_slice = slice_ns e in
      if prev_slice = 0 then base_slice (policy e)
      else if 0 < voluntary_switches e then base_slice (policy e)
      else min (prev_slice * 2) MAX_SLICE_NS)"

definition nice_slice :: "int \<Rightarrow> u64 \<Rightarrow> u64" where
  "nice_slice n slc =
     (if n < 0 then let boost = of_int (- n) * slc div 80 in min (slc + boost) MAX_SLICE_NS
      else if 0 < n then let reduction = of_int n * slc div 80 in max (saturating_sub slc reduction) SCHED_GRANULARITY_NS
      else slc)"

definition replenish_slice :: "ProcessEntry \<Rightarrow> ProcessEntry" where
  "replenish_slice e =
     (let slc = nice_slice (nice e) (grown_slice e)
      in e\<lparr> voluntary_switches := 0, slice_ns := slc, slice_remaining_ns := slc,
            time_slice := ns_to_ms slc, vdeadline := calc_vdeadline (vruntime e) slc (weight e) \<rparr>)"

definition boost_entry :: "ProcessEntry \<Rightarrow> ProcessEntry" where
  "boost_entry e =
     (if p_state (process e) = Zombie then e
      else let e1 = e\<lparr> lag := 0 \<rparr> in if slice_remaining_ns e1 = 0 then replenish_slice e1 else e1)"

text \<open>The guard of the first lock lives to the end of the function.\<close>

definition boost_all_priorities :: "proc_table \<Rightarrow> u64 \<Rightarrow> (proc_table \<times> u64) option" where
  "boost_all_priorities table MIN_VRUNTIME =
     (let table' = map (map_option boost_entry) table
      in case update_min_vruntime True table' MIN_VRUNTIME of
           None \<Rightarrow> None
         | Some m \<Rightarrow> Some (table', m))"

section \<open>Policy and nice values\<close>

text \<open>The first slot whose entry has the given PID.\<close>

definition has_pid :: "Pid \<Rightarrow> ProcessEntry option \<Rightarrow> bool" where
  "has_pid p slot = (case slot of None \<Rightarrow> False | Some e \<Rightarrow> pid (process e) = p)"

definition pid_slot :: "proc_table \<Rightarrow> Pid \<Rightarrow> nat option" where
  "pid_slot table p = find_slot (has_pid p) table"

definition upd_entry :: "(ProcessEntry \<Rightarrow> ProcessEntry) \<Rightarrow> nat \<Rightarrow> proc_table \<Rightarrow> proc_table" where
  "upd_entry f i table = modify_nth i (map_option f) table"

definition with_policy :: "SchedPolicy \<Rightarrow> int \<Rightarrow> ProcessEntry \<Rightarrow> ProcessEntry" where
  "with_policy pol n e =
     (let nice' = clamp n (- 20) 19; w = nice_to_weight nice'
      in e\<lparr> policy := pol, nice := nice', weight := w, vdeadline := calc_vdeadline (vruntime e) (slice_ns e) w,
            priority := calculate_dynamic_priority (base_priority e) 0 0 nice' \<rparr>)"

definition set_process_policy :: "proc_table \<Rightarrow> Pid \<Rightarrow> SchedPolicy \<Rightarrow> int \<Rightarrow> proc_table \<times> (unit, string) result" where
  "set_process_policy table p pol n =
     (case pid_slot table p of
        Some i \<Rightarrow> (upd_entry (with_policy pol n) i table, Ok ())
      | None \<Rightarrow> (table, Err ''Process not found''))"

definition get_process_sched_info :: "proc_table \<Rightarrow> Pid \<Rightarrow> (u8 \<times> u8 \<times> SchedPolicy \<times> int \<times> u64 \<times> u64) option" where
  "get_process_sched_info table p =
     map_option (\<lambda>i. let e = the (table ! i) in (priority e, 0, policy e, nice e, total_time e, wait_time e))
       (pid_slot table p)"

definition with_nice_delta :: "int \<Rightarrow> ProcessEntry \<Rightarrow> ProcessEntry" where
  "with_nice_delta d e =
     (let nice' = clamp (wrap_i8 (nice e + d)) (- 20) 19; w = nice_to_weight nice'
      in e\<lparr> nice := nice', weight := w, priority := calculate_dynamic_priority (base_priority e) 0 0 nice',
            vdeadline := calc_vdeadline (vruntime e) (slice_ns e) w \<rparr>)"

definition adjust_process_priority :: "proc_table \<Rightarrow> Pid \<Rightarrow> int \<Rightarrow> proc_table \<times> (int, string) result" where
  "adjust_process_priority table p nice_delta =
     (case pid_slot table p of
        Some i \<Rightarrow> (upd_entry (with_nice_delta nice_delta) i table,
                   Ok (nice (with_nice_delta nice_delta (the (table ! i)))))
      | None \<Rightarrow> (table, Err ''Process not found''))"

definition runnable :: "ProcessEntry \<Rightarrow> bool" where
  "runnable e \<longleftrightarrow> p_state (process e) = Ready \<or> p_state (process e) = Running"

definition total_weight :: "proc_table \<Rightarrow> u64" where
  "total_weight table = sum_list [weight e. Some e \<leftarrow> table, runnable e]"

definition age_entry :: "u64 \<Rightarrow> u64 \<Rightarrow> ProcessEntry \<Rightarrow> ProcessEntry" where
  "age_entry current_tick total_w e =
     (if p_state (process e) \<noteq> Ready then e
      else let wait_delta = saturating_sub current_tick (last_scheduled e) in
        if wait_delta = 0 then e
        else let lag_credit = wrap_i64 (sint (ms_to_ns wait_delta) * sint (weight e)) sdiv sint (max total_w 1)
          in e\<lparr> lag := sat_i64 (lag e + lag_credit), wait_time := saturating_add (wait_time e) wait_delta \<rparr>)"

definition age_process_priorities :: "proc_table \<Rightarrow> u64 \<Rightarrow> proc_table" where
  "age_process_priorities table GLOBAL_TICK =
     (let total_w = total_weight table in map (map_option (age_entry GLOBAL_TICK total_w)) table)"

definition force_reschedule :: "proc_table \<Rightarrow> Pid option \<Rightarrow> proc_table" where
  "force_reschedule table CURRENT_PID =
     (case CURRENT_PID of
        None \<Rightarrow> table
      | Some curr_pid \<Rightarrow> (case pid_slot table curr_pid of
          None \<Rightarrow> table
        | Some i \<Rightarrow> upd_entry (\<lambda>e. e\<lparr> slice_remaining_ns := 0, time_slice := 0 \<rparr>) i table))"

definition get_eevdf_info :: "proc_table \<Rightarrow> Pid \<Rightarrow> (u64 \<times> u64 \<times> int \<times> u64) option" where
  "get_eevdf_info table p =
     map_option (\<lambda>i. let e = the (table ! i) in (vruntime e, vdeadline e, lag e, weight e)) (pid_slot table p)"

section \<open>Facts on virtual time\<close>

lemma NICE_0_WEIGHT_unat [simp]: "unat NICE_0_WEIGHT = 1024"
  by (simp add: NICE_0_WEIGHT_def)

lemma calc_delta_unat:
  assumes "w \<noteq> 0" "unat d < 2 ^ 54"
  shows "unat (calc_delta_vruntime d w) = unat d * 1024 div unat w"
proof -
  have "unat d * 1024 div unat w \<le> unat d * 1024" by (rule div_le_dividend)
  also have "\<dots> < 2 ^ 64" using assms(2) by simp
  finally show ?thesis using assms(1) unat_of_nat_small [of "unat d * 1024 div unat w", where 'w = 64]
    by (simp add: calc_delta_vruntime_def)
qed

lemma calc_delta_bounds:
  assumes "w \<noteq> 0" "unat d < 2 ^ 54"
  shows "unat w * unat (calc_delta_vruntime d w) \<le> unat d * 1024"
    and "unat d * 1024 < unat w * (unat (calc_delta_vruntime d w) + 1)"
proof -
  have "0 < unat w" using assms(1) by (simp add: unat_gt_0)
  then show "unat w * unat (calc_delta_vruntime d w) \<le> unat d * 1024"
      "unat d * 1024 < unat w * (unat (calc_delta_vruntime d w) + 1)"
    unfolding calc_delta_unat [OF assms] using dividend_less_times_div [of "unat w" "unat d * 1024"]
    by (simp_all add: times_div_less_eq_dividend)
qed

lemma calc_delta_antitone:
  assumes "w1 \<noteq> 0" "w1 \<le> w2" "unat d < 2 ^ 54"
  shows "calc_delta_vruntime d w2 \<le> calc_delta_vruntime d w1"
proof -
  have "w2 \<noteq> 0" using assms(1,2) by (metis word_le_0_iff)
  then show ?thesis using assms
    by (simp add: word_le_nat_alt calc_delta_unat div_le_mono2 unat_gt_0)
qed

lemma length_INV_WEIGHT [simp]: "length INV_WEIGHT = 40"
  by (simp add: INV_WEIGHT_def)

lemma inv_weight_table:
  "list_all2 (\<lambda>w v. \<bar>int (unat v) * int (unat w) - 4294967296\<bar> \<le> 40 \<and> 15 \<le> unat w) NICE_TO_WEIGHT INV_WEIGHT"
  by (simp add: NICE_TO_WEIGHT_def INV_WEIGHT_def)

lemma inv_weight_error:
  "\<bar>int (unat (nice_to_inv_weight n)) * int (unat (nice_to_weight n)) - 4294967296\<bar> \<le> 40"
  "15 \<le> unat (nice_to_weight n)"
  using list_all2_nthD [OF inv_weight_table, of "nice_index n"] by (simp_all add: nice_to_inv_weight_def nice_to_weight_def)

text \<open>Two quotients of nearly equal value.\<close>

lemma quotient_close:
  fixes A I W :: int
  assumes A: "0 \<le> A" "40 * A \<le> 954 * 4294967296" and W: "0 < W" and I: "\<bar>I * W - 4294967296\<bar> \<le> 40"
  shows "\<bar>A * I div 4294967296 - A div W\<bar> \<le> 1 + 954 div W"
proof -
  define f where "f = A * I div 4294967296"
  define e where "e = A div W"
  define X where "X = A * I * W"
  have split: "y = y div d * d + y mod d" for y d :: int by simp
  have "f * 4294967296 \<le> A * I" "A * I < f * 4294967296 + 4294967296"
    using split [of "A * I" 4294967296] pos_mod_bound [of 4294967296 "A * I"] pos_mod_sign [of 4294967296 "A * I"]
    unfolding f_def by linarith+
  then have f: "f * W * 4294967296 \<le> X" "X < (f * W + W) * 4294967296"
    using mult_right_mono [of "f * 4294967296" "A * I" W] mult_strict_right_mono [of "A * I" "f * 4294967296 + 4294967296" W] W
    by (simp_all add: X_def algebra_simps)
  have e: "e * W \<le> A" "A < e * W + W"
    using split [of A W] pos_mod_bound [OF W, of A] pos_mod_sign [OF W, of A] unfolding e_def by linarith+
  have IW: "I * W \<le> 4294967336" "4294967256 \<le> I * W" using I by linarith+
  have X: "X \<le> A * 4294967336" "A * 4294967256 \<le> X"
    using mult_left_mono [OF IW(1) A(1)] mult_left_mono [OF IW(2) A(1)] by (simp_all add: X_def mult.assoc)
  have "f * W \<le> e * W + W + 954" using f e X A(2) by linarith
  moreover have "A * 4294967296 < (f * W + W + 954) * 4294967296" using f(2) X(2) A(2) by (simp add: algebra_simps)
  then have "e * W \<le> f * W + W + 954" using e(1) by simp
  ultimately have "(f - e - 1) * W \<le> 954" "(e - f - 1) * W \<le> 954" by (simp_all add: algebra_simps)
  then have "f - e - 1 \<le> 954 div W" "e - f - 1 \<le> 954 div W"
    using W zdiv_mono1 [of "(f - e - 1) * W" 954 W] zdiv_mono1 [of "(e - f - 1) * W" 954 W] by simp_all
  then show ?thesis unfolding f_def [symmetric] e_def [symmetric] by linarith
qed

lemma calc_fast_unat:
  assumes "unat d \<le> 100000000"
  shows "int (unat (calc_delta_vruntime_fast d n)) =
    (int (unat d) * 1024) * int (unat (nice_to_inv_weight n)) div 4294967296"
proof -
  let ?v = "unat (nice_to_inv_weight n)"
  have "\<forall>v \<in> set INV_WEIGHT. unat v \<le> 286331153" by (simp add: INV_WEIGHT_def)
  then have v: "?v \<le> 286331153" by (simp add: nice_to_inv_weight_def)
  have "unat d * 1024 * ?v \<le> 100000000 * 1024 * 286331153" using assms v by (intro mult_mono) simp_all
  then have "unat d * 1024 * ?v div 4294967296 < 2 ^ 64" by (simp add: div_less_iff_less_mult)
  then have "unat (calc_delta_vruntime_fast d n) = unat d * 1024 * ?v div 4294967296"
    using unat_of_nat_small [of "unat d * 1024 * ?v div 4294967296", where 'w = 64]
    by (simp add: calc_delta_vruntime_fast_def drop_bit_eq_div)
  then show ?thesis by (simp add: zdiv_int)
qed

section \<open>Well-formed entries\<close>

definition slice_ok :: "u64 \<Rightarrow> bool" where
  "slice_ok s \<longleftrightarrow> SCHED_GRANULARITY_NS \<le> s \<and> s \<le> MAX_SLICE_NS"

definition entry_ok :: "ProcessEntry \<Rightarrow> bool" where
  "entry_ok e \<longleftrightarrow> - 20 \<le> nice e \<and> nice e \<le> 19 \<and> weight e = nice_to_weight (nice e) \<and>
     i64_min \<le> lag e \<and> lag e \<le> i64_max \<and> slice_ok (slice_ns e) \<and> cm_ok (cpu_affinity e)"

lemma slice_ok_unat: "slice_ok s \<longleftrightarrow> 2000000 \<le> unat s \<and> unat s \<le> 100000000"
  by (simp add: slice_ok_def SCHED_GRANULARITY_NS_def MAX_SLICE_NS_def word_le_nat_alt)

lemma base_slice_unat: "4000000 \<le> unat (base_slice p)" "unat (base_slice p) \<le> 16000000"
  by (cases p; simp add: BASE_SLICE_NS_def)+

lemma unat_min: "unat (min a b) = min (unat a) (unat b)"
  by (simp add: min_def word_le_nat_alt)

lemma unat_max: "unat (max a b) = max (unat a) (unat b)"
  by (simp add: max_def word_le_nat_alt)

lemma unat_of_nat_mult:
  "k < 2 ^ 64 \<Longrightarrow> k * unat x < 2 ^ 64 \<Longrightarrow> unat (of_nat k * (x :: u64)) = k * unat x"
  by (simp add: unat_word_ariths unat_of_nat_small)

lemma grown_slice_ok:
  assumes "slice_ok (slice_ns e)"
  shows "slice_ok (grown_slice e)"
proof -
  have "unat (slice_ns e * 2) = unat (slice_ns e) * 2" using assms by (simp add: slice_ok_unat unat_word_ariths)
  then show ?thesis using assms base_slice_unat [of "policy e"]
    by (auto simp: slice_ok_unat grown_slice_def Let_def unat_min MAX_SLICE_NS_def)
qed

lemma nice_slice_ok:
  assumes "slice_ok g" "- 20 \<le> n" "n \<le> 19"
  shows "slice_ok (nice_slice n g)"
proof -
  have g: "2000000 \<le> unat g" "unat g \<le> 100000000" using assms(1) by (simp_all add: slice_ok_unat)
  consider (neg) "n < 0" | (pos) "0 < n" | (zero) "n = 0" by linarith
  then show ?thesis
  proof cases
    case neg
    define k where "k = nat (- n)"
    have k: "(of_int (- n) :: u64) = of_nat k" "k \<le> 20" using neg assms(2) by (simp_all add: k_def)
    have m: "k * unat g \<le> 20 * 100000000" using g(2) k(2) by (intro mult_mono) simp_all
    then have "unat (of_nat k * g div 80) = k * unat g div 80" using k(2) by (simp add: unat_div_distrib unat_of_nat_mult)
    moreover have "k * unat g div 80 \<le> 25000000" using div_le_mono [OF m, of 80] by simp
    ultimately have "unat (g + of_nat k * g div 80) = unat g + k * unat g div 80" using g by (simp add: unat_word_ariths)
    then show ?thesis using neg g k(1) by (simp add: nice_slice_def Let_def slice_ok_unat unat_min MAX_SLICE_NS_def)
  next
    case pos
    have "unat (saturating_sub g r) \<le> unat g" for r using saturating_sub_le [of g r] by (simp add: word_le_nat_alt)
    then show ?thesis using pos g
      by (auto simp: nice_slice_def Let_def slice_ok_unat unat_max SCHED_GRANULARITY_NS_def intro: order_trans)
  next
    case zero
    then show ?thesis using assms(1) by (simp add: nice_slice_def)
  qed
qed

lemma replenish_slice_ok: "entry_ok e \<Longrightarrow> entry_ok (replenish_slice e)"
  by (simp add: entry_ok_def replenish_slice_def Let_def nice_slice_ok grown_slice_ok)

lemma update_curr_ok: "entry_ok e \<Longrightarrow> entry_ok (update_curr e d)"
  by (simp add: entry_ok_def update_curr_def Let_def)

lemma place_entity_ok: "entry_ok e \<Longrightarrow> entry_ok (place_entity m e is_new)"
  by (simp add: entry_ok_def place_entity_def Let_def i64_min_def i64_max_def)

lemma with_policy_ok: "entry_ok e \<Longrightarrow> entry_ok (with_policy pol n e)"
  by (simp add: entry_ok_def with_policy_def Let_def)

lemma with_nice_delta_ok: "entry_ok e \<Longrightarrow> entry_ok (with_nice_delta d e)"
  by (simp add: entry_ok_def with_nice_delta_def Let_def)

lemma age_entry_ok: "entry_ok e \<Longrightarrow> entry_ok (age_entry t w e)"
  by (simp add: entry_ok_def age_entry_def Let_def)

lemmas entry_ok_ops = replenish_slice_ok update_curr_ok place_entity_ok with_policy_ok with_nice_delta_ok age_entry_ok

text \<open>A table all of whose entries are well-formed.\<close>

definition table_ok :: "proc_table \<Rightarrow> bool" where
  "table_ok table \<longleftrightarrow> length table = MAX_PROCESSES \<and> list_all (pred_option entry_ok) table"

lemma pred_option_map: "(\<And>e. P e \<Longrightarrow> P (f e)) \<Longrightarrow> pred_option P x \<Longrightarrow> pred_option P (map_option f x)"
  by (cases x) simp_all

lemma table_ok_map:
  "(\<And>e. entry_ok e \<Longrightarrow> entry_ok (f e)) \<Longrightarrow> table_ok table \<Longrightarrow> table_ok (map (map_option f) table)"
  by (auto simp: table_ok_def list_all_iff pred_option_map)

lemma table_ok_upd:
  "(\<And>e. entry_ok e \<Longrightarrow> entry_ok (f e)) \<Longrightarrow> table_ok table \<Longrightarrow> table_ok (upd_entry f i table)"
  by (auto simp: table_ok_def upd_entry_def modify_nth_def pred_option_map list_all_length nth_update_if)

lemma set_process_policy_ok: "table_ok t \<Longrightarrow> table_ok (fst (set_process_policy t p pol n))"
  by (auto simp: set_process_policy_def entry_ok_ops intro!: table_ok_upd split: option.splits)

lemma adjust_process_priority_ok: "table_ok t \<Longrightarrow> table_ok (fst (adjust_process_priority t p d))"
  by (auto simp: adjust_process_priority_def entry_ok_ops intro!: table_ok_upd split: option.splits)

lemma age_process_priorities_ok: "table_ok t \<Longrightarrow> table_ok (age_process_priorities t tick)"
  by (auto simp: age_process_priorities_def Let_def entry_ok_ops intro!: table_ok_map)

lemma saturating_add_unat:
  "unat a + unat b < 18446744073709551616 \<Longrightarrow> unat (saturating_add a (b :: u64)) = unat a + unat b"
proof -
  assume "unat a + unat b < 18446744073709551616"
  then have "int (unat a) + int (unat b) < 18446744073709551616" by linarith
  then have "int (unat (saturating_add a b)) = int (unat a) + int (unat b)" using saturating_add_uint [of a b] by simp
  then show ?thesis by linarith
qed

lemma update_curr_advance:
  assumes "entry_ok e" "unat d < 2 ^ 54" "unat (vruntime e) < 2 ^ 63"
  shows "unat (vruntime (update_curr e d)) = unat (vruntime e) + unat (calc_delta_vruntime d (weight e))"
proof -
  have w: "15 \<le> unat (weight e)" using assms(1) inv_weight_error(2) [of "nice e"] by (simp add: entry_ok_def)
  then have "weight e \<noteq> 0" by auto
  then have "unat (weight e) * unat (calc_delta_vruntime d (weight e)) \<le> unat d * 1024"
    using assms(2) by (rule calc_delta_bounds)
  moreover have "15 * unat (calc_delta_vruntime d (weight e)) \<le> unat (weight e) * unat (calc_delta_vruntime d (weight e))"
    using w by (rule mult_right_mono) simp
  moreover have "unat d < 18014398509481984" "unat (vruntime e) < 9223372036854775808" using assms(2,3) by simp_all
  ultimately have "unat (vruntime e) + unat (calc_delta_vruntime d (weight e)) < 18446744073709551616" by linarith
  then show ?thesis by (simp add: update_curr_def Let_def saturating_add_unat)
qed

lemma share_arith:
  fixes a b w v k :: nat
  assumes "w * k \<le> a" "a < w * (k + 1)" "v * k \<le> b" "b < v * (k + 1)"
  shows "\<bar>int a * int v - int b * int w\<bar> < int w * int v"
proof -
  have "0 < w" "0 < v" using assms by (auto intro: Nat.gr0I)
  then have "w * k * v \<le> a * v" "a * v < w * (k + 1) * v" "v * k * w \<le> b * w" "b * w < v * (k + 1) * w"
    using assms by (simp_all only: mult_le_mono1 mult_less_mono1)
  then have "int (w * k * v) \<le> int (a * v)" "int (a * v) < int (w * (k + 1) * v)"
      "int (v * k * w) \<le> int (b * w)" "int (b * w) < int (v * (k + 1) * w)"
    by (simp_all only: of_nat_le_iff of_nat_less_iff)
  then show ?thesis by (simp add: algebra_simps abs_less_iff)
qed

definition preempts :: "ProcessEntry \<Rightarrow> ProcessEntry \<Rightarrow> bool" where
  "preempts cur e \<longleftrightarrow> p_state (process e) = Ready \<and> pid (process e) \<noteq> pid (process cur) \<and>
     (policy e = Realtime \<and> policy cur \<noteq> Realtime \<or> is_eligible e \<and> vdeadline e < vdeadline cur \<and>
        SCHED_GRANULARITY_NS < saturating_sub (vdeadline cur) (vdeadline e))"

lemma preempt_scan_Some: "preempt_scan cur (Some e # slots) \<longleftrightarrow> preempts cur e \<or> preempt_scan cur slots"
  by (auto simp: preempts_def)

lemma preempt_scan_iff: "preempt_scan cur table \<longleftrightarrow> (\<exists>e. Some e \<in> set table \<and> preempts cur e)"
proof (induction table)
  case (Cons slot slots)
  then show ?case by (cases slot) (auto simp: preempt_scan_Some simp del: preempt_scan.simps(3))
qed simp

lemma gap_iff:
  "v < (u :: u64) \<and> SCHED_GRANULARITY_NS < saturating_sub u v \<longleftrightarrow> unat v + 2000000 < unat u"
proof (cases "v < u")
  case True
  then have "unat (saturating_sub u v) = unat u - unat v"
    by (simp add: saturating_sub_def unat_sub order_less_imp_le)
  moreover have "unat v < unat u" using True by (simp add: word_less_nat_alt)
  ultimately show ?thesis using True by (simp add: SCHED_GRANULARITY_NS_def word_less_nat_alt less_diff_conv) arith
next
  case False
  then show ?thesis by (simp add: word_less_nat_alt)
qed

section \<open>Properties of the policy\<close>

text \<open>
  C29: proportional share.  Let two entries be well-formed (the weight is the one of the nice value),
  with virtual runtimes below \<open>2^63\<close>, and let them be charged \<open>d1\<close> and \<open>d2\<close> nanoseconds, each below
  \<open>2^54\<close> (208 days), so that neither the scaling nor the addition saturates.  If their virtual runtimes
  advance by the same amount, the CPU times are in the ratio of the weights, up to one unit of virtual
  time.
\<close>

theorem proportional_share:
  assumes "entry_ok e1" "entry_ok e2" "unat d1 < 2 ^ 54" "unat d2 < 2 ^ 54"
    and "unat (vruntime e1) < 2 ^ 63" "unat (vruntime e2) < 2 ^ 63"
    and "unat (vruntime (update_curr e1 d1)) - unat (vruntime e1) =
         unat (vruntime (update_curr e2 d2)) - unat (vruntime e2)"
  shows "\<bar>int (unat d1 * 1024) * int (unat (weight e2)) - int (unat d2 * 1024) * int (unat (weight e1))\<bar>
    < int (unat (weight e1)) * int (unat (weight e2))"
proof -
  have w: "weight e1 \<noteq> 0" "weight e2 \<noteq> 0"
    using assms(1,2) inv_weight_error(2) [of "nice e1"] inv_weight_error(2) [of "nice e2"] by (auto simp: entry_ok_def)
  have k: "unat (calc_delta_vruntime d2 (weight e2)) = unat (calc_delta_vruntime d1 (weight e1))"
    using assms(7) update_curr_advance [OF assms(1,3,5)] update_curr_advance [OF assms(2,4,6)] by simp
  show ?thesis
    using share_arith [OF calc_delta_bounds [OF w(1) assms(3)], OF calc_delta_bounds [OF w(2) assms(4), unfolded k]] .
qed

lemma entry_ok_empty: "entry_ok (ProcessEntry_empty\<lparr> nice := n, weight := nice_to_weight n \<rparr>)" if "- 20 \<le> n" "n \<le> 19"
  using that by (simp add: entry_ok_def ProcessEntry_empty_def i64_min_def i64_max_def slice_ok_def
      SCHED_GRANULARITY_NS_def MAX_SLICE_NS_def BASE_SLICE_NS_def)

theorem proportional_share_witness:
  "let a = ProcessEntry_empty\<lparr> nice := 0, weight := nice_to_weight 0 \<rparr>; b = ProcessEntry_empty\<lparr> nice := 5, weight := nice_to_weight 5 \<rparr>
   in unat (vruntime (update_curr a 1024)) - unat (vruntime a) = unat (vruntime (update_curr b 335)) - unat (vruntime b) \<and>
     vruntime (update_curr a 1024) \<noteq> vruntime a \<and>
     \<bar>int (unat (1024 :: u64) * 1024) * int (unat (weight b)) - int (unat (335 :: u64) * 1024) * int (unat (weight a))\<bar>
       < int (unat (weight a)) * int (unat (weight b))"
proof -
  let ?a = "ProcessEntry_empty\<lparr> nice := 0, weight := nice_to_weight 0 \<rparr>"
  let ?b = "ProcessEntry_empty\<lparr> nice := 5, weight := nice_to_weight 5 \<rparr>"
  have w: "nice_to_weight 0 = 1024" "nice_to_weight 5 = 335"
    by (simp_all add: nice_to_weight_def nice_index_def clamp_def NICE_TO_WEIGHT_def)
  have adv: "unat (vruntime (update_curr ?a 1024)) - unat (vruntime ?a) =
      unat (vruntime (update_curr ?b 335)) - unat (vruntime ?b)" "vruntime (update_curr ?a 1024) \<noteq> vruntime ?a"
    by (simp_all add: update_curr_def Let_def calc_delta_vruntime_def w ProcessEntry_empty_def saturating_add_def)
  have small: "unat (1024 :: u64) < 2 ^ 54" "unat (335 :: u64) < 2 ^ 54" "unat (vruntime ?a) < 2 ^ 63" "unat (vruntime ?b) < 2 ^ 63"
    by (simp_all add: ProcessEntry_empty_def)
  show ?thesis
    unfolding Let_def using proportional_share [OF entry_ok_empty entry_ok_empty small adv(1)] adv by simp
qed

text \<open>
  The division-free charge agrees with the exact one.  For every nice value and every time up to
  the longest slice, the result with the precomputed inverse weight differs from the quotient by at
  most \<open>1 + 954 div w\<close>.
\<close>

theorem fast_delta_close:
  assumes "d \<le> MAX_SLICE_NS"
  shows "\<bar>int (unat (calc_delta_vruntime_fast d n)) - int (unat (calc_delta_vruntime d (nice_to_weight n)))\<bar>
    \<le> 1 + 954 div int (unat (nice_to_weight n))"
proof -
  have d: "unat d \<le> 100000000" using assms by (simp add: MAX_SLICE_NS_def word_le_nat_alt)
  have w: "nice_to_weight n \<noteq> 0" using inv_weight_error(2) [of n] by auto
  have "int (unat (calc_delta_vruntime d (nice_to_weight n))) = int (unat d) * 1024 div int (unat (nice_to_weight n))"
    using calc_delta_unat [OF w, of d] d by (simp add: zdiv_int)
  moreover have "int (unat d) \<le> 100000000" "0 < int (unat (nice_to_weight n))"
    using d inv_weight_error(2) [of n] by linarith+
  ultimately show ?thesis unfolding calc_fast_unat [OF d]
    using quotient_close [OF _ _ _ inv_weight_error(1) [of n], of "int (unat d) * 1024"] by linarith
qed

theorem fast_delta_close_witness:
  "\<bar>int (unat (calc_delta_vruntime_fast 4000000 19)) - int (unat (calc_delta_vruntime 4000000 15))\<bar> \<le> 1 + 954 div 15"
  using fast_delta_close [of 4000000 19]
  by (simp add: MAX_SLICE_NS_def nice_to_weight_def nice_index_def clamp_def NICE_TO_WEIGHT_def)

text \<open>
  When the running process is preempted.  \<open>check_preempt_curr\<close> answers yes exactly when the
  slice is used up, or the running process is not realtime and some other ready process is realtime
  or is eligible with a deadline earlier by more than the two-millisecond granularity.
\<close>

theorem check_preempt_curr_iff:
  "check_preempt_curr cur table \<longleftrightarrow> slice_remaining_ns cur = 0 \<or>
     policy cur \<noteq> Realtime \<and> (\<exists>e. Some e \<in> set table \<and> p_state (process e) = Ready \<and>
       pid (process e) \<noteq> pid (process cur) \<and>
       (policy e = Realtime \<or> 0 \<le> lag e \<and> unat (vdeadline e) + 2000000 < unat (vdeadline cur)))"
  unfolding check_preempt_curr_def preempt_scan_iff preempts_def gap_iff is_eligible_def by auto

text \<open>
  C28: the policy operations keep every entry well-formed: nice value in range and weight in step with
  it, lag inside \<open>i64\<close>, slice between the granularity and the longest slice.
\<close>

theorem policy_operations_keep_table_ok:
  assumes "table_ok table"
  shows "table_ok (fst (set_process_policy table p pol n)) \<and> table_ok (fst (adjust_process_priority table p d)) \<and>
    table_ok (age_process_priorities table tick) \<and> table_ok (map (map_option replenish_slice) table) \<and>
    table_ok (map (map_option (\<lambda>e. update_curr e ns)) table)"
  using assms by (simp add: set_process_policy_ok adjust_process_priority_ok age_process_priorities_ok
      table_ok_map entry_ok_ops)

theorem policy_operations_keep_table_ok_witness:
  "table_ok (age_process_priorities (Some ProcessEntry_empty # replicate 63 None) 7)"
proof -
  have "ProcessEntry_empty = ProcessEntry_empty\<lparr> nice := 0, weight := nice_to_weight 0 \<rparr>"
    by (simp add: ProcessEntry_empty_def nice_to_weight_def nice_index_def clamp_def NICE_TO_WEIGHT_def NICE_0_WEIGHT_def)
  then have "entry_ok ProcessEntry_empty" using entry_ok_empty [of 0] by simp
  then have "table_ok (Some ProcessEntry_empty # replicate 63 None)"
    by (simp add: table_ok_def MAX_PROCESSES_def list_all_iff)
  from policy_operations_keep_table_ok [OF this] show ?thesis by blast
qed

text \<open>
  \<open>boost_all_priorities\<close> never returns: it calls \<open>update_min_vruntime\<close>, which takes the process
  table's lock, while its own guard of that lock is alive.
\<close>

theorem boost_all_priorities_deadlocks: "boost_all_priorities table m = None"
  by (simp add: boost_all_priorities_def update_min_vruntime_def Let_def)

text \<open>
  The nice value wraps before it is clamped.  Raising the nice value of a process at 19 by 127
  gives it the most favourable value, minus 20, although the request was to lower its priority.
\<close>

theorem adjust_nice_wraps:
  assumes "pid_slot table p = Some i" "table ! i = Some e" "nice e = 19"
  shows "snd (adjust_process_priority table p 127) = Ok (- 20)"
  using assms by (simp add: adjust_process_priority_def with_nice_delta_def Let_def clamp_def wrap_i8_def)

theorem adjust_nice_wraps_witness:
  "snd (adjust_process_priority [Some (ProcessEntry_empty\<lparr> nice := 19 \<rparr>)] 0 127) = Ok (- 20)"
  by (rule adjust_nice_wraps [of _ _ 0 "ProcessEntry_empty\<lparr> nice := 19 \<rparr>"])
    (simp_all add: pid_slot_def has_pid_def ProcessEntry_empty_def Process_empty_def)

end
