(* ===== verification/Selection.thy ===== *)
theory Selection
  imports Kernel_Prelude
begin

text \<open>
  Scans that keep the best candidate seen so far.  The scheduler's loops over a run queue or the
  process table replace the candidate when the next entry beats it; the locale states what such a
  loop returns for any order in which "does not beat" is transitive.
\<close>

fun scan_best :: "('a \<Rightarrow> 'a \<Rightarrow> bool) \<Rightarrow> (nat \<times> 'a) list \<Rightarrow> (nat \<times> 'a) option \<Rightarrow> (nat \<times> 'a) option" where
  "scan_best better [] best = best"
| "scan_best better ((i, x) # xs) best =
     scan_best better xs (case best of None \<Rightarrow> Some (i, x) | Some (j, b) \<Rightarrow> if better x b then Some (i, x) else best)"

locale candidate_order =
  fixes better :: "'a \<Rightarrow> 'a \<Rightarrow> bool"
  assumes better_asym: "better x y \<Longrightarrow> \<not> better y x"
    and better_weak: "better x z \<Longrightarrow> better x y \<or> better y z"
begin

lemma better_irrefl: "\<not> better x x"
  using better_asym by blast

lemma better_trans: "better x y \<Longrightarrow> better y z \<Longrightarrow> better x z"
  using better_weak [of x y z] better_asym by blast

lemma scan_best_acc:
  "\<exists>i x. scan_best better xs (Some (j, b)) = Some (i, x) \<and> (i, x) \<in> set ((j, b) # xs) \<and>
     (\<forall>(k, y) \<in> set ((j, b) # xs). \<not> better y x)"
proof (induction xs arbitrary: j b)
  case (Cons p xs)
  obtain k y where p: "p = (k, y)" by (cases p)
  show ?case
  proof (cases "better y b")
    case True
    obtain i x where "scan_best better xs (Some (k, y)) = Some (i, x)" "(i, x) \<in> set ((k, y) # xs)"
      "\<forall>(k', z) \<in> set ((k, y) # xs). \<not> better z x" using Cons.IH by metis
    then show ?thesis using True better_asym [OF True] better_weak [of b x y] by (auto simp: p)
  next
    case False
    obtain i x where *: "scan_best better xs (Some (j, b)) = Some (i, x)" "(i, x) \<in> set ((j, b) # xs)"
      "\<forall>(k', z) \<in> set ((j, b) # xs). \<not> better z x" using Cons.IH by metis
    moreover have "\<not> better y x" using * False better_weak [of y x b] by auto
    ultimately show ?thesis using False by (auto simp: p)
  qed
qed (simp add: better_irrefl)

lemma scan_best_None: "scan_best better xs None = None \<longleftrightarrow> xs = []"
proof (cases xs)
  case (Cons p ps)
  then show ?thesis using scan_best_acc [of ps "fst p" "snd p"] by (cases p) auto
qed simp

lemma scan_best_Some:
  assumes "scan_best better xs None = Some (i, x)"
  shows "(i, x) \<in> set xs" and "(k, y) \<in> set xs \<Longrightarrow> \<not> better y x"
proof -
  obtain j b ps where xs: "xs = (j, b) # ps" using assms by (cases xs) auto
  from scan_best_acc [of ps j b] assms
  have "(i, x) \<in> set xs" "\<forall>(k, y) \<in> set xs. \<not> better y x" by (auto simp: xs)
  then show "(i, x) \<in> set xs" "(k, y) \<in> set xs \<Longrightarrow> \<not> better y x" by auto
qed

end

end
