(* ===== verification/Numa.thy ===== *)
theory Numa
  imports Sched_Types
begin

unbundle bit_operations_syntax

text \<open>
  NUMA topology: \<open>src/src/mm/numa.rs\<close>.  The static tables of the module are the fields of one record.
  The ACPI tables are read through raw pointers in the source; here each is the list of its bytes
  (as many as the header's length field says), and an absent table is \<open>Err\<close> with the message of the
  lookup.  \<open>None\<close> as the result of \<open>log_topology\<close> and of \<open>init\<close> is the panic of an index out of
  bounds.  The list of CPUs is the slice that \<open>acpi::cpus\<close> returns.
\<close>

section \<open>State\<close>

definition MAX_NUMA_NODES :: nat where "MAX_NUMA_NODES = 64"

definition MAX_MEMORY_AFFINITY :: nat where "MAX_MEMORY_AFFINITY = 256"

definition LOCAL_DISTANCE :: u8 where "LOCAL_DISTANCE = 10"

definition REMOTE_DISTANCE :: u8 where "REMOTE_DISTANCE = 20"

definition UNREACHABLE_DISTANCE :: u8 where "UNREACHABLE_DISTANCE = 255"

record CpuDescriptor =
  cd_apic_id :: u8
  cd_enabled :: bool

record NumaNode =
  nn_id :: u32
  nn_online :: bool
  nn_cpu_count :: u32
  nn_memory_size :: u64
  nn_memory_base :: u64

definition NumaNode_empty :: NumaNode where
  "NumaNode_empty = \<lparr> nn_id = NUMA_NO_NODE, nn_online = False, nn_cpu_count = 0, nn_memory_size = 0, nn_memory_base = 0 \<rparr>"

record MemoryNumaMapping =
  mm_base :: u64
  mm_size :: u64
  mm_numa_node :: u32
  mm_hotpluggable :: bool
  mm_nonvolatile :: bool

definition MemoryNumaMapping_empty :: MemoryNumaMapping where
  "MemoryNumaMapping_empty = \<lparr> mm_base = 0, mm_size = 0, mm_numa_node = NUMA_NO_NODE, mm_hotpluggable = False, mm_nonvolatile = False \<rparr>"

record numa_state =
  NUMA_INITIALIZED :: bool
  NUMA_NODE_COUNT :: u32
  NUMA_NODES :: "NumaNode list"
  CPU_TO_NODE :: "u32 list"
  MEMORY_AFFINITY :: "MemoryNumaMapping list"
  MEMORY_AFFINITY_COUNT :: nat
  DISTANCE_MATRIX :: "u8 list"
  INTERLEAVE_COUNTER :: u32

definition numa_boot :: numa_state where
  "numa_boot = \<lparr> NUMA_INITIALIZED = False, NUMA_NODE_COUNT = 0,
     NUMA_NODES = replicate MAX_NUMA_NODES NumaNode_empty,
     CPU_TO_NODE = replicate MAX_CPUS NUMA_NO_NODE,
     MEMORY_AFFINITY = replicate MAX_MEMORY_AFFINITY MemoryNumaMapping_empty, MEMORY_AFFINITY_COUNT = 0,
     DISTANCE_MATRIX = replicate (MAX_NUMA_NODES * MAX_NUMA_NODES) REMOTE_DISTANCE, INTERLEAVE_COUNTER = 0 \<rparr>"

section \<open>Queries\<close>

definition node_count :: "numa_state \<Rightarrow> u32" where
  "node_count s = (if \<not> NUMA_INITIALIZED s then 1 else max (NUMA_NODE_COUNT s) 1)"

definition get_node :: "numa_state \<Rightarrow> u32 \<Rightarrow> NumaNode option" where
  "get_node s node_id =
     (if \<not> NUMA_INITIALIZED s \<or> MAX_NUMA_NODES \<le> unat node_id then None
      else let node = NUMA_NODES s ! unat node_id in if nn_online node then Some node else None)"

definition cpu_to_node :: "numa_state \<Rightarrow> u32 \<Rightarrow> u32" where
  "cpu_to_node s apic_id =
     (if \<not> NUMA_INITIALIZED s then 0
      else if MAX_CPUS \<le> unat apic_id then 0
      else let node = CPU_TO_NODE s ! unat apic_id in if node = NUMA_NO_NODE then 0 else node)"

definition addr_to_node :: "numa_state \<Rightarrow> u64 \<Rightarrow> u32" where
  "addr_to_node s addr =
     (if \<not> NUMA_INITIALIZED s then 0
      else case find (\<lambda>m. mm_base m \<le> addr \<and> addr < mm_base m + mm_size m)
             (take (MEMORY_AFFINITY_COUNT s) (MEMORY_AFFINITY s)) of
          Some m \<Rightarrow> mm_numa_node m
        | None \<Rightarrow> 0)"

definition node_distance :: "numa_state \<Rightarrow> u32 \<Rightarrow> u32 \<Rightarrow> u8" where
  "node_distance s from_node to_node =
     (if \<not> NUMA_INITIALIZED s then LOCAL_DISTANCE
      else if MAX_NUMA_NODES \<le> unat from_node \<or> MAX_NUMA_NODES \<le> unat to_node then UNREACHABLE_DISTANCE
      else DISTANCE_MATRIX s ! (unat from_node * MAX_NUMA_NODES + unat to_node))"

definition online_nodes :: "numa_state \<Rightarrow> NumaNode list" where
  "online_nodes s = (if \<not> NUMA_INITIALIZED s then [] else take (min (unat (NUMA_NODE_COUNT s)) MAX_NUMA_NODES) (NUMA_NODES s))"

definition memory_affinity_entries :: "numa_state \<Rightarrow> MemoryNumaMapping list" where
  "memory_affinity_entries s = (if \<not> NUMA_INITIALIZED s then [] else take (MEMORY_AFFINITY_COUNT s) (MEMORY_AFFINITY s))"

text \<open>The APIC id of the CPU that runs the call is an argument.\<close>

definition current_node :: "numa_state \<Rightarrow> u32 \<Rightarrow> u32" where
  "current_node s current_apic_id = (if \<not> NUMA_INITIALIZED s then 0 else cpu_to_node s current_apic_id)"

definition cpus_on_node :: "numa_state \<Rightarrow> CpuDescriptor list \<Rightarrow> u32 \<Rightarrow> u32 list" where
  "cpus_on_node s cpus node_id =
     map (\<lambda>c. ucast (cd_apic_id c)) (filter (\<lambda>c. cd_enabled c \<and> cpu_to_node s (ucast (cd_apic_id c)) = node_id) cpus)"

definition best_node_for_policy :: "numa_state \<Rightarrow> u32 \<Rightarrow> NumaPolicy \<Rightarrow> u32 \<times> numa_state" where
  "best_node_for_policy s current_apic_id pol =
     (case pol of
        Local \<Rightarrow> (current_node s current_apic_id, s)
      | Bind node \<Rightarrow> (min node (saturating_sub (node_count s) 1), s)
      | Interleave \<Rightarrow>
          (let count = node_count s in
           if count \<le> 1 then (0, s)
           else (INTERLEAVE_COUNTER s mod count, s\<lparr> INTERLEAVE_COUNTER := INTERLEAVE_COUNTER s + 1 \<rparr>))
      | Preferred node \<Rightarrow> (if node < node_count s then node else current_node s current_apic_id, s))"

section \<open>The affinity tables\<close>

text \<open>Little-endian fields of a packed structure.\<close>

definition rd32 :: "u8 list \<Rightarrow> nat \<Rightarrow> u32" where
  "rd32 bs i = ucast (bs ! i) OR push_bit 8 (ucast (bs ! (i + 1))) OR push_bit 16 (ucast (bs ! (i + 2)))
     OR push_bit 24 (ucast (bs ! (i + 3)))"

definition rd64 :: "u8 list \<Rightarrow> nat \<Rightarrow> u64" where
  "rd64 bs i = ucast (rd32 bs i) OR push_bit 32 (ucast (rd32 bs (i + 4)))"

definition register_cpu_affinity :: "u32 \<Rightarrow> u32 \<Rightarrow> numa_state \<Rightarrow> numa_state" where
  "register_cpu_affinity apic_id proximity_domain s =
     (if MAX_CPUS \<le> unat apic_id then s
      else if MAX_NUMA_NODES \<le> unat proximity_domain then s
      else s\<lparr> CPU_TO_NODE := (CPU_TO_NODE s)[unat apic_id := proximity_domain],
              NUMA_NODES := modify_nth (unat proximity_domain)
                (\<lambda>node. node\<lparr> nn_cpu_count := nn_cpu_count node + 1 \<rparr>) (NUMA_NODES s) \<rparr>)"

definition register_memory_affinity :: "u64 \<Rightarrow> u64 \<Rightarrow> u32 \<Rightarrow> bool \<Rightarrow> bool \<Rightarrow> numa_state \<Rightarrow> numa_state" where
  "register_memory_affinity base siz proximity_domain hotpluggable nonvolatile s =
     (if MAX_MEMORY_AFFINITY \<le> MEMORY_AFFINITY_COUNT s then s
      else if MAX_NUMA_NODES \<le> unat proximity_domain then s
      else let idx = MEMORY_AFFINITY_COUNT s in
        s\<lparr> MEMORY_AFFINITY := (MEMORY_AFFINITY s)[idx := \<lparr> mm_base = base, mm_size = siz,
              mm_numa_node = proximity_domain, mm_hotpluggable = hotpluggable, mm_nonvolatile = nonvolatile \<rparr>],
           MEMORY_AFFINITY_COUNT := idx + 1,
           NUMA_NODES := modify_nth (unat proximity_domain)
             (\<lambda>node. node\<lparr> nn_memory_base := (if nn_memory_size node = 0 \<or> base < nn_memory_base node then base else nn_memory_base node),
                            nn_memory_size := nn_memory_size node + siz \<rparr>) (NUMA_NODES s) \<rparr>)"

text \<open>One affinity structure, given by its bytes: the tables and the largest domain seen.\<close>

definition srat_entry :: "u8 list \<Rightarrow> numa_state \<times> u32 \<Rightarrow> numa_state \<times> u32" where
  "srat_entry e acc =
     (case acc of (s, max_node) \<Rightarrow>
      if e ! 0 = 0 then
        (if 16 \<le> length e \<and> rd32 e 4 AND 1 \<noteq> 0 then
           let proximity = ucast (e ! 2) OR push_bit 8 (ucast (e ! 9)) OR push_bit 16 (ucast (e ! 10))
                 OR push_bit 24 (ucast (e ! 11));
               apic_id = ucast (e ! 3)
           in (register_cpu_affinity apic_id proximity s, if max_node < proximity then proximity else max_node)
         else acc)
      else if e ! 0 = 1 then
        (if 40 \<le> length e \<and> rd32 e 28 AND 1 \<noteq> 0 then
           let flags = rd32 e 28;
               base = ucast (rd32 e 8) OR push_bit 32 (ucast (rd32 e 12));
               len = ucast (rd32 e 16) OR push_bit 32 (ucast (rd32 e 20));
               proximity = rd32 e 2
           in (register_memory_affinity base len proximity (flags AND 2 \<noteq> 0) (flags AND 4 \<noteq> 0) s,
               if max_node < proximity then proximity else max_node)
         else acc)
      else if e ! 0 = 2 then
        (if 24 \<le> length e \<and> rd32 e 12 AND 1 \<noteq> 0 then
           let apic_id = rd32 e 8; proximity = rd32 e 4
           in (register_cpu_affinity apic_id proximity s, if max_node < proximity then proximity else max_node)
         else acc)
      else acc)"

text \<open>The loop over the structures: \<open>entries\<close> are the bytes from the current offset on.\<close>

function srat_loop :: "u8 list \<Rightarrow> numa_state \<times> u32 \<Rightarrow> numa_state \<times> u32" where
  "srat_loop entries acc =
     (if 2 \<le> length entries then
        let entry_len = unat (entries ! 1) in
        if entry_len < 2 \<or> length entries < entry_len then acc
        else srat_loop (drop entry_len entries) (srat_entry (take entry_len entries) acc)
      else acc)"
  by pat_completeness auto
termination by (relation "measure (\<lambda>(entries, _). length entries)") auto

declare srat_loop.simps [simp del]

definition mark_online :: "u32 \<Rightarrow> NumaNode list \<Rightarrow> NumaNode list" where
  "mark_online max_node nodes =
     fold (\<lambda>i ns. modify_nth i (\<lambda>node. node\<lparr> nn_id := of_nat i, nn_online := True \<rparr>) ns)
       [0..<unat (min max_node (of_nat MAX_NUMA_NODES - 1)) + 1] nodes"

definition parse_srat :: "(u8 list, string) result \<Rightarrow> numa_state \<Rightarrow> (u32, string) result \<times> numa_state" where
  "parse_srat srat s =
     (case srat of
        Err e \<Rightarrow> (Err e, s)
      | Ok table \<Rightarrow>
          (case srat_loop (drop 48 table) (s, 0) of (s', max_node) \<Rightarrow>
             (Ok (max_node + 1), s'\<lparr> NUMA_NODES := mark_online max_node (NUMA_NODES s') \<rparr>)))"

definition slit_matrix :: "nat \<Rightarrow> u8 list \<Rightarrow> u8 list \<Rightarrow> u8 list" where
  "slit_matrix localities bytes matrix =
     fold (\<lambda>i m. fold (\<lambda>j m. m[i * MAX_NUMA_NODES + j := bytes ! (i * localities + j)]) [0..<localities] m)
       [0..<localities] matrix"

definition parse_slit :: "(u8 list, string) result \<Rightarrow> numa_state \<Rightarrow> (unit, string) result \<times> numa_state" where
  "parse_slit slit s =
     (case slit of
        Err e \<Rightarrow> (Err e, s)
      | Ok table \<Rightarrow>
          let localities = unat (rd64 table 36) in
          if localities = 0 \<or> MAX_NUMA_NODES < localities then (Err ''Invalid SLIT localities count'', s)
          else (Ok (), s\<lparr> DISTANCE_MATRIX := slit_matrix localities (drop 44 table) (DISTANCE_MATRIX s) \<rparr>))"

definition uma_cpu :: "CpuDescriptor \<Rightarrow> numa_state \<Rightarrow> numa_state" where
  "uma_cpu c s =
     (if cd_enabled c then
        s\<lparr> CPU_TO_NODE := (CPU_TO_NODE s)[unat (cd_apic_id c) := 0],
           NUMA_NODES := modify_nth 0 (\<lambda>node. node\<lparr> nn_cpu_count := nn_cpu_count node + 1 \<rparr>) (NUMA_NODES s) \<rparr>
      else s)"

definition setup_uma_fallback :: "CpuDescriptor list \<Rightarrow> numa_state \<Rightarrow> numa_state" where
  "setup_uma_fallback cpus s =
     (let s1 = s\<lparr> NUMA_NODES := (NUMA_NODES s)[0 := \<lparr> nn_id = 0, nn_online = True, nn_cpu_count = 0,
                    nn_memory_size = 0, nn_memory_base = 0 \<rparr>] \<rparr>
      in (fold uma_cpu cpus s1)\<lparr> NUMA_NODE_COUNT := 1 \<rparr>)"

text \<open>
  The rows printed by \<open>log_topology\<close>: \<open>distances\<close> has \<open>MAX_NUMA_NODES\<close> elements and is indexed and
  sliced up to the node count.
\<close>

definition log_topology :: "numa_state \<Rightarrow> (u8 list list) option" where
  "log_topology s =
     (let count = unat (node_count s) in
      if count \<le> 1 then Some []
      else if MAX_NUMA_NODES < count then None
      else Some (map (\<lambda>i. map (\<lambda>j. node_distance s (of_nat i) (of_nat j)) [0..<count]) [0..<count]))"

definition default_distances :: "u8 list" where
  "default_distances =
     concat (map (\<lambda>i. map (\<lambda>j. if i = j then LOCAL_DISTANCE else REMOTE_DISTANCE) [0..<MAX_NUMA_NODES]) [0..<MAX_NUMA_NODES])"

definition numa_init :: "(u8 list, string) result \<Rightarrow> (u8 list, string) result \<Rightarrow> CpuDescriptor list \<Rightarrow> numa_state \<Rightarrow>
    ((unit, string) result \<times> numa_state) option" where
  "numa_init srat slit cpus s =
     (if NUMA_INITIALIZED s then Some (Ok (), s)
      else let s1 = s\<lparr> DISTANCE_MATRIX := default_distances \<rparr>;
               s2 = (case parse_srat srat s1 of
                       (Ok node_cnt, s') \<Rightarrow> s'\<lparr> NUMA_NODE_COUNT := node_cnt \<rparr>
                     | (Err e, s') \<Rightarrow> setup_uma_fallback cpus s');
               s3 = snd (parse_slit slit s2);
               s4 = s3\<lparr> NUMA_INITIALIZED := True \<rparr>
        in (case log_topology s4 of None \<Rightarrow> None | Some _ \<Rightarrow> Some (Ok (), s4)))"

section \<open>Nodes stay in range\<close>

definition node_in :: "u32 \<Rightarrow> u32 \<Rightarrow> bool" where
  "node_in max_node n \<longleftrightarrow> n \<le> max_node \<and> unat n < MAX_NUMA_NODES"

definition numa_inv :: "u32 \<Rightarrow> numa_state \<Rightarrow> bool" where
  "numa_inv max_node s \<longleftrightarrow> length (CPU_TO_NODE s) = MAX_CPUS \<and> length (MEMORY_AFFINITY s) = MAX_MEMORY_AFFINITY \<and>
     MEMORY_AFFINITY_COUNT s \<le> MAX_MEMORY_AFFINITY \<and>
     list_all (\<lambda>n. n = NUMA_NO_NODE \<or> node_in max_node n) (CPU_TO_NODE s) \<and>
     (\<forall>i < MEMORY_AFFINITY_COUNT s. node_in max_node (mm_numa_node (MEMORY_AFFINITY s ! i)))"

lemma node_in_mono: "node_in m n \<Longrightarrow> m \<le> m' \<Longrightarrow> node_in m' n"
  by (auto simp: node_in_def)

lemma numa_inv_mono: "numa_inv m s \<Longrightarrow> m \<le> m' \<Longrightarrow> numa_inv m' s"
  by (auto simp: numa_inv_def list_all_iff intro: node_in_mono)

lemma numa_inv_boot [simp]: "numa_inv m numa_boot"
  by (simp add: numa_inv_def numa_boot_def list_all_iff)

lemma register_cpu_affinity_inv:
  "numa_inv m s \<Longrightarrow> p \<le> m \<Longrightarrow> numa_inv m (register_cpu_affinity a p s)"
  by (auto simp: numa_inv_def register_cpu_affinity_def node_in_def list_all_update)

lemma register_memory_affinity_inv:
  "numa_inv m s \<Longrightarrow> p \<le> m \<Longrightarrow> numa_inv m (register_memory_affinity b z p h v s)"
  by (auto simp: numa_inv_def register_memory_affinity_def Let_def node_in_def nth_list_update less_Suc_eq)

lemma srat_entry_inv:
  assumes "numa_inv m s"
  shows "case srat_entry e (s, m) of (s', m') \<Rightarrow> numa_inv m' s'"
proof -
  have up: "numa_inv (if m < p then p else m) s \<and> p \<le> (if m < p then p else m)" for p
    using numa_inv_mono [OF assms, of p] assms by auto
  show ?thesis unfolding srat_entry_def Let_def
    using assms up register_cpu_affinity_inv register_memory_affinity_inv by (simp split del: if_split) (simp split: if_split_asm)
qed

lemma srat_loop_inv: "numa_inv (snd acc) (fst acc) \<Longrightarrow> numa_inv (snd (srat_loop es acc)) (fst (srat_loop es acc))"
proof (induction es acc rule: srat_loop.induct)
  case (1 es acc)
  have "numa_inv (snd (srat_entry e acc)) (fst (srat_entry e acc))" for e
    using srat_entry_inv [of "snd acc" "fst acc" e] "1.prems" by (simp add: split_beta)
  then show ?case using 1 by (subst (1 2) srat_loop.simps) (auto simp: Let_def)
qed

lemma numa_inv_frame [simp]:
  "numa_inv m (s\<lparr> NUMA_NODES := ns \<rparr>) = numa_inv m s" "numa_inv m (s\<lparr> NUMA_NODE_COUNT := c \<rparr>) = numa_inv m s"
  "numa_inv m (s\<lparr> DISTANCE_MATRIX := d \<rparr>) = numa_inv m s" "numa_inv m (s\<lparr> NUMA_INITIALIZED := b \<rparr>) = numa_inv m s"
  by (simp_all add: numa_inv_def)

lemma uma_cpu_inv: "numa_inv m s \<Longrightarrow> numa_inv m (uma_cpu c s)"
  by (auto simp: uma_cpu_def numa_inv_def node_in_def list_all_update MAX_NUMA_NODES_def)

lemma uma_fold_inv: "numa_inv m s \<Longrightarrow> numa_inv m (fold uma_cpu cpus s)"
  by (induction cpus arbitrary: s) (simp_all add: uma_cpu_inv)

lemma parse_slit_frame:
  "numa_inv m (snd (parse_slit slit s)) = numa_inv m s" "NUMA_NODE_COUNT (snd (parse_slit slit s)) = NUMA_NODE_COUNT s"
  by (auto simp: parse_slit_def Let_def split: result.split)

lemma numa_boot_not_initialized: "\<not> NUMA_INITIALIZED numa_boot"
  by (simp add: numa_boot_def)

text \<open>The tables once \<open>init\<close> has run: every recorded node is at most the largest domain seen.\<close>

lemma numa_init_tables:
  assumes "numa_init srat slit cpus numa_boot = Some (r, s)"
  shows "NUMA_INITIALIZED s" "\<exists>m. numa_inv m s \<and> NUMA_NODE_COUNT s = m + 1"
proof -
  define s1 where "s1 = numa_boot\<lparr> DISTANCE_MATRIX := default_distances \<rparr>"
  define s2 where "s2 = (case parse_srat srat s1 of (Ok n, s') \<Rightarrow> s'\<lparr> NUMA_NODE_COUNT := n \<rparr>
     | (Err e, s') \<Rightarrow> setup_uma_fallback cpus s')"
  have s: "s = (snd (parse_slit slit s2))\<lparr> NUMA_INITIALIZED := True \<rparr>"
    using assms unfolding numa_init_def Let_def s1_def [symmetric] s2_def [symmetric]
    by (simp add: numa_boot_not_initialized split: option.splits)
  have "\<exists>m. numa_inv m s2 \<and> NUMA_NODE_COUNT s2 = m + 1"
  proof (cases srat)
    case (Ok table)
    then show ?thesis using srat_loop_inv [of "(s1, 0)" "drop 48 table"] numa_inv_boot
      by (auto simp: s2_def parse_srat_def s1_def split: prod.split)
  next
    case (Err e)
    have "numa_inv 0 s2" using Err by (simp add: s2_def parse_srat_def setup_uma_fallback_def Let_def uma_fold_inv s1_def numa_inv_boot)
    then show ?thesis using Err by (auto simp: s2_def parse_srat_def setup_uma_fallback_def Let_def intro!: exI [of _ 0])
  qed
  then show "NUMA_INITIALIZED s" "\<exists>m. numa_inv m s \<and> NUMA_NODE_COUNT s = m + 1"
    by (simp_all add: s parse_slit_frame)
qed

lemma below_count: "m + 1 \<noteq> 0 \<Longrightarrow> n \<le> m \<Longrightarrow> n < max (m + 1) (1 :: u32)"
proof -
  assume "m + 1 \<noteq> 0" "n \<le> m"
  then have "unat (m + 1) = unat m + 1" by (simp add: unatSuc add.commute)
  then show ?thesis using \<open>n \<le> m\<close> by (simp add: less_max_iff_disj word_less_nat_alt word_le_nat_alt)
qed

lemma below_pred: "0 < n \<Longrightarrow> saturating_sub n 1 < (n :: u32)"
  using unat_gt_0 [of n] by (auto simp: saturating_sub_def word_less_nat_alt word_le_nat_alt unat_sub_if')

text \<open>
  C30: every node the topology answers with exists.  Whatever the SRAT and SLIT tables contain, once
  \<open>init\<close> has returned with a non-zero node count, the node of a CPU, the node of an address and the
  node an allocation policy selects are all below the node count.
\<close>

theorem numa_nodes_in_range:
  assumes "numa_init srat slit cpus numa_boot = Some (r, s)" "NUMA_NODE_COUNT s \<noteq> 0"
  shows "cpu_to_node s apic_id < node_count s \<and> addr_to_node s addr < node_count s \<and>
    fst (best_node_for_policy s current_apic pol) < node_count s"
proof -
  obtain m where m: "numa_inv m s" "NUMA_NODE_COUNT s = m + 1" and i: "NUMA_INITIALIZED s"
    using numa_init_tables [OF assms(1)] by blast
  have lt: "n < node_count s" if "n \<le> m" for n
    using below_count [of m n] that m(2) i assms(2) by (simp add: node_count_def)
  have "CPU_TO_NODE s ! k = NUMA_NO_NODE \<or> CPU_TO_NODE s ! k < node_count s" if "k < MAX_CPUS" for k
    using m(1) lt that by (auto simp: numa_inv_def node_in_def list_all_length)
  then have cpu: "cpu_to_node s a < node_count s" for a
    using lt [of 0] i by (auto simp: cpu_to_node_def Let_def not_le)
  have addr: "addr_to_node s addr < node_count s"
    using m(1) lt lt [of 0] i
    by (auto simp: addr_to_node_def numa_inv_def node_in_def find_Some_iff split: option.split)
  have "saturating_sub (node_count s) 1 < node_count s" "0 < node_count s"
    using lt [of 0] by (simp_all add: below_pred)
  then show ?thesis using cpu addr lt [of 0]
    by (auto simp: best_node_for_policy_def current_node_def Let_def word_mod_less_divisor min_less_iff_disj split: NumaPolicy.split)
qed

text \<open>A table with one enabled x2APIC structure that puts CPU 3 into the given domain.\<close>

definition one_cpu_srat :: "u8 \<Rightarrow> u8 list" where
  "one_cpu_srat d = replicate 48 0 @ [2, 24, 0, 0, d, 0, 0, 0, 3, 0, 0, 0, 1, 0, 0, 0, 0, 0, 0, 0, 0, 0, 0, 0]"

lemma one_cpu_srat_parse:
  "parse_srat (Ok (one_cpu_srat d)) s =
     (Ok (ucast d + 1), (register_cpu_affinity 3 (ucast d) s)\<lparr> NUMA_NODES :=
        mark_online (ucast d) (NUMA_NODES (register_cpu_affinity 3 (ucast d) s)) \<rparr>)"
proof -
  have "srat_loop [] acc = acc" for acc by (simp add: srat_loop.simps)
  then have "srat_loop (drop 48 (one_cpu_srat d)) (s, 0) = (register_cpu_affinity 3 (ucast d) s, ucast d)"
    by (subst srat_loop.simps) (auto simp: one_cpu_srat_def srat_entry_def rd32_def Let_def word_gt_0)
  then show ?thesis by (simp add: parse_srat_def)
qed

theorem numa_nodes_in_range_witness:
  "cpu_to_node (snd (the (numa_init (Ok (one_cpu_srat 1)) (Err []) [] numa_boot))) 3 < 2"
proof -
  let ?s1 = "numa_boot\<lparr> DISTANCE_MATRIX := default_distances \<rparr>"
  let ?s = "(snd (parse_srat (Ok (one_cpu_srat 1)) ?s1))\<lparr> NUMA_NODE_COUNT := 2, NUMA_INITIALIZED := True \<rparr>"
  have "numa_init (Ok (one_cpu_srat 1)) (Err []) [] numa_boot = Some (Ok (), ?s)"
    by (simp add: numa_init_def Let_def numa_boot_not_initialized one_cpu_srat_parse parse_slit_def log_topology_def
        node_count_def MAX_NUMA_NODES_def max_def)
  from numa_nodes_in_range [OF this, of 3 0 0 Local] this show ?thesis by (simp add: node_count_def max_def word_le_nat_alt)
qed

text \<open>
  A firmware table that names a proximity domain of 64 or more stops the boot.  The domain is
  not registered but still counts towards the number of nodes, and printing the topology then
  indexes its 64-element row out of bounds.
\<close>

theorem numa_init_panics:
  assumes "parse_srat srat (numa_boot\<lparr> DISTANCE_MATRIX := default_distances \<rparr>) = (Ok n, s)" "64 < unat n"
  shows "numa_init srat slit cpus numa_boot = None"
proof -
  let ?s = "(snd (parse_slit slit (s\<lparr> NUMA_NODE_COUNT := n \<rparr>)))\<lparr> NUMA_INITIALIZED := True \<rparr>"
  have "node_count ?s = max n 1" by (simp add: node_count_def parse_slit_frame)
  then have "64 < unat (node_count ?s)" using assms(2) by (auto simp: max_def word_le_nat_alt)
  then have "log_topology ?s = None" by (simp add: log_topology_def Let_def MAX_NUMA_NODES_def)
  then show ?thesis using assms(1) by (simp add: numa_init_def Let_def numa_boot_not_initialized)
qed

theorem numa_init_panics_witness: "numa_init (Ok (one_cpu_srat 64)) (Err []) [] numa_boot = None"
  by (rule numa_init_panics [OF one_cpu_srat_parse]) simp

section \<open>Distances\<close>

lemma length_row [simp]: "length (fold (\<lambda>j m. m[f j := g j]) js m) = length m"
  by (induction js arbitrary: m) simp_all

lemma row_update:
  assumes "n \<le> 64" "i * 64 + n \<le> length m" "k < length m"
  shows "fold (\<lambda>j m. m[i * 64 + j := g j]) [0..<n] m ! k =
    (if k div 64 = i \<and> k mod 64 < n then g (k mod 64) else m ! k)"
  using assms
proof (induction n)
  case (Suc n)
  have "i * 64 + n = k \<longleftrightarrow> k div 64 = i \<and> k mod 64 = n" using Suc.prems by auto
  then show ?case using Suc by (auto simp: nth_update_if less_Suc_eq)
qed simp

lemma slit_matrix_nth:
  assumes "L \<le> 64" "length m = 4096" "k < 4096"
  shows "slit_matrix L bs m ! k = (if k div 64 < L \<and> k mod 64 < L then bs ! (k div 64 * L + k mod 64) else m ! k)"
proof -
  let ?row = "\<lambda>i m. fold (\<lambda>j m. m[i * 64 + j := bs ! (i * L + j)]) [0..<L] m"
  have len: "length (fold ?row is m) = 4096" for "is" using assms(2) by (induction "is" rule: rev_induct) simp_all
  have "fold ?row [0..<n] m ! k = (if k div 64 < n \<and> k mod 64 < L then bs ! (k div 64 * L + k mod 64) else m ! k)"
    if "n \<le> 64" for n
    using that
  proof (induction n)
    case (Suc n)
    then show ?case using row_update [of L n "fold ?row [0..<n] m" k] assms len by (auto simp: less_Suc_eq)
  qed simp
  then show ?thesis using assms(1) by (simp add: slit_matrix_def MAX_NUMA_NODES_def)
qed

lemma distance_frame:
  "DISTANCE_MATRIX (register_cpu_affinity a p s) = DISTANCE_MATRIX s"
  "DISTANCE_MATRIX (register_memory_affinity b z p h v s) = DISTANCE_MATRIX s"
  "DISTANCE_MATRIX (uma_cpu c s) = DISTANCE_MATRIX s"
  by (simp_all add: register_cpu_affinity_def register_memory_affinity_def uma_cpu_def Let_def)

lemma srat_entry_distance: "DISTANCE_MATRIX (fst (srat_entry e acc)) = DISTANCE_MATRIX (fst acc)"
  by (cases acc) (simp add: srat_entry_def Let_def distance_frame)

lemma srat_loop_distance: "DISTANCE_MATRIX (fst (srat_loop es acc)) = DISTANCE_MATRIX (fst acc)"
proof (induction es acc rule: srat_loop.induct)
  case (1 es acc)
  then show ?case by (subst srat_loop.simps) (simp add: Let_def srat_entry_distance)
qed

lemma uma_fold_distance: "DISTANCE_MATRIX (fold uma_cpu cpus s) = DISTANCE_MATRIX s"
  by (induction cpus arbitrary: s) (simp_all add: distance_frame)

lemma parse_srat_distance: "DISTANCE_MATRIX (snd (parse_srat srat s)) = DISTANCE_MATRIX s"
  using srat_loop_distance [of _ "(s, 0)"] by (auto simp: parse_srat_def split: result.split prod.split) (metis fst_conv)

lemma default_distances_nth: "i < 64 \<Longrightarrow> j < 64 \<Longrightarrow> default_distances ! (i * 64 + j) = (if i = j then 10 else 20)"
  "length default_distances = 4096"
proof -
  have "concat (map (\<lambda>i. map (f i) [0..<64]) [0..<n]) = map (\<lambda>k. f (k div 64) (k mod 64)) [0..<n * 64]" for n and f :: "nat \<Rightarrow> nat \<Rightarrow> u8"
  proof (induction n)
    case (Suc n)
    have "map (f n) [0..<64] = map (\<lambda>k. f (k div 64) (k mod 64)) [n * 64..<n * 64 + 64]"
      by (rule nth_equalityI) auto
    then show ?case using Suc upt_add_eq_append [of 0 "n * 64" 64] by (simp add: add.commute)
  qed simp
  then have e: "default_distances = map (\<lambda>k. if k div 64 = k mod 64 then 10 else 20) [0..<64 * 64]"
    by (simp add: default_distances_def MAX_NUMA_NODES_def LOCAL_DISTANCE_def REMOTE_DISTANCE_def)
  show "i < 64 \<Longrightarrow> j < 64 \<Longrightarrow> default_distances ! (i * 64 + j) = (if i = j then 10 else 20)"
    by (simp add: e)
  show "length default_distances = 4096" by (simp add: e)
qed

lemma numa_init_distance:
  assumes "numa_init srat (Ok table) cpus numa_boot = Some (r, s)" "unat (rd64 table 36) = L" "0 < L" "L \<le> 64"
  shows "DISTANCE_MATRIX s = slit_matrix L (drop 44 table) default_distances"
proof -
  let ?s1 = "numa_boot\<lparr> DISTANCE_MATRIX := default_distances \<rparr>"
  define s2 where "s2 = (case parse_srat srat ?s1 of (Ok n, s') \<Rightarrow> s'\<lparr> NUMA_NODE_COUNT := n \<rparr>
     | (Err e, s') \<Rightarrow> setup_uma_fallback cpus s')"
  have s: "s = (snd (parse_slit (Ok table) s2))\<lparr> NUMA_INITIALIZED := True \<rparr>"
    using assms(1) unfolding numa_init_def Let_def s2_def [symmetric]
    by (simp add: numa_boot_not_initialized split: option.splits)
  have "DISTANCE_MATRIX s2 = default_distances"
    using parse_srat_distance [of srat ?s1]
    by (auto simp: s2_def setup_uma_fallback_def Let_def uma_fold_distance split: prod.split result.split)
  then show ?thesis using assms(2-4) by (simp add: s parse_slit_def MAX_NUMA_NODES_def)
qed

text \<open>
  The distances the kernel answers with are those of the SLIT.  After \<open>init\<close> has read a SLIT of
  \<open>L\<close> localities (at most 64), the distance between two nodes below \<open>L\<close> is the byte of the table's
  matrix, and the distance of any other pair is the default, 10 on the diagonal and 20 elsewhere.
\<close>

theorem slit_distances:
  assumes "numa_init srat (Ok table) cpus numa_boot = Some (r, s)" "unat (rd64 table 36) = L" "0 < L" "L \<le> 64"
    and "44 + L * L \<le> length table" "i < 64" "j < 64"
  shows "node_distance s (of_nat i) (of_nat j) =
    (if i < L \<and> j < L then table ! (44 + (i * L + j)) else if i = j then 10 else 20)"
proof -
  have "unat (of_nat i :: u32) = i" "unat (of_nat j :: u32) = j" using assms(6,7) by (simp_all add: unat_of_nat_small)
  then have "node_distance s (of_nat i) (of_nat j) = slit_matrix L (drop 44 table) default_distances ! (i * 64 + j)"
    using numa_init_tables(1) [OF assms(1)] assms(6,7)
    by (simp add: node_distance_def MAX_NUMA_NODES_def numa_init_distance [OF assms(1-4)])
  also have "\<dots> = (if i < L \<and> j < L then drop 44 table ! (i * L + j) else default_distances ! (i * 64 + j))"
    using assms(4,6,7) by (simp add: slit_matrix_nth default_distances_nth(2))
  finally show ?thesis using assms(5-7) by (simp only: default_distances_nth(1)) simp
qed

theorem slit_distances_witness:
  "node_distance (snd (the (numa_init (Err []) (Ok (replicate 36 0 @ [1, 0, 0, 0, 0, 0, 0, 0, 7])) [] numa_boot))) 0 0 = 7"
proof -
  let ?t = "replicate 36 0 @ [1, 0, 0, 0, 0, 0, 0, 0, 7] :: u8 list"
  let ?i = "numa_init (Err []) (Ok ?t) [] numa_boot"
  have l: "unat (rd64 ?t 36) = 1" by (simp add: rd64_def rd32_def nth_append)
  have "NUMA_NODE_COUNT (snd (parse_slit (Ok ?t) (setup_uma_fallback [] s))) = 1" for s
    by (simp add: parse_slit_frame setup_uma_fallback_def Let_def)
  then have "\<exists>s. ?i = Some (Ok (), s)"
    by (simp add: numa_init_def Let_def numa_boot_not_initialized parse_srat_def log_topology_def node_count_def)
  then obtain s where "?i = Some (Ok (), s)" ..
  from slit_distances [OF this l, of 0 0] this show ?thesis by (simp add: nth_append)
qed

end
