(* ===== verification/Percpu_Runqueue.thy ===== *)
theory Percpu_Runqueue
  imports Sched_Priority Selection Numa "HOL-Library.Multiset"
begin

text \<open>
  Per-CPU run queues and scheduler data: \<open>src/src/scheduler/percpu.rs\<close>.  A queue is its array of
  optional entries with the count of used slots; the static array of per-CPU data with the flags
  that say which element is ready is one record.  The number of CPUs and the running CPU, read from
  \<open>crate::smp\<close>, are arguments.
\<close>

section \<open>Run queues\<close>

definition PERCPU_RQ_SIZE :: nat where "PERCPU_RQ_SIZE = 128"

record RunQueueEntry =
  re_pid :: Pid
  re_table_index :: u16
  re_vdeadline :: u64
  re_vruntime :: u64
  re_policy :: SchedPolicy
  re_priority :: u8
  re_eligible :: bool

record PerCpuRunQueue =
  rq_entries :: "RunQueueEntry option list"
  rq_count :: nat
  rq_cpu_id :: u16
  rq_min_vruntime :: u64
  rq_current :: "Pid option"
  rq_need_resched :: bool
  rq_numa_node :: u32

definition rq_new :: "u16 \<Rightarrow> PerCpuRunQueue" where
  "rq_new cpu = \<lparr> rq_entries = replicate PERCPU_RQ_SIZE None, rq_count = 0, rq_cpu_id = cpu, rq_min_vruntime = 0,
     rq_current = None, rq_need_resched = False, rq_numa_node = 0 \<rparr>"

definition rq_init :: "u16 \<Rightarrow> u32 \<Rightarrow> PerCpuRunQueue \<Rightarrow> PerCpuRunQueue" where
  "rq_init cpu node q = q\<lparr> rq_cpu_id := cpu, rq_numa_node := node, rq_count := 0, rq_current := None, rq_min_vruntime := 0,
     rq_need_resched := False, rq_entries := map (\<lambda>_. None) (rq_entries q) \<rparr>"

text \<open>The loops that move the slots from \<open>lo\<close> on by one place.\<close>

definition shift_up :: "nat \<Rightarrow> nat \<Rightarrow> 'a list \<Rightarrow> 'a list" where
  "shift_up lo hi xs = fold (\<lambda>i xs. xs[i + 1 := xs ! i]) (rev [lo..<hi]) xs"

definition shift_down :: "nat \<Rightarrow> nat \<Rightarrow> 'a list \<Rightarrow> 'a list" where
  "shift_down lo hi xs = fold (\<lambda>i xs. xs[i := xs ! (i + 1)]) [lo..<hi] xs"

definition insert_idx :: "RunQueueEntry \<Rightarrow> PerCpuRunQueue \<Rightarrow> nat" where
  "insert_idx e q =
     (case find_slot (\<lambda>slot. case slot of None \<Rightarrow> False | Some existing \<Rightarrow> re_vdeadline e < re_vdeadline existing)
        (take (rq_count q) (rq_entries q)) of
        Some i \<Rightarrow> i
      | None \<Rightarrow> rq_count q)"

definition rq_enqueue :: "RunQueueEntry \<Rightarrow> PerCpuRunQueue \<Rightarrow> (unit, string) result \<times> PerCpuRunQueue" where
  "rq_enqueue e q =
     (if PERCPU_RQ_SIZE \<le> rq_count q then (Err ''Per-CPU run queue full'', q)
      else let idx = insert_idx e q;
               shifted = (if idx < rq_count q then shift_up idx (rq_count q) (rq_entries q) else rq_entries q);
               count = rq_count q + 1
        in (Ok (), q\<lparr> rq_entries := shifted[idx := Some e], rq_count := count,
                       rq_min_vruntime := (if re_vruntime e < rq_min_vruntime q \<or> count = 1 then re_vruntime e
                                           else rq_min_vruntime q) \<rparr>))"

definition rq_update_min_vruntime :: "PerCpuRunQueue \<Rightarrow> PerCpuRunQueue" where
  "rq_update_min_vruntime q =
     (let min_v = foldl (\<lambda>m slot. case slot of None \<Rightarrow> m | Some e \<Rightarrow> if re_vruntime e < m then re_vruntime e else m)
            (- 1) (take (rq_count q) (rq_entries q))
      in if min_v \<noteq> - 1 \<and> rq_min_vruntime q < min_v then q\<lparr> rq_min_vruntime := min_v \<rparr> else q)"

text \<open>Taking the entry out of slot \<open>idx\<close> and closing the gap.\<close>

definition rq_remove_at :: "nat \<Rightarrow> PerCpuRunQueue \<Rightarrow> PerCpuRunQueue" where
  "rq_remove_at idx q =
     (let taken = (rq_entries q)[idx := None];
          shifted = shift_down idx (rq_count q - 1) taken
      in q\<lparr> rq_entries := shifted[rq_count q - 1 := None], rq_count := rq_count q - 1 \<rparr>)"

definition rq_slot :: "Pid \<Rightarrow> PerCpuRunQueue \<Rightarrow> nat option" where
  "rq_slot p q = find_slot (\<lambda>slot. case slot of None \<Rightarrow> False | Some e \<Rightarrow> re_pid e = p) (take (rq_count q) (rq_entries q))"

definition rq_dequeue :: "Pid \<Rightarrow> PerCpuRunQueue \<Rightarrow> RunQueueEntry option \<times> PerCpuRunQueue" where
  "rq_dequeue p q =
     (case rq_slot p q of
        None \<Rightarrow> (None, q)
      | Some idx \<Rightarrow> (rq_entries q ! idx, rq_update_min_vruntime (rq_remove_at idx q)))"

text \<open>Whether an entry replaces the best one seen so far.\<close>

definition rq_better :: "RunQueueEntry \<Rightarrow> RunQueueEntry \<Rightarrow> bool" where
  "rq_better e best =
     (if re_policy e = Realtime then re_policy best \<noteq> Realtime \<or> re_priority e < re_priority best
      else if re_policy e = Idle then False
      else if re_policy best = Realtime then False
      else if re_policy best = Idle then True
      else if re_eligible e \<and> \<not> re_eligible best then True
      else if \<not> re_eligible e \<and> re_eligible best then False
      else re_vdeadline e < re_vdeadline best)"

definition rq_candidates :: "PerCpuRunQueue \<Rightarrow> (nat \<times> RunQueueEntry) list" where
  "rq_candidates q = [(i, e). (i, Some e) \<leftarrow> enumerate 0 (take (rq_count q) (rq_entries q))]"

definition pick_next :: "PerCpuRunQueue \<Rightarrow> RunQueueEntry option \<times> PerCpuRunQueue" where
  "pick_next q =
     (if rq_count q = 0 then (None, q)
      else case scan_best rq_better (rq_candidates q) None of
          Some (idx, _) \<Rightarrow> (rq_entries q ! idx, rq_remove_at idx q)
        | None \<Rightarrow> (None, q))"

definition update_entry :: "Pid \<Rightarrow> u64 \<Rightarrow> u64 \<Rightarrow> bool \<Rightarrow> PerCpuRunQueue \<Rightarrow> PerCpuRunQueue" where
  "update_entry p vrt vdl elig q =
     rq_update_min_vruntime
       (case rq_slot p q of
          None \<Rightarrow> q
        | Some i \<Rightarrow> q\<lparr> rq_entries := modify_nth i
            (map_option (\<lambda>e. e\<lparr> re_vruntime := vrt, re_vdeadline := vdl, re_eligible := elig \<rparr>)) (rq_entries q) \<rparr>)"

definition rq_contains :: "Pid \<Rightarrow> PerCpuRunQueue \<Rightarrow> bool" where
  "rq_contains p q \<longleftrightarrow> rq_slot p q \<noteq> None"

definition rq_check_need_resched :: "PerCpuRunQueue \<Rightarrow> bool \<times> PerCpuRunQueue" where
  "rq_check_need_resched q = (rq_need_resched q, q\<lparr> rq_need_resched := False \<rparr>)"

section \<open>Per-CPU scheduler data\<close>

record PerCpuSchedData =
  run_queue :: PerCpuRunQueue
  local_tick :: u64
  last_tick_ns :: u64
  idle_ns :: u64
  context_switches :: u64
  sd_voluntary_switches :: u64
  preemptions :: u64
  migrations_out :: u64
  migrations_in :: u64
  load_avg :: u64
  is_idle :: bool
  idle_start :: u64
  sd_cpu_id :: u16
  sd_numa_node :: u32

definition sched_data_new :: "u16 \<Rightarrow> PerCpuSchedData" where
  "sched_data_new cpu = \<lparr> run_queue = rq_new cpu, local_tick = 0, last_tick_ns = 0, idle_ns = 0, context_switches = 0,
     sd_voluntary_switches = 0, preemptions = 0, migrations_out = 0, migrations_in = 0, load_avg = 0, is_idle = True,
     idle_start = 0, sd_cpu_id = cpu, sd_numa_node = 0 \<rparr>"

definition sched_data_init :: "u16 \<Rightarrow> u32 \<Rightarrow> PerCpuSchedData \<Rightarrow> PerCpuSchedData" where
  "sched_data_init cpu node d = d\<lparr> sd_cpu_id := cpu, sd_numa_node := node, local_tick := 0, last_tick_ns := 0, idle_ns := 0,
     context_switches := 0, sd_voluntary_switches := 0, preemptions := 0, migrations_out := 0, migrations_in := 0,
     load_avg := 0, is_idle := True, idle_start := 0, run_queue := rq_init cpu node (run_queue d) \<rparr>"

definition record_context_switch :: "bool \<Rightarrow> PerCpuSchedData \<Rightarrow> PerCpuSchedData" where
  "record_context_switch voluntary d =
     (let d1 = d\<lparr> context_switches := context_switches d + 1 \<rparr> in
      if voluntary then d1\<lparr> sd_voluntary_switches := sd_voluntary_switches d1 + 1 \<rparr>
      else d1\<lparr> preemptions := preemptions d1 + 1 \<rparr>)"

definition enter_idle :: "u64 \<Rightarrow> PerCpuSchedData \<Rightarrow> PerCpuSchedData" where
  "enter_idle current_ns d = d\<lparr> is_idle := True, idle_start := current_ns \<rparr>"

definition exit_idle :: "u64 \<Rightarrow> PerCpuSchedData \<Rightarrow> PerCpuSchedData" where
  "exit_idle current_ns d =
     (let d1 = d\<lparr> is_idle := False \<rparr> in
      if is_idle d \<and> idle_start d < current_ns then d1\<lparr> idle_ns := idle_ns d + (current_ns - idle_start d) \<rparr> else d1)"

definition load_percent :: "PerCpuSchedData \<Rightarrow> u8" where
  "load_percent d = ucast (min (load_avg d * 100 div 1024) 100)"

definition update_load_average :: "PerCpuSchedData \<Rightarrow> PerCpuSchedData" where
  "update_load_average d =
     (let current_load = of_nat (rq_count (run_queue d)) + (if \<not> is_idle d then 1 else 0);
          current_scaled = current_load * 1024
      in d\<lparr> load_avg := (load_avg d * 7 + current_scaled) div 8 \<rparr>)"

definition STATIC_PERCPU_SCHED_COUNT :: nat where "STATIC_PERCPU_SCHED_COUNT = 8"

record percpu_state =
  PERCPU_SCHED_DATA :: "PerCpuSchedData list"
  PERCPU_SCHED_READY :: "bool list"

definition percpu_boot :: percpu_state where
  "percpu_boot = \<lparr> PERCPU_SCHED_DATA = replicate STATIC_PERCPU_SCHED_COUNT (sched_data_new 0),
     PERCPU_SCHED_READY = replicate MAX_CPUS False \<rparr>"

definition init_percpu_sched :: "numa_state \<Rightarrow> CpuDescriptor list \<Rightarrow> nat \<Rightarrow> percpu_state \<Rightarrow> percpu_state" where
  "init_percpu_sched numa cpus cpu g =
     (if MAX_CPUS \<le> cpu then g
      else let node = (if NUMA_INITIALIZED numa \<and> cpu < length cpus
                       then cpu_to_node numa (ucast (cd_apic_id (cpus ! cpu))) else 0);
               g1 = (if cpu < STATIC_PERCPU_SCHED_COUNT
                     then g\<lparr> PERCPU_SCHED_DATA := modify_nth cpu (sched_data_init (of_nat cpu) node) (PERCPU_SCHED_DATA g) \<rparr>
                     else g)
        in g1\<lparr> PERCPU_SCHED_READY := (PERCPU_SCHED_READY g1)[cpu := True] \<rparr>)"

text \<open>The reference to per-CPU data is the index of the element; reads and writes go through it.\<close>

definition get_percpu_sched :: "percpu_state \<Rightarrow> nat \<Rightarrow> nat option" where
  "get_percpu_sched g cpu =
     (if MAX_CPUS \<le> cpu \<or> \<not> PERCPU_SCHED_READY g ! cpu then None
      else if cpu < STATIC_PERCPU_SCHED_COUNT then Some cpu else None)"

definition sched_at :: "percpu_state \<Rightarrow> nat \<Rightarrow> PerCpuSchedData" where
  "sched_at g i = PERCPU_SCHED_DATA g ! i"

definition upd_queue :: "nat \<Rightarrow> (PerCpuRunQueue \<Rightarrow> PerCpuRunQueue) \<Rightarrow> percpu_state \<Rightarrow> percpu_state" where
  "upd_queue i f g = g\<lparr> PERCPU_SCHED_DATA := modify_nth i (\<lambda>d. d\<lparr> run_queue := f (run_queue d) \<rparr>) (PERCPU_SCHED_DATA g) \<rparr>"

definition enqueue_target :: "nat \<Rightarrow> ProcessEntry \<Rightarrow> u16" where
  "enqueue_target cpu_count e =
     (let target = (if cm_is_empty (cpu_affinity e) then 0
                    else if cm_is_set (cpu_affinity e) (unat (last_cpu e)) then last_cpu e
                    else of_nat (case cm_first_set (cpu_affinity e) of None \<Rightarrow> 0 | Some c \<Rightarrow> c))
      in of_nat (min (unat target) (cpu_count - 1)))"

definition rq_entry_of :: "ProcessEntry \<Rightarrow> RunQueueEntry" where
  "rq_entry_of e = \<lparr> re_pid = pid (process e), re_table_index = 0, re_vdeadline = vdeadline e, re_vruntime = vruntime e,
     re_policy = policy e, re_priority = priority e, re_eligible = (0 \<le> lag e) \<rparr>"

definition percpu_enqueue :: "nat \<Rightarrow> ProcessEntry \<Rightarrow> percpu_state \<Rightarrow> (u16, string) result \<times> percpu_state" where
  "percpu_enqueue cpu_count e g =
     (let target = enqueue_target cpu_count e in
      case get_percpu_sched g (unat target) of
        None \<Rightarrow> (Err ''Per-CPU scheduler not initialized'', g)
      | Some i \<Rightarrow>
          (case rq_enqueue (rq_entry_of e) (run_queue (sched_at g i)) of
             (Err m, _) \<Rightarrow> (Err m, g)
           | (Ok (), q) \<Rightarrow> (Ok target, upd_queue i (\<lambda>_. q) g)))"

definition percpu_dequeue :: "Pid \<Rightarrow> u16 \<Rightarrow> percpu_state \<Rightarrow> RunQueueEntry option \<times> percpu_state" where
  "percpu_dequeue p cpu g =
     (case get_percpu_sched g (unat cpu) of
        None \<Rightarrow> (None, g)
      | Some i \<Rightarrow> (case rq_dequeue p (run_queue (sched_at g i)) of (r, q) \<Rightarrow> (r, upd_queue i (\<lambda>_. q) g)))"

definition percpu_pick_next :: "nat \<Rightarrow> percpu_state \<Rightarrow> RunQueueEntry option \<times> percpu_state" where
  "percpu_pick_next current_cpu g =
     (case get_percpu_sched g current_cpu of
        None \<Rightarrow> (None, g)
      | Some i \<Rightarrow> (case pick_next (run_queue (sched_at g i)) of (r, q) \<Rightarrow> (r, upd_queue i (\<lambda>_. q) g)))"

definition set_need_resched :: "u16 \<Rightarrow> percpu_state \<Rightarrow> percpu_state" where
  "set_need_resched cpu g =
     (case get_percpu_sched g (unat cpu) of
        None \<Rightarrow> g
      | Some i \<Rightarrow> upd_queue i (\<lambda>q. q\<lparr> rq_need_resched := True \<rparr>) g)"

definition check_need_resched :: "nat \<Rightarrow> percpu_state \<Rightarrow> bool \<times> percpu_state" where
  "check_need_resched current_cpu g =
     (case get_percpu_sched g current_cpu of
        None \<Rightarrow> (False, g)
      | Some i \<Rightarrow> (rq_need_resched (run_queue (sched_at g i)), upd_queue i (\<lambda>q. q\<lparr> rq_need_resched := False \<rparr>) g))"

definition get_cpu_load :: "percpu_state \<Rightarrow> u16 \<Rightarrow> u8" where
  "get_cpu_load g cpu = (case get_percpu_sched g (unat cpu) of None \<Rightarrow> 0 | Some i \<Rightarrow> load_percent (sched_at g i))"

definition get_cpu_queue_len :: "percpu_state \<Rightarrow> u16 \<Rightarrow> nat" where
  "get_cpu_queue_len g cpu = (case get_percpu_sched g (unat cpu) of None \<Rightarrow> 0 | Some i \<Rightarrow> rq_count (run_queue (sched_at g i)))"

text \<open>The loops over an affinity mask stop at the first CPU that does not exist.\<close>

definition find_least_loaded_cpu :: "nat \<Rightarrow> percpu_state \<Rightarrow> CpuMask \<Rightarrow> u16" where
  "find_least_loaded_cpu cpu_count g affinity =
     fst (foldl (\<lambda>(best_cpu, min_load) cpu.
            let load = get_cpu_load g (of_nat cpu) in
            if load < min_load then (of_nat cpu, load) else (best_cpu, min_load))
          (0, 255) (takeWhile (\<lambda>cpu. cpu < cpu_count) (iter_set affinity)))"

definition find_best_cpu_numa :: "nat \<Rightarrow> percpu_state \<Rightarrow> CpuMask \<Rightarrow> u32 \<Rightarrow> u16" where
  "find_best_cpu_numa cpu_count g affinity preferred_node =
     fst (foldl (\<lambda>(best_cpu, best_score) cpu.
            case get_percpu_sched g cpu of
              None \<Rightarrow> (best_cpu, best_score)
            | Some i \<Rightarrow>
                let numa_penalty = (if sd_numa_node (sched_at g i) = preferred_node then 0 else 100);
                    score = numa_penalty + ucast (get_cpu_load g (of_nat cpu)) :: u64
                in if score < best_score then (of_nat cpu, score) else (best_cpu, best_score))
          (0, - 1) (takeWhile (\<lambda>cpu. cpu < cpu_count) (iter_set affinity)))"

text \<open>
  \<open>balance_runqueues\<close> sorts the CPUs into donors and recipients, logs them and returns its constant
  count of migrations; here the two lists are returned with it.
\<close>

definition MIN_IMBALANCE :: nat where "MIN_IMBALANCE = 2"

definition balance_runqueues :: "nat \<Rightarrow> percpu_state \<Rightarrow> nat \<times> nat list \<times> nat list" where
  "balance_runqueues cpu_count g =
     (if cpu_count \<le> 1 then (0, [], [])
      else let migrations = 0;
               loads = map (\<lambda>cpu. case get_percpu_sched g cpu of None \<Rightarrow> 0 | Some i \<Rightarrow> rq_count (run_queue (sched_at g i)))
                         [0..<cpu_count];
               avg_load = sum_list loads div cpu_count;
               donors = filter (\<lambda>cpu. avg_load + MIN_IMBALANCE < loads ! cpu) [0..<cpu_count];
               recipients = filter (\<lambda>cpu. \<not> avg_load + MIN_IMBALANCE < loads ! cpu \<and> loads ! cpu < avg_load - 1) [0..<cpu_count]
        in (migrations, donors, recipients))"

definition update_all_load_averages :: "nat \<Rightarrow> percpu_state \<Rightarrow> percpu_state" where
  "update_all_load_averages cpu_count g =
     foldl (\<lambda>g cpu. case get_percpu_sched g cpu of
              None \<Rightarrow> g
            | Some i \<Rightarrow> g\<lparr> PERCPU_SCHED_DATA := modify_nth i update_load_average (PERCPU_SCHED_DATA g) \<rparr>)
       g [0..<cpu_count]"

section \<open>The queue as a list\<close>

definition rq_list :: "PerCpuRunQueue \<Rightarrow> RunQueueEntry list" where
  "rq_list q = map the (take (rq_count q) (rq_entries q))"

definition rq_ok :: "PerCpuRunQueue \<Rightarrow> bool" where
  "rq_ok q \<longleftrightarrow> rq_count q = length (rq_list q) \<and> rq_count q \<le> PERCPU_RQ_SIZE \<and>
     rq_entries q = map Some (rq_list q) @ replicate (PERCPU_RQ_SIZE - rq_count q) None"

lemma length_shift [simp]: "length (shift_up lo hi xs) = length xs" "length (shift_down lo hi xs) = length xs"
proof -
  have "length (fold (\<lambda>i xs. xs[f i := xs ! g i]) is xs) = length xs" for f g :: "nat \<Rightarrow> nat" and "is" and xs :: "'a list"
    by (induction "is" arbitrary: xs) simp_all
  then show "length (shift_up lo hi xs) = length xs" "length (shift_down lo hi xs) = length xs"
    unfolding shift_up_def shift_down_def by fast+
qed

lemma nth_shift_up:
  "lo \<le> hi \<Longrightarrow> hi < length xs \<Longrightarrow> shift_up lo hi xs ! k = (if lo < k \<and> k \<le> hi then xs ! (k - 1) else xs ! k)"
proof (induction hi arbitrary: xs)
  case (Suc hi)
  show ?case
  proof (cases "lo = Suc hi")
    case False
    then have "shift_up lo (Suc hi) xs = shift_up lo hi (xs[hi + 1 := xs ! hi])" using Suc.prems by (simp add: shift_up_def)
    then show ?thesis using Suc.IH [of "xs[hi + 1 := xs ! hi]"] Suc.prems False by (auto simp: nth_update_if le_Suc_eq)
  qed (auto simp: shift_up_def)
qed (simp add: shift_up_def)

lemma nth_shift_down:
  "lo \<le> hi \<Longrightarrow> hi < length xs \<Longrightarrow> shift_down lo hi xs ! k = (if lo \<le> k \<and> k < hi then xs ! (k + 1) else xs ! k)"
proof (induction hi arbitrary: k)
  case (Suc hi)
  show ?case
  proof (cases "lo = Suc hi")
    case False
    then have e: "shift_down lo (Suc hi) xs = (shift_down lo hi xs)[hi := shift_down lo hi xs ! (hi + 1)]"
      using Suc.prems by (simp add: shift_down_def)
    show ?thesis unfolding e using Suc.IH [of k] Suc.IH [of "hi + 1"] Suc.prems False by (auto simp: nth_update_if less_Suc_eq)
  qed (auto simp: shift_down_def)
qed (simp add: shift_down_def)

lemma find_slot_takeWhile:
  "(case find_slot P xs of Some i \<Rightarrow> i | None \<Rightarrow> length xs) = length (takeWhile (\<lambda>x. \<not> P x) xs)"
  by (induction xs) (auto split: option.splits)

text \<open>The abstract operations on the list of entries.\<close>

definition rq_insert :: "RunQueueEntry \<Rightarrow> RunQueueEntry list \<Rightarrow> RunQueueEntry list" where
  "rq_insert e xs = takeWhile (\<lambda>x. re_vdeadline x \<le> re_vdeadline e) xs @ e # dropWhile (\<lambda>x. re_vdeadline x \<le> re_vdeadline e) xs"

definition rq_delete :: "nat \<Rightarrow> 'a list \<Rightarrow> 'a list" where
  "rq_delete i xs = take i xs @ drop (Suc i) xs"

lemma rq_okI:
  assumes "rq_entries q = map Some xs @ replicate (PERCPU_RQ_SIZE - length xs) None" "rq_count q = length xs" "length xs \<le> PERCPU_RQ_SIZE"
  shows "rq_ok q" "rq_list q = xs"
proof -
  show "rq_list q = xs" using assms by (simp add: rq_list_def comp_def)
  then show "rq_ok q" using assms by (simp add: rq_ok_def)
qed

lemma rq_okD:
  assumes "rq_ok q"
  shows "rq_entries q = map Some (rq_list q) @ replicate (PERCPU_RQ_SIZE - length (rq_list q)) None"
    and "rq_count q = length (rq_list q)" and "length (rq_list q) \<le> PERCPU_RQ_SIZE"
    and "take (rq_count q) (rq_entries q) = map Some (rq_list q)"
proof -
  show c: "rq_count q = length (rq_list q)" using assms by (simp add: rq_ok_def)
  show "rq_entries q = map Some (rq_list q) @ replicate (PERCPU_RQ_SIZE - length (rq_list q)) None" "length (rq_list q) \<le> PERCPU_RQ_SIZE"
    using assms by (simp_all add: rq_ok_def flip: c)
  then show "take (rq_count q) (rq_entries q) = map Some (rq_list q)" by (simp add: c)
qed

lemma length_rq_entries: "rq_ok q \<Longrightarrow> length (rq_entries q) = PERCPU_RQ_SIZE"
  using rq_okD(1,3) by (metis le_add_diff_inverse length_append length_map length_replicate)

lemma insert_idx_rep:
  assumes "rq_ok q"
  shows "insert_idx e q = length (takeWhile (\<lambda>x. re_vdeadline x \<le> re_vdeadline e) (rq_list q))"
proof -
  let ?P = "\<lambda>slot. case slot of None \<Rightarrow> False | Some x \<Rightarrow> re_vdeadline e < re_vdeadline (x :: RunQueueEntry)"
  have "insert_idx e q = (case find_slot ?P (map Some (rq_list q)) of Some i \<Rightarrow> i | None \<Rightarrow> length (map Some (rq_list q)))"
    unfolding insert_idx_def rq_okD(4) [OF assms] unfolding rq_okD(2) [OF assms] length_map ..
  also note find_slot_takeWhile
  finally have "insert_idx e q = length (takeWhile (\<lambda>s. \<not> ?P s) (map Some (rq_list q)))" .
  then show ?thesis by (simp add: takeWhile_map comp_def not_less)
qed

lemma nth_rq_entries:
  "rq_ok q \<Longrightarrow> k < PERCPU_RQ_SIZE \<Longrightarrow> rq_entries q ! k = (if k < length (rq_list q) then Some (rq_list q ! k) else None)"
  by (subst rq_okD(1)) (auto simp: nth_append)

lemma enqueue_rep:
  assumes "rq_ok q" "rq_count q < PERCPU_RQ_SIZE"
  shows "rq_ok (snd (rq_enqueue e q))" "rq_list (snd (rq_enqueue e q)) = rq_insert e (rq_list q)" "fst (rq_enqueue e q) = Ok ()"
proof -
  let ?xs = "rq_list q" let ?n = "length ?xs" let ?i = "insert_idx e q"
  have n: "rq_count q = ?n" "?n < PERCPU_RQ_SIZE" using rq_okD(2) [OF assms(1)] assms(2) by simp_all
  have i: "?i \<le> ?n" unfolding insert_idx_rep [OF assms(1)] by (rule length_takeWhile_le)
  have ins: "rq_insert e ?xs = take ?i ?xs @ e # drop ?i ?xs"
    unfolding rq_insert_def insert_idx_rep [OF assms(1)] by (simp add: takeWhile_eq_take [symmetric] dropWhile_eq_drop [symmetric])
  let ?sh = "if ?i < ?n then shift_up ?i ?n (rq_entries q) else rq_entries q"
  have "?sh[?i := Some e] = map Some (rq_insert e ?xs) @ replicate (PERCPU_RQ_SIZE - (?n + 1)) None"
  proof (rule nth_equalityI)
    show "length (?sh[?i := Some e]) = length (map Some (rq_insert e ?xs) @ replicate (PERCPU_RQ_SIZE - (?n + 1)) None)"
      using i n length_rq_entries [OF assms(1)] by (simp add: ins)
    fix k assume "k < length (?sh[?i := Some e])"
    then have k: "k < PERCPU_RQ_SIZE" using length_rq_entries [OF assms(1)] by (simp split: if_splits)
    have sh: "?sh ! k = (if ?i < k \<and> k \<le> ?n then rq_entries q ! (k - 1) else rq_entries q ! k)"
      using nth_shift_up [of ?i ?n "rq_entries q" k] i n length_rq_entries [OF assms(1)] by auto
    show "?sh[?i := Some e] ! k = (map Some (rq_insert e ?xs) @ replicate (PERCPU_RQ_SIZE - (?n + 1)) None) ! k"
      using i n k sh length_rq_entries [OF assms(1)]
      by (auto simp: ins nth_append nth_rq_entries [OF assms(1)] nth_update_if nth_Cons' min_def)
  qed
  then have *: "rq_entries (snd (rq_enqueue e q)) = map Some (rq_insert e ?xs) @ replicate (PERCPU_RQ_SIZE - length (rq_insert e ?xs)) None"
    using n i by (auto simp: rq_enqueue_def Let_def ins split: if_splits)
  have "rq_count (snd (rq_enqueue e q)) = length (rq_insert e ?xs)" "length (rq_insert e ?xs) \<le> PERCPU_RQ_SIZE"
    using n i by (simp_all add: rq_enqueue_def Let_def ins)
  from rq_okI [OF * this] show "rq_ok (snd (rq_enqueue e q))" "rq_list (snd (rq_enqueue e q)) = rq_insert e ?xs" by simp_all
  show "fst (rq_enqueue e q) = Ok ()" using n by (simp add: rq_enqueue_def Let_def)
qed

lemma remove_at_rep:
  assumes "rq_ok q" "i < rq_count q"
  shows "rq_ok (rq_remove_at i q)" "rq_list (rq_remove_at i q) = rq_delete i (rq_list q)"
proof -
  let ?xs = "rq_list q" let ?n = "length ?xs"
  have n: "rq_count q = ?n" "?n \<le> PERCPU_RQ_SIZE" "i < ?n" using rq_okD(2,3) [OF assms(1)] assms(2) by simp_all
  let ?sh = "shift_down i (?n - 1) ((rq_entries q)[i := None])"
  have "?sh[?n - 1 := None] = map Some (rq_delete i ?xs) @ replicate (PERCPU_RQ_SIZE - (?n - 1)) None"
  proof (rule nth_equalityI)
    show "length (?sh[?n - 1 := None]) = length (map Some (rq_delete i ?xs) @ replicate (PERCPU_RQ_SIZE - (?n - 1)) None)"
      using n length_rq_entries [OF assms(1)] by (simp add: rq_delete_def)
    fix k assume "k < length (?sh[?n - 1 := None])"
    then have k: "k < PERCPU_RQ_SIZE" using length_rq_entries [OF assms(1)] by simp
    have sh: "?sh ! k = (if i \<le> k \<and> k < ?n - 1 then (rq_entries q)[i := None] ! (k + 1) else (rq_entries q)[i := None] ! k)"
      using nth_shift_down [of i "?n - 1" "(rq_entries q)[i := None]" k] n length_rq_entries [OF assms(1)] by simp
    show "?sh[?n - 1 := None] ! k = (map Some (rq_delete i ?xs) @ replicate (PERCPU_RQ_SIZE - (?n - 1)) None) ! k"
      using n k sh length_rq_entries [OF assms(1)]
      by (auto simp: rq_delete_def nth_append nth_rq_entries [OF assms(1)] nth_update_if min_def)
  qed
  then have *: "rq_entries (rq_remove_at i q) = map Some (rq_delete i ?xs) @ replicate (PERCPU_RQ_SIZE - length (rq_delete i ?xs)) None"
    using n by (simp add: rq_remove_at_def Let_def rq_delete_def)
  have "rq_count (rq_remove_at i q) = length (rq_delete i ?xs)" "length (rq_delete i ?xs) \<le> PERCPU_RQ_SIZE"
    using n by (simp_all add: rq_remove_at_def Let_def rq_delete_def)
  from rq_okI [OF * this] show "rq_ok (rq_remove_at i q)" "rq_list (rq_remove_at i q) = rq_delete i ?xs" by simp_all
qed

lemma rq_frame [simp]:
  "rq_list (q\<lparr> rq_min_vruntime := v \<rparr>) = rq_list q" "rq_ok (q\<lparr> rq_min_vruntime := v \<rparr>) = rq_ok q"
  by (simp_all add: rq_ok_def rq_list_def)

lemma update_min_rep: "rq_list (rq_update_min_vruntime q) = rq_list q" "rq_ok (rq_update_min_vruntime q) = rq_ok q"
  by (simp_all add: rq_update_min_vruntime_def Let_def)

lemma rq_slot_rep: "rq_ok q \<Longrightarrow> rq_slot p q = find_slot (\<lambda>e. re_pid e = p) (rq_list q)"
proof -
  assume q: "rq_ok q"
  have "find_slot P (map Some xs) = find_slot (\<lambda>e. P (Some e)) xs" for P and xs :: "RunQueueEntry list"
    by (induction xs) simp_all
  then show ?thesis by (simp add: rq_slot_def rq_okD(4) [OF q])
qed

lemma rq_candidates_rep: "rq_ok q \<Longrightarrow> rq_candidates q = enumerate 0 (rq_list q)"
proof -
  assume q: "rq_ok q"
  have "[(i, e). (i, Some e) \<leftarrow> enumerate n (map Some xs)] = enumerate n xs" for n and xs :: "RunQueueEntry list"
    by (induction xs arbitrary: n) simp_all
  then show ?thesis by (simp add: rq_candidates_def rq_okD(4) [OF q])
qed

interpretation rq_order: candidate_order rq_better
  by unfold_locales (auto simp: rq_better_def split: if_splits)

section \<open>Sequences of queue operations\<close>

datatype rq_op = RqEnqueue RunQueueEntry | RqDequeue Pid | RqPick

text \<open>The entries a run accepted, the entries it handed out, and the queue it leaves.\<close>

fun rq_run :: "rq_op list \<Rightarrow> PerCpuRunQueue \<Rightarrow> RunQueueEntry list \<times> RunQueueEntry list \<times> PerCpuRunQueue" where
  "rq_run [] q = ([], [], q)"
| "rq_run (RqEnqueue e # ops) q =
     (case rq_enqueue e q of (r, q1) \<Rightarrow> (case rq_run ops q1 of (acc, out, q2) \<Rightarrow> (if is_ok r then e # acc else acc, out, q2)))"
| "rq_run (RqDequeue p # ops) q =
     (case rq_dequeue p q of (r, q1) \<Rightarrow> (case rq_run ops q1 of (acc, out, q2) \<Rightarrow> (acc, (case r of None \<Rightarrow> out | Some e \<Rightarrow> e # out), q2)))"
| "rq_run (RqPick # ops) q =
     (case pick_next q of (r, q1) \<Rightarrow> (case rq_run ops q1 of (acc, out, q2) \<Rightarrow> (acc, (case r of None \<Rightarrow> out | Some e \<Rightarrow> e # out), q2)))"

definition by_deadline :: "RunQueueEntry list \<Rightarrow> bool" where
  "by_deadline xs \<longleftrightarrow> sorted (map re_vdeadline xs)"

lemma mset_rq_insert: "mset (rq_insert e xs) = add_mset e (mset xs)"
proof -
  have "mset (rq_insert e xs) = add_mset e (mset (takeWhile (\<lambda>x. re_vdeadline x \<le> re_vdeadline e) xs @ dropWhile (\<lambda>x. re_vdeadline x \<le> re_vdeadline e) xs))"
    unfolding rq_insert_def mset_append by simp
  then show ?thesis by (simp only: takeWhile_dropWhile_id)
qed

lemma by_deadline_insert: "by_deadline xs \<Longrightarrow> by_deadline (rq_insert e xs)"
  unfolding by_deadline_def rq_insert_def
proof (induction xs)
  case (Cons x xs)
  then show ?case by (auto dest!: set_takeWhileD set_dropWhileD intro: order_trans)
qed simp

lemma mset_rq_delete:
  assumes "i < length xs"
  shows "add_mset (xs ! i) (mset (rq_delete i xs)) = mset xs"
proof -
  have "mset xs = mset (take i xs @ xs ! i # drop (Suc i) xs)" using id_take_nth_drop [OF assms] by simp
  then show ?thesis by (simp add: rq_delete_def)
qed

lemma by_deadline_delete:
  assumes "by_deadline xs"
  shows "by_deadline (rq_delete i xs)"
proof -
  have "sorted (map re_vdeadline (take i xs) @ map re_vdeadline (drop i xs))"
    using assms unfolding by_deadline_def map_append [symmetric] append_take_drop_id .
  then have "sorted (map re_vdeadline (take i xs))" "sorted (map re_vdeadline (drop i xs))"
      "\<forall>x \<in> set (take i xs). \<forall>y \<in> set (drop i xs). re_vdeadline x \<le> re_vdeadline y"
    unfolding sorted_append by simp_all
  moreover have "set (drop (Suc i) xs) \<subseteq> set (drop i xs)" by (rule set_drop_subset_set_drop) simp
  moreover have "sorted (map re_vdeadline (drop (Suc i) xs))"
    using sorted_wrt_drop [OF \<open>sorted (map re_vdeadline (drop i xs))\<close>, of 1] by (simp add: drop_map)
  ultimately show ?thesis unfolding by_deadline_def rq_delete_def map_append sorted_append by auto
qed

lemma dequeue_rep:
  assumes "rq_ok q"
  shows "case rq_dequeue p q of (r, q') \<Rightarrow> rq_ok q' \<and>
    (case find_slot (\<lambda>e. re_pid e = p) (rq_list q) of
       None \<Rightarrow> r = None \<and> q' = q
     | Some i \<Rightarrow> i < length (rq_list q) \<and> r = Some (rq_list q ! i) \<and> rq_list q' = rq_delete i (rq_list q))"
proof (cases "find_slot (\<lambda>e. re_pid e = p) (rq_list q)")
  case (Some i)
  then have "i < length (rq_list q)" using find_slot_SomeD by blast
  then show ?thesis using Some assms rq_okD(2,3) [OF assms] remove_at_rep [OF assms, of i]
    by (simp add: rq_dequeue_def rq_slot_rep update_min_rep nth_rq_entries)
qed (simp add: rq_dequeue_def rq_slot_rep assms)

lemma pick_rep:
  assumes "rq_ok q"
  shows "case pick_next q of (r, q') \<Rightarrow> rq_ok q' \<and>
    (if rq_list q = [] then r = None \<and> q' = q
     else \<exists>i < length (rq_list q). r = Some (rq_list q ! i) \<and> rq_list q' = rq_delete i (rq_list q) \<and>
       (\<forall>e \<in> set (rq_list q). \<not> rq_better e (rq_list q ! i)))"
proof (cases "rq_list q = []")
  case False
  then obtain i x where x: "scan_best rq_better (enumerate 0 (rq_list q)) None = Some (i, x)"
    using rq_order.scan_best_None [of "enumerate 0 (rq_list q)"] by (metis enumerate_simps(1) length_0_conv length_enumerate not_None_eq prod.exhaust)
  then have i: "i < length (rq_list q)" "x = rq_list q ! i" using rq_order.scan_best_Some(1) [OF x] by (auto simp: in_set_enumerate_eq)
  have "\<not> rq_better e x" if e: "e \<in> set (rq_list q)" for e
  proof -
    obtain k where "k < length (rq_list q)" "e = rq_list q ! k" using e by (auto simp: in_set_conv_nth)
    then have "(k, e) \<in> set (enumerate 0 (rq_list q))" by (simp add: in_set_enumerate_eq)
    then show ?thesis by (rule rq_order.scan_best_Some(2) [OF x])
  qed
  moreover have "pick_next q = (Some x, rq_remove_at i q)"
    using x i False rq_okD(2,3) [OF assms] by (simp add: pick_next_def rq_candidates_rep assms nth_rq_entries)
  ultimately show ?thesis using False i remove_at_rep [OF assms, of i] rq_okD(2) [OF assms] by auto
qed (use assms rq_okD(2) [OF assms] in \<open>simp add: pick_next_def\<close>)

lemma enqueue_full: "PERCPU_RQ_SIZE \<le> rq_count q \<Longrightarrow> rq_enqueue e q = (Err ''Per-CPU run queue full'', q)"
  by (simp add: rq_enqueue_def)

lemma rq_new_ok: "rq_ok (rq_new c)" "rq_list (rq_new c) = []"
  by (simp_all add: rq_ok_def rq_list_def rq_new_def)

lemma rq_run_inv:
  assumes "rq_ok q" "by_deadline (rq_list q)" "rq_run ops q = (acc, out, q')"
  shows "rq_ok q' \<and> by_deadline (rq_list q') \<and> mset (rq_list q) + mset acc = mset out + mset (rq_list q')"
  using assms
proof (induction ops arbitrary: q acc out)
  case (Cons op ops)
  show ?case
  proof (cases op)
    case (RqEnqueue e)
    obtain acc1 where r: "rq_run ops (snd (rq_enqueue e q)) = (acc1, out, q')"
      "acc = (if is_ok (fst (rq_enqueue e q)) then e # acc1 else acc1)"
      using Cons.prems(3) RqEnqueue by (auto split: prod.splits)
    show ?thesis
    proof (cases "rq_count q < PERCPU_RQ_SIZE")
      case True
      note e = enqueue_rep [OF Cons.prems(1) True, of e]
      show ?thesis using Cons.IH [OF e(1) _ r(1)] r(2) Cons.prems(2) e by (simp add: by_deadline_insert mset_rq_insert)
    next
      case False
      then show ?thesis using Cons.IH [OF Cons.prems(1,2), of acc1 out] r by (simp add: enqueue_full)
    qed
  next
    case (RqDequeue p)
    obtain x q1 where d: "rq_dequeue p q = (x, q1)" by (cases "rq_dequeue p q")
    obtain out1 where r: "rq_run ops q1 = (acc, out1, q')" "out = (case x of None \<Rightarrow> out1 | Some e \<Rightarrow> e # out1)"
      using Cons.prems(3) RqDequeue d by (auto split: prod.splits)
    show ?thesis using dequeue_rep [OF Cons.prems(1), of p] Cons.IH [OF _ _ r(1)] r(2) d Cons.prems
      by (auto split: option.splits simp: by_deadline_delete mset_rq_delete [symmetric])
  next
    case RqPick
    obtain x q1 where d: "pick_next q = (x, q1)" by (cases "pick_next q")
    obtain out1 where r: "rq_run ops q1 = (acc, out1, q')" "out = (case x of None \<Rightarrow> out1 | Some e \<Rightarrow> e # out1)"
      using Cons.prems(3) RqPick d by (auto split: prod.splits)
    show ?thesis using pick_rep [OF Cons.prems(1)] Cons.IH [OF _ _ r(1)] r(2) d Cons.prems
      by (auto split: if_splits simp: by_deadline_delete mset_rq_delete [symmetric])
  qed
qed simp

text \<open>
  C10: a run queue loses and duplicates nothing.  After any sequence of enqueue, dequeue and
  pick-next operations on a fresh queue, the array is well-formed and sorted by virtual deadline, and
  the entries accepted are exactly the entries handed out together with the entries still queued.
\<close>

theorem runqueue_conserves_entries:
  assumes "rq_run ops (rq_new cpu) = (acc, out, q)"
  shows "rq_ok q \<and> sorted (map re_vdeadline (rq_list q)) \<and> mset acc = mset out + mset (rq_list q)"
  using rq_run_inv [OF _ _ assms] by (simp add: rq_new_ok by_deadline_def)

definition sample_entry :: "Pid \<Rightarrow> u64 \<Rightarrow> RunQueueEntry" where
  "sample_entry p vdl = \<lparr> re_pid = p, re_table_index = 0, re_vdeadline = vdl, re_vruntime = 0, re_policy = Normal,
     re_priority = 128, re_eligible = True \<rparr>"

theorem runqueue_conserves_entries_witness:
  "let (acc, out, q) = rq_run [RqEnqueue (sample_entry 1 9), RqEnqueue (sample_entry 2 4), RqPick] (rq_new 0)
   in rq_ok q \<and> sorted (map re_vdeadline (rq_list q)) \<and> mset acc = mset out + mset (rq_list q)"
proof -
  obtain acc out q where r: "rq_run [RqEnqueue (sample_entry 1 9), RqEnqueue (sample_entry 2 4), RqPick] (rq_new 0) = (acc, out, q)"
    by (cases "rq_run [RqEnqueue (sample_entry 1 9), RqEnqueue (sample_entry 2 4), RqPick] (rq_new 0)")
  show ?thesis using runqueue_conserves_entries [OF r] by (simp only: r Let_def prod.case)
qed

text \<open>
  C11: the EEVDF choice.  On a non-empty queue \<open>pick_next\<close> hands out an entry and removes exactly that
  one.  A realtime entry comes before all others, an idle one after all others; among realtime entries
  the smallest priority number wins; among the rest an eligible entry beats an ineligible one, and
  with equal eligibility no queued entry has an earlier virtual deadline.
\<close>

theorem pick_next_earliest_eligible:
  assumes "rq_ok q" "rq_list q \<noteq> []"
  shows "\<exists>i < length (rq_list q). \<exists>x. x = rq_list q ! i \<and> fst (pick_next q) = Some x \<and>
    rq_list (snd (pick_next q)) = take i (rq_list q) @ drop (Suc i) (rq_list q) \<and>
    (\<forall>e \<in> set (rq_list q).
       (re_policy e = Realtime \<longrightarrow> re_policy x = Realtime \<and> re_priority x \<le> re_priority e) \<and>
       (re_policy x = Idle \<longrightarrow> re_policy e = Idle) \<and>
       (re_policy e \<in> {Normal, Batch} \<and> re_policy x \<in> {Normal, Batch} \<longrightarrow>
          (re_eligible e \<longrightarrow> re_eligible x) \<and>
          (re_eligible e = re_eligible x \<longrightarrow> re_vdeadline x \<le> re_vdeadline e)))"
proof -
  obtain i where i: "i < length (rq_list q)" "fst (pick_next q) = Some (rq_list q ! i)"
    "rq_list (snd (pick_next q)) = rq_delete i (rq_list q)" "\<forall>e \<in> set (rq_list q). \<not> rq_better e (rq_list q ! i)"
    using pick_rep [OF assms(1)] assms(2) by (auto simp: split_beta)
  have "(re_policy e = Realtime \<longrightarrow> re_policy x = Realtime \<and> re_priority x \<le> re_priority e) \<and>
       (re_policy x = Idle \<longrightarrow> re_policy e = Idle) \<and>
       (re_policy e \<in> {Normal, Batch} \<and> re_policy x \<in> {Normal, Batch} \<longrightarrow>
          (re_eligible e \<longrightarrow> re_eligible x) \<and> (re_eligible e = re_eligible x \<longrightarrow> re_vdeadline x \<le> re_vdeadline e))"
    if "\<not> rq_better e x" for e x :: RunQueueEntry
    using that by (cases "re_policy e"; cases "re_policy x"; auto simp: rq_better_def split: if_splits)
  then show ?thesis using i by (auto simp: rq_delete_def)
qed

theorem pick_next_earliest_eligible_witness:
  "fst (pick_next (snd (rq_enqueue (sample_entry 2 4) (snd (rq_enqueue (sample_entry 1 9) (rq_new 0)))))) = Some (sample_entry 2 4)"
proof -
  have 1: "rq_ok (snd (rq_enqueue (sample_entry 1 9) (rq_new 0)))" "rq_list (snd (rq_enqueue (sample_entry 1 9) (rq_new 0))) = [sample_entry 1 9]"
    using enqueue_rep [OF rq_new_ok(1), of 0 "sample_entry 1 9"] by (simp_all add: rq_new_def PERCPU_RQ_SIZE_def rq_insert_def rq_list_def)
  let ?q = "snd (rq_enqueue (sample_entry 2 4) (snd (rq_enqueue (sample_entry 1 9) (rq_new 0))))"
  have "rq_ok ?q" "rq_list ?q = [sample_entry 2 4, sample_entry 1 9]"
    using enqueue_rep [OF 1(1), of "sample_entry 2 4"] 1 rq_okD(2) [OF 1(1)]
    by (simp_all add: PERCPU_RQ_SIZE_def rq_insert_def sample_entry_def)
  then show ?thesis using pick_next_earliest_eligible [of ?q] by (auto simp: less_Suc_eq sample_entry_def)
qed

section \<open>Load\<close>

lemma load_percent_le: "load_percent d \<le> 100"
proof -
  have "unat (min (load_avg d * 100 div 1024) 100) \<le> 100" by (simp add: unat_min)
  then show ?thesis by (simp add: load_percent_def word_le_nat_alt unsigned_ucast_eq unsigned_take_bit_eq take_bit_nat_eq_self)
qed

lemma get_cpu_load_lt: "get_cpu_load g c < 255"
proof -
  have "load_percent d < 255" for d by (rule order_le_less_trans [OF load_percent_le]) simp
  then show ?thesis by (simp add: get_cpu_load_def split: option.split)
qed

lemma least_fold:
  assumes "foldl (\<lambda>(b, m) c. let l = load c in if l < m then (f c, l) else (b, m)) (b, m) cs = (b', m')"
  shows "m' \<le> m \<and> (\<forall>c \<in> set cs. m' \<le> load c) \<and> (b' = b \<and> m' = m \<or> (\<exists>c \<in> set cs. b' = f c \<and> m' = (load c :: 'a :: linorder)))"
  using assms
proof (induction cs arbitrary: b m)
  case (Cons c cs)
  show ?case
  proof (cases "load c < m")
    case True
    then show ?thesis using Cons.IH [of "f c" "load c"] Cons.prems by (auto simp: Let_def)
  next
    case False
    then show ?thesis using Cons.IH [of b m] Cons.prems by (auto simp: Let_def)
  qed
qed simp

lemma takeWhile_sorted:
  fixes xs :: "nat list"
  assumes "sorted_wrt (<) xs"
  shows "set (takeWhile (\<lambda>c. c < n) xs) = {c \<in> set xs. c < n}"
  using assms by (induction xs) auto

text \<open>
  Choosing a CPU respects the affinity mask.  If the mask allows some existing CPU,
  \<open>find_least_loaded_cpu\<close> returns an existing CPU of the mask, and no existing CPU of the mask has a
  smaller load.
\<close>

theorem find_least_loaded_cpu_correct:
  assumes "cm_ok affinity" "c0 \<in> cm_members affinity" "c0 < cpu_count" "cpu_count \<le> MAX_CPUS"
  shows "cm_is_set affinity (unat (find_least_loaded_cpu cpu_count g affinity)) \<and>
    unat (find_least_loaded_cpu cpu_count g affinity) < cpu_count \<and>
    (\<forall>c. cm_is_set affinity c \<and> c < cpu_count \<longrightarrow>
       get_cpu_load g (find_least_loaded_cpu cpu_count g affinity) \<le> get_cpu_load g (of_nat c))"
proof -
  let ?cs = "takeWhile (\<lambda>cpu. cpu < cpu_count) (iter_set affinity)"
  obtain b m where f: "foldl (\<lambda>(b, m) c. let l = get_cpu_load g (of_nat c) in if l < m then (of_nat c, l) else (b, m)) (0 :: u16, 255) ?cs = (b, m)"
    by (meson surj_pair)
  have cs: "set ?cs = {c \<in> cm_members affinity. c < cpu_count}"
    using takeWhile_sorted [OF iter_set_spec(2) [OF assms(1)]] iter_set_spec(1) [OF assms(1)] by simp
  have "m \<le> get_cpu_load g (of_nat c0)" using least_fold [OF f] cs assms(2,3) by auto
  then have "m \<noteq> 255" using get_cpu_load_lt [of g "of_nat c0"] by auto
  then obtain c where c: "c \<in> cm_members affinity" "c < cpu_count" "b = of_nat c" "m = get_cpu_load g (of_nat c)"
    using least_fold [OF f] cs by auto
  moreover have "unat (of_nat c :: u16) = c" using c(2) assms(4) by (simp add: unat_of_nat_small MAX_CPUS_def)
  moreover have "find_least_loaded_cpu cpu_count g affinity = b" using f by (simp add: find_least_loaded_cpu_def)
  ultimately show ?thesis using least_fold [OF f] cs by (auto simp: cm_is_set_iff [OF assms(1)])
qed

theorem find_least_loaded_cpu_correct_witness:
  "unat (find_least_loaded_cpu 4 percpu_boot (cm_set CpuMask_empty 2)) < 4"
proof -
  have "cm_ok (cm_set CpuMask_empty 2)" "2 \<in> cm_members (cm_set CpuMask_empty 2)"
    using cpu_bits.set_law [of CpuMask_empty 2] by (simp_all add: MAX_CPUS_def)
  from find_least_loaded_cpu_correct [OF this, of 4] show ?thesis by (simp add: MAX_CPUS_def)
qed

end
