(* ===== verification/Pid_Alloc.thy ===== *)
theory Pid_Alloc
  imports Bit_Table
begin

text \<open>
  The PID allocator: \<open>PidAllocator\<close> of \<open>src/src/process/pid_tree.rs\<close>, lines 39 to 210.  The
  bitmap is an array of 64 words; \<open>allocate_next\<close> scans the words from the hint to the end and
  then from the start to the hint, and both scans are \<open>alloc_scan\<close> on the list of word indices.
\<close>

section \<open>State and operations\<close>

definition MAX_PID :: u64 where "MAX_PID = 262143"

definition MIN_PID :: u64 where "MIN_PID = 1"

record PidAllocator =
  bitmap :: "u64 list"
  next_hint :: u64
  allocated_count :: u64

definition PidAllocator_new :: PidAllocator where
  "PidAllocator_new = \<lparr> bitmap = (replicate 64 0)[0 := 1], next_hint = MIN_PID, allocated_count = 1 \<rparr>"

definition pa_is_allocated :: "PidAllocator \<Rightarrow> u64 \<Rightarrow> bool" where
  "pa_is_allocated a pid =
     (if MAX_PID < pid then False
      else let word_idx = unat (pid div 64); bit_idx = unat (pid mod 64) in
        if length (bitmap a) \<le> word_idx then False
        else (bitmap a ! word_idx) AND one_shl bit_idx \<noteq> 0)"

definition mark_allocated :: "PidAllocator \<Rightarrow> u64 \<Rightarrow> PidAllocator \<times> bool" where
  "mark_allocated a pid =
     (if MAX_PID < pid then (a, False)
      else let word_idx = unat (pid div 64); bit_idx = unat (pid mod 64) in
        if length (bitmap a) \<le> word_idx then (a, False)
        else if (bitmap a ! word_idx) AND one_shl bit_idx \<noteq> 0 then (a, False)
        else (a\<lparr> bitmap := (bitmap a)[word_idx := bitmap a ! word_idx OR one_shl bit_idx],
                 allocated_count := allocated_count a + 1 \<rparr>, True))"

definition mark_free :: "PidAllocator \<Rightarrow> u64 \<Rightarrow> PidAllocator \<times> bool" where
  "mark_free a pid =
     (if pid = 0 \<or> MAX_PID < pid then (a, False)
      else let word_idx = unat (pid div 64); bit_idx = unat (pid mod 64) in
        if length (bitmap a) \<le> word_idx then (a, False)
        else if (bitmap a ! word_idx) AND one_shl bit_idx = 0 then (a, False)
        else (a\<lparr> bitmap := (bitmap a)[word_idx := bitmap a ! word_idx AND NOT (one_shl bit_idx)],
                 allocated_count := allocated_count a - 1,
                 next_hint := (if pid < next_hint a then pid else next_hint a) \<rparr>, True))"

text \<open>The body of the scanning loops: \<open>continue\<close> is the recursive call.\<close>

fun alloc_scan :: "PidAllocator \<Rightarrow> nat list \<Rightarrow> PidAllocator \<times> u64 option" where
  "alloc_scan a [] = (a, None)"
| "alloc_scan a (word_idx # rest) =
     (let word = bitmap a ! word_idx in
      if word = - 1 then alloc_scan a rest
      else let first_zero = trailing_zeros (NOT word); pid = of_nat word_idx * 64 + of_nat first_zero in
        if pid = 0 then
          let next_zero = trailing_zeros (NOT word AND NOT 1) in
          if next_zero < 64 then
            let pid = of_nat next_zero in
            if pid \<le> MAX_PID \<and> snd (mark_allocated a pid)
            then ((fst (mark_allocated a pid))\<lparr> next_hint := pid + 1 \<rparr>, Some pid)
            else alloc_scan a rest
          else alloc_scan a rest
        else if pid \<le> MAX_PID \<and> snd (mark_allocated a pid)
          then ((fst (mark_allocated a pid))\<lparr> next_hint := pid + 1 \<rparr>, Some pid)
          else alloc_scan a rest)"

definition allocate_next :: "PidAllocator \<Rightarrow> PidAllocator \<times> u64 option" where
  "allocate_next a =
     (let start_word = unat (next_hint a div 64) in
      case alloc_scan a [start_word..<length (bitmap a)] of
        (a', Some pid) \<Rightarrow> (a', Some pid)
      | (a', None) \<Rightarrow> alloc_scan a' [0..<start_word])"

definition pa_count :: "PidAllocator \<Rightarrow> u64" where
  "pa_count a = allocated_count a"

section \<open>The allocated set\<close>

definition pa_members :: "PidAllocator \<Rightarrow> nat set" where
  "pa_members a = bm_members (bitmap a)"

definition pa_ok :: "PidAllocator \<Rightarrow> bool" where
  "pa_ok a \<longleftrightarrow> length (bitmap a) = 64 \<and> 0 \<in> pa_members a \<and>
     unat (allocated_count a) = card (pa_members a) \<and> unat (next_hint a) \<le> 4096"

lemma pa_members_lt: "pa_ok a \<Longrightarrow> i \<in> pa_members a \<Longrightarrow> i < 4096"
  by (simp add: pa_ok_def pa_members_def bm_members_def)

lemma finite_pa_members [simp]: "finite (pa_members a)"
  by (simp add: pa_members_def)

lemma card_pa_members: "pa_ok a \<Longrightarrow> card (pa_members a) \<le> 4096"
  using card_mono [of "{..<4096::nat}" "pa_members a"] pa_members_lt [of a] by fastforce

lemma pid_word_bit:
  "unat ((pid :: u64) div 64) = unat pid div 64" "unat (pid mod 64) = unat pid mod 64"
  by (simp_all add: unat_div_distrib unat_mod_distrib)

lemma pid_le_MAX: "unat pid < 4096 \<Longrightarrow> \<not> MAX_PID < (pid :: u64)"
  by (simp add: MAX_PID_def word_less_nat_alt)

lemma pa_new_ok: "pa_ok PidAllocator_new" "pa_members PidAllocator_new = {0}"
proof -
  show m: "pa_members PidAllocator_new = {0}"
    by (auto simp: pa_members_def bm_members_def PidAllocator_new_def nth_update_if bit_1_iff)
  show "pa_ok PidAllocator_new" using m by (simp add: pa_ok_def PidAllocator_new_def MIN_PID_def)
qed

lemma pa_is_allocated_iff:
  "pa_ok a \<Longrightarrow> pa_is_allocated a pid \<longleftrightarrow> unat pid \<in> pa_members a"
  using pid_le_MAX [of pid]
  by (auto simp: pa_is_allocated_def pid_word_bit pa_ok_def pa_members_def bm_members_def Let_def not_less
      div_less_iff_less_mult)

lemma mark_allocated_fresh:
  assumes "pa_ok a" "unat pid < 4096" "unat pid \<notin> pa_members a"
  shows "snd (mark_allocated a pid)" "pa_ok (fst (mark_allocated a pid))"
    "pa_members (fst (mark_allocated a pid)) = insert (unat pid) (pa_members a)"
proof -
  have b: "\<not> bit (bitmap a ! (unat pid div 64)) (unat pid mod 64)" "length (bitmap a) = 64"
    using assms by (auto simp: pa_members_def bm_members_def pa_ok_def)
  have w: "unat pid div 64 < 64" using assms(2) by (simp add: div_less_iff_less_mult)
  show s: "snd (mark_allocated a pid)" using assms b w
    by (simp add: mark_allocated_def pid_word_bit pid_le_MAX Let_def)
  show m: "pa_members (fst (mark_allocated a pid)) = insert (unat pid) (pa_members a)"
    using assms(2) b w bm_members_set [of "unat pid" "bitmap a"]
    by (simp add: mark_allocated_def pid_word_bit pid_le_MAX pa_members_def Let_def)
  have "card (pa_members a) < 4096"
    using card_mono [of "{..<4096::nat} - {unat pid}" "pa_members a"] pa_members_lt [OF assms(1)] assms(2,3)
    by fastforce
  then have "unat (allocated_count a + 1) = unat (allocated_count a) + 1"
    using assms(1) by (simp add: pa_ok_def unat_word_ariths)
  then show "pa_ok (fst (mark_allocated a pid))"
    using assms b w m by (simp add: pa_ok_def) (simp add: mark_allocated_def pid_word_bit pid_le_MAX Let_def)
qed

lemma mark_allocated_taken:
  "pa_ok a \<Longrightarrow> unat pid \<in> pa_members a \<or> 4096 \<le> unat pid \<Longrightarrow> mark_allocated a pid = (a, False)"
  by (auto simp: mark_allocated_def pid_word_bit pa_ok_def pa_members_def bm_members_def Let_def)

lemma mark_free_law:
  assumes "pa_ok a" "unat pid \<in> pa_members a" "pid \<noteq> 0"
  shows "snd (mark_free a pid)" "pa_ok (fst (mark_free a pid))"
    "pa_members (fst (mark_free a pid)) = pa_members a - {unat pid}"
proof -
  have b: "bit (bitmap a ! (unat pid div 64)) (unat pid mod 64)" "length (bitmap a) = 64" "unat pid < 4096"
    using assms pa_members_lt [OF assms(1,2)] by (auto simp: pa_members_def bm_members_def pa_ok_def)
  have w: "unat pid div 64 < 64" using b(3) by (simp add: div_less_iff_less_mult)
  show s: "snd (mark_free a pid)" using assms b w
    by (simp add: mark_free_def pid_word_bit pid_le_MAX Let_def)
  show m: "pa_members (fst (mark_free a pid)) = pa_members a - {unat pid}"
    using assms(3) b w bm_members_clear [of "unat pid" "bitmap a"]
    by (simp add: mark_free_def pid_word_bit pid_le_MAX pa_members_def Let_def)
  have "0 < card (pa_members a)" using assms(2) by (auto simp: card_gt_0_iff)
  then have "unat (allocated_count a - 1) = card (pa_members a) - 1"
    using assms(1) by (simp add: pa_ok_def unat_sub word_le_nat_alt)
  then show "pa_ok (fst (mark_free a pid))"
    using assms b w m by (simp add: pa_ok_def unat_eq_0) (simp add: mark_free_def pid_word_bit pid_le_MAX Let_def)
qed

lemma mark_free_refused:
  "pa_ok a \<Longrightarrow> pid = 0 \<or> unat pid \<notin> pa_members a \<Longrightarrow> mark_free a pid = (a, False)"
  by (auto simp: mark_free_def pid_word_bit pa_ok_def pa_members_def bm_members_def Let_def
      div_less_iff_less_mult)

interpretation pid_bits: bit_table "{1..<4096}" pa_ok pa_members
  "\<lambda>a i. pa_is_allocated a (of_nat i)" "\<lambda>a i. fst (mark_allocated a (of_nat i))"
  "\<lambda>a i. fst (mark_free a (of_nat i))"
proof (unfold_locales, goal_cases)
  case (1 a i)
  then show ?case by (simp add: pa_is_allocated_iff unat_of_nat_small)
next
  case (2 a i)
  then show ?case using mark_allocated_fresh [of a "of_nat i"] mark_allocated_taken [of a "of_nat i"]
    by (cases "i \<in> pa_members a") (auto simp: unat_of_nat_small)
next
  case (3 a i)
  then have "(of_nat i :: u64) \<noteq> 0" by (simp add: unat_of_nat_small flip: unat_eq_0)
  then show ?case using 3 mark_free_law [of a "of_nat i"] mark_free_refused [of a "of_nat i"]
    by (cases "i \<in> pa_members a") (auto simp: unat_of_nat_small)
qed

section \<open>The scan\<close>

lemma scan_candidate:
  assumes "pa_ok a" "w < 64" "bitmap a ! w \<noteq> - 1"
  defines "pid \<equiv> of_nat w * 64 + of_nat (trailing_zeros (NOT (bitmap a ! w))) :: u64"
  shows "unat pid < 4096" "unat pid \<notin> pa_members a" "pid \<noteq> 0"
proof -
  let ?z = "trailing_zeros (NOT (bitmap a ! w))"
  obtain n where "n < 64" "\<not> bit (bitmap a ! w) n" using assms(3) word_not_all_ones [of "bitmap a ! w"] by auto
  then have "bit (NOT (bitmap a ! w)) n" by (simp add: bit_simps)
  then have z: "?z < 64" using trailing_zeros_le [of "NOT (bitmap a ! w)" n] \<open>n < 64\<close> by simp
  then have nb: "\<not> bit (bitmap a ! w) ?z"
    using trailing_zeros_bit [of "NOT (bitmap a ! w)"] by (simp add: bit_simps)
  have "pid = of_nat (64 * w + ?z)" by (simp add: pid_def)
  moreover have "64 * w + ?z < 2 ^ LENGTH(64)" using assms(2) z by simp
  ultimately have u: "unat pid = 64 * w + ?z" by (simp only: unat_of_nat_small)
  show "unat pid < 4096" using u assms(2) z by simp
  show nm: "unat pid \<notin> pa_members a" using u z nb by (simp add: pa_members_def bm_members_def)
  show "pid \<noteq> 0" using nm assms(1) by (auto simp: pa_ok_def)
qed

definition alloc_post :: "PidAllocator \<Rightarrow> PidAllocator \<Rightarrow> u64 \<Rightarrow> bool" where
  "alloc_post a a' pid \<longleftrightarrow> pid \<noteq> 0 \<and> unat pid < 4096 \<and> unat pid \<notin> pa_members a \<and> pa_ok a' \<and>
     pa_members a' = insert (unat pid) (pa_members a)"

definition scan_post :: "PidAllocator \<Rightarrow> nat list \<Rightarrow> PidAllocator \<times> u64 option \<Rightarrow> bool" where
  "scan_post a ws res \<longleftrightarrow>
     (case res of (a', None) \<Rightarrow> a' = a \<and> (\<forall>w\<in>set ws. bitmap a ! w = - 1)
      | (a', Some pid) \<Rightarrow> alloc_post a a' pid)"

lemma alloc_scan_law: "pa_ok a \<Longrightarrow> set ws \<subseteq> {..<64} \<Longrightarrow> scan_post a ws (alloc_scan a ws)"
proof (induction ws)
  case (Cons w ws)
  show ?case
  proof (cases "bitmap a ! w = - 1")
    case False
    define pid :: u64 where "pid = of_nat w * 64 + of_nat (trailing_zeros (NOT (bitmap a ! w)))"
    have c: "unat pid < 4096" "unat pid \<notin> pa_members a" "pid \<noteq> 0"
      using scan_candidate [OF Cons.prems(1) _ False] Cons.prems(2) by (simp_all add: pid_def)
    note f = mark_allocated_fresh [OF Cons.prems(1) c(1,2)]
    have "alloc_scan a (w # ws) = ((fst (mark_allocated a pid))\<lparr> next_hint := pid + 1 \<rparr>, Some pid)"
      using False c f(1) pid_le_MAX [OF c(1)] unfolding alloc_scan.simps Let_def pid_def [symmetric]
      by (simp add: not_less)
    moreover have "unat (pid + 1) \<le> 4096" using c(1) by (simp add: unat_word_ariths)
    then have "pa_ok ((fst (mark_allocated a pid))\<lparr> next_hint := pid + 1 \<rparr>)"
      using f(2) by (simp add: pa_ok_def pa_members_def)
    ultimately show ?thesis using c f(3) by (simp add: scan_post_def alloc_post_def pa_members_def)
  qed (use Cons in \<open>auto simp: scan_post_def split: option.splits\<close>)
qed (simp add: scan_post_def)

lemma bm_all_ones: "length ws = 64 \<Longrightarrow> (\<forall>w<64. ws ! w = - 1) \<longleftrightarrow> bm_members ws = {..<4096}"
proof (intro iffI allI impI)
  assume l: "length ws = 64" and full: "bm_members ws = {..<4096}"
  fix w assume "w < (64::nat)"
  have "bit (ws ! w) b" if "b < 64" for b
  proof -
    have "64 * w + b \<in> bm_members ws" using \<open>w < 64\<close> that unfolding full by simp
    then show ?thesis using that by (simp add: bm_members_def)
  qed
  then show "ws ! w = - 1" using word_not_all_ones [of "ws ! w"] by auto
qed (auto simp: bm_members_def div_less_iff_less_mult)

lemma allocate_next_law:
  assumes "pa_ok a"
  shows "case allocate_next a of
      (a', None) \<Rightarrow> a' = a \<and> pa_members a = {..<4096}
    | (a', Some pid) \<Rightarrow> alloc_post a a' pid"
proof -
  define k where "k = unat (next_hint a div 64)"
  have l: "length (bitmap a) = 64" using assms by (simp add: pa_ok_def)
  have "unat (next_hint a) div 64 \<le> 4096 div 64" using assms by (intro div_le_mono) (simp add: pa_ok_def)
  then have k: "k \<le> 64" by (simp add: k_def pid_word_bit)
  have n: "allocate_next a = (case alloc_scan a [k..<64] of (a', Some pid) \<Rightarrow> (a', Some pid)
      | (a', None) \<Rightarrow> alloc_scan a' [0..<k])"
    by (simp add: allocate_next_def Let_def l flip: k_def)
  have s1: "scan_post a [k..<64] (alloc_scan a [k..<64])" by (rule alloc_scan_law [OF assms]) auto
  have s2: "scan_post a [0..<k] (alloc_scan a [0..<k])" by (rule alloc_scan_law [OF assms]) (use k in auto)
  have full: "pa_members a = {..<4096}" if "\<forall>w\<in>{k..<64}. bitmap a ! w = - 1" "\<forall>w\<in>{0..<k}. bitmap a ! w = - 1"
    using that bm_all_ones [OF l] by (auto simp: pa_members_def)
  show ?thesis using s1 s2 full by (auto simp: n scan_post_def split: prod.splits option.splits)
qed

end
