(* ===== verification/Pid_Radix.thy ===== *)
theory Pid_Radix
  imports Pid_Alloc
begin

text \<open>
  The PID radix tree and the PID manager: \<open>PidRadixTree\<close> and the public functions of
  \<open>src/src/process/pid_tree.rs\<close>, lines 212 to 463.  The node pool is a list of records; a walk
  from the root is \<open>descend\<close> along the list of levels.  The interface \<open>pid_map\<close> states what the
  clients of the tree may rely on and is interpreted on the tree.
\<close>

section \<open>The radix tree\<close>

definition RADIX_BITS :: nat where "RADIX_BITS = 6"

definition RADIX_CHILDREN :: nat where "RADIX_CHILDREN = 64"

definition RADIX_MASK :: u64 where "RADIX_MASK = 63"

definition RADIX_LEVELS :: nat where "RADIX_LEVELS = 3"

definition MAX_RADIX_NODES :: nat where "MAX_RADIX_NODES = 256"

definition u16_MAX :: u16 where "u16_MAX = - 1"

record RadixNode =
  children :: "u16 list"
  process_idx :: u16

definition RadixNode_empty :: RadixNode where
  "RadixNode_empty = \<lparr> children = replicate RADIX_CHILDREN 0, process_idx = u16_MAX \<rparr>"

record PidRadixTree =
  nodes :: "RadixNode list"
  node_count :: nat

definition PidRadixTree_new :: PidRadixTree where
  "PidRadixTree_new = \<lparr> nodes = replicate MAX_RADIX_NODES RadixNode_empty, node_count = 1 \<rparr>"

definition alloc_node :: "PidRadixTree \<Rightarrow> PidRadixTree \<times> u16 option" where
  "alloc_node t =
     (if MAX_RADIX_NODES \<le> node_count t then (t, None)
      else let idx = node_count t in
        (t\<lparr> nodes := (nodes t)[idx := RadixNode_empty], node_count := node_count t + 1 \<rparr>, Some (of_nat idx)))"

definition radix_index :: "u64 \<Rightarrow> nat \<Rightarrow> nat" where
  "radix_index pid level =
     (let shift = (RADIX_LEVELS - 1 - level) * RADIX_BITS in unat (drop_bit shift pid AND RADIX_MASK))"

definition set_child :: "PidRadixTree \<Rightarrow> nat \<Rightarrow> nat \<Rightarrow> u16 \<Rightarrow> PidRadixTree" where
  "set_child t n k c = t\<lparr> nodes := modify_nth n (\<lambda>nd. nd\<lparr> children := (children nd)[k := c] \<rparr>) (nodes t) \<rparr>"

definition set_process_idx :: "PidRadixTree \<Rightarrow> nat \<Rightarrow> u16 \<Rightarrow> PidRadixTree" where
  "set_process_idx t n v = t\<lparr> nodes := modify_nth n (\<lambda>nd. nd\<lparr> process_idx := v \<rparr>) (nodes t) \<rparr>"

text \<open>The loop of \<open>insert\<close> that follows or creates the path to the leaf's parent.\<close>

fun insert_path :: "PidRadixTree \<Rightarrow> u64 \<Rightarrow> nat list \<Rightarrow> nat \<Rightarrow> PidRadixTree \<times> nat option" where
  "insert_path t pid [] node_idx = (t, Some node_idx)"
| "insert_path t pid (level # levels) node_idx =
     (let radix_idx = radix_index pid level;
          child_idx = children (nodes t ! node_idx) ! radix_idx
      in if child_idx = 0 then
           (case alloc_node t of
              (t', None) \<Rightarrow> (t', None)
            | (t', Some new_idx) \<Rightarrow> insert_path (set_child t' node_idx radix_idx new_idx) pid levels (unat new_idx))
         else insert_path t pid levels (unat child_idx))"

definition tree_insert :: "PidRadixTree \<Rightarrow> u64 \<Rightarrow> u16 \<Rightarrow> PidRadixTree \<times> bool" where
  "tree_insert t pid idx =
     (case insert_path t pid [0..<RADIX_LEVELS - 1] 0 of
        (t1, None) \<Rightarrow> (t1, False)
      | (t1, Some node_idx) \<Rightarrow>
          let leaf_radix_idx = radix_index pid (RADIX_LEVELS - 1);
              child_idx = children (nodes t1 ! node_idx) ! leaf_radix_idx
          in if child_idx = 0 then
               (case alloc_node t1 of
                  (t2, None) \<Rightarrow> (t2, False)
                | (t2, Some new_idx) \<Rightarrow>
                    (set_child (set_process_idx t2 (unat new_idx) idx) node_idx leaf_radix_idx new_idx, True))
             else (set_process_idx t1 (unat child_idx) idx, True))"

text \<open>The walk to the leaf shared by \<open>lookup\<close> and \<open>remove\<close>.\<close>

fun descend :: "PidRadixTree \<Rightarrow> u64 \<Rightarrow> nat list \<Rightarrow> nat \<Rightarrow> nat option" where
  "descend t pid [] node_idx = Some node_idx"
| "descend t pid (level # levels) node_idx =
     (let child_idx = children (nodes t ! node_idx) ! radix_index pid level in
      if child_idx = 0 then None else descend t pid levels (unat child_idx))"

definition tree_lookup :: "PidRadixTree \<Rightarrow> u64 \<Rightarrow> u16 option" where
  "tree_lookup t pid =
     (case descend t pid [0..<RADIX_LEVELS] 0 of
        None \<Rightarrow> None
      | Some n \<Rightarrow> (let idx = process_idx (nodes t ! n) in if idx = u16_MAX then None else Some idx))"

definition tree_remove :: "PidRadixTree \<Rightarrow> u64 \<Rightarrow> PidRadixTree \<times> u16 option" where
  "tree_remove t pid =
     (case descend t pid [0..<RADIX_LEVELS] 0 of
        None \<Rightarrow> (t, None)
      | Some n \<Rightarrow> (let old_idx = process_idx (nodes t ! n) in
          if old_idx = u16_MAX then (t, None) else (set_process_idx t n u16_MAX, Some old_idx)))"

section \<open>The PID manager\<close>

record PidManager =
  allocator :: PidAllocator
  tree :: PidRadixTree
  LEGACY_NEXT_PID :: u64

definition PidManager_new :: PidManager where
  "PidManager_new = \<lparr> allocator = PidAllocator_new, tree = PidRadixTree_new, LEGACY_NEXT_PID = 1 \<rparr>"

definition allocate_pid :: "PidManager \<Rightarrow> PidManager \<times> u64" where
  "allocate_pid m =
     (case allocate_next (allocator m) of
        (a, Some pid) \<Rightarrow> (m\<lparr> allocator := a \<rparr>, pid)
      | (a, None) \<Rightarrow> (m\<lparr> allocator := a, LEGACY_NEXT_PID := LEGACY_NEXT_PID m + 1 \<rparr>, LEGACY_NEXT_PID m))"

definition free_pid :: "PidManager \<Rightarrow> u64 \<Rightarrow> PidManager" where
  "free_pid m pid =
     (if pid = 0 then m
      else m\<lparr> allocator := fst (mark_free (allocator m) pid), tree := fst (tree_remove (tree m) pid) \<rparr>)"

definition register_pid_mapping :: "PidManager \<Rightarrow> u64 \<Rightarrow> u16 \<Rightarrow> PidManager \<times> bool" where
  "register_pid_mapping m pid idx = (case tree_insert (tree m) pid idx of (t, r) \<Rightarrow> (m\<lparr> tree := t \<rparr>, r))"

definition update_pid_mapping :: "PidManager \<Rightarrow> u64 \<Rightarrow> u16 \<Rightarrow> PidManager \<times> bool" where
  "update_pid_mapping m pid idx =
     (let t = fst (tree_remove (tree m) pid) in
      case tree_insert t pid idx of (t', r) \<Rightarrow> (m\<lparr> tree := t' \<rparr>, r))"

definition lookup_pid :: "PidManager \<Rightarrow> u64 \<Rightarrow> u16 option" where
  "lookup_pid m pid = tree_lookup (tree m) pid"

definition unregister_pid_mapping :: "PidManager \<Rightarrow> u64 \<Rightarrow> PidManager \<times> u16 option" where
  "unregister_pid_mapping m pid = (case tree_remove (tree m) pid of (t, r) \<Rightarrow> (m\<lparr> tree := t \<rparr>, r))"

definition is_pid_allocated :: "PidManager \<Rightarrow> u64 \<Rightarrow> bool" where
  "is_pid_allocated m pid = pa_is_allocated (allocator m) pid"

definition allocated_pid_count :: "PidManager \<Rightarrow> u64" where
  "allocated_pid_count m = pa_count (allocator m)"

definition allocate_specific_pid :: "PidManager \<Rightarrow> u64 \<Rightarrow> PidManager \<times> bool" where
  "allocate_specific_pid m pid =
     (if pid = 0 \<or> MAX_PID < pid then (m, False)
      else case mark_allocated (allocator m) pid of (a, r) \<Rightarrow> (m\<lparr> allocator := a \<rparr>, r))"

definition get_pid_stats :: "PidManager \<Rightarrow> u64 \<times> nat" where
  "get_pid_stats m = (pa_count (allocator m), node_count (tree m))"

section \<open>Calls on the manager and their abstract effect\<close>

datatype pid_call = PidAlloc | PidFree u64 | PidRegister u64 u16 | PidUpdate u64 u16 | PidUnregister u64
  | PidSpecific u64 | PidLookup u64 | PidIsAllocated u64 | PidCount | PidStats

datatype pid_result = RUnit | RPid u64 | RBool bool | RIndex "u16 option" | RCount u64 | RStats u64 nat

text \<open>A call and what it returns.\<close>

fun pid_step :: "PidManager \<Rightarrow> pid_call \<Rightarrow> PidManager \<times> pid_result" where
  "pid_step m PidAlloc = (case allocate_pid m of (m', p) \<Rightarrow> (m', RPid p))"
| "pid_step m (PidFree p) = (free_pid m p, RUnit)"
| "pid_step m (PidRegister p i) = (case register_pid_mapping m p i of (m', r) \<Rightarrow> (m', RBool r))"
| "pid_step m (PidUpdate p i) = (case update_pid_mapping m p i of (m', r) \<Rightarrow> (m', RBool r))"
| "pid_step m (PidUnregister p) = (case unregister_pid_mapping m p of (m', r) \<Rightarrow> (m', RIndex r))"
| "pid_step m (PidSpecific p) = (case allocate_specific_pid m p of (m', r) \<Rightarrow> (m', RBool r))"
| "pid_step m (PidLookup p) = (m, RIndex (lookup_pid m p))"
| "pid_step m (PidIsAllocated p) = (m, RBool (is_pid_allocated m p))"
| "pid_step m PidCount = (m, RCount (allocated_pid_count m))"
| "pid_step m PidStats = (case get_pid_stats m of (a, n) \<Rightarrow> (m, RStats a n))"

text \<open>
  The specification: a set \<open>A\<close> of allocated PIDs, a partial map \<open>M\<close> to table indices, the legacy counter
  \<open>L\<close> and the number \<open>N\<close> of tree nodes in use.  It relates the state before a call, the call, its
  result and the state after; only two outcomes are left open, which free PID an allocation picks and
  whether a registration succeeds when fewer than three nodes are left.  The tree tells PIDs apart by
  their low 18 bits only, the \<open>key\<close>, and the index \<open>u16_MAX\<close> stands for no mapping.
\<close>

definition pid_key :: "u64 \<Rightarrow> u64" where
  "pid_key p = p AND MAX_PID"

definition entry_for :: "u16 \<Rightarrow> u16 option" where
  "entry_for i = (if i = u16_MAX then None else Some i)"

type_synonym pid_abs = "nat set \<times> (u64 \<rightharpoonup> u16) \<times> u64 \<times> nat"

definition registers :: "(u64 \<rightharpoonup> u16) \<Rightarrow> nat \<Rightarrow> u64 \<Rightarrow> bool \<Rightarrow> nat \<Rightarrow> bool" where
  "registers M N p ok N' \<longleftrightarrow> N \<le> N' \<and> N' \<le> N + 3 \<and> N' \<le> MAX_RADIX_NODES \<and>
     (M (pid_key p) \<noteq> None \<or> N + 3 \<le> MAX_RADIX_NODES \<longrightarrow> ok)"

fun pid_spec :: "pid_abs \<Rightarrow> pid_call \<Rightarrow> pid_result \<Rightarrow> pid_abs \<Rightarrow> bool" where
  "pid_spec (A, M, L, N) PidAlloc r S' =
     (if A = {..<4096} then r = RPid L \<and> S' = (A, M, L + 1, N)
      else \<exists>p. r = RPid p \<and> 0 < unat p \<and> unat p < 4096 \<and> unat p \<notin> A \<and> S' = (insert (unat p) A, M, L, N))"
| "pid_spec (A, M, L, N) (PidFree p) r S' =
     (r = RUnit \<and> S' = (if p = 0 then (A, M, L, N) else (A - {unat p}, M(pid_key p := None), L, N)))"
| "pid_spec (A, M, L, N) (PidRegister p i) r S' =
     (\<exists>ok N'. r = RBool ok \<and> registers M N p ok N' \<and> S' = (A, if ok then M(pid_key p := entry_for i) else M, L, N'))"
| "pid_spec (A, M, L, N) (PidUpdate p i) r S' =
     (\<exists>ok N'. r = RBool ok \<and> registers M N p ok N' \<and> S' = (A, M(pid_key p := if ok then entry_for i else None), L, N'))"
| "pid_spec (A, M, L, N) (PidUnregister p) r S' =
     (r = RIndex (M (pid_key p)) \<and> S' = (A, M(pid_key p := None), L, N))"
| "pid_spec (A, M, L, N) (PidSpecific p) r S' =
     (let ok = (p \<noteq> 0 \<and> unat p < 4096 \<and> unat p \<notin> A) in r = RBool ok \<and> S' = (if ok then insert (unat p) A else A, M, L, N))"
| "pid_spec (A, M, L, N) (PidLookup p) r S' = (r = RIndex (M (pid_key p)) \<and> S' = (A, M, L, N))"
| "pid_spec (A, M, L, N) (PidIsAllocated p) r S' = (r = RBool (unat p \<in> A) \<and> S' = (A, M, L, N))"
| "pid_spec (A, M, L, N) PidCount r S' = (r = RCount (of_nat (card A)) \<and> S' = (A, M, L, N))"
| "pid_spec (A, M, L, N) PidStats r S' = (r = RStats (of_nat (card A)) N \<and> S' = (A, M, L, N))"

section \<open>The interface of a PID map\<close>

definition presents :: "('t \<Rightarrow> bool) \<Rightarrow> ('t \<Rightarrow> u64 \<Rightarrow> u16 option) \<Rightarrow> ('t \<Rightarrow> nat) \<Rightarrow> 't \<Rightarrow> (u64 \<rightharpoonup> u16) \<Rightarrow> nat \<Rightarrow> bool" where
  "presents ok lookup used t M N \<longleftrightarrow> ok t \<and> (\<forall>p. lookup t p = M (pid_key p)) \<and> used t = N"

locale pid_map =
  fixes inv :: "'t \<Rightarrow> bool"
    and lookup :: "'t \<Rightarrow> u64 \<Rightarrow> u16 option"
    and insert :: "'t \<Rightarrow> u64 \<Rightarrow> u16 \<Rightarrow> 't \<times> bool"
    and remove :: "'t \<Rightarrow> u64 \<Rightarrow> 't \<times> u16 option"
    and used :: "'t \<Rightarrow> nat"
  assumes insert_law: "inv t \<Longrightarrow> insert t p v = (t', r) \<Longrightarrow>
      inv t' \<and> lookup t' q = (if r \<and> pid_key q = pid_key p then entry_for v else lookup t q)"
    and insert_size: "inv t \<Longrightarrow> insert t p v = (t', r) \<Longrightarrow>
      used t \<le> used t' \<and> used t' \<le> used t + 3 \<and> used t' \<le> MAX_RADIX_NODES \<and>
      (lookup t p \<noteq> None \<or> used t + 3 \<le> MAX_RADIX_NODES \<longrightarrow> r)"
    and reinsert_succeeds: "inv t \<Longrightarrow> lookup t p \<noteq> None \<Longrightarrow> snd (insert (fst (remove t p)) p v)"
    and remove_law: "inv t \<Longrightarrow> remove t p = (t', old) \<Longrightarrow>
      inv t' \<and> used t' = used t \<and> old = lookup t p \<and> lookup t' q = (if pid_key q = pid_key p then None else lookup t q)"
begin

text \<open>Registering and removing, as they act on the map that the lookups present.\<close>

lemma presents_insert:
  assumes "presents inv lookup used t M N" "insert t p v = (t', r)"
  shows "registers M N p r (used t') \<and> presents inv lookup used t' (if r then M(pid_key p := entry_for v) else M) (used t')"
  using assms insert_law [OF _ assms(2)] insert_size [OF _ assms(2)] by (auto simp: presents_def registers_def)

lemma presents_remove:
  assumes "presents inv lookup used t M N" "remove t p = (t', r)"
  shows "r = M (pid_key p) \<and> presents inv lookup used t' (M(pid_key p := None)) N"
  using assms remove_law [OF _ assms(2)] by (auto simp: presents_def)

lemma presents_update:
  assumes "presents inv lookup used t M N" "insert (fst (remove t p)) p v = (t', r)"
  shows "registers M N p r (used t') \<and> presents inv lookup used t' (M(pid_key p := if r then entry_for v else None)) (used t')"
proof -
  obtain t1 o1 where t1: "remove t p = (t1, o1)" by (meson surj_pair)
  have p1: "presents inv lookup used t1 (M(pid_key p := None)) N" using presents_remove [OF assms(1) t1] by blast
  have "insert t1 p v = (t', r)" using assms(2) t1 by simp
  from presents_insert [OF p1 this]
  have i: "registers (M(pid_key p := None)) N p r (used t')"
    "presents inv lookup used t' (if r then M(pid_key p := entry_for v) else M(pid_key p := None)) (used t')" by (simp_all cong: if_cong)
  have "r" if "M (pid_key p) \<noteq> None" using reinsert_succeeds [of t p v] assms that by (simp add: presents_def)
  then show ?thesis using i by (auto simp: registers_def)
qed

end

section \<open>Well-formed trees\<close>

abbreviation child :: "PidRadixTree \<Rightarrow> nat \<Rightarrow> nat \<Rightarrow> u16" where
  "child t n k \<equiv> children (nodes t ! n) ! k"

definition rt_ok :: "PidRadixTree \<Rightarrow> bool" where
  "rt_ok t \<longleftrightarrow> length (nodes t) = 256 \<and> 0 < node_count t \<and> node_count t \<le> 256 \<and>
     (\<forall>n<256. length (children (nodes t ! n)) = 64) \<and>
     (\<forall>n<node_count t. \<forall>k<64. unat (child t n k) < node_count t) \<and>
     (\<forall>n<node_count t. \<forall>n'<node_count t. \<forall>k<64. \<forall>k'<64.
        child t n k \<noteq> 0 \<longrightarrow> child t n k = child t n' k' \<longrightarrow> n = n' \<and> k = k')"

lemma rt_okD:
  assumes "rt_ok t"
  shows "length (nodes t) = 256" "0 < node_count t" "node_count t \<le> 256"
    "n < 256 \<Longrightarrow> length (children (nodes t ! n)) = 64"
    "n < node_count t \<Longrightarrow> k < 64 \<Longrightarrow> unat (child t n k) < node_count t"
  using assms by (simp_all add: rt_ok_def)

lemma rt_ok_unique:
  "rt_ok t \<Longrightarrow> n < node_count t \<Longrightarrow> n' < node_count t \<Longrightarrow> k < 64 \<Longrightarrow> k' < 64 \<Longrightarrow> child t n k \<noteq> 0 \<Longrightarrow>
   child t n k = child t n' k' \<Longrightarrow> n = n' \<and> k = k'"
  by (simp add: rt_ok_def)

lemma rt_ok_new: "rt_ok PidRadixTree_new"
  by (simp add: rt_ok_def PidRadixTree_new_def MAX_RADIX_NODES_def RadixNode_empty_def RADIX_CHILDREN_def)

lemma radix_index_drop: "radix_index pid l = drop_bit ((2 - l) * 6) (unat pid) mod 64"
proof -
  have "unat (w AND 63) = unat w mod 64" for w :: u64
  proof -
    have "w AND 63 = take_bit 6 w" by (simp add: take_bit_eq_mask mask_eq_exp_minus_1)
    then show ?thesis by (simp add: unsigned_take_bit_eq take_bit_eq_mod unat_mod_distrib)
  qed
  then show ?thesis
    by (simp only: radix_index_def Let_def RADIX_LEVELS_def RADIX_BITS_def RADIX_MASK_def unat_drop_bit_eq) simp
qed

lemma radix_index_lt: "radix_index pid l < 64"
  by (simp add: radix_index_drop)

lemma radix_index_nat:
  "radix_index pid 0 = unat pid div 4096 mod 64" "radix_index pid 1 = unat pid div 64 mod 64"
  "radix_index pid 2 = unat pid mod 64"
  by (simp_all add: radix_index_drop drop_bit_eq_div)

text \<open>The three digits determine a PID of at most 18 bits.\<close>

lemma radix_digits:
  assumes "p \<le> MAX_PID" "q \<le> MAX_PID" "\<forall>l\<in>{0, 1, 2}. radix_index p l = radix_index q l"
  shows "p = q"
proof -
  have lt: "unat p < 64 * 4096" "unat q < 64 * 4096" using assms(1,2) by (simp_all add: MAX_PID_def word_le_nat_alt)
  have digits: "n = n div 4096 mod 64 * 4096 + n div 64 mod 64 * 64 + n mod 64" if "n < 64 * 4096" for n :: nat
  proof -
    have "n div 4096 mod 64 = n div 4096" using that by (simp add: div_less_iff_less_mult)
    moreover have "n div 64 = n div 4096 * 64 + n div 64 mod 64"
      using div_mult_mod_eq [of "n div 64" 64] by (simp add: div_mult2_eq [symmetric])
    moreover have "n = n div 64 * 64 + n mod 64" by simp
    ultimately show ?thesis by linarith
  qed
  have "unat p div 4096 mod 64 = unat q div 4096 mod 64" "unat p div 64 mod 64 = unat q div 64 mod 64"
    "unat p mod 64 = unat q mod 64"
    using assms(3) by (simp_all add: radix_index_nat del: One_nat_def)
  then have "unat p = unat q" using digits [OF lt(1)] digits [OF lt(2)] by metis
  then show ?thesis by (simp add: word_unat_eq_iff)
qed

lemma pid_key_unat: "unat (pid_key p) = take_bit 18 (unat p)"
proof -
  have "pid_key p = take_bit 18 p" by (simp add: pid_key_def MAX_PID_def take_bit_eq_mask mask_eq_exp_minus_1)
  then show ?thesis by (simp add: unsigned_take_bit_eq)
qed

lemma pid_key_le: "pid_key p \<le> MAX_PID"
  by (simp add: word_le_nat_alt pid_key_unat MAX_PID_def take_bit_eq_mod)

lemma radix_index_key [simp]: "radix_index (pid_key p) l = radix_index p l"
proof -
  have "take_bit 6 (drop_bit k (take_bit 18 n)) = take_bit 6 (drop_bit k n)" if "k \<le> 12" for k and n :: nat
    using that by (simp add: drop_bit_take_bit min_absorb1)
  from this [of "(2 - l) * 6"] show ?thesis by (simp add: radix_index_drop pid_key_unat take_bit_eq_mod)
qed

lemma descend_key [simp]: "descend t (pid_key p) ls n = descend t p ls n"
  by (induction ls arbitrary: n) (simp_all add: Let_def)

lemma tree_lookup_key [simp]: "tree_lookup t (pid_key p) = tree_lookup t p"
  by (simp add: tree_lookup_def)

lemma descend_append:
  "descend t p (ls @ [l]) n = (case descend t p ls n of None \<Rightarrow> None
     | Some m \<Rightarrow> if child t m (radix_index p l) = 0 then None else Some (unat (child t m (radix_index p l))))"
  by (induction ls arbitrary: n) (simp_all add: Let_def)

lemma descend_lt: "rt_ok t \<Longrightarrow> n < node_count t \<Longrightarrow> descend t p ls n = Some m \<Longrightarrow> m < node_count t"
proof (induction ls arbitrary: n)
  case (Cons l ls)
  have "unat (child t n (radix_index p l)) < node_count t"
    using rt_okD(5) [OF Cons.prems(1,2) radix_index_lt] .
  then show ?case using Cons by (simp add: Let_def split: if_splits)
qed simp

text \<open>Two walks that meet have taken the same digits.\<close>

lemma descend_inj:
  "rt_ok t \<Longrightarrow> n < node_count t \<Longrightarrow> descend t p ls n = Some m \<Longrightarrow> descend t q ls n = Some m \<Longrightarrow>
   \<forall>l\<in>set ls. radix_index p l = radix_index q l"
proof (induction ls arbitrary: m rule: rev_induct)
  case (snoc l ls)
  obtain a where a: "descend t p ls n = Some a" "child t a (radix_index p l) \<noteq> 0" "m = unat (child t a (radix_index p l))"
    using snoc.prems(3) by (auto simp: descend_append split: option.splits if_splits)
  obtain b where b: "descend t q ls n = Some b" "m = unat (child t b (radix_index q l))"
    using snoc.prems(4) by (auto simp: descend_append split: option.splits if_splits)
  have "child t a (radix_index p l) = child t b (radix_index q l)" using a b by (simp add: word_unat_eq_iff)
  then have "a = b \<and> radix_index p l = radix_index q l"
    using rt_ok_unique [OF snoc.prems(1) descend_lt [OF snoc.prems(1,2) a(1)]
        descend_lt [OF snoc.prems(1,2) b(1)] radix_index_lt radix_index_lt a(2)] by blast
  then show ?case using snoc.IH [OF snoc.prems(1,2) a(1)] b(1) by auto
qed simp

section \<open>Linking a fresh node\<close>

definition link :: "PidRadixTree \<Rightarrow> nat \<Rightarrow> nat \<Rightarrow> PidRadixTree" where
  "link t n k = set_child (fst (alloc_node t)) n k (of_nat (node_count t))"

definition linkable :: "PidRadixTree \<Rightarrow> nat \<Rightarrow> nat \<Rightarrow> bool" where
  "linkable t n k \<longleftrightarrow> rt_ok t \<and> n < node_count t \<and> k < 64 \<and> child t n k = 0 \<and> node_count t < 256"

lemma linkableD:
  assumes "linkable t n k"
  shows "rt_ok t" "n < node_count t" "k < 64" "child t n k = 0" "node_count t < 256" "n < 256"
    "unat (of_nat (node_count t) :: u16) = node_count t" "(of_nat (node_count t) :: u16) \<noteq> 0"
proof -
  show d: "rt_ok t" "n < node_count t" "k < 64" "child t n k = 0" "node_count t < 256" "n < 256"
    using assms by (auto simp: linkable_def)
  show u: "unat (of_nat (node_count t) :: u16) = node_count t" using d(5) by (intro unat_of_nat_small) simp
  show "(of_nat (node_count t) :: u16) \<noteq> 0" using u d(2) by (metis unat_0 not_less0)
qed

lemma alloc_node_cases:
  "alloc_node t = (if node_count t < 256 then (fst (alloc_node t), Some (of_nat (node_count t))) else (t, None))"
  by (simp add: alloc_node_def MAX_RADIX_NODES_def Let_def)

lemma link_count:
  "linkable t n k \<Longrightarrow> node_count (link t n k) = Suc (node_count t)"
  "linkable t n k \<Longrightarrow> length (nodes (link t n k)) = 256"
  by (simp_all add: link_def set_child_def alloc_node_def MAX_RADIX_NODES_def Let_def linkable_def rt_okD(1))

lemma link_node:
  "linkable t n k \<Longrightarrow> m < 256 \<Longrightarrow> nodes (link t n k) ! m =
    (if m = n then (nodes t ! n)\<lparr> children := (children (nodes t ! n))[k := of_nat (node_count t)] \<rparr>
     else if m = node_count t then RadixNode_empty else nodes t ! m)"
  by (auto simp: link_def set_child_def alloc_node_def MAX_RADIX_NODES_def Let_def nth_update_if linkable_def rt_okD(1))

lemma link_child:
  "linkable t n k \<Longrightarrow> m < 256 \<Longrightarrow> j < 64 \<Longrightarrow> child (link t n k) m j =
    (if m = n \<and> j = k then of_nat (node_count t) else if m = node_count t then 0 else child t m j)"
  using linkableD [of t n k] rt_okD(4) [of t n]
  by (auto simp: link_node nth_update_if RadixNode_empty_def RADIX_CHILDREN_def)

lemma link_process_idx:
  "linkable t n k \<Longrightarrow> m < 256 \<Longrightarrow> process_idx (nodes (link t n k) ! m) =
    (if m = node_count t then u16_MAX else process_idx (nodes t ! m))"
  using linkableD(2) [of t n k] by (auto simp: link_node RadixNode_empty_def)

lemma link_rt_ok:
  assumes "linkable t n k"
  shows "rt_ok (link t n k)"
proof -
  note d = linkableD [OF assms] and child = link_child [OF assms] 
  have old: "unat (child t m j) < node_count t" if "m < node_count t" "j < 64" for m j
    using rt_okD(5) [OF d(1)] that .
  have lt: "m < 256" if "m < Suc (node_count t)" for m using that d(5) by simp
  have "unat (child (link t n k) m j) < Suc (node_count t)" if "m < Suc (node_count t)" "j < 64" for m j
    using that child [OF lt that(2)] old [of m j] d by (auto simp: less_Suc_eq)
  moreover have "m = m' \<and> j = j'"
    if "m < Suc (node_count t)" "m' < Suc (node_count t)" "j < 64" "j' < 64" "child (link t n k) m j \<noteq> 0"
      "child (link t n k) m j = child (link t n k) m' j'" for m m' j j'
    using that child [OF lt that(3)] child [OF lt that(4)] old [of m j] old [of m' j'] d
      rt_ok_unique [OF d(1), of m m' j j'] by (auto simp: less_Suc_eq split: if_splits)
  moreover have "length (children (nodes (link t n k) ! m)) = 64" if "m < 256" for m
    using that rt_okD(4) [OF d(1), of m] d link_node [OF assms] by (auto simp: RadixNode_empty_def RADIX_CHILDREN_def)
  ultimately show ?thesis using link_count [OF assms] d unfolding rt_ok_def by simp
qed

text \<open>Existing walks are unchanged; the only walks gained end at the fresh, empty node.\<close>

lemma link_descend:
  assumes "linkable t n k"
  shows "m < node_count t \<Longrightarrow> descend t q ls m = Some y \<Longrightarrow> descend (link t n k) q ls m = Some y"
    and "m < node_count t \<Longrightarrow> descend t q ls m = None \<Longrightarrow> descend (link t n k) q ls m \<in> {None, Some (node_count t)}"
proof (induction ls arbitrary: m)
  note d = linkableD [OF assms] and child = link_child [OF assms]
  case (Cons l ls)
  let ?j = "radix_index q l"
  have c: "child (link t n k) m ?j = (if m = n \<and> ?j = k then of_nat (node_count t) else child t m ?j)"
    if "m < node_count t" for m using child [of m ?j] that d radix_index_lt [of q l] by simp
  have u: "unat (child t m ?j) < node_count t" if "m < node_count t" for m
    using rt_okD(5) [OF d(1) that radix_index_lt] .
  have new: "descend (link t n k) q ls (node_count t) = (if ls = [] then Some (node_count t) else None)"
    using child [of "node_count t"] d radix_index_lt by (cases ls) (auto simp: Let_def)
  {
    case 1
    then show ?case using Cons.IH(1) [OF u [OF 1(1)]] c [OF 1(1)] d(4) by (auto simp: Let_def split: if_splits)
  next
    case 2
    then show ?case using Cons.IH(2) [OF u [OF 2(1)]] c [OF 2(1)] d new by (auto simp: Let_def split: if_splits)
  }
qed simp_all

lemma link_lookup:
  assumes "linkable t n k"
  shows "tree_lookup (link t n k) q = tree_lookup t q"
proof (cases "descend t q [0..<RADIX_LEVELS] 0")
  note d = linkableD [OF assms] and p = link_process_idx [OF assms]
  have z: "0 < node_count t" using d by simp
  {
    case None
    then show ?thesis using link_descend(2) [OF assms z None] p d by (auto simp: tree_lookup_def Let_def)
  next
    case (Some m)
    have "m < node_count t" using descend_lt [OF d(1) z Some] .
    then show ?thesis using Some link_descend(1) [OF assms z Some] p d by (simp add: tree_lookup_def Let_def)
  }
qed

section \<open>Insertion and removal\<close>

text \<open>What path creation guarantees: no mapping changes, and existing links stay.\<close>

definition extends :: "PidRadixTree \<Rightarrow> PidRadixTree \<Rightarrow> bool" where
  "extends t t' \<longleftrightarrow> rt_ok t' \<and> node_count t \<le> node_count t' \<and> (\<forall>q. tree_lookup t' q = tree_lookup t q) \<and>
     (\<forall>n<node_count t. \<forall>k<64. child t n k \<noteq> 0 \<longrightarrow> child t' n k = child t n k)"

lemma extends_refl: "rt_ok t \<Longrightarrow> extends t t"
  by (simp add: extends_def)

lemma extends_trans: "extends t t1 \<Longrightarrow> extends t1 t2 \<Longrightarrow> extends t t2"
  by (auto simp: extends_def)

lemma extends_link: "linkable t n k \<Longrightarrow> extends t (link t n k)"
  using linkableD [of t n k] by (auto simp: extends_def link_rt_ok link_count link_lookup link_child)

lemma insert_path_law:
  "rt_ok t \<Longrightarrow> n < node_count t \<Longrightarrow> insert_path t p ls n = (t', r) \<Longrightarrow>
   extends t t' \<and> (\<forall>m. r = Some m \<longrightarrow> m < node_count t' \<and> descend t' p ls n = Some m)"
proof (induction ls arbitrary: t n)
  case (Cons l ls)
  let ?k = "radix_index p l"
  show ?case
  proof (cases "child t n ?k = 0")
    case False
    have u: "unat (child t n ?k) < node_count t" using rt_okD(5) [OF Cons.prems(1,2) radix_index_lt] .
    have "insert_path t p ls (unat (child t n ?k)) = (t', r)" using Cons.prems(3) False by (simp add: Let_def)
    from Cons.IH [OF Cons.prems(1) u this] show ?thesis
      using False Cons.prems(2) radix_index_lt [of p l] by (auto simp: extends_def Let_def)
  next
    case True
    show ?thesis
    proof (cases "node_count t < 256")
      case False
      then show ?thesis using Cons.prems True alloc_node_cases [of t] by (auto simp: Let_def extends_refl)
    next
      case room: True
      then have lk: "linkable t n ?k" using Cons.prems True radix_index_lt by (simp add: linkable_def)
      note d = linkableD [OF lk]
      have "insert_path (link t n ?k) p ls (node_count t) = (t', r)"
        using Cons.prems(3) True room alloc_node_cases [of t] d(7)
        by (simp add: Let_def link_def split: prod.splits)
      from Cons.IH [OF link_rt_ok [OF lk] _ this]
      have IH: "extends (link t n ?k) t'" "\<forall>m. r = Some m \<longrightarrow> m < node_count t' \<and> descend t' p ls (node_count t) = Some m"
        by (simp_all add: link_count [OF lk])
      have "child (link t n ?k) n ?k = of_nat (node_count t)"
        using link_child [OF lk d(6) radix_index_lt, of p l] by simp
      then have "child t' n ?k = of_nat (node_count t)"
        using IH(1) d radix_index_lt [of p l] by (simp add: extends_def link_count [OF lk])
      then show ?thesis using IH extends_trans [OF extends_link [OF lk] IH(1)] d by (auto simp: Let_def)
    qed
  qed
qed (auto simp: extends_refl)

lemma set_process_idx_nodes:
  "length (nodes (set_process_idx t n v)) = length (nodes t)" "node_count (set_process_idx t n v) = node_count t"
  "m < length (nodes t) \<Longrightarrow> children (nodes (set_process_idx t n v) ! m) = children (nodes t ! m)"
  "m < length (nodes t) \<Longrightarrow> process_idx (nodes (set_process_idx t n v) ! m) =
     (if m = n then v else process_idx (nodes t ! m))"
  by (simp_all add: set_process_idx_def)

lemma set_process_idx_ok: "rt_ok t \<Longrightarrow> rt_ok (set_process_idx t n v)"
  by (simp add: rt_ok_def set_process_idx_nodes)

lemma set_process_idx_descend:
  "rt_ok t \<Longrightarrow> m < node_count t \<Longrightarrow> descend (set_process_idx t n v) q ls m = descend t q ls m"
proof (induction ls arbitrary: m)
  case (Cons l ls)
  then have "m < length (nodes t)" using rt_okD [OF Cons.prems(1)] by simp
  then show ?case using Cons rt_okD(5) [OF Cons.prems(1,2) radix_index_lt, of q l]
    by (simp add: set_process_idx_nodes Let_def)
qed simp

text \<open>Storing an index at the leaf of \<open>p\<close> changes the mapping of \<open>p\<close> and of no other PID.\<close>

lemma set_leaf_lookup:
  assumes "rt_ok t" "descend t p [0..<RADIX_LEVELS] 0 = Some n" "p \<le> MAX_PID" "q \<le> MAX_PID"
  shows "tree_lookup (set_process_idx t n v) q =
    (if q = p then (if v = u16_MAX then None else Some v) else tree_lookup t q)"
proof -
  have z: "0 < node_count t" using rt_okD(2) [OF assms(1)] .
  have d: "descend (set_process_idx t n v) q [0..<RADIX_LEVELS] 0 = descend t q [0..<RADIX_LEVELS] 0"
    by (rule set_process_idx_descend [OF assms(1) z])
  have lt: "m < length (nodes t)" if "descend t q [0..<RADIX_LEVELS] 0 = Some m" for m
    using descend_lt [OF assms(1) z that] rt_okD [OF assms(1)] by simp
  show ?thesis
  proof (cases "q = p")
    case True
    then show ?thesis using assms(2) d lt [of n] by (simp add: tree_lookup_def set_process_idx_nodes)
  next
    case False
    have "m \<noteq> n" if "descend t q [0..<RADIX_LEVELS] 0 = Some m" for m
    proof
      assume "m = n"
      with that have "\<forall>l\<in>set [0..<RADIX_LEVELS]. radix_index q l = radix_index p l"
        using descend_inj [OF assms(1) z _ assms(2)] by blast
      then show False using radix_digits [OF assms(4,3)] False by (simp add: RADIX_LEVELS_def eval_nat_numeral)
    qed
    then show ?thesis using False d lt
      by (cases "descend t q [0..<RADIX_LEVELS] 0") (simp_all add: tree_lookup_def set_process_idx_nodes)
  qed
qed

lemma set_leaf_lookup_key:
  assumes "rt_ok t" "descend t p [0..<RADIX_LEVELS] 0 = Some n"
  shows "tree_lookup (set_process_idx t n v) q = (if pid_key q = pid_key p then entry_for v else tree_lookup t q)"
  using set_leaf_lookup [OF assms(1), of "pid_key p" n "pid_key q" v] assms(2) pid_key_le by (simp add: entry_for_def)

text \<open>How many nodes an insertion takes, and when it finds its path in place.\<close>

lemma insert_path_count:
  "insert_path t p ls n = (t', r) \<Longrightarrow>
   node_count t' \<le> node_count t + length ls \<and> (node_count t + length ls \<le> MAX_RADIX_NODES \<longrightarrow> r \<noteq> None)"
proof (induction ls arbitrary: t n)
  case (Cons l ls)
  show ?case
  proof (cases "children (nodes t ! n) ! radix_index p l = 0")
    case False
    then show ?thesis using Cons.IH Cons.prems by (fastforce simp: Let_def)
  next
    case True
    show ?thesis
    proof (cases "MAX_RADIX_NODES \<le> node_count t")
      case full: True
      then show ?thesis using Cons.prems True by (auto simp: Let_def alloc_node_def)
    next
      case False
      let ?t = "set_child (fst (alloc_node t)) n (radix_index p l) (of_nat (node_count t))"
      have "insert_path ?t p ls (unat (of_nat (node_count t) :: u16)) = (t', r)"
        using Cons.prems True False by (simp add: Let_def alloc_node_def)
      moreover have "node_count ?t = node_count t + 1" using False by (simp add: alloc_node_def Let_def set_child_def)
      ultimately show ?thesis using Cons.IH [of ?t] by fastforce
    qed
  qed
qed auto

lemma insert_path_found: "descend t p ls n = Some m \<Longrightarrow> insert_path t p ls n = (t, Some m)"
  by (induction ls arbitrary: n) (auto simp: Let_def split: if_splits)

lemma levels_last: "[0..<RADIX_LEVELS] = [0..<RADIX_LEVELS - 1] @ [RADIX_LEVELS - 1]"
  by (simp add: RADIX_LEVELS_def eval_nat_numeral)

lemma tree_insert_found:
  assumes "descend t p [0..<RADIX_LEVELS] 0 \<noteq> None"
  shows "snd (tree_insert t p v)"
proof -
  obtain m where m: "descend t p [0..<RADIX_LEVELS - 1] 0 = Some m" "child t m (radix_index p (RADIX_LEVELS - 1)) \<noteq> 0"
    using assms by (auto simp: levels_last descend_append split: option.splits if_splits)
  then show ?thesis by (simp add: tree_insert_def insert_path_found)
qed

lemma tree_insert_count:
  assumes "tree_insert t p v = (t', r)"
  shows "node_count t' \<le> node_count t + 3 \<and> (node_count t + 3 \<le> MAX_RADIX_NODES \<longrightarrow> r)"
proof -
  obtain t1 r1 where ip: "insert_path t p [0..<RADIX_LEVELS - 1] 0 = (t1, r1)" by (meson surj_pair)
  have c: "node_count t1 \<le> node_count t + 2" "node_count t + 2 \<le> MAX_RADIX_NODES \<longrightarrow> r1 \<noteq> None"
    using insert_path_count [OF ip] by (simp_all add: RADIX_LEVELS_def)
  show ?thesis
  proof (cases r1)
    case None
    then show ?thesis using assms ip c by (auto simp: tree_insert_def)
  next
    case (Some n)
    then show ?thesis using assms ip c
      by (auto simp: tree_insert_def Let_def alloc_node_def set_child_def set_process_idx_def split: if_splits)
  qed
qed

lemma set_child_process_idx:
  "set_child (set_process_idx t a v) n k c = set_process_idx (set_child t n k c) a v"
proof -
  have "modify_nth n f (modify_nth a g xs) = modify_nth a g (modify_nth n f xs)"
    if "\<And>x. f (g x) = g (f x)" for n a and f g :: "RadixNode \<Rightarrow> RadixNode" and xs
    by (rule nth_equalityI) (simp_all add: that)
  then show ?thesis by (simp add: set_child_def set_process_idx_def)
qed

text \<open>Insertion is path creation, possibly one more link, and a store at the leaf.\<close>

lemma tree_insert_law:
  assumes "rt_ok t"
  shows "case tree_insert t p v of
      (t', False) \<Rightarrow> extends t t'
    | (t', True) \<Rightarrow> \<exists>t1 n. extends t t1 \<and> descend t1 p [0..<RADIX_LEVELS] 0 = Some n \<and> t' = set_process_idx t1 n v"
proof -
  have z: "0 < node_count t" using rt_okD(2) [OF assms] .
  obtain t1 r where ip: "insert_path t p [0..<RADIX_LEVELS - 1] 0 = (t1, r)" by fastforce
  note law = insert_path_law [OF assms z ip]
  show ?thesis
  proof (cases r)
    case None
    then show ?thesis using law ip by (simp add: tree_insert_def)
  next
    case (Some n)
    let ?k = "radix_index p (RADIX_LEVELS - 1)"
    have n: "n < node_count t1" "descend t1 p [0..<RADIX_LEVELS - 1] 0 = Some n" and ext: "extends t t1"
      using law Some by auto
    have ok1: "rt_ok t1" using ext by (simp add: extends_def)
    have levels: "[0..<RADIX_LEVELS] = [0..<RADIX_LEVELS - 1] @ [RADIX_LEVELS - 1]"
      by (simp add: RADIX_LEVELS_def eval_nat_numeral)
    consider (leaf) "child t1 n ?k \<noteq> 0" | (full) "child t1 n ?k = 0" "\<not> node_count t1 < 256"
      | (new) "child t1 n ?k = 0" "node_count t1 < 256" by blast
    then show ?thesis
    proof cases
      case leaf
      then show ?thesis using Some ip ext n(2) by (auto simp: tree_insert_def Let_def levels descend_append)
    next
      case full
      then show ?thesis using Some ip ext alloc_node_cases [of t1] by (simp add: tree_insert_def Let_def)
    next
      case new
      then have lk: "linkable t1 n ?k" using ok1 n radix_index_lt by (simp add: linkable_def)
      note d = linkableD [OF lk]
      obtain ta where al: "alloc_node t1 = (ta, Some (of_nat (node_count t1)))"
        using alloc_node_cases [of t1] new(2) by auto
      have t': "tree_insert t p v = (set_process_idx (link t1 n ?k) (node_count t1) v, True)"
        using Some ip new(1) al d(7) by (simp add: tree_insert_def Let_def link_def set_child_process_idx)
      have "child (link t1 n ?k) n ?k = of_nat (node_count t1)" using link_child [OF lk d(6) d(3)] by simp
      then have "descend (link t1 n ?k) p [0..<RADIX_LEVELS] 0 = Some (node_count t1)"
        using link_descend(1) [OF lk _ n(2)] d by (simp add: levels descend_append)
      then show ?thesis using t' extends_trans [OF ext extends_link [OF lk]] by auto
    qed
  qed
qed

lemma tree_remove_law:
  assumes "rt_ok t" "p \<le> MAX_PID" "q \<le> MAX_PID" "tree_remove t p = (t', r)"
  shows "rt_ok t' \<and> node_count t' = node_count t \<and> r = tree_lookup t p \<and>
    tree_lookup t' q = (if q = p then None else tree_lookup t q)"
proof (cases "tree_lookup t p")
  case None
  then have "t' = t" "r = None" using assms(4) by (auto simp: tree_remove_def tree_lookup_def Let_def split: option.splits if_splits)
  then show ?thesis using assms None by simp
next
  case (Some i)
  then obtain n where n: "descend t p [0..<RADIX_LEVELS] 0 = Some n" "process_idx (nodes t ! n) = i" "i \<noteq> u16_MAX"
    by (auto simp: tree_lookup_def Let_def split: option.splits if_splits)
  then have "t' = set_process_idx t n u16_MAX" "r = Some i" using assms(4) by (auto simp: tree_remove_def Let_def)
  then show ?thesis using assms Some set_leaf_lookup [OF assms(1) n(1) assms(2,3), of u16_MAX]
    by (simp add: set_process_idx_ok set_process_idx_nodes)
qed

lemma tree_remove_key: "tree_remove t (pid_key p) = tree_remove t p"
  by (simp add: tree_remove_def)

lemma tree_remove_keyed:
  assumes "rt_ok t" "tree_remove t p = (t', r)"
  shows "rt_ok t' \<and> node_count t' = node_count t \<and> r = tree_lookup t p \<and>
    tree_lookup t' q = (if pid_key q = pid_key p then None else tree_lookup t q)"
proof -
  have "tree_remove t (pid_key p) = (t', r)" using assms(2) by (simp add: tree_remove_key)
  from tree_remove_law [OF assms(1) pid_key_le pid_key_le this, of q] show ?thesis by simp
qed

lemma tree_remove_descend:
  assumes "rt_ok t"
  shows "descend (fst (tree_remove t p)) q [0..<RADIX_LEVELS] 0 = descend t q [0..<RADIX_LEVELS] 0"
  using set_process_idx_descend [OF assms rt_okD(2) [OF assms]] by (simp add: tree_remove_def Let_def split: option.split)

interpretation radix: pid_map rt_ok tree_lookup tree_insert tree_remove node_count
proof (unfold_locales, goal_cases)
  case (1 t p v t' r q)
  show ?case
  proof (cases r)
    case True
    then obtain t1 n where t1: "extends t t1" "descend t1 p [0..<RADIX_LEVELS] 0 = Some n" "t' = set_process_idx t1 n v"
      using tree_insert_law [OF 1(1), of p v] 1(2) by auto
    then have "rt_ok t1" by (simp add: extends_def)
    then show ?thesis using t1 True set_leaf_lookup_key [OF _ t1(2), of v q] by (simp add: set_process_idx_ok extends_def)
  next
    case False
    then show ?thesis using tree_insert_law [OF 1(1), of p v] 1(2) by (simp add: extends_def)
  qed
next
  case (2 t p v t' r)
  have "rt_ok t' \<and> node_count t \<le> node_count t'"
    using tree_insert_law [OF 2(1), of p v] 2(2)
    by (cases r) (auto simp: extends_def set_process_idx_nodes set_process_idx_ok)
  moreover have "r" if "tree_lookup t p \<noteq> None"
    using tree_insert_found [of t p v] 2(2) that by (auto simp: tree_lookup_def split: option.splits)
  ultimately show ?case using tree_insert_count [OF 2(2)] rt_okD(3) [of t'] by (auto simp: MAX_RADIX_NODES_def)
next
  case (3 t p v)
  then have "descend (fst (tree_remove t p)) p [0..<RADIX_LEVELS] 0 \<noteq> None"
    unfolding tree_remove_descend [OF 3(1)] by (auto simp: tree_lookup_def split: option.splits)
  then show ?case by (rule tree_insert_found)
next
  case (4 t p t' r q)
  from tree_remove_keyed [OF this] show ?case .
qed

section \<open>The manager refines its specification\<close>

definition mgr_rel :: "PidManager \<Rightarrow> nat set \<times> (u64 \<rightharpoonup> u16) \<Rightarrow> bool" where
  "mgr_rel m S \<longleftrightarrow> pa_ok (allocator m) \<and> rt_ok (tree m) \<and> pa_members (allocator m) = fst S \<and>
     (\<forall>p\<le>MAX_PID. lookup_pid m p = snd S p)"

lemma mgr_rel_new: "mgr_rel PidManager_new ({0}, Map.empty)"
proof -
  have "tree_lookup PidRadixTree_new p = None" for p
  proof -
    have "[0..<RADIX_LEVELS] = 0 # [1..<RADIX_LEVELS]" by (simp add: RADIX_LEVELS_def upt_conv_Cons)
    moreover have "child PidRadixTree_new 0 (radix_index p 0) = 0"
      using radix_index_lt [of p 0]
      by (simp add: PidRadixTree_new_def MAX_RADIX_NODES_def RadixNode_empty_def RADIX_CHILDREN_def)
    ultimately show ?thesis by (simp add: tree_lookup_def)
  qed
  then show ?thesis by (simp add: mgr_rel_def PidManager_new_def pa_new_ok rt_ok_new lookup_pid_def)
qed

lemma allocate_pid_fresh:
  assumes "pa_ok (allocator m)" "pa_members (allocator m) \<noteq> {..<4096}" "allocate_pid m = (m', p)"
  shows "alloc_post (allocator m) (allocator m') p" "tree m' = tree m"
  using allocate_next_law [OF assms(1)] assms(2,3)
  by (auto simp: allocate_pid_def split: prod.splits option.splits)

lemma mark_free_members:
  assumes "pa_ok a" "p \<noteq> 0"
  shows "pa_ok (fst (mark_free a p))" "pa_members (fst (mark_free a p)) = pa_members a - {unat p}"
  using mark_free_law [OF assms(1) _ assms(2)] mark_free_refused [OF assms(1), of p] assms(1)
  by (cases "unat p \<in> pa_members a"; simp)+

lemma mark_allocated_members:
  assumes "pa_ok a" "mark_allocated a p = (a', r)"
  shows "pa_ok a' \<and> pa_members a' = (if r then insert (unat p) (pa_members a) else pa_members a)"
proof (cases "unat p \<in> pa_members a \<or> 4096 \<le> unat p")
  case True
  then show ?thesis using mark_allocated_taken [OF assms(1) True] assms by simp
next
  case False
  then show ?thesis using mark_allocated_fresh [OF assms(1), of p] assms(2) by (simp add: not_le)
qed

lemma tree_remove_fst:
  assumes "rt_ok t" "p \<le> MAX_PID" "q \<le> MAX_PID"
  shows "rt_ok (fst (tree_remove t p)) \<and>
    tree_lookup (fst (tree_remove t p)) q = (if q = p then None else tree_lookup t q)"
proof -
  obtain t' r where "tree_remove t p = (t', r)" by fastforce
  with tree_remove_law [OF assms this] show ?thesis by simp
qed

lemma mgr_relD:
  assumes "mgr_rel m (A, M)"
  shows "pa_ok (allocator m)" "pa_members (allocator m) = A" "rt_ok (tree m)"
    "q \<le> MAX_PID \<Longrightarrow> tree_lookup (tree m) q = M q"
  using assms by (simp_all add: mgr_rel_def lookup_pid_def)

text \<open>The simulation relation.\<close>

fun mgr_sim :: "PidManager \<Rightarrow> pid_abs \<Rightarrow> bool" where
  "mgr_sim m (A, M, L, N) \<longleftrightarrow> pa_ok (allocator m) \<and> pa_members (allocator m) = A \<and> presents rt_ok tree_lookup node_count (tree m) M N \<and> LEGACY_NEXT_PID m = L"

lemma mgr_sim_new: "mgr_sim PidManager_new ({0}, Map.empty, 1, 1)"
proof -
  have "tree_lookup PidRadixTree_new p = None" for p
    using mgr_rel_new pid_key_le [of p] tree_lookup_key [of PidRadixTree_new p] by (simp add: mgr_rel_def PidManager_new_def lookup_pid_def del: tree_lookup_key)
  moreover have "node_count PidRadixTree_new = 1" by (simp add: PidRadixTree_new_def)
  ultimately show ?thesis by (simp add: presents_def PidManager_new_def pa_new_ok rt_ok_new)
qed

lemma allocate_pid_exhausted:
  assumes "pa_ok (allocator m)" "pa_members (allocator m) = {..<4096}"
  shows "allocate_pid m = (m\<lparr> LEGACY_NEXT_PID := LEGACY_NEXT_PID m + 1 \<rparr>, LEGACY_NEXT_PID m)"
proof -
  obtain a r where r: "allocate_next (allocator m) = (a, r)" by fastforce
  have "r = None"
  proof (cases r)
    case (Some q)
    then have "alloc_post (allocator m) a q" using allocate_next_law [OF assms(1)] r by simp
    then have "unat q < 4096" "unat q \<notin> {..<4096}" unfolding alloc_post_def assms(2) by blast+
    then show ?thesis by simp
  qed
  then show ?thesis using allocate_next_law [OF assms(1)] r by (simp add: allocate_pid_def)
qed

lemma sim_allocate:
  assumes "mgr_sim m (A, M, L, N)" "allocate_pid m = (m', p)"
  shows "\<exists>S'. pid_spec (A, M, L, N) PidAlloc (RPid p) S' \<and> mgr_sim m' S'"
proof (cases "A = {..<4096}")
  case True
  then have "m' = m\<lparr> LEGACY_NEXT_PID := L + 1 \<rparr>" "p = L" using allocate_pid_exhausted [of m] assms by auto
  then show ?thesis using assms(1) True by auto
next
  case False
  note f = allocate_pid_fresh [OF _ _ assms(2)]
  have post: "alloc_post (allocator m) (allocator m') p" "tree m' = tree m" using f assms(1) False by simp_all
  have "LEGACY_NEXT_PID m' = L"
    using allocate_next_law [of "allocator m"] assms False by (auto simp: allocate_pid_def split: prod.splits option.splits)
  then have "mgr_sim m' (insert (unat p) A, M, L, N)" using post assms(1) by (simp add: alloc_post_def)
  moreover have "0 < unat p" "unat p < 4096" "unat p \<notin> A" using post(1) assms(1) by (simp_all add: alloc_post_def unat_gt_0)
  ultimately show ?thesis using False by auto
qed

lemma sim_tree:
  assumes "mgr_sim m (A, M, L, N)"
  shows "register_pid_mapping m p i = (m', ok) \<Longrightarrow> \<exists>S'. pid_spec (A, M, L, N) (PidRegister p i) (RBool ok) S' \<and> mgr_sim m' S'"
    and "update_pid_mapping m p i = (m', ok) \<Longrightarrow> \<exists>S'. pid_spec (A, M, L, N) (PidUpdate p i) (RBool ok) S' \<and> mgr_sim m' S'"
    and "unregister_pid_mapping m p = (m', r) \<Longrightarrow> \<exists>S'. pid_spec (A, M, L, N) (PidUnregister p) (RIndex r) S' \<and> mgr_sim m' S'"
proof -
  have pr: "presents rt_ok tree_lookup node_count (tree m) M N" using assms by simp
  show "\<exists>S'. pid_spec (A, M, L, N) (PidRegister p i) (RBool ok) S' \<and> mgr_sim m' S'" if "register_pid_mapping m p i = (m', ok)"
    using that assms radix.presents_insert [OF pr, of p i] by (fastforce simp: register_pid_mapping_def split: prod.splits)
  show "\<exists>S'. pid_spec (A, M, L, N) (PidUpdate p i) (RBool ok) S' \<and> mgr_sim m' S'" if "update_pid_mapping m p i = (m', ok)"
    using that assms radix.presents_update [OF pr, of p i] by (fastforce simp: update_pid_mapping_def Let_def split: prod.splits)
  show "\<exists>S'. pid_spec (A, M, L, N) (PidUnregister p) (RIndex r) S' \<and> mgr_sim m' S'" if "unregister_pid_mapping m p = (m', r)"
    using that assms radix.presents_remove [OF pr, of p] by (fastforce simp: unregister_pid_mapping_def split: prod.splits)
qed

lemma sim_free:
  assumes "mgr_sim m (A, M, L, N)"
  shows "\<exists>S'. pid_spec (A, M, L, N) (PidFree p) RUnit S' \<and> mgr_sim (free_pid m p) S'"
proof (cases "p = 0")
  case False
  have "presents rt_ok tree_lookup node_count (fst (tree_remove (tree m) p)) (M(pid_key p := None)) N"
    using radix.presents_remove [of "tree m" M N p] assms by (cases "tree_remove (tree m) p") simp
  then show ?thesis using False assms mark_free_members [OF _ False, of "allocator m"] by (simp add: free_pid_def)
qed (use assms in \<open>simp add: free_pid_def\<close>)

lemma sim_specific:
  assumes "mgr_sim m (A, M, L, N)" "allocate_specific_pid m p = (m', ok)"
  shows "\<exists>S'. pid_spec (A, M, L, N) (PidSpecific p) (RBool ok) S' \<and> mgr_sim m' S'"
proof (cases "p = 0 \<or> 4096 \<le> unat p \<or> unat p \<in> A")
  case True
  have "\<not> ok \<and> m' = m"
    using True assms mark_allocated_taken [of "allocator m" p] by (auto simp: allocate_specific_pid_def split: if_splits prod.splits)
  then show ?thesis using True assms(1) by (auto simp: Let_def)
next
  case False
  then have "\<not> MAX_PID < p" by (simp add: MAX_PID_def word_less_nat_alt)
  then have "ok \<and> m' = m\<lparr> allocator := fst (mark_allocated (allocator m) p) \<rparr>"
    using False assms mark_allocated_fresh(1) [of "allocator m" p] by (auto simp: allocate_specific_pid_def split: prod.splits)
  then show ?thesis using False assms(1) mark_allocated_fresh(2,3) [of "allocator m" p] by (auto simp: Let_def)
qed

lemma pa_count_card: "pa_ok a \<Longrightarrow> pa_count a = of_nat (card (pa_members a))"
  by (metis pa_ok_def pa_count_def of_nat_unat ucast_id)

lemma mgr_step:
  assumes "mgr_sim m S" "pid_step m c = (m', r)"
  shows "\<exists>S'. pid_spec S c r S' \<and> mgr_sim m' S'"
proof -
  obtain A M L N where S: "S = (A, M, L, N)" by (cases S)
  note sim = assms(1) [unfolded S]
  note [simp del] = mgr_sim.simps pid_spec.simps
  show ?thesis unfolding S
  proof (cases c)
    case PidAlloc
    then show "\<exists>S'. pid_spec (A, M, L, N) c r S' \<and> mgr_sim m' S'"
      using sim_allocate [OF sim] assms(2) by (auto split: prod.splits)
  next
    case (PidRegister p i)
    then show "\<exists>S'. pid_spec (A, M, L, N) c r S' \<and> mgr_sim m' S'"
      using sim_tree(1) [OF sim] assms(2) by (auto split: prod.splits)
  next
    case (PidUpdate p i)
    then show "\<exists>S'. pid_spec (A, M, L, N) c r S' \<and> mgr_sim m' S'"
      using sim_tree(2) [OF sim] assms(2) by (auto split: prod.splits)
  next
    case (PidUnregister p)
    then show "\<exists>S'. pid_spec (A, M, L, N) c r S' \<and> mgr_sim m' S'"
      using sim_tree(3) [OF sim] assms(2) by (auto split: prod.splits)
  next
    case (PidFree p)
    then show "\<exists>S'. pid_spec (A, M, L, N) c r S' \<and> mgr_sim m' S'"
      using sim_free [OF sim, of p] assms(2) by auto
  next
    case (PidSpecific p)
    then show "\<exists>S'. pid_spec (A, M, L, N) c r S' \<and> mgr_sim m' S'"
      using sim_specific [OF sim] assms(2) by (auto split: prod.splits)
  qed (use sim assms(2) in \<open>auto simp: mgr_sim.simps pid_spec.simps lookup_pid_def is_pid_allocated_def allocated_pid_count_def get_pid_stats_def presents_def
      pa_is_allocated_iff pa_count_card\<close>)
qed

lemma registered_bound:
  assumes "rt_ok t"
  shows "card {p. p \<le> MAX_PID \<and> descend t p [0..<RADIX_LEVELS] 0 \<noteq> None} \<le> 255"
proof -
  let ?R = "{p. p \<le> MAX_PID \<and> descend t p [0..<RADIX_LEVELS] 0 \<noteq> None}"
  let ?leaf = "\<lambda>p. the (descend t p [0..<RADIX_LEVELS] 0)"
  have z: "0 < node_count t" "node_count t \<le> 256" using rt_okD [OF assms] by simp_all
  have levels: "[0..<RADIX_LEVELS] = [0, 1, 2]" by (simp add: RADIX_LEVELS_def eval_nat_numeral)
  have inj: "inj_on ?leaf ?R"
  proof (rule inj_onI)
    fix p q
    assume p: "p \<in> ?R" and q: "q \<in> ?R" and eq: "?leaf p = ?leaf q"
    then obtain n where "descend t p [0..<RADIX_LEVELS] 0 = Some n" "descend t q [0..<RADIX_LEVELS] 0 = Some n" by auto
    from descend_inj [OF assms z(1) this] show "p = q" using radix_digits [of p q] p q by (simp add: levels)
  qed
  have "?leaf ` ?R \<subseteq> {1..<node_count t}"
  proof
    fix n
    assume "n \<in> ?leaf ` ?R"
    then obtain p where "descend t p ([0, 1] @ [2]) 0 = Some n" by (auto simp: levels)
    moreover from this have "n \<noteq> 0" unfolding descend_append
      by (auto simp: unat_gt_0 simp del: descend.simps split: option.splits if_splits)
    ultimately show "n \<in> {1..<node_count t}" using descend_lt [OF assms z(1)] by (metis One_nat_def Suc_leI atLeastLessThan_iff gr0I)
  qed
  then have "card ?R \<le> card {1..<node_count t}" using card_inj_on_le [OF inj] by blast
  then show ?thesis using z by simp
qed

section \<open>Properties\<close>

text \<open>
  C3: The PID manager refines a set and a map.  Starting from the empty manager, every call of every
  public function with any argument returns what its specification allows and leaves the state it
  prescribes, over the set of allocated PIDs, the map from the low 18 bits of a PID to a table index,
  the legacy counter and the number of tree nodes.  An allocation returns a PID between 1 and 4095 that
  was free, or, when none is, the legacy counter; freeing and unregistering remove the mapping of the
  PID's low 18 bits; a registration installs exactly one mapping and leaves the others, and it succeeds
  whenever the PID is mapped already or three tree nodes are left; lookups and counts report the
  current set and map.
\<close>

theorem pid_manager_refines:
  "mgr_sim PidManager_new ({0}, Map.empty, 1, 1) \<and>
   (\<forall>m S c m' r. mgr_sim m S \<longrightarrow> pid_step m c = (m', r) \<longrightarrow> (\<exists>S'. pid_spec S c r S' \<and> mgr_sim m' S'))"
  using mgr_sim_new mgr_step by blast

theorem pid_manager_refines_witness:
  "\<exists>m' S'. pid_step PidManager_new (PidRegister 5 3) = (m', RBool True) \<and>
     pid_spec ({0}, Map.empty, 1, 1) (PidRegister 5 3) (RBool True) S' \<and> mgr_sim m' S'"
proof -
  obtain m' r where r: "pid_step PidManager_new (PidRegister 5 3) = (m', r)" by (meson surj_pair)
  obtain S' where S': "pid_spec ({0}, Map.empty, 1, 1) (PidRegister 5 3) r S'" "mgr_sim m' S'"
    using pid_manager_refines [THEN conjunct2, rule_format, OF mgr_sim_new r] by blast
  then have "r = RBool True" by (auto simp: registers_def MAX_RADIX_NODES_def)
  then show ?thesis using r S' by blast
qed

text \<open>
  C39: Allocated PIDs are unique.  While one of the 4095 tracked PIDs is free, \<open>allocate_pid\<close> returns
  a PID between 1 and 4095 that was not allocated, marks it allocated, and leaves every other
  PID and every registered mapping as it was.
\<close>

theorem allocate_pid_unique:
  assumes "pa_ok (allocator m)" "pa_members (allocator m) \<noteq> {..<4096}" "allocate_pid m = (m', pid)"
  shows "0 < unat pid \<and> unat pid < 4096 \<and> \<not> is_pid_allocated m pid \<and> is_pid_allocated m' pid \<and>
    (\<forall>q. q \<noteq> pid \<longrightarrow> is_pid_allocated m' q = is_pid_allocated m q) \<and> (\<forall>q. lookup_pid m' q = lookup_pid m q)"
  using allocate_pid_fresh [OF assms] assms(1)
  by (simp add: alloc_post_def is_pid_allocated_def pa_is_allocated_iff lookup_pid_def unat_gt_0
      flip: word_unat_eq_iff)

theorem allocate_pid_unique_witness:
  "\<exists>m' pid. allocate_pid PidManager_new = (m', pid) \<and> 0 < unat pid \<and> unat pid < 4096 \<and>
    \<not> is_pid_allocated PidManager_new pid \<and> is_pid_allocated m' pid"
proof -
  obtain m' pid where r: "allocate_pid PidManager_new = (m', pid)" by fastforce
  have "(1::nat) \<in> {..<4096}" "1 \<notin> {0::nat}" by simp_all
  then have "{0::nat} \<noteq> {..<4096}" by metis
  then have "pa_members (allocator PidManager_new) \<noteq> {..<4096}" by (simp add: PidManager_new_def pa_new_ok)
  then show ?thesis using allocate_pid_unique [OF _ _ r] r by (simp add: PidManager_new_def pa_new_ok)
qed

text \<open>
  Exhaustion hands out a PID in use.  When all 4095 PIDs are allocated, \<open>allocate_pid\<close> does not
  fail: it returns the value of the legacy counter, which starts at 1 and is not checked against
  the bitmap, so for the first 4095 such calls the PID returned already belongs to a live process.
\<close>

theorem allocate_pid_exhausted_duplicate:
  assumes "pa_ok (allocator m)" "pa_members (allocator m) = {..<4096}" "unat (LEGACY_NEXT_PID m) < 4096"
    "allocate_pid m = (m', pid)"
  shows "pid = LEGACY_NEXT_PID m \<and> is_pid_allocated m pid \<and> LEGACY_NEXT_PID m' = LEGACY_NEXT_PID m + 1"
  using allocate_pid_exhausted [OF assms(1,2)] assms by (auto simp: is_pid_allocated_def pa_is_allocated_iff)

theorem allocate_pid_exhausted_duplicate_witness:
  "let m = PidManager_new\<lparr> allocator := \<lparr> bitmap = replicate 64 (- 1), next_hint = 4096, allocated_count = 4096 \<rparr> \<rparr>
   in snd (allocate_pid m) = 1 \<and> is_pid_allocated m 1"
proof -
  define m where "m = PidManager_new\<lparr> allocator := \<lparr> bitmap = replicate 64 (- 1), next_hint = 4096, allocated_count = 4096 \<rparr> \<rparr>"
  have f: "pa_members (allocator m) = {..<4096}"
    using bm_all_ones [of "replicate 64 (- 1)"] by (simp add: m_def pa_members_def)
  then have "pa_ok (allocator m)" by (simp add: pa_ok_def) (simp add: m_def)
  moreover obtain m' pid where "allocate_pid m = (m', pid)" by fastforce
  moreover have "LEGACY_NEXT_PID m = 1" by (simp add: m_def PidManager_new_def)
  ultimately show ?thesis using allocate_pid_exhausted_duplicate [of m m' pid] f
    unfolding m_def [symmetric] Let_def by auto
qed

text \<open>
  PIDs that agree in their low 18 bits share a mapping.  The tree functions do not check their argument
  against \<open>MAX_PID\<close>, so freeing one of them unmaps the other.
\<close>

theorem free_pid_aliases:
  assumes "rt_ok (tree m)" "p \<noteq> 0" "pid_key p = pid_key q"
  shows "lookup_pid (free_pid m p) q = None"
  using tree_remove_keyed [OF assms(1), of p _ _ q] assms(2,3) by (cases "tree_remove (tree m) p") (simp add: free_pid_def lookup_pid_def)

text \<open>
  Capacity of the radix tree.  In every well-formed tree at most 255 PIDs have a leaf, and since
  neither removal nor any other operation gives a node back, this bounds the PIDs that can ever be
  registered, far below the 4095 the allocator hands out.
\<close>

theorem radix_tree_capacity:
  assumes "rt_ok t" "p \<le> MAX_PID"
  shows "card {q. q \<le> MAX_PID \<and> descend t q [0..<RADIX_LEVELS] 0 \<noteq> None} \<le> 255 \<and>
    node_count t \<le> node_count (fst (tree_insert t p i)) \<and> node_count (fst (tree_remove t p)) = node_count t"
proof -
  have "node_count t \<le> node_count (fst (tree_insert t p i))"
    using tree_insert_law [OF assms(1), of p i]
    by (cases "tree_insert t p i"; cases "snd (tree_insert t p i)") (auto simp: extends_def set_process_idx_nodes)
  moreover have "node_count (fst (tree_remove t p)) = node_count t"
    using tree_remove_law [OF assms assms(2)] by (cases "tree_remove t p") simp
  ultimately show ?thesis using registered_bound [OF assms(1)] by simp
qed

theorem radix_tree_capacity_witness:
  "rt_ok PidRadixTree_new \<and> 5 \<le> MAX_PID \<and>
   card {q. q \<le> MAX_PID \<and> descend PidRadixTree_new q [0..<RADIX_LEVELS] 0 \<noteq> None} \<le> 255 \<and>
   node_count PidRadixTree_new \<le> node_count (fst (tree_insert PidRadixTree_new 5 2)) \<and>
   node_count (fst (tree_remove PidRadixTree_new 5)) = node_count PidRadixTree_new"
  using radix_tree_capacity [OF rt_ok_new, of 5 2] rt_ok_new by (simp add: MAX_PID_def)

end
