(* ===== verification/Process_Table.thy ===== *)
theory Process_Table
  imports Percpu_Runqueue Pid_Radix
begin

text \<open>
  The process table and the global scheduler state: \<open>src/src/scheduler/table.rs\<close>, with the statics
  of the scheduler collected in one record.  Calls into memory management, the file layer and user
  memory are recorded in order in the field \<open>calls\<close>; they return nothing the scheduler uses.  The
  CPU that executes an operation is the argument \<open>cpu\<close>.
\<close>

section \<open>State\<close>

datatype kernel_call =
    ActivateAddressSpace u64
  | CloseAllFds u16
  | DeallocStack u64
  | FreeAddressSpace u64
  | FreeUserRegion u64 u64
  | WriteUser32 u64 u32
  | WriteKernel64 u64 u64

text \<open>The futex wait queue of \<open>src/src/syscalls/thread.rs\<close>, which the exit path wakes.\<close>

record FutexWaiter =
  fw_uaddr :: u64
  fw_pid :: u64
  fw_in_use :: bool

record sched_state =
  PROCESS_TABLE :: proc_table
  PID_MANAGER :: PidManager
  MIN_VRUNTIME :: u64
  GLOBAL_TICK :: u64
  CURRENT_PID :: "Pid option"
  SCHED_STATS :: SchedulerStats
  PERCPU :: percpu_state
  FUTEX_WAITERS :: "FutexWaiter list"
  calls :: "kernel_call list"

definition MAX_FUTEX_WAITERS :: nat where "MAX_FUTEX_WAITERS = 64"

definition FutexWaiter_empty :: FutexWaiter where
  "FutexWaiter_empty = \<lparr> fw_uaddr = 0, fw_pid = 0, fw_in_use = False \<rparr>"

definition sched_boot :: sched_state where
  "sched_boot = \<lparr> PROCESS_TABLE = replicate MAX_PROCESSES None, PID_MANAGER = PidManager_new, MIN_VRUNTIME = 0,
     GLOBAL_TICK = 0, CURRENT_PID = None, SCHED_STATS = SchedulerStats_new, PERCPU = percpu_boot,
     FUTEX_WAITERS = replicate MAX_FUTEX_WAITERS FutexWaiter_empty, calls = [] \<rparr>"

definition record_call :: "kernel_call \<Rightarrow> sched_state \<Rightarrow> sched_state" where
  "record_call c s = s\<lparr> calls := calls s @ [c] \<rparr>"

section \<open>Looking up a process\<close>

text \<open>The slot the radix tree names, when the entry there still has the PID.\<close>

definition find_hint :: "sched_state \<Rightarrow> Pid \<Rightarrow> nat option" where
  "find_hint s p =
     (case lookup_pid (PID_MANAGER s) p of
        None \<Rightarrow> None
      | Some idx \<Rightarrow> if unat idx < length (PROCESS_TABLE s) \<and> has_pid p (PROCESS_TABLE s ! unat idx) then Some (unat idx) else None)"

text \<open>The slot an operation on \<open>p\<close> works on: the hint, else the first entry of the linear scan.\<close>

definition find_process :: "sched_state \<Rightarrow> Pid \<Rightarrow> nat option" where
  "find_process s p = (case find_hint s p of Some i \<Rightarrow> Some i | None \<Rightarrow> pid_slot (PROCESS_TABLE s) p)"

definition entry_at :: "sched_state \<Rightarrow> nat \<Rightarrow> ProcessEntry" where
  "entry_at s i = the (PROCESS_TABLE s ! i)"

definition upd_slot :: "(ProcessEntry \<Rightarrow> ProcessEntry) \<Rightarrow> nat \<Rightarrow> sched_state \<Rightarrow> sched_state" where
  "upd_slot f i s = s\<lparr> PROCESS_TABLE := upd_entry f i (PROCESS_TABLE s) \<rparr>"

definition upd_process :: "(Process \<Rightarrow> Process) \<Rightarrow> ProcessEntry \<Rightarrow> ProcessEntry" where
  "upd_process f e = e\<lparr> process := f (process e) \<rparr>"

definition get_process_from_table :: "sched_state \<Rightarrow> Pid \<Rightarrow> Process option" where
  "get_process_from_table s p = map_option (\<lambda>i. process (entry_at s i)) (find_process s p)"

definition with_process_mut :: "Pid \<Rightarrow> (Process \<Rightarrow> 'r \<times> Process) \<Rightarrow> sched_state \<Rightarrow> 'r option \<times> sched_state" where
  "with_process_mut p f s =
     (case find_process s p of
        None \<Rightarrow> (None, s)
      | Some i \<Rightarrow> (Some (fst (f (process (entry_at s i)))), upd_slot (upd_process (\<lambda>pr. snd (f pr))) i s))"

section \<open>The running process\<close>

definition current_pid :: "nat \<Rightarrow> sched_state \<Rightarrow> Pid option" where
  "current_pid cpu s =
     (case get_percpu_sched (PERCPU s) cpu of
        Some i \<Rightarrow> rq_current (run_queue (sched_at (PERCPU s) i))
      | None \<Rightarrow> CURRENT_PID s)"

definition set_current_pid :: "nat \<Rightarrow> Pid option \<Rightarrow> sched_state \<Rightarrow> sched_state" where
  "set_current_pid cpu p s =
     (let s1 = (case get_percpu_sched (PERCPU s) cpu of
                  Some i \<Rightarrow> s\<lparr> PERCPU := upd_queue i (\<lambda>q. q\<lparr> rq_current := p \<rparr>) (PERCPU s) \<rparr>
                | None \<Rightarrow> s\<lparr> CURRENT_PID := p \<rparr>)
      in if p = None then record_call (ActivateAddressSpace 0) s1 else s1)"

definition current_cr3 :: "u64 \<Rightarrow> nat \<Rightarrow> sched_state \<Rightarrow> u64" where
  "current_cr3 kernel_pml4_phys cpu s =
     (case current_pid cpu s of
        None \<Rightarrow> kernel_pml4_phys
      | Some p \<Rightarrow>
          (case get_process_from_table s p of
             None \<Rightarrow> kernel_pml4_phys
           | Some pr \<Rightarrow> if cr3 pr \<noteq> 0 then cr3 pr else kernel_pml4_phys))"

definition update_current_user_context :: "nat \<Rightarrow> u64 \<Rightarrow> u64 \<Rightarrow> u64 \<Rightarrow> sched_state \<Rightarrow> sched_state" where
  "update_current_user_context cpu rip rsp rflags s =
     (case current_pid cpu s of
        None \<Rightarrow> s
      | Some p \<Rightarrow>
          (case pid_slot (PROCESS_TABLE s) p of
             None \<Rightarrow> s
           | Some i \<Rightarrow> upd_slot (upd_process (\<lambda>pr. pr\<lparr> user_rip := rip, user_rsp := rsp, user_rflags := rflags \<rparr>)) i s))"

section \<open>The lookup contract\<close>

text \<open>
  What the operations rely on: a lookup answers with a slot that holds the PID, and with nothing only
  when no slot does.  Linear scan and radix hint with fallback both satisfy it.
\<close>

locale slot_lookup =
  fixes find :: "'s \<Rightarrow> Pid \<Rightarrow> nat option" and slots :: "'s \<Rightarrow> proc_table"
  assumes find_sound: "find s p = Some i \<Longrightarrow> i < length (slots s) \<and> has_pid p (slots s ! i)"
    and find_complete: "find s p = None \<Longrightarrow> i < length (slots s) \<Longrightarrow> \<not> has_pid p (slots s ! i)"
begin

lemma find_iff_exists: "find s p \<noteq> None \<longleftrightarrow> (\<exists>i < length (slots s). has_pid p (slots s ! i))"
  using find_sound [of s p] find_complete [of s p] by (cases "find s p") auto

text \<open>When no two slots hold the same PID, the answer does not depend on how the lookup searches.\<close>

lemma find_unique:
  assumes "\<And>j k. j < length (slots s) \<Longrightarrow> k < length (slots s) \<Longrightarrow> has_pid p (slots s ! j) \<Longrightarrow> has_pid p (slots s ! k) \<Longrightarrow> j = k"
  shows "find s p = Some i \<longleftrightarrow> i < length (slots s) \<and> has_pid p (slots s ! i)"
proof (cases "find s p")
  case None
  then show ?thesis using find_complete by auto
next
  case (Some j)
  then show ?thesis using find_sound [OF Some] assms by auto
qed

end

lemma pid_slot_Some: "pid_slot t p = Some i \<Longrightarrow> i < length t \<and> has_pid p (t ! i)"
  unfolding pid_slot_def using find_slot_SomeD by blast

lemma pid_slot_None: "pid_slot t p = None \<Longrightarrow> i < length t \<Longrightarrow> \<not> has_pid p (t ! i)"
  by (auto simp: pid_slot_def find_slot_None_iff)

interpretation linear: slot_lookup "\<lambda>s. pid_slot (PROCESS_TABLE s)" PROCESS_TABLE
  using pid_slot_Some pid_slot_None by unfold_locales blast+

interpretation hinted: slot_lookup find_process PROCESS_TABLE
proof (unfold_locales, goal_cases)
  case (1 s p i)
  then show ?case using pid_slot_Some [of "PROCESS_TABLE s" p i]
    by (auto simp: find_process_def find_hint_def split: option.splits if_splits)
next
  case (2 s p i)
  then show ?case using pid_slot_None [of "PROCESS_TABLE s" p i] by (auto simp: find_process_def split: option.splits)
qed

text \<open>Every live process has its own PID.\<close>

definition pids_distinct :: "proc_table \<Rightarrow> bool" where
  "pids_distinct t \<longleftrightarrow> distinct (map (\<lambda>e. pid (process e)) [e. Some e \<leftarrow> t])"

lemma has_pid_member: "has_pid p (t ! j) \<Longrightarrow> j < length t \<Longrightarrow> p \<in> (\<lambda>e. pid (process e)) ` set [e. Some e \<leftarrow> t]"
proof -
  assume a: "has_pid p (t ! j)" "j < length t"
  then obtain e where "t ! j = Some e" "pid (process e) = p" by (auto simp: has_pid_def split: option.splits)
  then have e: "pid (process e) = p" "Some e \<in> set t" using nth_mem [OF a(2)] by simp_all
  have "set [e. Some e \<leftarrow> t] = {e. Some e \<in> set t}" by (induction t) (auto split: option.splits)
  then show ?thesis using e by blast
qed

lemma pids_distinctD:
  "pids_distinct t \<Longrightarrow> i < length t \<Longrightarrow> j < length t \<Longrightarrow> has_pid p (t ! i) \<Longrightarrow> has_pid p (t ! j) \<Longrightarrow> i = j"
proof (induction t arbitrary: i j)
  case (Cons x t)
  have "pids_distinct t" using Cons.prems(1) by (cases x) (simp_all add: pids_distinct_def)
  moreover have "\<not> has_pid p (t ! k)" if "has_pid p x" "k < length t" for k
    using Cons.prems(1) that has_pid_member [of p t k] by (auto simp: pids_distinct_def has_pid_def split: option.splits)
  ultimately show ?case using Cons by (cases i; cases j) auto
qed simp

lemma pids_distinctI:
  "(\<And>i j p. i < length t \<Longrightarrow> j < length t \<Longrightarrow> has_pid p (t ! i) \<Longrightarrow> has_pid p (t ! j) \<Longrightarrow> i = j) \<Longrightarrow> pids_distinct t"
proof (induction t)
  case (Cons x t)
  have "pids_distinct t" using Cons.prems [of "Suc _" "Suc _"] by (intro Cons.IH) fastforce
  moreover have "pid (process e) \<noteq> pid (process e')" if "x = Some e" "Some e' \<in> set t" for e e'
  proof
    assume "pid (process e) = pid (process e')"
    moreover obtain j where "j < length t" "t ! j = Some e'" using \<open>Some e' \<in> set t\<close> by (auto simp: in_set_conv_nth)
    ultimately show False using Cons.prems [of 0 "Suc j" "pid (process e)"] that(1) by (simp add: has_pid_def)
  qed
  moreover have "set [e. Some e \<leftarrow> t] = {e. Some e \<in> set t}" by (induction t) (auto split: option.splits)
  ultimately show ?case by (cases x) (auto simp: pids_distinct_def)
qed (simp add: pids_distinct_def)

lemma find_process_linear: "pids_distinct (PROCESS_TABLE s) \<Longrightarrow> find_process s p = pid_slot (PROCESS_TABLE s) p"
proof -
  assume d: "pids_distinct (PROCESS_TABLE s)"
  have "find_process s p = Some i \<longleftrightarrow> pid_slot (PROCESS_TABLE s) p = Some i" for i
    using hinted.find_unique [of s p i] linear.find_unique [of s p i] pids_distinctD [OF d, of _ _ p] by blast
  then show ?thesis by (cases "pid_slot (PROCESS_TABLE s) p"; cases "find_process s p") auto
qed

lemma upd_slot_simps [simp]:
  "PID_MANAGER (upd_slot f i s) = PID_MANAGER s" "MIN_VRUNTIME (upd_slot f i s) = MIN_VRUNTIME s"
  "PERCPU (upd_slot f i s) = PERCPU s" "CURRENT_PID (upd_slot f i s) = CURRENT_PID s"
  "length (PROCESS_TABLE (upd_slot f i s)) = length (PROCESS_TABLE s)" "calls (upd_slot f i s) = calls s"
  "FUTEX_WAITERS (upd_slot f i s) = FUTEX_WAITERS s" "GLOBAL_TICK (upd_slot f i s) = GLOBAL_TICK s"
  by (simp_all add: upd_slot_def upd_entry_def)

lemma upd_slot_table:
  "j < length (PROCESS_TABLE s) \<Longrightarrow>
   PROCESS_TABLE (upd_slot f i s) ! j = (if i = j then map_option f (PROCESS_TABLE s ! j) else PROCESS_TABLE s ! j)"
  by (simp add: upd_slot_def upd_entry_def)

text \<open>
  C18: the fast lookup is the linear scan.  When the live processes have distinct PIDs, the radix hint
  with its fallback finds the same slot as scanning the table from the start, whatever the radix tree
  contains.
\<close>

theorem find_process_is_linear_scan:
  assumes "pids_distinct (PROCESS_TABLE s)"
  shows "find_process s p = pid_slot (PROCESS_TABLE s) p"
  using assms by (rule find_process_linear)

theorem find_process_is_linear_scan_witness:
  "find_process (sched_boot\<lparr> PROCESS_TABLE := [None, Some ProcessEntry_empty] \<rparr>) 0 = Some 1"
  using find_process_is_linear_scan [of "sched_boot\<lparr> PROCESS_TABLE := [None, Some ProcessEntry_empty] \<rparr>" 0]
  by (simp add: pids_distinct_def pid_slot_def has_pid_def ProcessEntry_empty_def Process_empty_def)

end
