(* ===== verification/Process_Ops.thy ===== *)
theory Process_Ops
  imports Process_Table
begin

text \<open>
  Process operations: \<open>src/src/scheduler/process.rs\<close>, with the wake half of the futex queue of
  \<open>src/src/syscalls/thread.rs\<close> that the exit of a thread group calls.  An operation that holds the
  process table's lock throughout is one function; operations that release it between steps are
  compositions of such functions.  Logging is left out.
\<close>

section \<open>Adding and removing processes\<close>

definition new_entry :: "Process \<Rightarrow> u8 \<Rightarrow> SchedPolicy \<Rightarrow> int \<Rightarrow> u64 \<Rightarrow> u64 \<Rightarrow> ProcessEntry" where
  "new_entry proc prio pol n current_tick min_vrt =
     (let nice_clamped = clamp n (- 20) 19; w = nice_to_weight nice_clamped; slc = base_slice pol
      in \<lparr> process = proc, vruntime = min_vrt, vdeadline = calc_vdeadline min_vrt slc w, lag = 0, weight = w,
           slice_ns = slc, slice_remaining_ns = slc, priority = prio, base_priority = prio, time_slice = DEFAULT_TIME_SLICE,
           total_time = 0, wait_time = 0, last_scheduled = current_tick, cpu_burst_count = 0, avg_cpu_burst = 0, policy = pol,
           nice = nice_clamped, quantum_level = 0, preempt_count = 0, voluntary_switches = 0, cpu_affinity = CpuMask_all,
           last_cpu = 0, numa_preferred_node = NUMA_NO_NODE, numa_policy = Local \<rparr>)"

text \<open>The part of \<open>add_process_with_policy\<close> under the lock, and the later update of the minimum under a lock of its own.\<close>

definition insert_process :: "Process \<Rightarrow> u8 \<Rightarrow> SchedPolicy \<Rightarrow> int \<Rightarrow> sched_state \<Rightarrow> (unit, string) result \<times> sched_state" where
  "insert_process proc prio pol n s =
     (case find_slot (\<lambda>slot. slot = None) (PROCESS_TABLE s) of
        None \<Rightarrow> (Err ''Process table full'', s)
      | Some idx \<Rightarrow>
          (Ok (), s\<lparr> PID_MANAGER := fst (register_pid_mapping (PID_MANAGER s) (pid proc) (of_nat idx)),
                     PROCESS_TABLE := (PROCESS_TABLE s)[idx := Some (new_entry proc prio pol n (GLOBAL_TICK s) (MIN_VRUNTIME s))] \<rparr>))"

definition refresh_min_vruntime :: "sched_state \<Rightarrow> sched_state" where
  "refresh_min_vruntime s = s\<lparr> MIN_VRUNTIME := the (update_min_vruntime False (PROCESS_TABLE s) (MIN_VRUNTIME s)) \<rparr>"

definition add_process_with_policy :: "Process \<Rightarrow> u8 \<Rightarrow> SchedPolicy \<Rightarrow> int \<Rightarrow> sched_state \<Rightarrow> (unit, string) result \<times> sched_state" where
  "add_process_with_policy proc prio pol n s =
     (case insert_process proc prio pol n s of
        (Ok (), s1) \<Rightarrow> (Ok (), refresh_min_vruntime s1)
      | (Err m, s1) \<Rightarrow> (Err m, s1))"

definition add_process :: "Process \<Rightarrow> u8 \<Rightarrow> sched_state \<Rightarrow> (unit, string) result \<times> sched_state" where
  "add_process proc prio s = add_process_with_policy proc prio Normal 0 s"

text \<open>Removal: the slot is emptied under the lock; the resources go back after the lock is released.\<close>

definition remove_slot :: "nat \<Rightarrow> sched_state \<Rightarrow> sched_state" where
  "remove_slot i s = s\<lparr> PROCESS_TABLE := (PROCESS_TABLE s)[i := None] \<rparr>"

definition release_resources :: "Process \<Rightarrow> sched_state \<Rightarrow> sched_state" where
  "release_resources pr s =
     (let s1 = (if open_fds pr \<noteq> 0 then record_call (CloseAllFds (open_fds pr)) s else s);
          s2 = (if kernel_stack pr \<noteq> 0 then record_call (DeallocStack (kernel_stack pr)) s1 else s1);
          s3 = (if cr3 pr \<noteq> 0 then record_call (FreeAddressSpace (cr3 pr)) s2 else s2)
      in if memory_base pr \<noteq> 0 \<and> memory_size pr \<noteq> 0
         then record_call (FreeUserRegion (memory_base pr) (memory_size pr)) s3 else s3)"

definition remove_process :: "nat \<Rightarrow> Pid \<Rightarrow> sched_state \<Rightarrow> (unit, string) result \<times> sched_state" where
  "remove_process cpu p s =
     (case find_process s p of
        None \<Rightarrow> (Err ''Process not found'', s)
      | Some i \<Rightarrow>
          (let pr = process (entry_at s i);
               s1 = remove_slot i s;
               s2 = (if current_pid cpu s1 = Some p then set_current_pid cpu None s1 else s1);
               s3 = release_resources pr s2
           in (Ok (), s3\<lparr> PID_MANAGER := free_pid (PID_MANAGER s3) p \<rparr>)))"

section \<open>State changes\<close>

text \<open>A requested state change of one entry: zombies stay, and a pending wake cancels a sleep.\<close>

definition request_state :: "ProcessState \<Rightarrow> Process \<Rightarrow> Process" where
  "request_state st pr =
     (if p_state pr = Zombie then pr
      else if st = Sleeping \<and> wake_pending pr then pr\<lparr> wake_pending := False \<rparr>
      else pr\<lparr> p_state := st \<rparr>)"

text \<open>The common shape of the setters: update the entry the lookup finds.\<close>

definition update_found :: "(ProcessEntry \<Rightarrow> ProcessEntry) \<Rightarrow> Pid \<Rightarrow> sched_state \<Rightarrow> (unit, string) result \<times> sched_state" where
  "update_found f p s =
     (case find_process s p of
        None \<Rightarrow> (Err ''Process not found'', s)
      | Some i \<Rightarrow> (Ok (), upd_slot f i s))"

definition set_process_state :: "Pid \<Rightarrow> ProcessState \<Rightarrow> sched_state \<Rightarrow> (unit, string) result \<times> sched_state" where
  "set_process_state p st s = update_found (upd_process (request_state st)) p s"

definition set_process_exit_code :: "Pid \<Rightarrow> int \<Rightarrow> sched_state \<Rightarrow> (unit, string) result \<times> sched_state" where
  "set_process_exit_code p code s = update_found (upd_process (\<lambda>pr. pr\<lparr> exit_code := code \<rparr>)) p s"

definition set_process_term_signal :: "Pid \<Rightarrow> int \<Rightarrow> sched_state \<Rightarrow> (unit, string) result \<times> sched_state" where
  "set_process_term_signal p sig s = update_found (upd_process (\<lambda>pr. pr\<lparr> term_signal := Some sig \<rparr>)) p s"

definition mark_process_as_forked_child :: "Pid \<Rightarrow> sched_state \<Rightarrow> sched_state" where
  "mark_process_as_forked_child p s = snd (update_found (upd_process (\<lambda>pr. pr\<lparr> p_state := Ready \<rparr>)) p s)"

definition update_process_cr3 :: "nat \<Rightarrow> Pid \<Rightarrow> u64 \<Rightarrow> sched_state \<Rightarrow> (unit, string) result \<times> sched_state" where
  "update_process_cr3 cpu p new_cr3 s =
     (case update_found (upd_process (\<lambda>pr. pr\<lparr> cr3 := new_cr3 \<rparr>)) p s of
        (Err m, s1) \<Rightarrow> (Err m, s1)
      | (Ok (), s1) \<Rightarrow> (Ok (), if current_pid cpu s1 = Some p then record_call (ActivateAddressSpace new_cr3) s1 else s1))"

definition set_current_process_state :: "nat \<Rightarrow> ProcessState \<Rightarrow> sched_state \<Rightarrow> sched_state" where
  "set_current_process_state cpu st s =
     (case current_pid cpu s of
        None \<Rightarrow> s
      | Some p \<Rightarrow> snd (update_found (upd_process (request_state st)) p s))"

definition sleep_current_process :: "nat \<Rightarrow> sched_state \<Rightarrow> sched_state" where
  "sleep_current_process cpu s = set_current_process_state cpu Sleeping s"

section \<open>Waking\<close>

text \<open>The effect of a wake on one entry, and the flags \<open>woke\<close> and \<open>set_pending\<close>.\<close>

definition wake_entry :: "u64 \<Rightarrow> ProcessEntry \<Rightarrow> ProcessEntry" where
  "wake_entry min_vrt e =
     (case p_state (process e) of
        Sleeping \<Rightarrow>
          (let vrt = saturating_sub min_vrt (BASE_SLICE_NS div 2)
           in e\<lparr> process := (process e)\<lparr> p_state := Ready, wake_pending := False \<rparr>, wait_time := 0, vruntime := vrt,
                 vdeadline := calc_vdeadline vrt (slice_ns e) (weight e), lag := 0 \<rparr>)
      | Ready \<Rightarrow> upd_process (\<lambda>pr. pr\<lparr> wake_pending := True \<rparr>) e
      | Running \<Rightarrow> upd_process (\<lambda>pr. pr\<lparr> wake_pending := True \<rparr>) e
      | Zombie \<Rightarrow> e)"

definition wake_flags :: "ProcessEntry \<Rightarrow> bool \<times> bool" where
  "wake_flags e = (p_state (process e) = Sleeping, p_state (process e) = Ready \<or> p_state (process e) = Running)"

definition wake_at :: "nat option \<Rightarrow> sched_state \<Rightarrow> (bool \<times> bool) \<times> sched_state" where
  "wake_at slot s =
     (case slot of
        None \<Rightarrow> ((False, False), s)
      | Some i \<Rightarrow> (wake_flags (entry_at s i), upd_slot (wake_entry (MIN_VRUNTIME s)) i s))"

text \<open>The part of \<open>wake_process_internal\<close> under the lock.\<close>

definition wake_locked :: "Pid \<Rightarrow> sched_state \<Rightarrow> (bool \<times> bool) \<times> sched_state" where
  "wake_locked p s =
     (case wake_at (find_hint s p) s of
        ((woke, set_pend), s1) \<Rightarrow>
          if \<not> woke \<and> \<not> set_pend then wake_at (pid_slot (PROCESS_TABLE s1) p) s1 else ((woke, set_pend), s1))"

definition wake_process :: "nat \<Rightarrow> Pid \<Rightarrow> sched_state \<Rightarrow> bool \<times> sched_state" where
  "wake_process cpu p s =
     (case wake_locked p s of
        ((woke, set_pend), s2) \<Rightarrow>
          (woke, if woke \<or> set_pend then s2\<lparr> PERCPU := set_need_resched (of_nat cpu) (PERCPU s2) \<rparr> else s2))"

text \<open>From interrupt context the wake gives up when the table is locked.\<close>

definition try_wake_process :: "bool \<Rightarrow> nat \<Rightarrow> Pid \<Rightarrow> sched_state \<Rightarrow> bool \<times> sched_state" where
  "try_wake_process table_locked cpu p s = (if table_locked then (False, s) else wake_process cpu p s)"

section \<open>Children and thread groups\<close>

definition get_child_state :: "sched_state \<Rightarrow> Pid \<Rightarrow> Pid \<Rightarrow> ProcessState option" where
  "get_child_state s parent_pid child_pid =
     (case pid_slot (PROCESS_TABLE s) child_pid of
        None \<Rightarrow> None
      | Some i \<Rightarrow> (let pr = process (entry_at s i) in if ppid pr = parent_pid then Some (p_state pr) else None))"

definition find_child_with_state :: "sched_state \<Rightarrow> Pid \<Rightarrow> ProcessState \<Rightarrow> Pid option" where
  "find_child_with_state s parent_pid target_state =
     map_option (\<lambda>i. pid (process (entry_at s i)))
       (find_slot (\<lambda>slot. case slot of None \<Rightarrow> False
          | Some e \<Rightarrow> ppid (process e) = parent_pid \<and> p_state (process e) = target_state) (PROCESS_TABLE s))"

text \<open>The loop of \<open>find_any_child_for_wait\<close>: whether a child was seen, and the first zombie child.\<close>

fun wait_scan :: "Pid \<Rightarrow> proc_table \<Rightarrow> bool \<Rightarrow> bool \<times> Process option" where
  "wait_scan parent_pid [] has_any_child = (has_any_child, None)"
| "wait_scan parent_pid (None # slots) has_any_child = wait_scan parent_pid slots has_any_child"
| "wait_scan parent_pid (Some e # slots) has_any_child =
     (if ppid (process e) = parent_pid then
        (if p_state (process e) = Zombie then (True, Some (process e)) else wait_scan parent_pid slots True)
      else wait_scan parent_pid slots has_any_child)"

definition find_any_child_for_wait :: "sched_state \<Rightarrow> Pid \<Rightarrow> bool \<times> Pid option \<times> int option \<times> int option" where
  "find_any_child_for_wait s parent_pid =
     (case wait_scan parent_pid (PROCESS_TABLE s) False of
        (has_any_child, Some pr) \<Rightarrow> (has_any_child, Some (pid pr), Some (exit_code pr), term_signal pr)
      | (has_any_child, None) \<Rightarrow> (has_any_child, None, None, None))"

definition get_tgid :: "sched_state \<Rightarrow> Pid \<Rightarrow> Pid option" where
  "get_tgid s p = map_option (\<lambda>i. tgid (process (entry_at s i))) (find_process s p)"

definition is_thread_pid :: "sched_state \<Rightarrow> Pid \<Rightarrow> bool" where
  "is_thread_pid s p = (case find_process s p of None \<Rightarrow> False | Some i \<Rightarrow> is_thread (process (entry_at s i)))"

definition group_pids :: "proc_table \<Rightarrow> Pid \<Rightarrow> Pid list" where
  "group_pids table g = [pid (process e). Some e \<leftarrow> table, tgid (process e) = g]"

definition thread_group_count :: "sched_state \<Rightarrow> Pid \<Rightarrow> nat" where
  "thread_group_count s g = length (group_pids (PROCESS_TABLE s) g)"

definition get_thread_group_members :: "sched_state \<Rightarrow> Pid \<Rightarrow> Pid list \<Rightarrow> nat \<times> Pid list" where
  "get_thread_group_members s g buffer =
     (let members = take (length buffer) (group_pids (PROCESS_TABLE s) g)
      in (length members, members @ drop (length members) buffer))"

definition handle_thread_exit :: "Pid \<Rightarrow> sched_state \<Rightarrow> u64 option \<times> sched_state" where
  "handle_thread_exit p s =
     (case find_process s p of
        None \<Rightarrow> (None, s)
      | Some i \<Rightarrow>
          (let addr = clear_child_tid (process (entry_at s i)) in
           if addr \<noteq> 0 then (Some addr, record_call (WriteUser32 addr 0) s) else (None, s)))"

text \<open>
  \<open>futex_wake\<close>: the loop over the wait queue from index \<open>i\<close> on; it stops when \<open>woken\<close> reaches the
  requested number.
\<close>

fun futex_wake_loop :: "u64 \<Rightarrow> nat \<Rightarrow> nat list \<Rightarrow> u64 \<Rightarrow> sched_state \<Rightarrow> u64 \<times> sched_state" where
  "futex_wake_loop uaddr val [] woken s = (woken, s)"
| "futex_wake_loop uaddr val (i # is) woken s =
     (let w = FUTEX_WAITERS s ! i in
      if fw_in_use w \<and> fw_uaddr w = uaddr then
        (case set_process_state (fw_pid w) Ready s of
           (Err m, s1) \<Rightarrow> if val \<le> unat woken then (woken, s1) else futex_wake_loop uaddr val is woken s1
         | (Ok (), s1) \<Rightarrow>
             (let s2 = s1\<lparr> FUTEX_WAITERS := modify_nth i (\<lambda>w. w\<lparr> fw_in_use := False \<rparr>) (FUTEX_WAITERS s1) \<rparr>;
                  woken' = woken + 1
              in if val \<le> unat woken' then (woken', s2) else futex_wake_loop uaddr val is woken' s2))
      else futex_wake_loop uaddr val is woken s)"

definition futex_wake :: "u64 \<Rightarrow> int \<Rightarrow> sched_state \<Rightarrow> u64 \<times> sched_state" where
  "futex_wake uaddr val s =
     (if val \<le> 0 then (0, s) else futex_wake_loop uaddr (nat val) [0..<length (FUTEX_WAITERS s)] 0 s)"

definition terminate_thread :: "nat \<Rightarrow> int \<Rightarrow> Pid \<Rightarrow> sched_state \<Rightarrow> sched_state" where
  "terminate_thread cpu code p s =
     (let s1 = snd (wake_process cpu p s);
          s2 = (case handle_thread_exit p s1 of
                  (Some futex_addr, s') \<Rightarrow> snd (futex_wake futex_addr 2147483647 s')
                | (None, s') \<Rightarrow> s');
          s3 = snd (set_process_exit_code p code s2)
      in snd (set_process_state p Zombie s3))"

definition terminate_thread_group :: "nat \<Rightarrow> Pid \<Rightarrow> int \<Rightarrow> sched_state \<Rightarrow> sched_state" where
  "terminate_thread_group cpu g code s =
     fold (terminate_thread cpu code) (take MAX_PROCESSES (group_pids (PROCESS_TABLE s) g)) s"

definition wake_thread_group :: "nat \<Rightarrow> Pid \<Rightarrow> sched_state \<Rightarrow> sched_state" where
  "wake_thread_group cpu g s =
     fold (\<lambda>p s. snd (wake_process cpu p s)) (take MAX_PROCESSES (group_pids (PROCESS_TABLE s) g)) s"

section \<open>Queries and setters for testing\<close>

definition query_process :: "(ProcessEntry \<Rightarrow> 'a) \<Rightarrow> sched_state \<Rightarrow> Pid \<Rightarrow> 'a option" where
  "query_process f s p = map_option (\<lambda>i. f (entry_at s i)) (find_process s p)"

definition get_process_state :: "sched_state \<Rightarrow> Pid \<Rightarrow> ProcessState option" where
  "get_process_state s p = query_process (\<lambda>e. p_state (process e)) s p"

definition get_process_vruntime :: "sched_state \<Rightarrow> Pid \<Rightarrow> u64 option" where
  "get_process_vruntime s p = query_process vruntime s p"

definition get_process_lag :: "sched_state \<Rightarrow> Pid \<Rightarrow> int option" where
  "get_process_lag s p = query_process lag s p"

definition get_process_vdeadline :: "sched_state \<Rightarrow> Pid \<Rightarrow> u64 option" where
  "get_process_vdeadline s p = query_process vdeadline s p"

definition get_process_slice_remaining :: "sched_state \<Rightarrow> Pid \<Rightarrow> u64 option" where
  "get_process_slice_remaining s p = query_process slice_remaining_ns s p"

definition set_process_vruntime :: "Pid \<Rightarrow> u64 \<Rightarrow> sched_state \<Rightarrow> (unit, string) result \<times> sched_state" where
  "set_process_vruntime p v s = update_found (\<lambda>e. e\<lparr> vruntime := v \<rparr>) p s"

definition set_process_lag :: "Pid \<Rightarrow> int \<Rightarrow> sched_state \<Rightarrow> (unit, string) result \<times> sched_state" where
  "set_process_lag p v s = update_found (\<lambda>e. e\<lparr> lag := v \<rparr>) p s"

section \<open>How an operation may change an entry\<close>

definition table_rel :: "(ProcessEntry \<Rightarrow> ProcessEntry \<Rightarrow> bool) \<Rightarrow> sched_state \<Rightarrow> sched_state \<Rightarrow> bool" where
  "table_rel R s s' \<longleftrightarrow> list_all2 (rel_option R) (PROCESS_TABLE s) (PROCESS_TABLE s')"

lemma table_relD:
  assumes "table_rel R s s'"
  shows "length (PROCESS_TABLE s') = length (PROCESS_TABLE s)"
    and "i < length (PROCESS_TABLE s) \<Longrightarrow> rel_option R (PROCESS_TABLE s ! i) (PROCESS_TABLE s' ! i)"
  using assms by (simp_all add: table_rel_def list_all2_lengthD [symmetric] list_all2_nthD)

lemma table_rel_slot:
  assumes "table_rel R s s'" "i < length (PROCESS_TABLE s)" "PROCESS_TABLE s' ! i = Some e'"
  obtains e where "PROCESS_TABLE s ! i = Some e" "R e e'"
  using table_relD(2) [OF assms(1,2)] assms(3) by (cases "PROCESS_TABLE s ! i") auto

lemma table_rel_frame [simp]: "table_rel R s (s'\<lparr> PERCPU := g \<rparr>) = table_rel R s s'" "table_rel R s (s'\<lparr> FUTEX_WAITERS := w \<rparr>) = table_rel R s s'"
  by (simp_all add: table_rel_def)

text \<open>
  A relation on states that every elementary update respects is respected by every operation that
  keeps the processes in their slots.  Exit codes may only be set to values of \<open>codes\<close>, and only states
  of \<open>states\<close> may be requested.
\<close>

locale state_relation =
  fixes Rel :: "sched_state \<Rightarrow> sched_state \<Rightarrow> bool" and codes :: "int set" and states :: "ProcessState set"
  assumes Rel_refl: "Rel s s"
    and Rel_trans: "Rel a b \<Longrightarrow> Rel b c \<Longrightarrow> Rel a c"
    and Rel_request: "st \<in> states \<Longrightarrow> Rel s (upd_slot (upd_process (request_state st)) i s)"
    and Rel_wake: "Rel s (upd_slot (wake_entry m) i s)"
    and Rel_code: "code \<in> codes \<Longrightarrow> Rel s (upd_slot (upd_process (\<lambda>pr. pr\<lparr> exit_code := code \<rparr>)) i s)"
    and Rel_signal: "Rel s (upd_slot (upd_process (\<lambda>pr. pr\<lparr> term_signal := sig \<rparr>)) i s)"
    and Rel_cr3: "Rel s (upd_slot (upd_process (\<lambda>pr. pr\<lparr> cr3 := v \<rparr>)) i s)"
    and Rel_call: "Rel s (record_call k s)"
    and Rel_waiters: "Rel s (s\<lparr> FUTEX_WAITERS := w \<rparr>)"
    and Rel_resched: "Rel s (s\<lparr> PERCPU := set_need_resched target (PERCPU s) \<rparr>)"
    and states_ready: "Ready \<in> states"
begin

lemma update_found_Rel: "(\<And>i. Rel s (upd_slot f i s)) \<Longrightarrow> Rel s (snd (update_found f p s))"
  by (auto simp: update_found_def Rel_refl split: option.split)

lemma set_process_state_rel: "st \<in> states \<Longrightarrow> Rel s (snd (set_process_state p st s))"
  by (simp add: set_process_state_def update_found_Rel Rel_request)

lemma set_current_state_rel: "st \<in> states \<Longrightarrow> Rel s (set_current_process_state cpu st s)"
  by (auto simp: set_current_process_state_def update_found_Rel Rel_request Rel_refl split: option.split)

lemma set_exit_code_rel: "c \<in> codes \<Longrightarrow> Rel s (snd (set_process_exit_code p c s))"
  by (simp add: set_process_exit_code_def update_found_Rel Rel_code)

lemma set_term_signal_rel: "Rel s (snd (set_process_term_signal p sig s))"
  by (simp add: set_process_term_signal_def update_found_Rel Rel_signal)

lemma update_cr3_rel: "Rel s (snd (update_process_cr3 cpu p v s))"
proof -
  obtain r s1 where r: "update_found (upd_process (\<lambda>pr. pr\<lparr> cr3 := v \<rparr>)) p s = (r, s1)" by (meson surj_pair)
  have "Rel s s1" using update_found_Rel [of s "upd_process (\<lambda>pr. pr\<lparr> cr3 := v \<rparr>)" p] Rel_cr3 r by simp
  then show ?thesis using r Rel_trans [OF _ Rel_call] by (auto simp: update_process_cr3_def split: result.split unit.split)
qed

lemma wake_at_rel: "Rel s (snd (wake_at slot s))"
  by (auto simp: wake_at_def Rel_wake Rel_refl split: option.split)

lemma wake_locked_rel: "Rel s (snd (wake_locked p s))"
proof -
  obtain f s1 where 1: "wake_at (find_hint s p) s = (f, s1)" by (meson surj_pair)
  have r1: "Rel s s1" using wake_at_rel [of s "find_hint s p"] 1 by simp
  show ?thesis using 1 r1 Rel_trans [OF r1 wake_at_rel] by (auto simp: wake_locked_def split: prod.split)
qed

lemma wake_process_rel: "Rel s (snd (wake_process cpu p s))"
proof -
  obtain f s2 where "wake_locked p s = (f, s2)" by (meson surj_pair)
  moreover from this have "Rel s s2" using wake_locked_rel [of s p] by simp
  ultimately show ?thesis using Rel_trans [OF _ Rel_resched] by (auto simp: wake_process_def split: prod.split)
qed

lemma futex_wake_loop_rel: "Rel s (snd (futex_wake_loop a v is n s))"
proof (induction "is" arbitrary: n s)
  case (Cons i "is")
  let ?w = "FUTEX_WAITERS s ! i"
  obtain r s1 where r: "set_process_state (fw_pid ?w) Ready s = (r, s1)" by (meson surj_pair)
  have 1: "Rel s s1" using set_process_state_rel [OF states_ready, of s "fw_pid ?w"] r by simp
  then have 2: "Rel s (s1\<lparr> FUTEX_WAITERS := w \<rparr>)" for w using Rel_trans Rel_waiters by blast
  show ?case
  proof (cases "fw_in_use ?w \<and> fw_uaddr ?w = a")
    case True
    then show ?thesis using r 1 2 Rel_trans [OF 2 Cons.IH] Rel_trans [OF 1 Cons.IH]
      by (cases r) (simp_all add: Let_def split: unit.split)
  next
    case False
    then show ?thesis using Cons.IH by (auto simp: Let_def)
  qed
qed (simp add: Rel_refl)

lemma futex_wake_rel: "Rel s (snd (futex_wake a v s))"
  by (simp add: futex_wake_def futex_wake_loop_rel Rel_refl)

lemma exit_and_futex_rel:
  "Rel s (case handle_thread_exit p s of (Some a, s') \<Rightarrow> snd (futex_wake a v s') | (None, s') \<Rightarrow> s')"
proof -
  obtain r s' where r: "handle_thread_exit p s = (r, s')" by (meson surj_pair)
  then have "Rel s s'"
    by (auto simp: handle_thread_exit_def Let_def Rel_refl Rel_call split: option.splits if_splits)
  then show ?thesis using r Rel_trans [OF _ futex_wake_rel] by (auto split: option.split)
qed

lemma terminate_thread_rel: "code \<in> codes \<Longrightarrow> Zombie \<in> states \<Longrightarrow> Rel s (terminate_thread cpu code p s)"
  unfolding terminate_thread_def Let_def
  by (rule Rel_trans [OF wake_process_rel], rule Rel_trans [OF exit_and_futex_rel],
      rule Rel_trans [OF set_exit_code_rel set_process_state_rel])

lemma terminate_fold_rel: "code \<in> codes \<Longrightarrow> Zombie \<in> states \<Longrightarrow> Rel s (fold (terminate_thread cpu code) ps s)"
  by (induction ps arbitrary: s) (auto simp: Rel_refl intro: Rel_trans terminate_thread_rel)

lemma wake_fold_rel: "Rel s (fold (\<lambda>p s. snd (wake_process cpu p s)) ps s)"
  by (induction ps arbitrary: s) (auto simp: Rel_refl intro: Rel_trans wake_process_rel)

end

text \<open>A relation on entries, lifted to the slots of the table, is such a relation on states.\<close>

locale entry_relation =
  fixes R :: "ProcessEntry \<Rightarrow> ProcessEntry \<Rightarrow> bool" and codes :: "int set" and states :: "ProcessState set"
  assumes R_refl: "R e e"
    and R_trans: "R a b \<Longrightarrow> R b c \<Longrightarrow> R a c"
    and R_request: "st \<in> states \<Longrightarrow> R e (upd_process (request_state st) e)"
    and R_wake: "R e (wake_entry m e)"
    and R_code: "code \<in> codes \<Longrightarrow> R e (upd_process (\<lambda>pr. pr\<lparr> exit_code := code \<rparr>) e)"
    and R_signal: "R e (upd_process (\<lambda>pr. pr\<lparr> term_signal := sig \<rparr>) e)"
    and R_cr3: "R e (upd_process (\<lambda>pr. pr\<lparr> cr3 := v \<rparr>) e)"
    and R_states: "Ready \<in> states"
begin

lemma rel_same: "PROCESS_TABLE s' = PROCESS_TABLE s \<Longrightarrow> table_rel R s s'"
  by (simp add: table_rel_def list.rel_refl option.rel_refl R_refl)

lemma rel_trans: "table_rel R a b \<Longrightarrow> table_rel R b c \<Longrightarrow> table_rel R a c"
  unfolding table_rel_def
  by (rule list_all2_trans [where ?P1.0 = "rel_option R" and ?P2.0 = "rel_option R"]) (auto elim!: option.rel_cases intro: R_trans)

lemma upd_slot_rel: "(\<And>e. R e (f e)) \<Longrightarrow> table_rel R s (upd_slot f i s)"
  unfolding table_rel_def
  by (rule list_all2_all_nthI) (auto simp: upd_slot_table option.rel_map intro: option.rel_refl R_refl)

lemma update_found_rel: "(\<And>e. R e (f e)) \<Longrightarrow> table_rel R s (snd (update_found f p s))"
  by (auto simp: update_found_def upd_slot_rel rel_same split: option.split)

end

sublocale entry_relation < state_relation "table_rel R" codes states
  using R_request R_code by unfold_locales
    (auto simp: rel_same upd_slot_rel R_wake R_signal R_cr3 record_call_def R_states intro: rel_trans)

text \<open>
  The identity of a process is fixed, a zombie stays a zombie, a sleeping process has no pending wake
  if it had none to begin with, and its exit code is old or one of \<open>C\<close>.
\<close>

definition sleep_ok :: "ProcessEntry \<Rightarrow> bool" where
  "sleep_ok e \<longleftrightarrow> \<not> (p_state (process e) = Sleeping \<and> wake_pending (process e))"

definition evolves :: "int set \<Rightarrow> ProcessEntry \<Rightarrow> ProcessEntry \<Rightarrow> bool" where
  "evolves C e e' \<longleftrightarrow> pid (process e') = pid (process e) \<and> ppid (process e') = ppid (process e) \<and>
     tgid (process e') = tgid (process e) \<and>
     (p_state (process e) = Zombie \<longrightarrow> p_state (process e') = Zombie) \<and>
     (sleep_ok e \<longrightarrow> sleep_ok e') \<and> (entry_ok e \<longrightarrow> entry_ok e') \<and>
     (exit_code (process e') = exit_code (process e) \<or> exit_code (process e') \<in> C)"

lemma request_state_evolves: "evolves C e (upd_process (request_state st) e)"
  by (auto simp: evolves_def request_state_def upd_process_def sleep_ok_def entry_ok_def)

lemma wake_entry_evolves: "evolves C e (wake_entry m e)"
  by (cases "p_state (process e)")
    (auto simp: evolves_def wake_entry_def upd_process_def sleep_ok_def entry_ok_def Let_def i64_min_def i64_max_def)

interpretation ev: entry_relation "evolves C" C UNIV for C
proof (unfold_locales, goal_cases)
  case (2 a b c)
  then show ?case by (auto simp: evolves_def)
qed (simp_all add: request_state_evolves wake_entry_evolves, simp_all add: evolves_def upd_process_def sleep_ok_def entry_ok_def)

text \<open>A process with a pending wake keeps it, or becomes a zombie, until it asks to sleep.\<close>

definition awake :: "ProcessEntry \<Rightarrow> bool" where
  "awake e \<longleftrightarrow> p_state (process e) = Zombie \<or> runnable e \<and> wake_pending (process e)"

definition stays_awake :: "ProcessEntry \<Rightarrow> ProcessEntry \<Rightarrow> bool" where
  "stays_awake e e' \<longleftrightarrow> pid (process e') = pid (process e) \<and> (awake e \<longrightarrow> awake e')"

lemma request_state_awake: "st \<noteq> Sleeping \<Longrightarrow> stays_awake e (upd_process (request_state st) e)"
  by (cases st) (auto simp: stays_awake_def awake_def request_state_def upd_process_def runnable_def)

lemma wake_entry_awake: "stays_awake e (wake_entry m e)"
  by (cases "p_state (process e)") (auto simp: stays_awake_def awake_def wake_entry_def upd_process_def runnable_def Let_def)

interpretation aw: entry_relation stays_awake UNIV "- {Sleeping}"
proof (unfold_locales, goal_cases)
  case (2 a b c)
  then show ?case by (auto simp: stays_awake_def)
qed (simp_all add: request_state_awake wake_entry_awake, simp_all add: stays_awake_def awake_def upd_process_def runnable_def)

text \<open>Evolution keeps PIDs and thread groups, hence distinctness.\<close>

lemma evolves_pids: "list_all2 (rel_option (evolves C)) t t' \<Longrightarrow>
    map (\<lambda>e. pid (process e)) [e. Some e \<leftarrow> t'] = map (\<lambda>e. pid (process e)) [e. Some e \<leftarrow> t]"
  by (induction rule: list_all2_induct) (auto simp: evolves_def split: option.splits elim!: option.rel_cases)

lemma table_evolves_distinct: "table_rel (evolves C) s s' \<Longrightarrow> pids_distinct (PROCESS_TABLE s') = pids_distinct (PROCESS_TABLE s)"
  by (simp add: table_rel_def pids_distinct_def evolves_pids)

lemma find_process_iff:
  "pids_distinct (PROCESS_TABLE s) \<Longrightarrow>
   find_process s p = Some i \<longleftrightarrow> i < length (PROCESS_TABLE s) \<and> has_pid p (PROCESS_TABLE s ! i)"
  using hinted.find_unique [of s p i] pids_distinctD by blast

lemma update_found_slot:
  assumes "pids_distinct (PROCESS_TABLE s)" "i < length (PROCESS_TABLE s)" "PROCESS_TABLE s ! i = Some e"
  shows "PROCESS_TABLE (snd (update_found f p s)) ! i = Some (if pid (process e) = p then f e else e)"
proof (cases "find_process s p")
  case None
  then have "\<not> has_pid p (PROCESS_TABLE s ! i)" using hinted.find_complete [OF None assms(2)] by simp
  then show ?thesis using None assms(3) by (simp add: update_found_def has_pid_def)
next
  case (Some j)
  then have "i = j \<longleftrightarrow> pid (process e) = p"
    using find_process_iff [OF assms(1), of p j] find_process_iff [OF assms(1), of p i] assms(2,3) by (auto simp: has_pid_def)
  then show ?thesis using Some assms by (auto simp: update_found_def upd_slot_table)
qed

section \<open>Exit and wait\<close>

definition exited :: "int \<Rightarrow> ProcessEntry \<Rightarrow> bool" where
  "exited code e \<longleftrightarrow> p_state (process e) = Zombie \<and> exit_code (process e) = code"

lemma exited_evolves: "evolves {code} e e' \<Longrightarrow> exited code e \<Longrightarrow> exited code e'"
  by (auto simp: evolves_def exited_def)

lemma terminate_thread_exited:
  assumes "pids_distinct (PROCESS_TABLE s)" "i < length (PROCESS_TABLE s)"
    and "PROCESS_TABLE (terminate_thread cpu code p s) ! i = Some e" "pid (process e) = p"
  shows "exited code e"
proof -
  define s1 where "s1 = snd (wake_process cpu p s)"
  define s2 where "s2 = (case handle_thread_exit p s1 of (Some a, s') \<Rightarrow> snd (futex_wake a 2147483647 s') | (None, s') \<Rightarrow> s')"
  define s3 where "s3 = snd (set_process_exit_code p code s2)"
  have s': "terminate_thread cpu code p s = snd (set_process_state p Zombie s3)"
    by (simp add: terminate_thread_def s1_def s2_def s3_def Let_def)
  have ev2: "table_rel (evolves {}) s s2"
    unfolding s2_def s1_def by (rule ev.rel_trans [OF ev.wake_process_rel ev.exit_and_futex_rel])
  have ev3: "table_rel (evolves {code}) s2 s3" unfolding s3_def by (rule ev.set_exit_code_rel) simp
  have d: "pids_distinct (PROCESS_TABLE s2)" "pids_distinct (PROCESS_TABLE s3)"
    using assms(1) table_evolves_distinct [OF ev2] table_evolves_distinct [OF ev3] by simp_all
  have l: "i < length (PROCESS_TABLE s2)" "i < length (PROCESS_TABLE s3)"
    using assms(2) table_relD(1) [OF ev2] table_relD(1) [OF ev3] by simp_all
  have "table_rel (evolves {}) s3 (snd (set_process_state p Zombie s3))" by (rule ev.set_process_state_rel) simp
  then obtain e3 where e3: "PROCESS_TABLE s3 ! i = Some e3" "evolves {} e3 e"
    using assms(3) unfolding s' by (rule table_rel_slot [OF _ l(2)])
  obtain e2 where e2: "PROCESS_TABLE s2 ! i = Some e2" "evolves {code} e2 e3" using table_rel_slot [OF ev3 l(1) e3(1)] .
  have "pid (process e3) = p" "pid (process e2) = p" using e3(2) e2(2) assms(4) by (simp_all add: evolves_def)
  then have "e3 = upd_process (\<lambda>pr. pr\<lparr> exit_code := code \<rparr>) e2" "e = upd_process (request_state Zombie) e3"
    using update_found_slot [OF d(1) l(1) e2(1), of _ p] update_found_slot [OF d(2) l(2) e3(1), of _ p] e3(1) assms(3)
    by (simp_all add: s' s3_def set_process_state_def set_process_exit_code_def)
  then show ?thesis by (auto simp: exited_def upd_process_def request_state_def)
qed

lemma terminate_fold_exited:
  assumes "pids_distinct (PROCESS_TABLE s)" "i < length (PROCESS_TABLE s)"
    and "PROCESS_TABLE (fold (terminate_thread cpu code) ps s) ! i = Some e" "pid (process e) \<in> set ps"
  shows "exited code e"
  using assms
proof (induction ps arbitrary: s)
  case (Cons p ps)
  let ?s1 = "terminate_thread cpu code p s"
  have ev: "table_rel (evolves {code}) s ?s1" by (rule ev.terminate_thread_rel) simp_all
  have d: "pids_distinct (PROCESS_TABLE ?s1)" "i < length (PROCESS_TABLE ?s1)"
    using Cons.prems(1,2) table_evolves_distinct [OF ev] table_relD(1) [OF ev] by simp_all
  show ?case
  proof (cases "pid (process e) \<in> set ps")
    case True
    then show ?thesis using Cons.IH [OF d] Cons.prems(3) by simp
  next
    case False
    have "table_rel (evolves {code}) ?s1 (fold (terminate_thread cpu code) ps ?s1)" by (rule ev.terminate_fold_rel) simp_all
    moreover have "PROCESS_TABLE (fold (terminate_thread cpu code) ps ?s1) ! i = Some e" using Cons.prems(3) by simp
    ultimately obtain e1 where e1: "PROCESS_TABLE ?s1 ! i = Some e1" "evolves {code} e1 e" by (rule table_rel_slot [OF _ d(2)])
    have "pid (process e1) = p" using e1(2) False Cons.prems(4) by (simp add: evolves_def)
    from terminate_thread_exited [OF Cons.prems(1,2) e1(1) this] show ?thesis using exited_evolves [OF e1(2)] by simp
  qed
qed simp

lemma group_pids_length: "length (group_pids t g) \<le> length t"
  by (induction t) (auto simp: group_pids_def split: option.split)

lemma group_pids_member: "i < length t \<Longrightarrow> t ! i = Some e \<Longrightarrow> tgid (process e) = g \<Longrightarrow> pid (process e) \<in> set (group_pids t g)"
proof (induction t arbitrary: i)
  case (Cons x t)
  then show ?case by (cases i) (auto simp: group_pids_def split: option.split)
qed simp

lemma group_exited:
  assumes "length (PROCESS_TABLE s) = MAX_PROCESSES" "pids_distinct (PROCESS_TABLE s)" "i < MAX_PROCESSES"
    and "PROCESS_TABLE (terminate_thread_group cpu g code s) ! i = Some e"
  obtains e0 where "PROCESS_TABLE s ! i = Some e0" "evolves {code} e0 e" "tgid (process e) = g \<longrightarrow> exited code e"
proof -
  let ?ps = "take MAX_PROCESSES (group_pids (PROCESS_TABLE s) g)"
  have ev: "table_rel (evolves {code}) s (terminate_thread_group cpu g code s)"
    unfolding terminate_thread_group_def by (rule ev.terminate_fold_rel) simp_all
  have i: "i < length (PROCESS_TABLE s)" using assms(1,3) by simp
  obtain e0 where e0: "PROCESS_TABLE s ! i = Some e0" "evolves {code} e0 e" using table_rel_slot [OF ev i assms(4)] .
  have "?ps = group_pids (PROCESS_TABLE s) g" using group_pids_length [of "PROCESS_TABLE s" g] assms(1) by simp
  then have "tgid (process e) = g \<Longrightarrow> pid (process e) \<in> set ?ps"
    using group_pids_member [OF i e0(1), of g] e0(2) by (simp add: evolves_def)
  then have "tgid (process e) = g \<Longrightarrow> exited code e"
    using terminate_fold_exited [OF assms(2) i, of cpu code ?ps e] assms(4) by (simp add: terminate_thread_group_def)
  then show ?thesis using that e0 by blast
qed
text \<open>Processes outside the group: the exits may wake them, but neither end them nor set their exit code.\<close>

definition keeps_exit :: "ProcessEntry \<Rightarrow> ProcessEntry \<Rightarrow> bool" where
  "keeps_exit e e' \<longleftrightarrow> pid (process e') = pid (process e) \<and> exit_code (process e') = exit_code (process e) \<and>
     (p_state (process e') = Zombie \<longleftrightarrow> p_state (process e) = Zombie)"

interpretation ke: entry_relation keeps_exit "{}" "{Ready}"
proof (unfold_locales, goal_cases)
  case (4 e m)
  then show ?case by (cases "p_state (process e)") (simp_all add: keeps_exit_def wake_entry_def upd_process_def Let_def)
qed (auto simp: keeps_exit_def upd_process_def request_state_def)

lemma rel_slot:
  assumes "table_rel R s s'" "i < length (PROCESS_TABLE s)" "PROCESS_TABLE s ! i = Some e"
  obtains e' where "PROCESS_TABLE s' ! i = Some e'" "R e e'" "i < length (PROCESS_TABLE s')"
  using table_relD [OF assms(1)] table_relD(2) [OF assms(1,2)] assms(2,3) by (cases "PROCESS_TABLE s' ! i") auto

lemma terminate_thread_other:
  assumes "pids_distinct (PROCESS_TABLE s)" "i < length (PROCESS_TABLE s)" "PROCESS_TABLE s ! i = Some e" "pid (process e) \<noteq> p"
  obtains e' where "PROCESS_TABLE (terminate_thread cpu code p s) ! i = Some e'" "keeps_exit e e'"
proof -
  define s1 where "s1 = snd (wake_process cpu p s)"
  define s2 where "s2 = (case handle_thread_exit p s1 of (Some a, s') \<Rightarrow> snd (futex_wake a 2147483647 s') | (None, s') \<Rightarrow> s')"
  define s3 where "s3 = snd (set_process_exit_code p code s2)"
  have s': "terminate_thread cpu code p s = snd (set_process_state p Zombie s3)"
    by (simp add: terminate_thread_def s1_def s2_def s3_def Let_def)
  have k: "table_rel keeps_exit s s2" unfolding s2_def s1_def by (rule ke.rel_trans [OF ke.wake_process_rel ke.exit_and_futex_rel])
  have v2: "table_rel (evolves {}) s s2" unfolding s2_def s1_def by (rule ev.rel_trans [OF ev.wake_process_rel ev.exit_and_futex_rel])
  have v3: "table_rel (evolves {code}) s2 s3" unfolding s3_def by (rule ev.set_exit_code_rel) simp
  obtain e2 where e2: "PROCESS_TABLE s2 ! i = Some e2" "keeps_exit e e2" "i < length (PROCESS_TABLE s2)" using rel_slot [OF k assms(2,3)] .
  have d2: "pids_distinct (PROCESS_TABLE s2)" using assms(1) table_evolves_distinct [OF v2] by simp
  have e3: "PROCESS_TABLE s3 ! i = Some e2"
    using update_found_slot [OF d2 e2(3,1), of _ p] e2(2) assms(4) by (simp add: s3_def set_process_exit_code_def keeps_exit_def)
  have "pids_distinct (PROCESS_TABLE s3)" "i < length (PROCESS_TABLE s3)"
    using d2 e2(3) table_evolves_distinct [OF v3] table_relD(1) [OF v3] by simp_all
  from update_found_slot [OF this e3, of _ p] have "PROCESS_TABLE (terminate_thread cpu code p s) ! i = Some e2"
    using e2(2) assms(4) by (simp add: s' set_process_state_def keeps_exit_def)
  then show ?thesis using that e2(2) by blast
qed

lemma terminate_fold_other:
  assumes "pids_distinct (PROCESS_TABLE s)" "i < length (PROCESS_TABLE s)" "PROCESS_TABLE s ! i = Some e" "pid (process e) \<notin> set ps"
  shows "\<exists>e'. PROCESS_TABLE (fold (terminate_thread cpu code) ps s) ! i = Some e' \<and> keeps_exit e e'"
  using assms
proof (induction ps arbitrary: s e)
  case Nil
  then show ?case using ke.R_refl by simp
next
  case (Cons p ps)
  let ?s1 = "terminate_thread cpu code p s"
  have ev: "table_rel (evolves {code}) s ?s1" by (rule ev.terminate_thread_rel) simp_all
  have d: "pids_distinct (PROCESS_TABLE ?s1)" "i < length (PROCESS_TABLE ?s1)"
    using Cons.prems(1,2) table_evolves_distinct [OF ev] table_relD(1) [OF ev] by simp_all
  obtain e1 where e1: "PROCESS_TABLE ?s1 ! i = Some e1" "keeps_exit e e1"
    using terminate_thread_other [OF Cons.prems(1-3), of p cpu code] Cons.prems(4) by auto
  then have "pid (process e1) \<notin> set ps" using Cons.prems(4) by (simp add: keeps_exit_def)
  from Cons.IH [OF d e1(1) this] show ?case using ke.R_trans [OF e1(2)] by auto
qed

lemma group_pids_elem: "p \<in> set (group_pids t g) \<Longrightarrow> \<exists>j e. j < length t \<and> t ! j = Some e \<and> tgid (process e) = g \<and> pid (process e) = p"
  by (fastforce simp: group_pids_def in_set_conv_nth split: option.splits if_splits)

text \<open>
  C17: exiting a thread group ends every thread of it and nobody else.  When PIDs are distinct and no
  other CPU interferes, \<open>terminate_thread_group\<close> leaves every process in its slot with its PID, parent
  and group, and every empty slot empty.  Every process of the group ends as a zombie with the given exit code, whatever
  state it was in and whichever futex waiters the exits woke; a process of another group keeps its exit
  code, and is a zombie afterwards exactly if it was one before.
\<close>

theorem terminate_thread_group_exits:
  assumes "length (PROCESS_TABLE s) = MAX_PROCESSES" "pids_distinct (PROCESS_TABLE s)" "i < MAX_PROCESSES"
  shows "case PROCESS_TABLE s ! i of
      None \<Rightarrow> PROCESS_TABLE (terminate_thread_group cpu g code s) ! i = None
    | Some e0 \<Rightarrow> (\<exists>e. PROCESS_TABLE (terminate_thread_group cpu g code s) ! i = Some e \<and>
        pid (process e) = pid (process e0) \<and> ppid (process e) = ppid (process e0) \<and> tgid (process e) = tgid (process e0) \<and>
        (if tgid (process e0) = g then p_state (process e) = Zombie \<and> exit_code (process e) = code
         else exit_code (process e) = exit_code (process e0) \<and>
           (p_state (process e) = Zombie \<longleftrightarrow> p_state (process e0) = Zombie)))"
proof -
  let ?ps = "take MAX_PROCESSES (group_pids (PROCESS_TABLE s) g)" and ?s = "terminate_thread_group cpu g code s"
  have ev: "table_rel (evolves {code}) s ?s" unfolding terminate_thread_group_def by (rule ev.terminate_fold_rel) simp_all
  have i: "i < length (PROCESS_TABLE s)" using assms(1,3) by simp
  show ?thesis
  proof (cases "PROCESS_TABLE s ! i")
    case None
    then show ?thesis using table_relD(2) [OF ev i] by simp
  next
    case (Some e0)
    obtain e where e: "PROCESS_TABLE ?s ! i = Some e" "evolves {code} e0 e" using rel_slot [OF ev i Some] .
    have "tgid (process e) = g \<longrightarrow> exited code e" using group_exited [OF assms e(1)] by blast
    moreover have "keeps_exit e0 e" if "tgid (process e0) \<noteq> g"
    proof -
      have "pid (process e0) \<notin> set (group_pids (PROCESS_TABLE s) g)"
        using group_pids_elem [of "pid (process e0)" "PROCESS_TABLE s" g] pids_distinctD [OF assms(2) i] Some that
        by (fastforce simp: has_pid_def)
      then have "pid (process e0) \<notin> set ?ps" using set_take_subset by fastforce
      from terminate_fold_other [OF assms(2) i Some this, of cpu code] show ?thesis using e(1) by (auto simp: terminate_thread_group_def)
    qed
    ultimately show ?thesis using Some e by (auto simp: exited_def evolves_def keeps_exit_def)
  qed
qed

theorem terminate_thread_group_exits_witness:
  "let e = ProcessEntry_empty\<lparr> process := Process_empty\<lparr> pid := 5, tgid := 5, p_state := Sleeping \<rparr> \<rparr>;
       s = sched_boot\<lparr> PROCESS_TABLE := Some e # replicate 63 None \<rparr>
   in \<exists>e'. PROCESS_TABLE (terminate_thread_group 0 5 9 s) ! 0 = Some e' \<and> pid (process e') = 5 \<and>
     p_state (process e') = Zombie \<and> exit_code (process e') = 9"
proof -
  let ?e = "ProcessEntry_empty\<lparr> process := Process_empty\<lparr> pid := 5, tgid := 5, p_state := Sleeping \<rparr> \<rparr>"
  let ?s = "sched_boot\<lparr> PROCESS_TABLE := Some ?e # replicate 63 None \<rparr>"
  have l: "length (PROCESS_TABLE ?s) = MAX_PROCESSES" by (simp add: MAX_PROCESSES_def)
  have "[e. Some e \<leftarrow> replicate n None] = ([] :: ProcessEntry list)" for n by (induction n) simp_all
  then have d: "pids_distinct (PROCESS_TABLE ?s)" by (simp add: pids_distinct_def)
  have "0 < MAX_PROCESSES" by (simp add: MAX_PROCESSES_def)
  from terminate_thread_group_exits [OF l d this, of 0 5 9] show ?thesis unfolding Let_def by auto
qed

lemma wait_scan_spec:
  "wait_scan pp t h = (h \<or> (\<exists>e. Some e \<in> set t \<and> ppid (process e) = pp),
     map_option (\<lambda>i. process (the (t ! i)))
       (find_slot (\<lambda>slot. case slot of None \<Rightarrow> False | Some e \<Rightarrow> ppid (process e) = pp \<and> p_state (process e) = Zombie) t))"
  by (induction pp t h rule: wait_scan.induct) (auto simp: option.map_comp comp_def)

text \<open>
  C16: a parent that waits finds its exited child.  If a process of group \<open>g\<close> has parent \<open>parent\<close>,
  then after the group has been terminated \<open>find_any_child_for_wait\<close> reports that the parent has a
  child and names a zombie child of it together with that child's exit code and signal.
\<close>

theorem wait_finds_exited_child:
  assumes "length (PROCESS_TABLE s) = MAX_PROCESSES" "pids_distinct (PROCESS_TABLE s)" "i < MAX_PROCESSES"
    and "PROCESS_TABLE s ! i = Some e" "tgid (process e) = g" "ppid (process e) = parent"
  shows "\<exists>j e'. j < MAX_PROCESSES \<and> PROCESS_TABLE (terminate_thread_group cpu g code s) ! j = Some e' \<and>
    ppid (process e') = parent \<and> p_state (process e') = Zombie \<and>
    find_any_child_for_wait (terminate_thread_group cpu g code s) parent =
      (True, Some (pid (process e')), Some (exit_code (process e')), term_signal (process e'))"
proof -
  let ?s = "terminate_thread_group cpu g code s"
  let ?P = "\<lambda>slot. case slot of None \<Rightarrow> False | Some e \<Rightarrow> ppid (process e) = parent \<and> p_state (process e) = Zombie"
  have ev: "table_rel (evolves {code}) s ?s" unfolding terminate_thread_group_def by (rule ev.terminate_fold_rel) simp_all
  have l: "length (PROCESS_TABLE ?s) = MAX_PROCESSES" using table_relD(1) [OF ev] assms(1) by simp
  obtain e1 where e1: "PROCESS_TABLE ?s ! i = Some e1"
    using table_relD(2) [OF ev, of i] assms by (cases "PROCESS_TABLE ?s ! i") auto
  obtain e0 where e0: "PROCESS_TABLE s ! i = Some e0" "evolves {code} e0 e1" "tgid (process e1) = g \<longrightarrow> exited code e1"
    using group_exited [OF assms(1-3) e1] .
  have "?P (PROCESS_TABLE ?s ! i)" using e1 e0 assms(4-6) by (simp add: exited_def evolves_def)
  then obtain j where j: "find_slot ?P (PROCESS_TABLE ?s) = Some j"
    using l assms(3) by (cases "find_slot ?P (PROCESS_TABLE ?s)") (auto simp: find_slot_None_iff)
  then have "j < MAX_PROCESSES" "?P (PROCESS_TABLE ?s ! j)" using find_slot_SomeD [OF j] l by auto
  then obtain e' where e': "PROCESS_TABLE ?s ! j = Some e'" "ppid (process e') = parent" "p_state (process e') = Zombie"
    by (cases "PROCESS_TABLE ?s ! j") auto
  moreover have "Some e' \<in> set (PROCESS_TABLE ?s)" using e'(1) \<open>j < MAX_PROCESSES\<close> l by (metis nth_mem)
  ultimately show ?thesis using j \<open>j < MAX_PROCESSES\<close>
    by (auto simp: find_any_child_for_wait_def wait_scan_spec intro!: exI [of _ j])
qed

theorem wait_finds_exited_child_witness:
  "let e = ProcessEntry_empty\<lparr> process := Process_empty\<lparr> pid := 5, ppid := 1, tgid := 5 \<rparr> \<rparr>;
       s = sched_boot\<lparr> PROCESS_TABLE := Some e # replicate 63 None \<rparr>
   in fst (find_any_child_for_wait (terminate_thread_group 0 5 9 s) 1)"
proof -
  let ?e = "ProcessEntry_empty\<lparr> process := Process_empty\<lparr> pid := 5, ppid := 1, tgid := 5 \<rparr> \<rparr>"
  let ?s = "sched_boot\<lparr> PROCESS_TABLE := Some ?e # replicate 63 None \<rparr>"
  have l: "length (PROCESS_TABLE ?s) = MAX_PROCESSES" by (simp add: MAX_PROCESSES_def)
  have "[e. Some e \<leftarrow> replicate n None] = ([] :: ProcessEntry list)" for n by (induction n) simp_all
  then have d: "pids_distinct (PROCESS_TABLE ?s)" by (simp add: pids_distinct_def)
  show ?thesis unfolding Let_def using wait_finds_exited_child [OF l d, of 0 ?e 5 1 0 9] by (auto simp: MAX_PROCESSES_def)
qed

section \<open>No lost wakeup\<close>

lemma wake_at_slot:
  assumes "pids_distinct (PROCESS_TABLE s)" "i < length (PROCESS_TABLE s)" "PROCESS_TABLE s ! i = Some e"
    and "slot = None \<or> slot = Some i"
  shows "wake_at slot s = (if slot = None then ((False, False), s)
    else (wake_flags e, s\<lparr> PROCESS_TABLE := (PROCESS_TABLE s)[i := Some (wake_entry (MIN_VRUNTIME s) e)] \<rparr>))"
  using assms by (auto simp: wake_at_def entry_at_def upd_slot_def upd_entry_def modify_nth_def)

lemma wake_entry_zombie: "p_state (process e) = Zombie \<Longrightarrow> wake_entry m e = e"
  by (simp add: wake_entry_def)

lemma wake_process_slot:
  assumes "pids_distinct (PROCESS_TABLE s)" "i < length (PROCESS_TABLE s)" "PROCESS_TABLE s ! i = Some e" "pid (process e) = p"
  shows "PROCESS_TABLE (snd (wake_process cpu p s)) = (PROCESS_TABLE s)[i := Some (wake_entry (MIN_VRUNTIME s) e)]"
    and "fst (wake_process cpu p s) \<longleftrightarrow> p_state (process e) = Sleeping"
proof -
  have hp: "has_pid p (PROCESS_TABLE s ! i)" using assms(3,4) by (simp add: has_pid_def)
  have ps: "pid_slot (PROCESS_TABLE s) p = Some i"
    using linear.find_unique [of s p i] pids_distinctD [OF assms(1)] assms(2) hp by blast
  have fh: "find_hint s p = None \<or> find_hint s p = Some i"
    using find_process_iff [OF assms(1), of p] pids_distinctD [OF assms(1) _ assms(2) _ hp]
    by (auto simp: find_hint_def split: option.splits)
  have z: "wake_flags e = (False, False) \<longleftrightarrow> p_state (process e) = Zombie" by (cases "p_state (process e)") (simp_all add: wake_flags_def)
  note w = wake_at_slot [OF assms(1-3)]
  have zt: "(PROCESS_TABLE s)[i := Some (wake_entry m e)] = PROCESS_TABLE s" if "p_state (process e) = Zombie" for m
    using that assms(2,3) wake_entry_zombie [OF that, of m] list_update_id [of "PROCESS_TABLE s" i] by simp
  show "PROCESS_TABLE (snd (wake_process cpu p s)) = (PROCESS_TABLE s)[i := Some (wake_entry (MIN_VRUNTIME s) e)]"
    "fst (wake_process cpu p s) \<longleftrightarrow> p_state (process e) = Sleeping"
    using fh w [of "find_hint s p"] w [of "Some i"] ps z zt
    by (auto simp: wake_process_def wake_locked_def wake_flags_def split: if_splits)
qed

section \<open>Process operations\<close>

text \<open>An operation, executed by a CPU.\<close>

datatype proc_op =
    OpAdd Process u8 SchedPolicy int
  | OpRemove Pid
  | OpSetState Pid ProcessState
  | OpSetCurrentState ProcessState
  | OpExitCode Pid int
  | OpTermSignal Pid int
  | OpForked Pid
  | OpCr3 Pid u64
  | OpWake Pid
  | OpTryWake bool Pid
  | OpFutexWake u64 int
  | OpTerminateGroup Pid int
  | OpWakeGroup Pid

fun proc_exec :: "nat \<Rightarrow> proc_op \<Rightarrow> sched_state \<Rightarrow> sched_state" where
  "proc_exec cpu (OpAdd pr prio pol n) s = snd (add_process_with_policy pr prio pol n s)"
| "proc_exec cpu (OpRemove p) s = snd (remove_process cpu p s)"
| "proc_exec cpu (OpSetState p st) s = snd (set_process_state p st s)"
| "proc_exec cpu (OpSetCurrentState st) s = set_current_process_state cpu st s"
| "proc_exec cpu (OpExitCode p c) s = snd (set_process_exit_code p c s)"
| "proc_exec cpu (OpTermSignal p sig) s = snd (set_process_term_signal p sig s)"
| "proc_exec cpu (OpForked p) s = mark_process_as_forked_child p s"
| "proc_exec cpu (OpCr3 p v) s = snd (update_process_cr3 cpu p v s)"
| "proc_exec cpu (OpWake p) s = snd (wake_process cpu p s)"
| "proc_exec cpu (OpTryWake locked p) s = snd (try_wake_process locked cpu p s)"
| "proc_exec cpu (OpFutexWake a v) s = snd (futex_wake a v s)"
| "proc_exec cpu (OpTerminateGroup g c) s = terminate_thread_group cpu g c s"
| "proc_exec cpu (OpWakeGroup g) s = wake_thread_group cpu g s"

text \<open>A new process has a PID no live process has, and is not created asleep with a wake pending.\<close>

definition op_ok :: "proc_op \<Rightarrow> sched_state \<Rightarrow> bool" where
  "op_ok op s = (case op of
      OpAdd pr _ _ _ \<Rightarrow> pid_slot (PROCESS_TABLE s) (pid pr) = None \<and> \<not> (p_state pr = Sleeping \<and> wake_pending pr)
    | _ \<Rightarrow> True)"

definition proc_inv :: "sched_state \<Rightarrow> bool" where
  "proc_inv s \<longleftrightarrow> table_ok (PROCESS_TABLE s) \<and> pids_distinct (PROCESS_TABLE s) \<and> list_all (pred_option sleep_ok) (PROCESS_TABLE s)"

lemma evolves_inv: "table_rel (evolves C) s s' \<Longrightarrow> proc_inv s \<Longrightarrow> proc_inv s'"
proof -
  assume r: "table_rel (evolves C) s s'" and i: "proc_inv s"
  have "pred_option P (PROCESS_TABLE s' ! k)"
    if P: "\<And>e e'. evolves C e e' \<Longrightarrow> P e \<Longrightarrow> P e'" "list_all (pred_option P) (PROCESS_TABLE s)" "k < length (PROCESS_TABLE s)" for P k
    using table_relD(2) [OF r P(3)] P(2) P(3) P(1) by (cases rule: option.rel_cases) (auto simp: list_all_length)
  then have "list_all (pred_option P) (PROCESS_TABLE s')"
    if "\<And>e e'. evolves C e e' \<Longrightarrow> P e \<Longrightarrow> P e'" "list_all (pred_option P) (PROCESS_TABLE s)" for P
    using that table_relD(1) [OF r] by (simp add: list_all_length)
  from this [of entry_ok] this [of sleep_ok] show ?thesis
    using i table_relD(1) [OF r] table_evolves_distinct [OF r] by (simp add: proc_inv_def table_ok_def evolves_def)
qed

lemma update_any_state_evolves:
  "table_rel (evolves C) s (snd (set_process_state p st s))" "table_rel (evolves C) s (set_current_process_state cpu st s)"
  by (auto simp: set_process_state_def set_current_process_state_def ev.update_found_rel request_state_evolves ev.rel_same split: option.split)

lemma in_place_evolves:
  assumes "case op of OpAdd _ _ _ _ \<Rightarrow> False | OpRemove _ \<Rightarrow> False | OpForked _ \<Rightarrow> False | _ \<Rightarrow> True"
  shows "table_rel (evolves UNIV) s (proc_exec cpu op s)"
  using assms
  by (cases op)
    (simp_all add: update_any_state_evolves ev.set_exit_code_rel ev.set_term_signal_rel ev.update_cr3_rel ev.wake_process_rel
      try_wake_process_def ev.rel_same ev.futex_wake_rel terminate_thread_group_def ev.terminate_fold_rel
      wake_thread_group_def ev.wake_fold_rel)

lemma in_place_awake:
  assumes "case op of OpAdd _ _ _ _ \<Rightarrow> False | OpRemove _ \<Rightarrow> False | OpForked _ \<Rightarrow> False
    | OpSetState _ st \<Rightarrow> st \<noteq> Sleeping | OpSetCurrentState st \<Rightarrow> st \<noteq> Sleeping | _ \<Rightarrow> True"
  shows "table_rel stays_awake s (proc_exec cpu op s)"
  using assms
  by (cases op)
    (simp_all add: aw.set_process_state_rel aw.set_current_state_rel aw.set_exit_code_rel aw.set_term_signal_rel aw.update_cr3_rel
      aw.wake_process_rel try_wake_process_def aw.rel_same aw.futex_wake_rel terminate_thread_group_def aw.terminate_fold_rel
      wake_thread_group_def aw.wake_fold_rel)

lemma new_entry_ok: "entry_ok (new_entry pr prio pol n t m)"
proof -
  have "slice_ok (base_slice pol)" using base_slice_unat [of pol] by (simp add: slice_ok_unat)
  then show ?thesis by (simp add: entry_ok_def new_entry_def Let_def i64_min_def i64_max_def)
qed

lemma add_process_alt:
  "add_process_with_policy pr prio pol n s =
     (case find_slot (\<lambda>slot. slot = None) (PROCESS_TABLE s) of
        None \<Rightarrow> (Err ''Process table full'', s)
      | Some _ \<Rightarrow> (Ok (), refresh_min_vruntime (snd (insert_process pr prio pol n s))))"
  by (simp add: add_process_with_policy_def insert_process_def split: option.split unit.split)

lemma refresh_frame [simp]:
  "PROCESS_TABLE (refresh_min_vruntime s) = PROCESS_TABLE s" "PERCPU (refresh_min_vruntime s) = PERCPU s"
  "current_pid cpu (refresh_min_vruntime s) = current_pid cpu s" "calls (refresh_min_vruntime s) = calls s"
  "PID_MANAGER (refresh_min_vruntime s) = PID_MANAGER s" "CURRENT_PID (refresh_min_vruntime s) = CURRENT_PID s"
  by (simp_all add: refresh_min_vruntime_def current_pid_def cong: option.case_cong)

lemma insert_process_table:
  "PROCESS_TABLE (snd (insert_process pr prio pol n s)) =
     (case find_slot (\<lambda>slot. slot = None) (PROCESS_TABLE s) of None \<Rightarrow> PROCESS_TABLE s
      | Some i \<Rightarrow> (PROCESS_TABLE s)[i := Some (new_entry pr prio pol n (GLOBAL_TICK s) (MIN_VRUNTIME s))])"
  "PERCPU (snd (insert_process pr prio pol n s)) = PERCPU s"
  by (simp_all add: insert_process_def split: option.split)

lemma add_process_table:
  "PROCESS_TABLE (snd (add_process_with_policy pr prio pol n s)) =
     (case find_slot (\<lambda>slot. slot = None) (PROCESS_TABLE s) of None \<Rightarrow> PROCESS_TABLE s
      | Some i \<Rightarrow> (PROCESS_TABLE s)[i := Some (new_entry pr prio pol n (GLOBAL_TICK s) (MIN_VRUNTIME s))])"
  "PERCPU (snd (add_process_with_policy pr prio pol n s)) = PERCPU s"
  by (simp_all add: add_process_alt insert_process_def split: option.split)

lemma release_table [simp]: "PROCESS_TABLE (release_resources pr s) = PROCESS_TABLE s" "PROCESS_TABLE (set_current_pid cpu q s) = PROCESS_TABLE s"
  by (simp_all add: release_resources_def record_call_def set_current_pid_def Let_def split: option.split)

lemma remove_process_table:
  "PROCESS_TABLE (snd (remove_process cpu p s)) =
     (case find_process s p of None \<Rightarrow> PROCESS_TABLE s | Some i \<Rightarrow> (PROCESS_TABLE s)[i := None])"
  by (simp add: remove_process_def remove_slot_def Let_def split: option.split)

lemma has_pid_simps [simp]: "\<not> has_pid q None" "has_pid q (Some e) \<longleftrightarrow> pid (process e) = q"
  by (simp_all add: has_pid_def)

lemma has_pid_update: "has_pid q (t[i := x] ! j) \<longleftrightarrow> (if i = j \<and> j < length t then has_pid q x else has_pid q (t ! j))"
  by (simp add: nth_update_if)

lemma distinct_fill:
  assumes "pids_distinct t" "pid_slot t (pid (process e)) = None"
  shows "pids_distinct (t[i := Some e])"
proof (rule pids_distinctI, unfold has_pid_update length_list_update)
  fix j k q
  assume "j < length t" "k < length t" "if i = j \<and> j < length t then has_pid q (Some e) else has_pid q (t ! j)"
    "if i = k \<and> k < length t then has_pid q (Some e) else has_pid q (t ! k)"
  then show "j = k" using pids_distinctD [OF assms(1), of j k q] pid_slot_None [OF assms(2), of j] pid_slot_None [OF assms(2), of k]
    by (auto split: if_splits)
qed

lemma distinct_clear: "pids_distinct t \<Longrightarrow> pids_distinct (t[i := None])"
  using pids_distinctD [of t] by (intro pids_distinctI) (auto simp: has_pid_update split: if_splits)

lemma distinct_same_pid:
  "pids_distinct t \<Longrightarrow> t ! i = Some e \<Longrightarrow> pid (process e') = pid (process e) \<Longrightarrow> pids_distinct (t[i := Some e'])"
  using pids_distinctD [of t] by (intro pids_distinctI) (auto simp: has_pid_update split: if_splits)

lemma insert_inv:
  assumes "proc_inv s" "op_ok (OpAdd pr prio pol n) s"
  shows "proc_inv (snd (insert_process pr prio pol n s))"
proof (cases "find_slot (\<lambda>slot. slot = None) (PROCESS_TABLE s)")
  case None
  then show ?thesis using assms(1) by (simp add: proc_inv_def insert_process_table)
next
  case (Some j)
  let ?e = "new_entry pr prio pol n (GLOBAL_TICK s) (MIN_VRUNTIME s)"
  have "pid (process ?e) = pid pr" "sleep_ok ?e" "entry_ok ?e"
    using assms(2) by (simp_all add: op_ok_def sleep_ok_def new_entry_ok) (simp_all add: new_entry_def Let_def)
  then show ?thesis using Some assms
    by (simp add: proc_inv_def table_ok_def insert_process_table list_all_update distinct_fill op_ok_def)
qed

lemma add_inv: "proc_inv s \<Longrightarrow> op_ok (OpAdd pr prio pol n) s \<Longrightarrow> proc_inv (snd (add_process_with_policy pr prio pol n s))"
  using insert_inv [of s pr prio pol n] by (simp add: proc_inv_def add_process_table insert_process_table)

lemma remove_inv: "proc_inv s \<Longrightarrow> proc_inv (snd (remove_process cpu p s))"
  by (simp add: proc_inv_def table_ok_def remove_process_table list_all_update distinct_clear split: option.split)

lemma forked_inv:
  assumes "proc_inv s"
  shows "proc_inv (mark_process_as_forked_child p s)"
proof (cases "find_process s p")
  case None
  then show ?thesis using assms by (simp add: mark_process_as_forked_child_def update_found_def)
next
  case (Some j)
  let ?f = "upd_process (\<lambda>pr. pr\<lparr> p_state := Ready \<rparr>)"
  note i = assms [unfolded proc_inv_def table_ok_def]
  obtain e where e: "j < length (PROCESS_TABLE s)" "PROCESS_TABLE s ! j = Some e"
    using hinted.find_sound [OF Some] by (cases "PROCESS_TABLE s ! j") auto
  have t: "PROCESS_TABLE (mark_process_as_forked_child p s) = (PROCESS_TABLE s)[j := Some (?f e)]"
    using Some e by (simp add: mark_process_as_forked_child_def update_found_def upd_slot_def upd_entry_def modify_nth_def)
  have "entry_ok e" using i e list_all_nthD [of "pred_option entry_ok" "PROCESS_TABLE s" j] by simp
  then have "entry_ok (?f e)" "sleep_ok (?f e)" by (simp_all add: entry_ok_def sleep_ok_def upd_process_def)
  moreover have "pids_distinct ((PROCESS_TABLE s)[j := Some (?f e)])"
    using i e by (simp add: distinct_same_pid upd_process_def)
  ultimately show ?thesis using i by (simp add: proc_inv_def table_ok_def t list_all_update)
qed

lemma proc_exec_inv:
  assumes "proc_inv s" "op_ok op s"
  shows "proc_inv (proc_exec cpu op s)"
proof (cases "case op of OpAdd _ _ _ _ \<Rightarrow> False | OpRemove _ \<Rightarrow> False | OpForked _ \<Rightarrow> False | _ \<Rightarrow> True")
  case True
  then show ?thesis using in_place_evolves evolves_inv assms(1) by blast
next
  case False
  then show ?thesis using assms by (cases op) (simp_all add: add_inv remove_inv forked_inv)
qed

lemma no_entries [simp]: "[e. Some e \<leftarrow> replicate n None] = ([] :: ProcessEntry list)"
  by (induction n) simp_all

lemma proc_inv_boot: "proc_inv sched_boot"
  by (simp add: proc_inv_def sched_boot_def table_ok_def pids_distinct_def list_all_length)

section \<open>A wake is not lost\<close>

text \<open>Operations other than a request of \<open>p\<close> to sleep, its removal, and its marking as forked.\<close>

definition leaves :: "Pid \<Rightarrow> nat \<Rightarrow> proc_op \<Rightarrow> sched_state \<Rightarrow> bool" where
  "leaves p cpu op s \<longleftrightarrow> op \<noteq> OpSetState p Sleeping \<and> op \<noteq> OpRemove p \<and> op \<noteq> OpForked p \<and>
     \<not> (op = OpSetCurrentState Sleeping \<and> current_pid cpu s = Some p)"

definition awake_at :: "nat \<Rightarrow> Pid \<Rightarrow> sched_state \<Rightarrow> bool" where
  "awake_at i p s \<longleftrightarrow> i < length (PROCESS_TABLE s) \<and>
     (case PROCESS_TABLE s ! i of None \<Rightarrow> False | Some e \<Rightarrow> pid (process e) = p \<and> awake e)"

lemma awake_atD: "awake_at i p s \<Longrightarrow> \<exists>e. i < length (PROCESS_TABLE s) \<and> PROCESS_TABLE s ! i = Some e \<and> pid (process e) = p \<and> awake e"
  by (auto simp: awake_at_def split: option.splits)

lemma update_other_keeps:
  assumes "proc_inv s" "awake_at i p s" "q \<noteq> p"
  shows "awake_at i p (snd (update_found f q s))"
proof -
  obtain e where e: "i < length (PROCESS_TABLE s)" "PROCESS_TABLE s ! i = Some e" "pid (process e) = p" "awake e"
    using awake_atD [OF assms(2)] by blast
  have "length (PROCESS_TABLE (snd (update_found f q s))) = length (PROCESS_TABLE s)"
    by (simp add: update_found_def split: option.split)
  then show ?thesis using e assms update_found_slot [of s i e f q] by (simp add: awake_at_def proc_inv_def)
qed

lemma in_place_keeps:
  assumes "table_rel stays_awake s s'" "awake_at i p s"
  shows "awake_at i p s'"
proof -
  obtain e where e: "i < length (PROCESS_TABLE s)" "PROCESS_TABLE s ! i = Some e" "pid (process e) = p" "awake e"
    using awake_atD [OF assms(2)] by blast
  then show ?thesis using table_relD [OF assms(1)] table_relD(2) [OF assms(1) e(1)]
    by (cases "PROCESS_TABLE s' ! i") (auto simp: awake_at_def stays_awake_def)
qed

lemma exec_keeps_awake:
  assumes "proc_inv s" "awake_at i p s" "leaves p cpu op s"
  shows "awake_at i p (proc_exec cpu op s)"
proof -
  obtain e where e: "i < length (PROCESS_TABLE s)" "PROCESS_TABLE s ! i = Some e" "pid (process e) = p" "awake e"
    using awake_atD [OF assms(2)] by blast
  show ?thesis
  proof (cases op)
    case (OpAdd pr prio pol n)
    have "j \<noteq> i" if "find_slot (\<lambda>slot. slot = None) (PROCESS_TABLE s) = Some j" for j
      using find_slot_SomeD [OF that] e(2) by auto
    then show ?thesis using e by (auto simp: OpAdd awake_at_def add_process_table split: option.split)
  next
    case (OpRemove q)
    have "j \<noteq> i" if "find_process s q = Some j" for j
      using hinted.find_sound [OF that] e assms(3) OpRemove by (auto simp: leaves_def)
    then show ?thesis using e by (auto simp: OpRemove awake_at_def remove_process_table split: option.split)
  next
    case (OpForked q)
    then show ?thesis using assms update_other_keeps by (simp add: mark_process_as_forked_child_def leaves_def)
  next
    case (OpSetState q st)
    then show ?thesis using assms update_other_keeps [OF assms(1,2)] in_place_keeps [OF in_place_awake assms(2), of op cpu]
      by (cases "st = Sleeping") (auto simp: set_process_state_def leaves_def)
  next
    case (OpSetCurrentState st)
    then show ?thesis using assms update_other_keeps [OF assms(1,2)] in_place_keeps [OF in_place_awake assms(2), of op cpu]
      by (cases "st = Sleeping") (auto simp: set_current_process_state_def leaves_def split: option.split)
  qed (use in_place_keeps [OF in_place_awake assms(2), of op cpu] in simp_all)
qed

lemma request_at:
  assumes "proc_inv s" "i < length (PROCESS_TABLE s)" "PROCESS_TABLE s ! i = Some e" "pid (process e) = p"
  shows "PROCESS_TABLE (snd (set_process_state p st s)) ! i = Some (upd_process (request_state st) e)"
    and "current_pid c s = Some p \<Longrightarrow> PROCESS_TABLE (set_current_process_state c st s) ! i = Some (upd_process (request_state st) e)"
  using assms update_found_slot [of s i e "upd_process (request_state st)" p]
  by (simp_all add: set_process_state_def set_current_process_state_def proc_inv_def)

lemma awake_request: "awake e \<Longrightarrow> p_state (process (upd_process (request_state Sleeping) e)) \<noteq> Sleeping"
  by (auto simp: upd_process_def request_state_def awake_def runnable_def)

lemma free_registered:
  assumes "mgr_rel m (A, M)" "p \<le> MAX_PID" "p \<noteq> 0"
  shows "lookup_pid (free_pid (fst (register_pid_mapping m p i)) p) p = None \<and>
    \<not> is_pid_allocated (free_pid (fst (register_pid_mapping m p i)) p) p"
proof -
  note ok = mgr_relD [OF assms(1)]
  let ?t = "fst (tree_insert (tree m) p i)"
  have "rt_ok ?t" using tree_insert_law [OF ok(3), of p i]
    by (cases "tree_insert (tree m) p i"; cases "snd (tree_insert (tree m) p i)") (auto simp: extends_def set_process_idx_ok)
  then have "tree_lookup (fst (tree_remove ?t p)) p = None" using tree_remove_fst [of ?t p p] assms(2) by simp
  moreover have "unat p \<notin> pa_members (fst (mark_free (allocator m) p))" "pa_ok (fst (mark_free (allocator m) p))"
    using mark_free_members [OF ok(1) assms(3)] by simp_all
  ultimately show ?thesis using assms(3)
    by (auto simp: register_pid_mapping_def free_pid_def lookup_pid_def is_pid_allocated_def pa_is_allocated_iff split: prod.split)
qed

lemma pid_slot_replicate [simp]: "pid_slot (replicate n None) p = None"
  by (induction n) (simp_all add: pid_slot_def)

text \<open>
  C35: removing a process undoes adding it.  For a process with a fresh PID of at most 18 bits and room
  in the table, adding it and then removing it restores the process table, leaves the PID without a
  mapping and free in the allocator, and hands its resources back in the order descriptors, kernel
  stack, page tables, user memory.
\<close>

theorem add_remove_roundtrip:
  assumes "proc_inv s" "pid_slot (PROCESS_TABLE s) (pid pr) = None" "None \<in> set (PROCESS_TABLE s)"
    and "mgr_rel (PID_MANAGER s) (A, M)" "pid pr \<le> MAX_PID" "pid pr \<noteq> 0" "current_pid cpu s \<noteq> Some (pid pr)"
    and "open_fds pr \<noteq> 0" "kernel_stack pr \<noteq> 0" "cr3 pr \<noteq> 0" "memory_base pr \<noteq> 0" "memory_size pr \<noteq> 0"
    and "s' = snd (remove_process cpu (pid pr) (snd (add_process_with_policy pr prio pol n s)))"
  shows "PROCESS_TABLE s' = PROCESS_TABLE s \<and> lookup_pid (PID_MANAGER s') (pid pr) = None \<and>
    \<not> is_pid_allocated (PID_MANAGER s') (pid pr) \<and>
    calls s' = calls s @ [CloseAllFds (open_fds pr), DeallocStack (kernel_stack pr), FreeAddressSpace (cr3 pr),
      FreeUserRegion (memory_base pr) (memory_size pr)]"
proof -
  let ?p = "pid pr" let ?s1 = "snd (add_process_with_policy pr prio pol n s)"
  let ?e = "new_entry pr prio pol n (GLOBAL_TICK s) (MIN_VRUNTIME s)"
  obtain i where i: "find_slot (\<lambda>slot. slot = None) (PROCESS_TABLE s) = Some i"
    using assms(3) by (cases "find_slot (\<lambda>slot. slot = None) (PROCESS_TABLE s)") (auto simp: find_slot_None_iff)
  then have il: "i < length (PROCESS_TABLE s)" "PROCESS_TABLE s ! i = None" using find_slot_SomeD [OF i] by auto
  have e: "process ?e = pr" by (simp add: new_entry_def Let_def)
  have t1: "PROCESS_TABLE ?s1 = (PROCESS_TABLE s)[i := Some ?e]" using i by (simp add: add_process_table)
  have "pids_distinct (PROCESS_TABLE ?s1)" unfolding t1 using assms(1,2) e by (simp add: distinct_fill proc_inv_def)
  then have f: "find_process ?s1 ?p = Some i" using find_process_iff [of ?s1 ?p i] il e by (simp add: t1)
  have ea: "process (entry_at ?s1 i) = pr" using il e by (simp add: entry_at_def t1)
  have fr: "current_pid cpu (remove_slot i ?s1) = current_pid cpu s" "calls ?s1 = calls s"
      "PID_MANAGER ?s1 = fst (register_pid_mapping (PID_MANAGER s) ?p (of_nat i))"
    using i by (simp_all add: current_pid_def remove_slot_def add_process_alt insert_process_def Let_def cong: option.case_cong)
  have s': "s' = (release_resources pr (remove_slot i ?s1))\<lparr> PID_MANAGER := free_pid (PID_MANAGER ?s1) ?p \<rparr>"
    using f ea fr(1) assms(7,13)
    by (simp add: remove_process_def Let_def release_resources_def record_call_def remove_slot_def)
  have "(PROCESS_TABLE s)[i := None] = PROCESS_TABLE s" using il list_update_id [of "PROCESS_TABLE s" i] by simp
  then have "PROCESS_TABLE s' = PROCESS_TABLE s" by (simp add: s' remove_slot_def t1)
  moreover have "calls s' = calls s @ [CloseAllFds (open_fds pr), DeallocStack (kernel_stack pr), FreeAddressSpace (cr3 pr),
      FreeUserRegion (memory_base pr) (memory_size pr)]"
    using assms(8-12) fr(2) by (simp add: s' release_resources_def record_call_def remove_slot_def)
  moreover have "lookup_pid (PID_MANAGER s') ?p = None \<and> \<not> is_pid_allocated (PID_MANAGER s') ?p"
    using free_registered [OF assms(4-6)] by (simp add: s' fr(3))
  ultimately show ?thesis by blast
qed

theorem add_remove_roundtrip_witness:
  "let pr = Process_empty\<lparr> pid := 5, open_fds := 3, kernel_stack := 4096, cr3 := 8192, memory_base := 4096, memory_size := 4096 \<rparr>
   in PROCESS_TABLE (snd (remove_process 0 5 (snd (add_process_with_policy pr 128 Normal 0 sched_boot)))) = PROCESS_TABLE sched_boot"
proof -
  let ?pr = "Process_empty\<lparr> pid := 5, open_fds := 3, kernel_stack := 4096, cr3 := 8192, memory_base := 4096, memory_size := 4096 \<rparr>"
  have b: "PROCESS_TABLE sched_boot = replicate MAX_PROCESSES None" "PID_MANAGER sched_boot = PidManager_new"
    by (simp_all add: sched_boot_def)
  have m: "mgr_rel (PID_MANAGER sched_boot) ({0}, Map.empty)" unfolding b by (rule mgr_rel_new)
  have c: "current_pid 0 sched_boot \<noteq> Some (pid ?pr)"
    by (simp add: current_pid_def sched_boot_def get_percpu_sched_def percpu_boot_def MAX_CPUS_def)
  have n: "None \<in> set (PROCESS_TABLE sched_boot)" "pid_slot (PROCESS_TABLE sched_boot) (pid ?pr) = None"
    unfolding b by (simp_all add: MAX_PROCESSES_def)
  from add_remove_roundtrip [OF proc_inv_boot n(2,1) m _ _ c _ _ _ _ _ refl, of 128 Normal 0]
  show ?thesis by (simp add: MAX_PID_def)
qed

end
