(* ===== verification/Futex.thy ===== *)
theory Futex
  imports Process_Ops
begin

unbundle bit_operations_syntax

text \<open>
  Futexes and clone flags: \<open>src/src/syscalls/thread.rs\<close>.  The wait queue is the field \<open>FUTEX_WAITERS\<close>
  of the scheduler state and is not protected by any lock, so \<open>futex_wait\<close> is given as the separate
  steps it consists of (join the queue, request to sleep, leave the queue), between which other CPUs
  run.  The value read from user memory is an argument.
\<close>

section \<open>Operations\<close>

definition CLONE_VM :: u64 where "CLONE_VM = 0x100"
definition CLONE_SIGHAND :: u64 where "CLONE_SIGHAND = 0x800"
definition CLONE_THREAD :: u64 where "CLONE_THREAD = 0x10000"

definition EINVAL :: int where "EINVAL = 22"
definition EAGAIN :: int where "EAGAIN = 11"
definition ENOSYS :: int where "ENOSYS = 38"

definition validate_clone_flags :: "u64 \<Rightarrow> (unit, int) result" where
  "validate_clone_flags flags =
     (if flags AND CLONE_THREAD \<noteq> 0 \<and> flags AND CLONE_SIGHAND = 0 then Err EINVAL
      else if flags AND CLONE_SIGHAND \<noteq> 0 \<and> flags AND CLONE_VM = 0 then Err EINVAL
      else Ok ())"

definition free_waiter :: "FutexWaiter \<Rightarrow> bool" where
  "free_waiter w \<longleftrightarrow> \<not> fw_in_use w"

definition futex_join :: "u64 \<Rightarrow> Pid \<Rightarrow> sched_state \<Rightarrow> bool \<times> sched_state" where
  "futex_join uaddr p s =
     (case find_slot free_waiter (FUTEX_WAITERS s) of
        None \<Rightarrow> (False, s)
      | Some i \<Rightarrow> (True, s\<lparr> FUTEX_WAITERS := (FUTEX_WAITERS s)[i := \<lparr> fw_uaddr = uaddr, fw_pid = p, fw_in_use = True \<rparr>] \<rparr>))"

definition futex_leave :: "u64 \<Rightarrow> Pid \<Rightarrow> sched_state \<Rightarrow> sched_state" where
  "futex_leave uaddr p s =
     (case find_slot (\<lambda>w. fw_in_use w \<and> fw_pid w = p \<and> fw_uaddr w = uaddr) (FUTEX_WAITERS s) of
        None \<Rightarrow> s
      | Some i \<Rightarrow> s\<lparr> FUTEX_WAITERS := modify_nth i (\<lambda>w. w\<lparr> fw_in_use := False \<rparr>) (FUTEX_WAITERS s) \<rparr>)"

text \<open>\<open>futex_wait\<close> up to the call of the scheduler: an errno, or the state in which it yields the CPU.\<close>

definition futex_wait :: "u64 \<Rightarrow> int \<Rightarrow> int \<Rightarrow> Pid option \<Rightarrow> sched_state \<Rightarrow> (unit, int) result \<times> sched_state" where
  "futex_wait uaddr val current_val current s =
     (let p = (case current of None \<Rightarrow> 0 | Some p \<Rightarrow> p) in
      if current_val \<noteq> val then (Err EAGAIN, s)
      else case futex_join uaddr p s of
          (False, s1) \<Rightarrow> (Err EAGAIN, s1)
        | (True, s1) \<Rightarrow>
            (case set_process_state p Sleeping s1 of
               (Err m, s2) \<Rightarrow> (Err EAGAIN, futex_leave uaddr p s2)
             | (Ok (), s2) \<Rightarrow> (Ok (), s2)))"

text \<open>After the scheduler returns to the waiter.\<close>

definition futex_wait_resume :: "u64 \<Rightarrow> Pid option \<Rightarrow> sched_state \<Rightarrow> u64 \<times> sched_state" where
  "futex_wait_resume uaddr current s = (0, futex_leave uaddr (case current of None \<Rightarrow> 0 | Some p \<Rightarrow> p) s)"

datatype futex_outcome = FutexError int | FutexBlocked | FutexWoken u64

definition FUTEX_CMD_MASK :: u32 where "FUTEX_CMD_MASK = NOT 384"

definition futex :: "u64 \<Rightarrow> u32 \<Rightarrow> int \<Rightarrow> int \<Rightarrow> Pid option \<Rightarrow> sched_state \<Rightarrow> futex_outcome \<times> sched_state" where
  "futex uaddr op val current_val current s =
     (let cmd = op AND FUTEX_CMD_MASK in
      if uaddr = 0 then (FutexError EINVAL, s)
      else if uaddr AND 3 \<noteq> 0 then (FutexError EINVAL, s)
      else if cmd = 0 \<or> cmd = 9 then
        (case futex_wait uaddr val current_val current s of
           (Err e, s1) \<Rightarrow> (FutexError e, s1)
         | (Ok (), s1) \<Rightarrow> (FutexBlocked, s1))
      else if cmd = 1 \<or> cmd = 10 then (case futex_wake uaddr val s of (n, s1) \<Rightarrow> (FutexWoken n, s1))
      else (FutexError ENOSYS, s))"

section \<open>What a wake does to the queue\<close>

definition waits_on :: "u64 \<Rightarrow> FutexWaiter \<Rightarrow> bool" where
  "waits_on a w \<longleftrightarrow> fw_in_use w \<and> fw_uaddr w = a"

lemma set_process_state_waiters: "FUTEX_WAITERS (snd (set_process_state p st s)) = FUTEX_WAITERS s"
  by (simp add: set_process_state_def update_found_def split: option.split)

lemma find_process_state:
  "pids_distinct (PROCESS_TABLE s) \<Longrightarrow> find_process (snd (set_process_state q st s)) p = find_process s p"
proof -
  assume d: "pids_distinct (PROCESS_TABLE s)"
  let ?s = "snd (set_process_state q st s)"
  have r: "table_rel (evolves {}) s ?s" by (rule update_any_state_evolves)
  have "has_pid p (PROCESS_TABLE ?s ! i) \<longleftrightarrow> has_pid p (PROCESS_TABLE s ! i)" if "i < length (PROCESS_TABLE s)" for i
    using table_relD(2) [OF r that] by (cases rule: option.rel_cases) (auto simp: evolves_def)
  then have "find_process ?s p = Some i \<longleftrightarrow> find_process s p = Some i" for i
    using find_process_iff [of ?s p i] find_process_iff [OF d, of p i] table_evolves_distinct [OF r] d table_relD(1) [OF r] by auto
  then show ?thesis by (cases "find_process s p"; cases "find_process ?s p") auto
qed

lemma set_process_state_result: "fst (set_process_state p st s) = (if find_process s p = None then Err ''Process not found'' else Ok ())"
  by (simp add: set_process_state_def update_found_def split: option.split)

lemma loop_skip: "\<forall>j \<in> set js. \<not> waits_on a (FUTEX_WAITERS s ! j) \<Longrightarrow> futex_wake_loop a v (js @ ks) n s = futex_wake_loop a v ks n s"
  by (induction js) (auto simp: waits_on_def Let_def)

text \<open>One waiter on the address: a wake makes its process ready and takes it off the queue.\<close>

lemma single_waiter_wake:
  assumes "0 < v" "j < length (FUTEX_WAITERS s)" "waits_on a (FUTEX_WAITERS s ! j)" "fw_pid (FUTEX_WAITERS s ! j) = p"
    and "\<forall>k < length (FUTEX_WAITERS s). k \<noteq> j \<longrightarrow> \<not> waits_on a (FUTEX_WAITERS s ! k)" "find_process s p \<noteq> None"
  shows "futex_wake a v s = (1, (snd (set_process_state p Ready s))\<lparr> FUTEX_WAITERS :=
    modify_nth j (\<lambda>w. w\<lparr> fw_in_use := False \<rparr>) (FUTEX_WAITERS s) \<rparr>)" (is "_ = (1, ?s2)")
proof -
  let ?n = "length (FUTEX_WAITERS s)"
  have up: "[0..<?n] = [0..<j] @ j # [Suc j..<?n]" using upt_add_eq_append [of 0 j "?n - j"] upt_conv_Cons [of j ?n] assms(2) by simp
  obtain s1 where s1: "set_process_state p Ready s = (Ok (), s1)" "FUTEX_WAITERS s1 = FUTEX_WAITERS s"
    using set_process_state_result [of p Ready s] set_process_state_waiters [of p Ready s] assms(6) by (cases "set_process_state p Ready s") simp
  have "\<forall>k \<in> set [Suc j..<?n]. \<not> waits_on a (FUTEX_WAITERS ?s2 ! k)" using assms(5) by auto
  then have rest: "futex_wake_loop a (nat v) [Suc j..<?n] 1 ?s2 = (1, ?s2)" using loop_skip [of "[Suc j..<?n]" a ?s2 "nat v" "[]" 1] by simp
  have *: "futex_wake a v s = futex_wake_loop a (nat v) (j # [Suc j..<?n]) 0 s"
    using assms(1,2,5) loop_skip [of "[0..<j]" a s "nat v" "j # [Suc j..<?n]" 0] by (simp add: futex_wake_def up)
  show ?thesis unfolding * futex_wake_loop.simps Let_def using rest s1 assms(3,4) by (auto simp: waits_on_def split: unit.split)
qed

text \<open>A process that no queued waiter names is not touched by any wake.\<close>

lemma wake_frame:
  assumes "proc_inv s" "i < length (PROCESS_TABLE s)" "PROCESS_TABLE s ! i = Some e" "set is \<subseteq> {..<length (FUTEX_WAITERS s)}"
    and "\<forall>w \<in> set (FUTEX_WAITERS s). fw_in_use w \<longrightarrow> fw_pid w \<noteq> pid (process e)"
  shows "PROCESS_TABLE (snd (futex_wake_loop a v is n s)) ! i = Some e"
  using assms
proof (induction "is" arbitrary: n s)
  case (Cons j js)
  let ?w = "FUTEX_WAITERS s ! j"
  obtain r s1 where r: "set_process_state (fw_pid ?w) Ready s = (r, s1)" by (meson surj_pair)
  define s2 where "s2 = s1\<lparr> FUTEX_WAITERS := modify_nth j (\<lambda>w. w\<lparr> fw_in_use := False \<rparr>) (FUTEX_WAITERS s1) \<rparr>"
  have ev: "table_rel (evolves {}) s s1" using update_any_state_evolves(1) [of "{}" s "fw_pid ?w" Ready] r by simp
  have w1: "FUTEX_WAITERS s1 = FUTEX_WAITERS s" using set_process_state_waiters [of "fw_pid ?w" Ready s] r by simp
  show ?case
  proof (cases "fw_in_use ?w \<and> fw_uaddr ?w = a")
    case True
    then have "fw_pid ?w \<noteq> pid (process e)" using Cons.prems(4,5) by auto
    then have e1: "PROCESS_TABLE s1 ! i = Some e"
      using update_found_slot [of s i e "upd_process (request_state Ready)" "fw_pid ?w"] Cons.prems r
      by (auto simp: set_process_state_def proc_inv_def)
    have 1: "proc_inv s1" "i < length (PROCESS_TABLE s1)" using evolves_inv [OF ev Cons.prems(1)] table_relD(1) [OF ev] Cons.prems(2) by simp_all
    have "set (FUTEX_WAITERS s2) \<subseteq> set (FUTEX_WAITERS s) \<union> {?w\<lparr> fw_in_use := False \<rparr>}"
      using set_update_subset_insert [of "FUTEX_WAITERS s" j] by (auto simp: s2_def w1 modify_nth_def)
    then have f2: "\<forall>w \<in> set (FUTEX_WAITERS s2). fw_in_use w \<longrightarrow> fw_pid w \<noteq> pid (process e)" using Cons.prems(5) by fastforce
    have 2: "proc_inv s2" "i < length (PROCESS_TABLE s2)" "PROCESS_TABLE s2 ! i = Some e" "set js \<subseteq> {..<length (FUTEX_WAITERS s2)}"
      using 1 e1 Cons.prems(4) by (simp_all add: s2_def proc_inv_def w1)
    have "PROCESS_TABLE (snd (futex_wake_loop a v js m s1)) ! i = Some e" for m
      using Cons.IH [OF 1 e1] Cons.prems(4,5) by (simp add: w1)
    then show ?thesis using True r Cons.IH [OF 2 f2] e1 2(3) unfolding futex_wake_loop.simps Let_def s2_def
      by (cases r) (auto split: unit.split)
  next
    case False
    then show ?thesis using Cons.IH [OF Cons.prems(1-3)] Cons.prems(4,5) by (auto simp: Let_def)
  qed
qed simp

section \<open>Wait and wake\<close>

lemma join_queue:
  assumes "futex_join a p s = (True, s1)" "\<forall>w \<in> set (FUTEX_WAITERS s). \<not> waits_on a w"
  shows "\<exists>j. s1 = s\<lparr> FUTEX_WAITERS := FUTEX_WAITERS s1 \<rparr> \<and> j < length (FUTEX_WAITERS s) \<and>
    FUTEX_WAITERS s1 = (FUTEX_WAITERS s)[j := \<lparr> fw_uaddr = a, fw_pid = p, fw_in_use = True \<rparr>] \<and>
    waits_on a (FUTEX_WAITERS s1 ! j) \<and> fw_pid (FUTEX_WAITERS s1 ! j) = p \<and>
    (\<forall>k < length (FUTEX_WAITERS s1). k \<noteq> j \<longrightarrow> \<not> waits_on a (FUTEX_WAITERS s1 ! k))"
proof -
  obtain j where j: "find_slot free_waiter (FUTEX_WAITERS s) = Some j"
    "s1 = s\<lparr> FUTEX_WAITERS := (FUTEX_WAITERS s)[j := \<lparr> fw_uaddr = a, fw_pid = p, fw_in_use = True \<rparr>] \<rparr>"
    using assms(1) by (auto simp: futex_join_def split: option.splits)
  then have "j < length (FUTEX_WAITERS s)" using find_slot_SomeD [OF j(1)] by blast
  then show ?thesis using assms(2) by (intro exI [of _ j]) (auto simp: j(2) waits_on_def)
qed

lemma request_slot:
  assumes "proc_inv s" "i < MAX_PROCESSES" "PROCESS_TABLE s ! i = Some e"
  shows "PROCESS_TABLE (snd (set_process_state (pid (process e)) st s)) ! i = Some (upd_process (request_state st) e)"
    and "find_process s (pid (process e)) \<noteq> None" "proc_inv (snd (set_process_state (pid (process e)) st s))"
proof -
  have l: "length (PROCESS_TABLE s) = MAX_PROCESSES" "pids_distinct (PROCESS_TABLE s)"
    using assms(1) by (simp_all add: proc_inv_def table_ok_def)
  show "PROCESS_TABLE (snd (set_process_state (pid (process e)) st s)) ! i = Some (upd_process (request_state st) e)"
    using update_found_slot [of s i e _ "pid (process e)"] l assms by (simp add: set_process_state_def)
  show "find_process s (pid (process e)) \<noteq> None" using find_process_iff [OF l(2), of "pid (process e)" i] l(1) assms(2,3) by simp
  show "proc_inv (snd (set_process_state (pid (process e)) st s))"
    using evolves_inv [OF update_any_state_evolves(1) assms(1)] .
qed

text \<open>
  C31: a waiter that is asleep is woken.  When a runnable process without a pending wake waits on an
  address nobody else waits on and the call finds a free place in the queue, it goes to sleep there, and
  a wake of that address for one or more waiters reports one process woken and makes it ready.
\<close>

theorem futex_wake_wakes_waiter:
  assumes "proc_inv s" "i < MAX_PROCESSES" "PROCESS_TABLE s ! i = Some e" "runnable e" "\<not> wake_pending (process e)"
    and "\<forall>w \<in> set (FUTEX_WAITERS s). \<not> waits_on a w" "0 < v"
    and "futex_wait a x x (Some (pid (process e))) s = (Ok (), s1)"
  shows "\<exists>e1 e2. PROCESS_TABLE s1 ! i = Some e1 \<and> p_state (process e1) = Sleeping \<and> fst (futex_wake a v s1) = 1 \<and>
    PROCESS_TABLE (snd (futex_wake a v s1)) ! i = Some e2 \<and> p_state (process e2) = Ready"
proof -
  let ?p = "pid (process e)"
  obtain sj where sj: "futex_join a ?p s = (True, sj)" "s1 = snd (set_process_state ?p Sleeping sj)"
    using assms(8) by (auto simp: futex_wait_def Let_def split: prod.splits bool.splits result.splits unit.splits)
  obtain j where j: "sj = s\<lparr> FUTEX_WAITERS := FUTEX_WAITERS sj \<rparr>" "j < length (FUTEX_WAITERS s)" "waits_on a (FUTEX_WAITERS sj ! j)"
    "FUTEX_WAITERS sj = (FUTEX_WAITERS s)[j := \<lparr> fw_uaddr = a, fw_pid = ?p, fw_in_use = True \<rparr>]"
    "fw_pid (FUTEX_WAITERS sj ! j) = ?p" "\<forall>k < length (FUTEX_WAITERS sj). k \<noteq> j \<longrightarrow> \<not> waits_on a (FUTEX_WAITERS sj ! k)"
    using join_queue [OF sj(1) assms(6)] by metis
  have t: "PROCESS_TABLE sj = PROCESS_TABLE s" by (subst j(1)) simp
  have ij: "proc_inv sj" using assms(1) by (simp add: proc_inv_def t)
  let ?e1 = "upd_process (request_state Sleeping) e"
  have e1: "PROCESS_TABLE s1 ! i = Some ?e1" "proc_inv s1" using request_slot(1,3) [OF ij assms(2), of e Sleeping] assms(3) t sj(2) by simp_all
  have q1: "FUTEX_WAITERS s1 = FUTEX_WAITERS sj" using sj(2) set_process_state_waiters by simp
  have st: "p_state (process ?e1) = Sleeping" "pid (process ?e1) = ?p"
    using assms(4,5) by (auto simp: upd_process_def request_state_def runnable_def)
  have "futex_wake a v s1 = (1, (snd (set_process_state ?p Ready s1))\<lparr> FUTEX_WAITERS := modify_nth j (\<lambda>w. w\<lparr> fw_in_use := False \<rparr>) (FUTEX_WAITERS s1) \<rparr>)"
    using single_waiter_wake [of v j s1 a ?p] assms(7) j q1 request_slot(2) [OF e1(2) assms(2) e1(1)] st(2) by simp
  then show ?thesis using request_slot(1) [OF e1(2) assms(2) e1(1), of Ready] e1(1) st
    by (simp add: upd_process_def request_state_def)
qed

text \<open>
  C34: a futex wake can be lost.  If the wake runs between the waiter's joining the queue and its
  request to sleep, it reports the waiter as woken and takes it off the queue, but sets its state with
  \<open>set_process_state\<close>, which leaves no pending wake; the waiter then goes to sleep, and no later wake
  of any address changes that.
\<close>

theorem futex_wake_lost:
  assumes "proc_inv s" "i < MAX_PROCESSES" "PROCESS_TABLE s ! i = Some e" "runnable e" "\<not> wake_pending (process e)"
    and "\<forall>w \<in> set (FUTEX_WAITERS s). \<not> waits_on a w \<and> (fw_in_use w \<longrightarrow> fw_pid w \<noteq> pid (process e))" "0 < v"
    and "futex_join a (pid (process e)) s = (True, s1)" "futex_wake a v s1 = (n, s2)"
    and "s3 = snd (set_process_state (pid (process e)) Sleeping s2)"
  shows "n = 1 \<and> (\<exists>e3. PROCESS_TABLE s3 ! i = Some e3 \<and> p_state (process e3) = Sleeping \<and>
    (\<forall>b u. PROCESS_TABLE (snd (futex_wake b u s3)) ! i = Some e3))"
proof -
  let ?p = "pid (process e)"
  have q: "\<forall>w \<in> set (FUTEX_WAITERS s). \<not> waits_on a w" using assms(6) by blast
  obtain j where j: "s1 = s\<lparr> FUTEX_WAITERS := FUTEX_WAITERS s1 \<rparr>" "j < length (FUTEX_WAITERS s)" "waits_on a (FUTEX_WAITERS s1 ! j)"
    "FUTEX_WAITERS s1 = (FUTEX_WAITERS s)[j := \<lparr> fw_uaddr = a, fw_pid = ?p, fw_in_use = True \<rparr>]"
    "fw_pid (FUTEX_WAITERS s1 ! j) = ?p" "\<forall>k < length (FUTEX_WAITERS s1). k \<noteq> j \<longrightarrow> \<not> waits_on a (FUTEX_WAITERS s1 ! k)"
    using join_queue [OF assms(8) q] by metis
  have t: "PROCESS_TABLE s1 = PROCESS_TABLE s" by (subst j(1)) simp
  have i1: "proc_inv s1" "PROCESS_TABLE s1 ! i = Some e" using assms(1,3) by (simp_all add: proc_inv_def t)
  have w: "futex_wake a v s1 = (1, (snd (set_process_state ?p Ready s1))\<lparr> FUTEX_WAITERS := modify_nth j (\<lambda>w. w\<lparr> fw_in_use := False \<rparr>) (FUTEX_WAITERS s1) \<rparr>)"
    using single_waiter_wake [of v j s1 a ?p] assms(7) j request_slot(2) [OF i1(1) assms(2) i1(2)] by simp
  let ?e2 = "upd_process (request_state Ready) e" let ?e3 = "upd_process (request_state Sleeping) ?e2"
  have s2: "PROCESS_TABLE s2 ! i = Some ?e2" "proc_inv s2" "FUTEX_WAITERS s2 = modify_nth j (\<lambda>w. w\<lparr> fw_in_use := False \<rparr>) (FUTEX_WAITERS s1)"
    using w assms(9) request_slot(1,3) [OF i1(1) assms(2) i1(2), of Ready] by (auto simp: proc_inv_def)
  have e2: "pid (process ?e2) = ?p" "p_state (process ?e3) = Sleeping" "pid (process ?e3) = ?p"
    using assms(4,5) by (auto simp: upd_process_def request_state_def runnable_def)
  have s3: "PROCESS_TABLE s3 ! i = Some ?e3" "proc_inv s3" "FUTEX_WAITERS s3 = FUTEX_WAITERS s2"
    using request_slot(1,3) [OF s2(2) assms(2) s2(1), of Sleeping] assms(10) e2(1) set_process_state_waiters by simp_all
  have "\<not> fw_in_use (FUTEX_WAITERS s3 ! k) \<or> fw_pid (FUTEX_WAITERS s3 ! k) \<noteq> ?p" if "k < length (FUTEX_WAITERS s3)" for k
    using that assms(6) j(2,4) by (auto simp: s3(3) s2(3) nth_list_update)
  then have "\<forall>w \<in> set (FUTEX_WAITERS s3). fw_in_use w \<longrightarrow> fw_pid w \<noteq> pid (process ?e3)" unfolding e2(3) by (metis in_set_conv_nth)
  moreover have "i < length (PROCESS_TABLE s3)" using s3(2) assms(2) by (simp add: proc_inv_def table_ok_def)
  ultimately have "PROCESS_TABLE (snd (futex_wake_loop b (nat u) [0..<length (FUTEX_WAITERS s3)] 0 s3)) ! i = Some ?e3" for b u
    by (intro wake_frame s3) auto
  then have "PROCESS_TABLE (snd (futex_wake b u s3)) ! i = Some ?e3" for b u using s3(1) by (simp add: futex_wake_def)
  then show ?thesis using w assms(9) s3(1) e2(2) by auto
qed

text \<open>The sample state of the two witnesses: one ready process with PID 5.\<close>

definition one_process :: sched_state where
  "one_process = sched_boot\<lparr> PROCESS_TABLE := Some (new_entry (Process_empty\<lparr> pid := 5 \<rparr>) 128 Normal 0 0 0) # replicate 63 None \<rparr>"

lemma one_process_inv: "proc_inv one_process"
proof -
  let ?e = "new_entry (Process_empty\<lparr> pid := 5 \<rparr>) 128 Normal 0 0 0"
  have "sleep_ok ?e" by (simp add: sleep_ok_def new_entry_def Let_def Process_empty_def)
  then show ?thesis
    by (simp add: proc_inv_def one_process_def table_ok_def MAX_PROCESSES_def pids_distinct_def new_entry_ok list_all_iff)
qed

lemma one_process_entry:
  "PROCESS_TABLE one_process ! 0 = Some (new_entry (Process_empty\<lparr> pid := 5 \<rparr>) 128 Normal 0 0 0)"
  "runnable (new_entry (Process_empty\<lparr> pid := 5 \<rparr>) 128 Normal 0 0 0)" "\<not> wake_pending (process (new_entry (Process_empty\<lparr> pid := 5 \<rparr>) 128 Normal 0 0 0))"
  "pid (process (new_entry (Process_empty\<lparr> pid := 5 \<rparr>) 128 Normal 0 0 0)) = 5"
  "\<forall>w \<in> set (FUTEX_WAITERS one_process). \<not> waits_on a w \<and> (fw_in_use w \<longrightarrow> fw_pid w \<noteq> p)"
  by (simp_all add: one_process_def new_entry_def Let_def Process_empty_def runnable_def sched_boot_def waits_on_def FutexWaiter_empty_def)

lemma one_process_join: "fst (futex_join a p one_process)"
proof -
  have "replicate MAX_FUTEX_WAITERS FutexWaiter_empty = FutexWaiter_empty # replicate 63 FutexWaiter_empty"
    by (simp add: MAX_FUTEX_WAITERS_def numeral_eq_Suc)
  then show ?thesis by (simp add: futex_join_def one_process_def sched_boot_def free_waiter_def FutexWaiter_empty_def)
qed

theorem futex_wake_lost_witness:
  "let s1 = snd (futex_join 4096 5 one_process); s2 = snd (futex_wake 4096 1 s1); s3 = snd (set_process_state 5 Sleeping s2)
   in \<exists>e3. PROCESS_TABLE s3 ! 0 = Some e3 \<and> p_state (process e3) = Sleeping"
proof -
  have j: "futex_join 4096 5 one_process = (True, snd (futex_join 4096 5 one_process))"
    using one_process_join [of 4096 5] by (cases "futex_join 4096 5 one_process") simp
  have "0 < MAX_PROCESSES" by (simp add: MAX_PROCESSES_def)
  from futex_wake_lost [OF one_process_inv this one_process_entry(1-3) one_process_entry(5), of 1 4096,
      unfolded one_process_entry(4), OF _ j _ refl] show ?thesis unfolding Let_def by (metis prod.collapse zero_less_one)
qed

theorem futex_wake_wakes_waiter_witness:
  "\<exists>e2. PROCESS_TABLE (snd (futex_wake 4096 1 (snd (futex_wait 4096 7 7 (Some 5) one_process)))) ! 0 = Some e2 \<and> p_state (process e2) = Ready"
proof -
  let ?e = "new_entry (Process_empty\<lparr> pid := 5 \<rparr>) 128 Normal 0 0 0"
  obtain s1 where j: "futex_join 4096 5 one_process = (True, s1)"
    using one_process_join [of 4096 5] by (cases "futex_join 4096 5 one_process") simp
  have t: "PROCESS_TABLE s1 = PROCESS_TABLE one_process" using j by (auto simp: futex_join_def split: option.splits)
  have b: "0 < MAX_PROCESSES" by (simp add: MAX_PROCESSES_def)
  have "proc_inv s1" "PROCESS_TABLE s1 ! 0 = Some ?e" using one_process_inv one_process_entry(1) by (simp_all add: proc_inv_def t)
  from request_slot(2) [OF this(1) b this(2)] obtain s2 where r: "set_process_state 5 Sleeping s1 = (Ok (), s2)"
    using set_process_state_result [of 5 Sleeping s1] one_process_entry(4) by (cases "set_process_state 5 Sleeping s1") simp
  have w: "futex_wait 4096 7 7 (Some (pid (process ?e))) one_process = (Ok (), s2)"
    unfolding one_process_entry(4) by (simp add: futex_wait_def j r split: unit.split)
  have "\<forall>w \<in> set (FUTEX_WAITERS one_process). \<not> waits_on 4096 w" using one_process_entry(5) by blast
  from futex_wake_wakes_waiter [OF one_process_inv b one_process_entry(1-3) this, of 1, OF _ w] w
  show ?thesis unfolding one_process_entry(4) by auto
qed

end
