(* ===== verification/Sched_Core.thy ===== *)
theory Sched_Core
  imports Process_Ops
begin

text \<open>
  Choosing the next process and the timer tick: \<open>src/src/scheduler/core.rs\<close>, lines 35 to 506.  The
  candidate of \<open>schedule\<close> is found by a scan with a short cut for realtime processes; the scan is
  proved equal to the plain best-candidate scan of \<open>Selection\<close>, whose locale gives the optimality.
  The CPU that executes the code is the argument \<open>cpu\<close>; whether the table's lock is held by the
  interrupted code is the argument \<open>table_locked\<close> of \<open>tick\<close>.
\<close>

section \<open>Candidates\<close>

text \<open>Index, virtual deadline, policy, eligibility and priority.\<close>

type_synonym EevdfCandidate = "nat \<times> u64 \<times> SchedPolicy \<times> bool \<times> u8"

fun should_replace_candidate :: "EevdfCandidate \<Rightarrow> EevdfCandidate \<Rightarrow> bool" where
  "should_replace_candidate (_, c_vdl, c_policy, c_eligible, c_pri) (_, b_vdl, b_policy, b_eligible, b_pri) =
     (case (c_policy, b_policy) of
        (Realtime, Realtime) \<Rightarrow> c_pri < b_pri
      | (Realtime, _) \<Rightarrow> True
      | (_, Realtime) \<Rightarrow> False
      | (Idle, Idle) \<Rightarrow> c_vdl < b_vdl
      | (_, Idle) \<Rightarrow> True
      | (Idle, _) \<Rightarrow> False
      | _ \<Rightarrow> (case (c_eligible, b_eligible) of
                (True, False) \<Rightarrow> True
              | (False, True) \<Rightarrow> False
              | _ \<Rightarrow> c_vdl < b_vdl))"

text \<open>
  Waiting processes earn lag, up to 100 ms.  The quotient of \<open>i64\<close> values is Rust's truncating one;
  the total weight of a well-formed table is far below the range where its cast changes sign.
\<close>

definition MAX_LAG :: int where "MAX_LAG = 100000000"

definition credit_entry :: "u64 \<Rightarrow> u64 \<Rightarrow> ProcessEntry \<Rightarrow> ProcessEntry" where
  "credit_entry current_tick total_w e =
     (if p_state (process e) \<noteq> Ready then e
      else let wait_delta = saturating_sub current_tick (last_scheduled e) in
        if wait_delta = 0 then e
        else let lag_credit = wrap_i64 (sint (ms_to_ns wait_delta) * sint (weight e)) sdiv sint total_w
          in e\<lparr> wait_time := saturating_add (wait_time e) wait_delta, lag := min (sat_i64 (lag e + lag_credit)) MAX_LAG \<rparr>)"

definition update_ready_process_eevdf :: "proc_table \<Rightarrow> u64 \<Rightarrow> proc_table" where
  "update_ready_process_eevdf table current_tick =
     (let total_w = total_weight table;
          ready_count = length [e. Some e \<leftarrow> table, runnable e]
      in if ready_count \<le> 1 \<or> total_w = 0 then table
         else map (map_option (credit_entry current_tick total_w)) table)"

definition find_start_index :: "proc_table \<Rightarrow> Pid option \<Rightarrow> nat" where
  "find_start_index table current =
     (case current of
        None \<Rightarrow> 0
      | Some curr_pid \<Rightarrow> (case pid_slot table curr_pid of None \<Rightarrow> 0 | Some idx \<Rightarrow> (idx + 1) mod MAX_PROCESSES))"

definition candidate_of :: "nat \<Rightarrow> ProcessEntry \<Rightarrow> EevdfCandidate" where
  "candidate_of idx e = (idx, vdeadline e, policy e, is_eligible e, priority e)"

text \<open>The loop of \<open>find_best_candidate\<close> with its variables \<open>best_candidate\<close> and \<open>found_realtime\<close>.\<close>

fun find_best_loop :: "nat \<Rightarrow> (nat \<times> ProcessEntry option) list \<Rightarrow> EevdfCandidate option \<Rightarrow> bool \<Rightarrow> EevdfCandidate option" where
  "find_best_loop cpu [] best found_realtime = best"
| "find_best_loop cpu ((idx, None) # slots) best found_realtime = find_best_loop cpu slots best found_realtime"
| "find_best_loop cpu ((idx, Some e) # slots) best found_realtime =
     (if p_state (process e) \<noteq> Ready then find_best_loop cpu slots best found_realtime
      else if \<not> cm_is_set (cpu_affinity e) cpu then find_best_loop cpu slots best found_realtime
      else if found_realtime \<and> policy e \<noteq> Realtime then find_best_loop cpu slots best found_realtime
      else if policy e = Realtime then
        (if \<not> found_realtime then find_best_loop cpu slots (Some (candidate_of idx e)) True
         else case best of
             None \<Rightarrow> find_best_loop cpu slots best found_realtime
           | Some (_, _, _, _, best_pri) \<Rightarrow>
               if priority e < best_pri then find_best_loop cpu slots (Some (candidate_of idx e)) found_realtime
               else find_best_loop cpu slots best found_realtime)
      else if (case best of None \<Rightarrow> True | Some b \<Rightarrow> should_replace_candidate (candidate_of idx e) b)
        then find_best_loop cpu slots (Some (candidate_of idx e)) found_realtime
      else find_best_loop cpu slots best found_realtime)"

definition find_best_candidate :: "nat \<Rightarrow> proc_table \<Rightarrow> nat \<Rightarrow> EevdfCandidate option" where
  "find_best_candidate cpu table start_idx = find_best_loop cpu (enumerate 0 table) None False"

section \<open>\<open>schedule\<close>\<close>

definition update_previous_process_state :: "proc_table \<Rightarrow> Pid \<Rightarrow> u64 \<Rightarrow> proc_table" where
  "update_previous_process_state table curr_pid current_tick =
     (case find_slot (\<lambda>slot. case slot of None \<Rightarrow> False
          | Some e \<Rightarrow> pid (process e) = curr_pid \<and> p_state (process e) = Running) table of
        None \<Rightarrow> table
      | Some i \<Rightarrow> upd_entry (\<lambda>e. e\<lparr> process := (process e)\<lparr> p_state := Ready \<rparr>, last_scheduled := current_tick \<rparr>) i table)"

definition start_entry :: "u64 \<Rightarrow> ProcessEntry \<Rightarrow> ProcessEntry" where
  "start_entry current_tick e =
     (let e1 = (if slice_remaining_ns e = 0 then replenish_slice e else e)
      in e1\<lparr> process := (process e1)\<lparr> p_state := Running \<rparr>, last_scheduled := current_tick, wait_time := 0,
             cpu_burst_count := cpu_burst_count e1 + 1, lag := 0,
             vdeadline := calc_vdeadline (vruntime e1) (slice_ns e1) (weight e1) \<rparr>)"

text \<open>The part under the lock; then the CPU's running process is set and the minimum updated under locks of their own.\<close>

definition schedule_locked :: "nat \<Rightarrow> sched_state \<Rightarrow> Pid option \<times> sched_state" where
  "schedule_locked cpu s =
     (let current = current_pid cpu s;
          table1 = update_ready_process_eevdf (PROCESS_TABLE s) (GLOBAL_TICK s);
          start_idx = find_start_index table1 current
      in case find_best_candidate cpu table1 start_idx of
           None \<Rightarrow> (None, s\<lparr> PROCESS_TABLE := table1 \<rparr>)
         | Some (next_idx, _, _, _, _) \<Rightarrow>
             (let next_pid = pid (process (the (table1 ! next_idx)));
                  table2 = (case current of None \<Rightarrow> table1 | Some p \<Rightarrow> update_previous_process_state table1 p (GLOBAL_TICK s));
                  table3 = upd_entry (start_entry (GLOBAL_TICK s)) next_idx table2
              in (Some next_pid, s\<lparr> PROCESS_TABLE := table3 \<rparr>)))"

definition schedule :: "nat \<Rightarrow> sched_state \<Rightarrow> Pid option \<times> sched_state" where
  "schedule cpu s =
     (case schedule_locked cpu s of
        (None, s1) \<Rightarrow> (None, s1)
      | (Some next_pid, s1) \<Rightarrow> (Some next_pid, refresh_min_vruntime (set_current_pid cpu (Some next_pid) s1)))"

section \<open>The timer tick\<close>

definition should_preempt_for_eevdf :: "ProcessEntry \<Rightarrow> ProcessEntry \<Rightarrow> bool" where
  "should_preempt_for_eevdf ready_entry curr_entry =
     (case (policy ready_entry, policy curr_entry) of
        (Realtime, Realtime) \<Rightarrow> priority ready_entry < priority curr_entry
      | (Realtime, _) \<Rightarrow> True
      | (_, Realtime) \<Rightarrow> False
      | _ \<Rightarrow>
          if policy curr_entry = Idle \<and> policy ready_entry \<noteq> Idle then True
          else if policy ready_entry = Idle then False
          else if policy ready_entry = Normal \<and> policy curr_entry = Normal then False
          else if weight ready_entry \<le> weight curr_entry then False
          else if \<not> is_eligible ready_entry then False
          else True)"

fun should_preempt_current :: "nat \<Rightarrow> proc_table \<Rightarrow> ProcessEntry \<Rightarrow> bool" where
  "should_preempt_current cpu [] curr_entry = False"
| "should_preempt_current cpu (None # slots) curr_entry = should_preempt_current cpu slots curr_entry"
| "should_preempt_current cpu (Some e # slots) curr_entry =
     (if p_state (process e) \<noteq> Ready then should_preempt_current cpu slots curr_entry
      else if \<not> cm_is_set (cpu_affinity e) cpu then should_preempt_current cpu slots curr_entry
      else if policy curr_entry = Realtime \<and> policy e \<noteq> Realtime then should_preempt_current cpu slots curr_entry
      else if should_preempt_for_eevdf e curr_entry then True
      else should_preempt_current cpu slots curr_entry)"

definition handle_preemption :: "Pid \<Rightarrow> sched_state \<Rightarrow> sched_state" where
  "handle_preemption curr_pid s =
     (case pid_slot (PROCESS_TABLE s) curr_pid of
        None \<Rightarrow> s
      | Some i \<Rightarrow> upd_slot (\<lambda>e. e\<lparr> preempt_count := preempt_count e + 1 \<rparr>) i s)"

definition find_current_running_entry_mut :: "proc_table \<Rightarrow> Pid \<Rightarrow> nat option" where
  "find_current_running_entry_mut table curr_pid =
     find_slot (\<lambda>slot. case slot of None \<Rightarrow> False
       | Some e \<Rightarrow> pid (process e) = curr_pid \<and> p_state (process e) = Running) table"

definition any_ready :: "proc_table \<Rightarrow> bool" where
  "any_ready table = list_ex (\<lambda>slot. case slot of None \<Rightarrow> False | Some e \<Rightarrow> p_state (process e) = Ready) table"

definition charge_tick :: "u64 \<Rightarrow> ProcessEntry \<Rightarrow> ProcessEntry" where
  "charge_tick elapsed_ns e =
     (let e1 = update_curr e elapsed_ns;
          new_burst = total_time e1 div max (cpu_burst_count e1) 1
      in e1\<lparr> avg_cpu_burst := (avg_cpu_burst e1 + new_burst) div 2 \<rparr>)"

definition tick :: "bool \<Rightarrow> nat \<Rightarrow> u64 \<Rightarrow> sched_state \<Rightarrow> bool \<times> sched_state" where
  "tick table_locked cpu elapsed_ms s =
     (let s0 = s\<lparr> GLOBAL_TICK := GLOBAL_TICK s + 1 \<rparr> in
      if table_locked then (False, s0)
      else case current_pid cpu s0 of
          None \<Rightarrow> (any_ready (PROCESS_TABLE s0), s0)
        | Some curr_pid \<Rightarrow>
            (case find_current_running_entry_mut (PROCESS_TABLE s0) curr_pid of
               None \<Rightarrow> (any_ready (PROCESS_TABLE s0), s0)
             | Some i \<Rightarrow>
                 (let s1 = upd_slot (charge_tick (ms_to_ns elapsed_ms)) i s0; e = entry_at s1 i in
                  if slice_remaining_ns e = 0 then (True, s1)
                  else case check_need_resched cpu (PERCPU s1) of
                      (resched, g) \<Rightarrow>
                        (let s2 = s1\<lparr> PERCPU := g \<rparr> in
                         if resched then (True, s2)
                         else if policy e \<noteq> Realtime then (False, s2)
                         else if should_preempt_current cpu (PROCESS_TABLE s2) e then (True, handle_preemption curr_pid s2)
                         else (False, s2)))))"

section \<open>The selection is optimal\<close>

text \<open>A process that may be given this CPU, and the plain list of candidates.\<close>

definition ready_on :: "nat \<Rightarrow> ProcessEntry \<Rightarrow> bool" where
  "ready_on cpu e \<longleftrightarrow> p_state (process e) = Ready \<and> cm_is_set (cpu_affinity e) cpu"

definition candidates :: "nat \<Rightarrow> (nat \<times> ProcessEntry option) list \<Rightarrow> (nat \<times> EevdfCandidate) list" where
  "candidates cpu slots = [(idx, candidate_of idx e). (idx, Some e) \<leftarrow> slots, ready_on cpu e]"

lemma candidates_simps [simp]:
  "candidates cpu [] = []"
  "candidates cpu ((idx, None) # slots) = candidates cpu slots"
  "candidates cpu ((idx, Some e) # slots) =
     (if ready_on cpu e then (idx, candidate_of idx e) # candidates cpu slots else candidates cpu slots)"
  by (simp_all add: candidates_def)

interpretation core_order: candidate_order should_replace_candidate
proof (unfold_locales, goal_cases)
  case (1 x y)
  then show ?case
    by (cases x; cases y) (auto split: SchedPolicy.splits bool.splits)
next
  case (2 x z y)
  then show ?case
    by (cases x; cases y; cases z) (auto split: SchedPolicy.splits bool.splits)
qed

text \<open>What \<open>found_realtime\<close> records: whether the best candidate so far is realtime.\<close>

fun realtime_best :: "EevdfCandidate option \<Rightarrow> bool" where
  "realtime_best None = False"
| "realtime_best (Some (_, _, pol, _, _)) = (pol = Realtime)"

lemma find_best_loop_scan:
  "find_best_loop cpu slots best (realtime_best best) =
    map_option snd (scan_best should_replace_candidate (candidates cpu slots) (map_option (\<lambda>c. (fst c, c)) best))"
proof (induction slots arbitrary: best)
  case Nil
  then show ?case by (simp add: option.map_comp comp_def option.map_ident)
next
  case (Cons slot slots)
  obtain idx x where slot: "slot = (idx, x)" by (cases slot)
  show ?case
  proof (cases x)
    case None
    then show ?thesis using Cons by (simp add: slot)
  next
    case (Some e)
    let ?c = "candidate_of idx e"
    have c: "fst ?c = idx" "realtime_best (Some ?c) \<longleftrightarrow> policy e = Realtime" by (simp_all add: candidate_of_def)
    have new: "find_best_loop cpu slots (Some ?c) r = map_option snd (scan_best should_replace_candidate (candidates cpu slots) (Some (idx, ?c)))"
      if "r \<longleftrightarrow> policy e = Realtime" for r using Cons [of "Some ?c"] that by (simp add: c)
    show ?thesis
    proof (cases best)
      case None
      then show ?thesis using Cons [of None] new by (cases "policy e = Realtime") (simp_all add: slot Some ready_on_def)
    next
      case b: (Some b)
      obtain i vdl pol el pri where "b = (i, vdl, pol, el, pri)" by (cases b)
      then show ?thesis using Cons [of "Some b"] new [of "policy e = Realtime"]
        by (cases "policy e"; cases pol) (simp_all add: slot Some b ready_on_def candidate_of_def)
    qed
  qed
qed

text \<open>The scan with the realtime short cut is the plain scan, and so yields an unbeaten candidate.\<close>

lemma find_best_candidate_scan:
  "find_best_candidate cpu table k = map_option snd (scan_best should_replace_candidate (candidates cpu (enumerate 0 table)) None)"
  using find_best_loop_scan [of cpu "enumerate 0 table" None] by (simp add: find_best_candidate_def)

lemma candidates_member:
  "(i, c) \<in> set (candidates cpu (enumerate 0 table)) \<longleftrightarrow>
     i < length table \<and> (\<exists>e. table ! i = Some e \<and> ready_on cpu e \<and> c = candidate_of i e)"
proof -
  have "(i, x) \<in> set (enumerate 0 table) \<longleftrightarrow> i < length table \<and> x = table ! i" for x
    by (auto simp: in_set_enumerate_eq)
  moreover have "(i, c) \<in> set (candidates cpu slots) \<longleftrightarrow> (\<exists>e. (i, Some e) \<in> set slots \<and> ready_on cpu e \<and> c = candidate_of i e)" for slots
    unfolding candidates_def by (auto split: option.splits)
  ultimately show ?thesis by metis
qed

lemma find_best_candidate_None:
  "find_best_candidate cpu table k = None \<longleftrightarrow> (\<forall>e. Some e \<in> set table \<longrightarrow> \<not> ready_on cpu e)"
proof -
  have "find_best_candidate cpu table k = None \<longleftrightarrow> candidates cpu (enumerate 0 table) = []"
    by (simp add: find_best_candidate_scan core_order.scan_best_None)
  also have "\<dots> \<longleftrightarrow> (\<forall>i c. (i, c) \<notin> set (candidates cpu (enumerate 0 table)))" by (cases "candidates cpu (enumerate 0 table)") force+
  also have "\<dots> \<longleftrightarrow> (\<forall>e. Some e \<in> set table \<longrightarrow> \<not> ready_on cpu e)"
    unfolding candidates_member by (metis in_set_conv_nth)
  finally show ?thesis .
qed

lemma find_best_candidate_Some:
  assumes "find_best_candidate cpu table k = Some c"
  obtains i e where "i < length table" "table ! i = Some e" "ready_on cpu e" "c = candidate_of i e"
    and "\<And>j e'. j < length table \<Longrightarrow> table ! j = Some e' \<Longrightarrow> ready_on cpu e' \<Longrightarrow>
      \<not> should_replace_candidate (candidate_of j e') c"
proof -
  obtain i where s: "scan_best should_replace_candidate (candidates cpu (enumerate 0 table)) None = Some (i, c)"
    using assms by (auto simp: find_best_candidate_scan)
  obtain e where "i < length table" "table ! i = Some e" "ready_on cpu e" "c = candidate_of i e"
    using core_order.scan_best_Some(1) [OF s] by (auto simp: candidates_member)
  moreover have "\<not> should_replace_candidate (candidate_of j e') c"
    if "j < length table" "table ! j = Some e'" "ready_on cpu e'" for j e'
    using core_order.scan_best_Some(2) [OF s, of j "candidate_of j e'"] that by (simp add: candidates_member)
  ultimately show ?thesis using that by blast
qed

section \<open>The running process of a CPU\<close>

definition percpu_ok :: "percpu_state \<Rightarrow> bool" where
  "percpu_ok g \<longleftrightarrow> length (PERCPU_SCHED_DATA g) = STATIC_PERCPU_SCHED_COUNT"

lemma percpu_ok_upd [simp]: "percpu_ok (upd_queue i f g) = percpu_ok g"
  by (simp add: percpu_ok_def upd_queue_def)

lemma get_percpu_upd [simp]: "get_percpu_sched (upd_queue i f g) c = get_percpu_sched g c"
  by (simp add: get_percpu_sched_def upd_queue_def)

lemma get_percpu_lt: "get_percpu_sched g c = Some i \<Longrightarrow> i = c \<and> c < STATIC_PERCPU_SCHED_COUNT"
  by (auto simp: get_percpu_sched_def split: if_splits)

lemma sched_at_upd:
  "percpu_ok g \<Longrightarrow> j < STATIC_PERCPU_SCHED_COUNT \<Longrightarrow>
   run_queue (sched_at (upd_queue i f g) j) = (if i = j then f (run_queue (sched_at g j)) else run_queue (sched_at g j))"
  by (auto simp: percpu_ok_def sched_at_def upd_queue_def nth_modify_nth)

lemma rq_current_upd:
  "(\<And>q. rq_current (f q) = rq_current q) \<Longrightarrow> rq_current (run_queue (sched_at (upd_queue i f g) j)) = rq_current (run_queue (sched_at g j))"
  by (simp add: sched_at_def upd_queue_def modify_nth_def nth_update_if)

text \<open>
  Setting the running process of a CPU changes it for exactly the CPUs that keep it in the same
  place; CPUs without per-CPU data share the global variable.
\<close>

lemma current_pid_set:
  assumes "percpu_ok (PERCPU s)"
  shows "current_pid c (set_current_pid cpu p s) =
    (if get_percpu_sched (PERCPU s) c = get_percpu_sched (PERCPU s) cpu then p else current_pid c s)"
proof (cases "get_percpu_sched (PERCPU s) cpu")
  case None
  then show ?thesis by (auto simp: current_pid_def set_current_pid_def record_call_def Let_def split: option.split)
next
  case (Some i)
  then show ?thesis using get_percpu_lt [OF Some] get_percpu_lt [of "PERCPU s" c] sched_at_upd [OF assms]
    by (auto simp: current_pid_def set_current_pid_def record_call_def Let_def split: option.split)
qed

lemma set_current_pid_frame [simp]:
  "GLOBAL_TICK (set_current_pid cpu p s) = GLOBAL_TICK s" "MIN_VRUNTIME (set_current_pid cpu p s) = MIN_VRUNTIME s"
  "PID_MANAGER (set_current_pid cpu p s) = PID_MANAGER s" "percpu_ok (PERCPU (set_current_pid cpu p s)) = percpu_ok (PERCPU s)"
  "get_percpu_sched (PERCPU (set_current_pid cpu p s)) c = get_percpu_sched (PERCPU s) c"
  by (simp_all add: set_current_pid_def record_call_def Let_def split: option.split)

lemma current_pid_frame [simp]:
  "current_pid c (s\<lparr> PROCESS_TABLE := t \<rparr>) = current_pid c s" "current_pid c (s\<lparr> MIN_VRUNTIME := v \<rparr>) = current_pid c s"
  "current_pid c (s\<lparr> GLOBAL_TICK := k \<rparr>) = current_pid c s" "current_pid c (upd_slot f i s) = current_pid c s"
  "current_pid c (s\<lparr> FUTEX_WAITERS := w \<rparr>) = current_pid c s" "current_pid c (s\<lparr> PID_MANAGER := m \<rparr>) = current_pid c s"
  "current_pid c (s\<lparr> calls := x \<rparr>) = current_pid c s" "current_pid c (s\<lparr> SCHED_STATS := st \<rparr>) = current_pid c s"
  by (simp_all add: current_pid_def upd_slot_def split: option.split)

section \<open>What \<open>schedule\<close> does\<close>

lemma update_ready_length [simp]: "length (update_ready_process_eevdf table tk) = length table"
  by (simp add: update_ready_process_eevdf_def Let_def)

lemma credit_entry_frame [simp]:
  "process (credit_entry tk w e) = process e" "policy (credit_entry tk w e) = policy e"
  "cpu_affinity (credit_entry tk w e) = cpu_affinity e" "ready_on cpu (credit_entry tk w e) = ready_on cpu e"
  by (simp_all add: credit_entry_def ready_on_def Let_def)

text \<open>Crediting the waiting processes changes no process, policy or affinity.\<close>

lemma update_ready_slot:
  assumes "i < length table"
  obtains (none) "table ! i = None" "update_ready_process_eevdf table tk ! i = None"
  | (some) e0 e where "table ! i = Some e0" "update_ready_process_eevdf table tk ! i = Some e" "process e = process e0"
      "\<And>cpu. ready_on cpu e \<longleftrightarrow> ready_on cpu e0" "policy e = policy e0"
proof (cases "table ! i")
  case None
  then show ?thesis using none assms by (simp add: update_ready_process_eevdf_def Let_def)
next
  case (Some e0)
  then show ?thesis using some [of e0] assms
    by (cases "length [e. Some e \<leftarrow> table, runnable e] \<le> 1 \<or> total_weight table = 0")
      (auto simp: update_ready_process_eevdf_def Let_def)
qed

lemma update_ready_ready_on:
  "(\<forall>e. Some e \<in> set (update_ready_process_eevdf table tk) \<longrightarrow> \<not> ready_on cpu e) \<longleftrightarrow> (\<forall>e. Some e \<in> set table \<longrightarrow> \<not> ready_on cpu e)"
    (is "?L \<longleftrightarrow> ?R")
proof
  show ?R if ?L
  proof (intro allI impI)
    fix e assume "Some e \<in> set table"
    then obtain i where i: "i < length table" "table ! i = Some e" by (metis in_set_conv_nth)
    then show "\<not> ready_on cpu e" using that nth_mem [of i "update_ready_process_eevdf table tk"]
      by (cases rule: update_ready_slot [OF i(1), of tk]) auto
  qed
  show ?L if ?R
  proof (intro allI impI)
    fix e assume "Some e \<in> set (update_ready_process_eevdf table tk)"
    then obtain i where i: "i < length table" "update_ready_process_eevdf table tk ! i = Some e" by (metis in_set_conv_nth update_ready_length)
    then show "\<not> ready_on cpu e" using that nth_mem [of i table]
      by (cases rule: update_ready_slot [OF i(1), of tk]) auto
  qed
qed

lemma update_previous_other:
  assumes "i < length table" "table ! i = Some e" "p_state (process e) \<noteq> Running"
  shows "update_previous_process_state table p tk ! i = Some e"
proof (cases "find_slot (\<lambda>slot. case slot of None \<Rightarrow> False
    | Some e \<Rightarrow> pid (process e) = p \<and> p_state (process e) = Running) table")
  case None
  then show ?thesis using assms by (simp add: update_previous_process_state_def)
next
  case (Some k)
  have "k \<noteq> i" using find_slot_SomeD [OF Some] assms by auto
  then show ?thesis using Some assms by (simp add: update_previous_process_state_def upd_entry_def nth_modify_nth)
qed

lemma update_previous_length [simp]: "length (update_previous_process_state table p tk) = length table"
  by (simp add: update_previous_process_state_def upd_entry_def split: option.split)

text \<open>No other candidate beats the chosen one, spelled out over the entries.\<close>

lemma unbeaten_iff:
  "\<not> should_replace_candidate (candidate_of j e') (candidate_of i e) \<longleftrightarrow>
    (policy e' = Realtime \<longrightarrow> policy e = Realtime \<and> priority e \<le> priority e') \<and>
    (policy e = Idle \<longrightarrow> policy e' = Idle \<and> vdeadline e \<le> vdeadline e') \<and>
    (policy e \<in> {Normal, Batch} \<and> policy e' \<in> {Normal, Batch} \<longrightarrow>
       (0 \<le> lag e' \<longrightarrow> 0 \<le> lag e) \<and> ((0 \<le> lag e) = (0 \<le> lag e') \<longrightarrow> vdeadline e \<le> vdeadline e'))"
  by (cases "policy e"; cases "policy e'") (auto simp: candidate_of_def is_eligible_def linorder_not_less split: bool.splits)

lemma schedule_Some:
  assumes "find_best_candidate cpu (update_ready_process_eevdf (PROCESS_TABLE s) (GLOBAL_TICK s)) k = Some (candidate_of i e)"
    and "i < length (PROCESS_TABLE s)" "update_ready_process_eevdf (PROCESS_TABLE s) (GLOBAL_TICK s) ! i = Some e"
    and "ready_on cpu e" "percpu_ok (PERCPU s)"
  shows "fst (schedule cpu s) = Some (pid (process e)) \<and>
    PROCESS_TABLE (snd (schedule cpu s)) ! i = Some (start_entry (GLOBAL_TICK s) e) \<and>
    current_pid cpu (snd (schedule cpu s)) = Some (pid (process e))"
proof -
  let ?t = "update_ready_process_eevdf (PROCESS_TABLE s) (GLOBAL_TICK s)"
  let ?t2 = "case current_pid cpu s of None \<Rightarrow> ?t | Some p \<Rightarrow> update_previous_process_state ?t p (GLOBAL_TICK s)"
  have "?t2 ! i = Some e" "length ?t2 = length (PROCESS_TABLE s)"
    using assms update_previous_other [of i ?t e] by (simp_all add: ready_on_def split: option.split)
  then have "upd_entry (start_entry (GLOBAL_TICK s)) i ?t2 ! i = Some (start_entry (GLOBAL_TICK s) e)"
    using assms(2) by (simp add: upd_entry_def nth_modify_nth)
  moreover have "find_best_candidate cpu ?t k' = Some (candidate_of i e)" for k' using assms(1) by (simp add: find_best_candidate_def)
  ultimately show ?thesis using assms(3,5)
    by (simp add: schedule_def schedule_locked_def Let_def candidate_of_def current_pid_set)
qed

text \<open>
  C14: \<open>schedule\<close> is an EEVDF selection.  It returns nothing exactly when no ready process may run on
  this CPU.  Otherwise, with the waiting times credited, it returns a ready process allowed on this
  CPU that is unbeaten: no realtime process waits while another class or a larger priority number is
  chosen, an idle process is chosen only among idle ones and then one with the earliest deadline of
  them, and among the rest no eligible process is passed over for an ineligible one nor an earlier deadline for a later one of equal eligibility.
  The chosen process is marked running and becomes the running process of the CPU.
\<close>

theorem schedule_selects_best:
  assumes "percpu_ok (PERCPU s)" "t = update_ready_process_eevdf (PROCESS_TABLE s) (GLOBAL_TICK s)"
  shows "(fst (schedule cpu s) = None \<longleftrightarrow> (\<forall>e. Some e \<in> set (PROCESS_TABLE s) \<longrightarrow> \<not> ready_on cpu e)) \<and>
    (\<forall>p. fst (schedule cpu s) = Some p \<longrightarrow>
      (\<exists>i e. i < length t \<and> t ! i = Some e \<and> ready_on cpu e \<and> pid (process e) = p \<and>
        PROCESS_TABLE (snd (schedule cpu s)) ! i = Some (start_entry (GLOBAL_TICK s) e) \<and>
        current_pid cpu (snd (schedule cpu s)) = Some p \<and>
        (\<forall>j e'. j < length t \<longrightarrow> t ! j = Some e' \<longrightarrow> ready_on cpu e' \<longrightarrow>
          (policy e' = Realtime \<longrightarrow> policy e = Realtime \<and> priority e \<le> priority e') \<and>
          (policy e = Idle \<longrightarrow> policy e' = Idle \<and> vdeadline e \<le> vdeadline e') \<and>
          (policy e \<in> {Normal, Batch} \<and> policy e' \<in> {Normal, Batch} \<longrightarrow>
             (0 \<le> lag e' \<longrightarrow> 0 \<le> lag e) \<and> ((0 \<le> lag e) = (0 \<le> lag e') \<longrightarrow> vdeadline e \<le> vdeadline e')))))"
proof (cases "find_best_candidate cpu t 0")
  case None
  then have "find_best_candidate cpu t k = None" for k by (simp add: find_best_candidate_def)
  moreover have "\<forall>e. Some e \<in> set (PROCESS_TABLE s) \<longrightarrow> \<not> ready_on cpu e"
    using None update_ready_ready_on [of "PROCESS_TABLE s" "GLOBAL_TICK s" cpu] by (simp add: find_best_candidate_None assms(2))
  ultimately show ?thesis by (simp add: schedule_def schedule_locked_def Let_def assms(2))
next
  case (Some c)
  obtain i e where ie: "i < length t" "t ! i = Some e" "ready_on cpu e" "c = candidate_of i e"
    and best: "\<And>j e'. j < length t \<Longrightarrow> t ! j = Some e' \<Longrightarrow> ready_on cpu e' \<Longrightarrow> \<not> should_replace_candidate (candidate_of j e') c"
    using find_best_candidate_Some [OF Some] by metis
  have s: "fst (schedule cpu s) = Some (pid (process e))"
      "PROCESS_TABLE (snd (schedule cpu s)) ! i = Some (start_entry (GLOBAL_TICK s) e)"
      "current_pid cpu (snd (schedule cpu s)) = Some (pid (process e))"
    using schedule_Some [of cpu s 0 i e] Some ie assms by simp_all
  have "find_best_candidate cpu t 0 \<noteq> None" using Some by simp
  then have "\<not> (\<forall>e. Some e \<in> set (PROCESS_TABLE s) \<longrightarrow> \<not> ready_on cpu e)"
    unfolding find_best_candidate_None assms(2) update_ready_ready_on .
  moreover have "(policy e' = Realtime \<longrightarrow> policy e = Realtime \<and> priority e \<le> priority e') \<and>
      (policy e = Idle \<longrightarrow> policy e' = Idle \<and> vdeadline e \<le> vdeadline e') \<and>
      (policy e \<in> {Normal, Batch} \<and> policy e' \<in> {Normal, Batch} \<longrightarrow>
         (0 \<le> lag e' \<longrightarrow> 0 \<le> lag e) \<and> ((0 \<le> lag e) = (0 \<le> lag e') \<longrightarrow> vdeadline e \<le> vdeadline e'))"
    if "j < length t" "t ! j = Some e'" "ready_on cpu e'" for j e'
    using best [OF that] unfolding ie(4) unbeaten_iff .
  ultimately show ?thesis unfolding s(1) option.inject using s(2,3) ie(1-3) by blast
qed

section \<open>What \<open>tick\<close> does\<close>

lemma should_preempt_current_iff:
  "should_preempt_current cpu table cur \<longleftrightarrow> (\<exists>e. Some e \<in> set table \<and> ready_on cpu e \<and>
     (policy cur = Realtime \<longrightarrow> policy e = Realtime) \<and> should_preempt_for_eevdf e cur)"
proof (induction table)
  case (Cons x table)
  then show ?case by (cases x) (auto simp: ready_on_def)
qed simp

lemma realtime_preempts:
  assumes "policy cur = Realtime"
  shows "should_preempt_current cpu table cur \<longleftrightarrow>
     (\<exists>e. Some e \<in> set table \<and> ready_on cpu e \<and> policy e = Realtime \<and> priority e < priority cur)"
proof -
  have "should_preempt_for_eevdf e cur \<longleftrightarrow> policy e = Realtime \<and> priority e < priority cur" for e
    using assms by (cases "policy e") (simp_all add: should_preempt_for_eevdf_def)
  then show ?thesis unfolding should_preempt_current_iff using assms by blast
qed

definition running_at :: "nat \<Rightarrow> nat \<Rightarrow> ProcessEntry \<Rightarrow> sched_state \<Rightarrow> bool" where
  "running_at cpu i e s \<longleftrightarrow> current_pid cpu s = Some (pid (process e)) \<and> i < length (PROCESS_TABLE s) \<and>
     PROCESS_TABLE s ! i = Some e \<and> find_current_running_entry_mut (PROCESS_TABLE s) (pid (process e)) = Some i"

lemma find_slot_same:
  "\<lbrakk>i < length xs \<Longrightarrow> P y = P (xs ! i)\<rbrakk> \<Longrightarrow> find_slot P (xs[i := y]) = find_slot P xs"
proof (induction xs arbitrary: i)
  case (Cons x xs)
  then show ?case by (cases i) auto
qed simp

lemma charge_tick_frame [simp]:
  "process (charge_tick d e) = process e" "policy (charge_tick d e) = policy e" "priority (charge_tick d e) = priority e"
  "cpu_affinity (charge_tick d e) = cpu_affinity e" "ready_on cpu (charge_tick d e) = ready_on cpu e"
  "slice_remaining_ns (charge_tick d e) = saturating_sub (slice_remaining_ns e) d"
  by (simp_all add: charge_tick_def update_curr_def ready_on_def Let_def)

text \<open>The tick of a running process: who is charged, and when the CPU is given up.\<close>

lemma tick_running:
  assumes "running_at cpu i e s"
  shows "fst (tick False cpu ms s) \<longleftrightarrow> slice_remaining_ns (charge_tick (ms_to_ns ms) e) = 0 \<or>
      fst (check_need_resched cpu (PERCPU s)) \<or>
      policy e = Realtime \<and> (\<exists>e'. Some e' \<in> set (PROCESS_TABLE s) \<and> ready_on cpu e' \<and> policy e' = Realtime \<and> priority e' < priority e)"
    (is "_ \<longleftrightarrow> ?slice \<or> ?resched \<or> _ \<and> ?rt (PROCESS_TABLE s)")
    and "\<not> fst (tick False cpu ms s) \<Longrightarrow> PROCESS_TABLE (snd (tick False cpu ms s)) =
      (PROCESS_TABLE s)[i := Some (charge_tick (ms_to_ns ms) e)]"
    and "current_pid cpu (snd (tick False cpu ms s)) = current_pid cpu s"
proof -
  note r = assms [unfolded running_at_def]
  let ?e = "charge_tick (ms_to_ns ms) e" and ?s0 = "s\<lparr> GLOBAL_TICK := GLOBAL_TICK s + 1 \<rparr>"
  let ?s1 = "upd_slot (charge_tick (ms_to_ns ms)) i ?s0"
  have t1: "PROCESS_TABLE ?s1 = (PROCESS_TABLE s)[i := Some ?e]" using r by (simp add: upd_slot_def upd_entry_def modify_nth_def)
  have nr: "\<not> ready_on cpu e" using r by (auto simp: find_current_running_entry_mut_def ready_on_def find_slot_Some_iff)
  have rt: "?rt (PROCESS_TABLE ?s1) \<longleftrightarrow> ?rt (PROCESS_TABLE s)"
  proof -
    have "Some x \<in> set ((PROCESS_TABLE s)[i := Some ?e]) \<and> ready_on cpu x \<longleftrightarrow> Some x \<in> set (PROCESS_TABLE s) \<and> ready_on cpu x" for x
      using nr r by (metis (no_types, lifting) charge_tick_frame(5) in_set_conv_nth length_list_update nth_update_if option.inject)
    then show ?thesis unfolding t1 by blast
  qed
  have eq: "tick False cpu ms s = (if ?slice then (True, ?s1)
      else case check_need_resched cpu (PERCPU s) of (resched, g) \<Rightarrow>
        (let s2 = ?s1\<lparr> PERCPU := g \<rparr> in
         if resched then (True, s2)
         else if policy e \<noteq> Realtime then (False, s2)
         else if ?rt (PROCESS_TABLE s) then (True, handle_preemption (pid (process e)) s2) else (False, s2)))"
    using r t1 rt realtime_preempts [of ?e cpu "PROCESS_TABLE ?s1"]
    by (simp add: tick_def Let_def entry_at_def split: prod.split)
  show "fst (tick False cpu ms s) \<longleftrightarrow> ?slice \<or> ?resched \<or> policy e = Realtime \<and> ?rt (PROCESS_TABLE s)"
    unfolding eq by (simp add: Let_def split: prod.split)
  have "current_pid cpu (?s1\<lparr> PERCPU := snd (check_need_resched cpu (PERCPU s)) \<rparr>) = current_pid cpu s"
    by (simp add: current_pid_def check_need_resched_def rq_current_upd upd_slot_def split: option.split)
  then show "current_pid cpu (snd (tick False cpu ms s)) = current_pid cpu s"
    unfolding eq by (cases "check_need_resched cpu (PERCPU s)") (simp add: Let_def handle_preemption_def split: option.split)
  show "PROCESS_TABLE (snd (tick False cpu ms s)) = (PROCESS_TABLE s)[i := Some ?e]" if "\<not> fst (tick False cpu ms s)"
    using that t1 unfolding eq by (auto simp: Let_def split: prod.splits if_splits)
qed

lemma tick_continues:
  assumes "running_at cpu i e s" "\<not> fst (tick False cpu ms s)"
  shows "running_at cpu i (charge_tick (ms_to_ns ms) e) (snd (tick False cpu ms s)) \<and>
    unat (slice_remaining_ns (charge_tick (ms_to_ns ms) e)) + unat (ms_to_ns ms) = unat (slice_remaining_ns e)"
proof -
  note r = assms(1) [unfolded running_at_def]
  have "saturating_sub (slice_remaining_ns e) (ms_to_ns ms) \<noteq> 0" using assms tick_running(1) [OF assms(1), of ms] by simp
  then have "ms_to_ns ms \<le> slice_remaining_ns e" by (auto simp: saturating_sub_def split: if_splits)
  then have "unat (saturating_sub (slice_remaining_ns e) (ms_to_ns ms)) + unat (ms_to_ns ms) = unat (slice_remaining_ns e)"
    by (simp add: saturating_sub_def unat_sub word_le_nat_alt)
  then show ?thesis using r tick_running(2,3) [OF assms(1), of ms] assms(2) find_slot_same [of i "PROCESS_TABLE s" _ "Some (charge_tick (ms_to_ns ms) e)"]
    by (simp add: running_at_def find_current_running_entry_mut_def)
qed

lemma ticks_charge:
  assumes "running_at cpu i e s" "\<forall>k < n. \<not> fst (tick False cpu ms (((\<lambda>s. snd (tick False cpu ms s)) ^^ k) s))"
  shows "\<exists>e'. running_at cpu i e' (((\<lambda>s. snd (tick False cpu ms s)) ^^ n) s) \<and>
    unat (slice_remaining_ns e') + n * unat (ms_to_ns ms) = unat (slice_remaining_ns e)"
  using assms(2)
proof (induction n)
  case (Suc n)
  then obtain e' where "running_at cpu i e' (((\<lambda>s. snd (tick False cpu ms s)) ^^ n) s)"
    "unat (slice_remaining_ns e') + n * unat (ms_to_ns ms) = unat (slice_remaining_ns e)" by auto
  then show ?case using tick_continues [of cpu i e' "((\<lambda>s. snd (tick False cpu ms s)) ^^ n) s" ms] Suc.prems by fastforce
qed (use assms(1) in auto)


section \<open>A machine with one process\<close>

definition one_process :: "ProcessState \<Rightarrow> sched_state" where
  "one_process st = sched_boot\<lparr> PROCESS_TABLE := [Some (ProcessEntry_empty\<lparr> process := Process_empty\<lparr> pid := 5, p_state := st \<rparr> \<rparr>)],
     CURRENT_PID := (if st = Running then Some 5 else None) \<rparr>"

lemma boot_percpu [simp]: "percpu_ok percpu_boot" "get_percpu_sched percpu_boot c = None"
  by (auto simp: percpu_ok_def percpu_boot_def get_percpu_sched_def linorder_not_le)

lemma one_process_frame [simp]: "PERCPU (one_process st) = percpu_boot"
  by (simp add: one_process_def sched_boot_def)

lemma affinity_all: "cpu < 1024 \<Longrightarrow> cm_is_set (cpu_affinity ProcessEntry_empty) cpu"
  using cm_members_all cm_is_set_iff [of CpuMask_all cpu] by (simp add: ProcessEntry_empty_def MAX_CPUS_def)

theorem schedule_selects_best_witness: "fst (schedule 0 (one_process Ready)) \<noteq> None"
proof -
  have "Some (ProcessEntry_empty\<lparr> process := Process_empty\<lparr> pid := 5, p_state := Ready \<rparr> \<rparr>) \<in> set (PROCESS_TABLE (one_process Ready))"
    by (simp add: one_process_def)
  moreover have "ready_on 0 (ProcessEntry_empty\<lparr> process := Process_empty\<lparr> pid := 5, p_state := Ready \<rparr> \<rparr>)"
    using affinity_all [of 0] by (simp add: ready_on_def)
  ultimately show ?thesis using schedule_selects_best [of "one_process Ready" _ 0, OF _ refl] by auto
qed


end
