(* ===== verification/Sched_Switch.thy ===== *)
theory Sched_Switch
  imports Sched_Core
begin

text \<open>
  The context switch: \<open>src/src/scheduler/core.rs\<close> from line 508, \<open>src/src/scheduler/context.rs\<close> and
  the part of \<open>src/src/interrupts/gs_context.rs\<close> and \<open>src/src/process/execution.rs\<close> it reaches.

  A CPU's hardware state is its GS data block of 32 words, the FS base register, the ring-0 stack of
  its task state segment and its register file.  The register file is a \<open>Context\<close>: the values at the
  call of \<open>context_switch\<close>, with \<open>rip\<close> the return address and \<open>rsp\<close> the value after the return.  A
  pointer to a saved context is the table slot whose entry holds it; the null pointer is \<open>None\<close>.
  The addresses of the two trampolines are arguments.  Interrupts are disabled from the decision to
  the switch, so the decision and its execution are one step of the CPU.
\<close>

section \<open>Saving and loading registers\<close>

text \<open>The words of a \<open>Context\<close> in memory: the fields in the order of the \<open>repr(C)\<close> struct.\<close>

definition Context_words :: "Context \<Rightarrow> u64 list" where
  "Context_words c = [cx_r15 c, cx_r14 c, cx_r13 c, cx_r12 c, cx_r11 c, cx_r10 c, cx_r9 c, cx_r8 c, cx_rsi c, cx_rdi c,
     cx_rbp c, cx_rdx c, cx_rcx c, cx_rbx c, cx_rax c, cx_rip c, cx_rsp c, cx_rflags c]"

definition Context_of_words :: "u64 list \<Rightarrow> Context" where
  "Context_of_words w = \<lparr> cx_r15 = w ! 0, cx_r14 = w ! 1, cx_r13 = w ! 2, cx_r12 = w ! 3, cx_r11 = w ! 4, cx_r10 = w ! 5,
     cx_r9 = w ! 6, cx_r8 = w ! 7, cx_rsi = w ! 8, cx_rdi = w ! 9, cx_rbp = w ! 10, cx_rdx = w ! 11, cx_rcx = w ! 12,
     cx_rbx = w ! 13, cx_rax = w ! 14, cx_rip = w ! 15, cx_rsp = w ! 16, cx_rflags = w ! 17 \<rparr>"

text \<open>The stores and loads of \<open>context_switch\<close>, each with its byte offset, in program order.\<close>

definition context_saves :: "(nat \<times> (Context \<Rightarrow> u64)) list" where
  "context_saves = [(0x00, cx_r15), (0x08, cx_r14), (0x10, cx_r13), (0x18, cx_r12), (0x20, cx_r11), (0x28, cx_r10),
     (0x30, cx_r9), (0x38, cx_r8), (0x40, cx_rsi), (0x48, cx_rdi), (0x50, cx_rbp), (0x58, cx_rdx), (0x60, cx_rcx),
     (0x68, cx_rbx), (0x70, cx_rax), (0x78, cx_rip), (0x80, cx_rsp), (0x88, cx_rflags)]"

definition context_loads :: "(nat \<times> (u64 \<Rightarrow> Context \<Rightarrow> Context)) list" where
  "context_loads = [(0x00, \<lambda>v r. r\<lparr> cx_r15 := v \<rparr>), (0x08, \<lambda>v r. r\<lparr> cx_r14 := v \<rparr>), (0x10, \<lambda>v r. r\<lparr> cx_r13 := v \<rparr>),
     (0x18, \<lambda>v r. r\<lparr> cx_r12 := v \<rparr>), (0x20, \<lambda>v r. r\<lparr> cx_r11 := v \<rparr>), (0x28, \<lambda>v r. r\<lparr> cx_r10 := v \<rparr>),
     (0x30, \<lambda>v r. r\<lparr> cx_r9 := v \<rparr>), (0x38, \<lambda>v r. r\<lparr> cx_r8 := v \<rparr>), (0x50, \<lambda>v r. r\<lparr> cx_rbp := v \<rparr>),
     (0x58, \<lambda>v r. r\<lparr> cx_rdx := v \<rparr>), (0x60, \<lambda>v r. r\<lparr> cx_rcx := v \<rparr>), (0x68, \<lambda>v r. r\<lparr> cx_rbx := v \<rparr>),
     (0x70, \<lambda>v r. r\<lparr> cx_rax := v \<rparr>), (0x88, \<lambda>v r. r\<lparr> cx_rflags := v \<rparr>), (0x80, \<lambda>v r. r\<lparr> cx_rsp := v \<rparr>),
     (0x78, \<lambda>v r. r\<lparr> cx_rip := v \<rparr>), (0x48, \<lambda>v r. r\<lparr> cx_rdi := v \<rparr>), (0x40, \<lambda>v r. r\<lparr> cx_rsi := v \<rparr>)]"

definition save_words :: "Context \<Rightarrow> u64 list \<Rightarrow> u64 list" where
  "save_words r mem = fold (\<lambda>(off, get) mem. mem[off div 8 := get r]) context_saves mem"

definition load_words :: "u64 list \<Rightarrow> Context \<Rightarrow> Context" where
  "load_words mem r = fold (\<lambda>(off, put) r. put (mem ! (off div 8)) r) context_loads r"

section \<open>Machine state\<close>

record cpu_hw =
  gs_data :: "u64 list"
  fs_base_msr :: u64
  tss_rsp0 :: u64
  regs :: Context

record machine =
  sched :: sched_state
  cpus :: "nat \<Rightarrow> cpu_hw"
  FIRST_RUN_PROCESS :: "Process option"
  FIRST_RUN_CR3 :: u64

definition upd_cpu :: "nat \<Rightarrow> (cpu_hw \<Rightarrow> cpu_hw) \<Rightarrow> machine \<Rightarrow> machine" where
  "upd_cpu cpu f M = M\<lparr> cpus := (cpus M)(cpu := f (cpus M cpu)) \<rparr>"

definition gs_write :: "nat \<Rightarrow> u64 \<Rightarrow> cpu_hw \<Rightarrow> cpu_hw" where
  "gs_write slot v h = h\<lparr> gs_data := (gs_data h)[slot := v] \<rparr>"

definition GS_SLOT_USER_RSP :: nat where "GS_SLOT_USER_RSP = 0"
definition GS_SLOT_KERNEL_RSP :: nat where "GS_SLOT_KERNEL_RSP = 1"
definition GS_SLOT_USER_ENTRY :: nat where "GS_SLOT_USER_ENTRY = 2"
definition GS_SLOT_USER_STACK :: nat where "GS_SLOT_USER_STACK = 3"
definition GS_SLOT_USER_CS :: nat where "GS_SLOT_USER_CS = 4"
definition GS_SLOT_USER_SS :: nat where "GS_SLOT_USER_SS = 5"
definition GS_SLOT_USER_DS :: nat where "GS_SLOT_USER_DS = 6"
definition GS_SLOT_SAVED_RCX :: nat where "GS_SLOT_SAVED_RCX = 7"
definition GS_SLOT_SAVED_RFLAGS :: nat where "GS_SLOT_SAVED_RFLAGS = 8"
definition GS_SLOT_USER_RSP_DEBUG :: nat where "GS_SLOT_USER_RSP_DEBUG = 9"
definition GS_SLOT_KERNEL_STACK_GUARD :: nat where "GS_SLOT_KERNEL_STACK_GUARD = 20"
definition GS_SLOT_KERNEL_STACK_SNAPSHOT :: nat where "GS_SLOT_KERNEL_STACK_SNAPSHOT = 21"

lemmas gs_slots = GS_SLOT_USER_RSP_def GS_SLOT_KERNEL_RSP_def GS_SLOT_USER_ENTRY_def GS_SLOT_USER_STACK_def
  GS_SLOT_USER_CS_def GS_SLOT_USER_SS_def GS_SLOT_USER_DS_def GS_SLOT_SAVED_RCX_def GS_SLOT_SAVED_RFLAGS_def
  GS_SLOT_USER_RSP_DEBUG_def GS_SLOT_KERNEL_STACK_GUARD_def GS_SLOT_KERNEL_STACK_SNAPSHOT_def

definition context_switch :: "nat \<Rightarrow> nat option \<Rightarrow> Context \<Rightarrow> machine \<Rightarrow> machine" where
  "context_switch cpu old_context new_context M =
     (let r = regs (cpus M cpu);
          M1 = (case old_context of
                  None \<Rightarrow> M
                | Some i \<Rightarrow> M\<lparr> sched := upd_slot (upd_process (\<lambda>pr. pr\<lparr> p_context :=
                    Context_of_words (save_words r (Context_words (p_context pr))) \<rparr>)) i (sched M) \<rparr>)
      in upd_cpu cpu (\<lambda>h. h\<lparr> regs := load_words (Context_words new_context) r \<rparr>) M1)"

definition restore_user_syscall_context :: "u64 \<Rightarrow> u64 \<Rightarrow> u64 \<Rightarrow> cpu_hw \<Rightarrow> cpu_hw" where
  "restore_user_syscall_context rip rsp rflags h =
     gs_write GS_SLOT_KERNEL_STACK_SNAPSHOT 0 (gs_write GS_SLOT_KERNEL_STACK_GUARD 0
       (gs_write GS_SLOT_SAVED_RFLAGS rflags (gs_write GS_SLOT_USER_RSP_DEBUG rsp
         (gs_write GS_SLOT_USER_RSP rsp (gs_write GS_SLOT_SAVED_RCX rip h)))))"

definition restore_user_syscall_context_full :: "u64 \<Rightarrow> u64 \<Rightarrow> u64 \<Rightarrow> u64 \<Rightarrow> u64 \<Rightarrow> u64 \<Rightarrow> cpu_hw \<Rightarrow> cpu_hw" where
  "restore_user_syscall_context_full rip rsp rflags r10 r8 r9 h =
     gs_write 6 r9 (gs_write 5 r8 (gs_write 4 r10
       (gs_write GS_SLOT_KERNEL_STACK_SNAPSHOT 0 (gs_write GS_SLOT_KERNEL_STACK_GUARD 0
         (gs_write GS_SLOT_SAVED_RFLAGS rflags (gs_write GS_SLOT_USER_RSP_DEBUG rsp
           (gs_write GS_SLOT_USER_RSP rsp (gs_write GS_SLOT_SAVED_RCX rip h))))))))"

definition set_gs_data :: "u64 \<Rightarrow> u64 \<Rightarrow> u64 \<Rightarrow> u64 \<Rightarrow> u64 \<Rightarrow> u64 \<Rightarrow> cpu_hw \<Rightarrow> cpu_hw" where
  "set_gs_data kernel_stack_top entry stack user_cs user_ss user_ds h =
     fold (\<lambda>(slot, v). gs_write slot v)
       [(GS_SLOT_USER_RSP, stack), (GS_SLOT_USER_RSP_DEBUG, stack), (GS_SLOT_KERNEL_RSP, kernel_stack_top),
        (GS_SLOT_USER_ENTRY, entry), (GS_SLOT_USER_STACK, stack), (GS_SLOT_USER_CS, user_cs), (GS_SLOT_USER_SS, user_ss),
        (GS_SLOT_USER_DS, user_ds), (GS_SLOT_SAVED_RCX, 0), (GS_SLOT_SAVED_RFLAGS, 0), (GS_SLOT_KERNEL_STACK_GUARD, 0),
        (GS_SLOT_KERNEL_STACK_SNAPSHOT, 0)] h"

section \<open>The scheduling decision\<close>

record first_run_info =
  fr_process :: Process
  fr_old_context :: "nat option"
  fr_cr3 :: u64
  fr_kernel_stack :: u64
  fr_fs_base :: u64

record switch_info =
  sw_old_context :: "nat option"
  sw_next_context :: Context
  sw_cr3 :: u64
  sw_user_rip :: u64
  sw_user_rsp :: u64
  sw_user_rflags :: u64
  sw_user_r10 :: u64
  sw_user_r8 :: u64
  sw_user_r9 :: u64
  sw_is_voluntary :: bool
  sw_kernel_stack :: u64
  sw_fs_base :: u64

datatype ScheduleDecision = FirstRun first_run_info | Switch switch_info

definition find_zombie_parent_index :: "proc_table \<Rightarrow> Pid \<Rightarrow> nat option" where
  "find_zombie_parent_index table curr_pid =
     (case pid_slot table curr_pid of
        None \<Rightarrow> None
      | Some i \<Rightarrow>
          (let pr = process (the (table ! i)) in
           if p_state pr \<noteq> Zombie then None
           else if ppid pr = 0 then None
           else find_slot (\<lambda>slot. case slot of None \<Rightarrow> False
             | Some e \<Rightarrow> pid (process e) = ppid pr \<and> p_state (process e) = Ready) table))"

definition find_next_ready_index :: "nat \<Rightarrow> proc_table \<Rightarrow> nat \<Rightarrow> nat option" where
  "find_next_ready_index cpu table start_idx =
     find (\<lambda>idx. case table ! idx of None \<Rightarrow> False | Some e \<Rightarrow> p_state (process e) = Ready \<and> cm_is_set (cpu_affinity e) cpu)
       (map (\<lambda>offset. (start_idx + offset) mod MAX_PROCESSES) [0..<MAX_PROCESSES])"

definition save_syscall_context_to_entry :: "u64 list \<Rightarrow> ProcessEntry \<Rightarrow> ProcessEntry" where
  "save_syscall_context_to_entry gs e = upd_process (\<lambda>pr. pr\<lparr> user_rip := gs ! GS_SLOT_SAVED_RCX,
     user_rsp := gs ! GS_SLOT_USER_RSP, user_rflags := gs ! GS_SLOT_SAVED_RFLAGS, user_r10 := gs ! 4, user_r8 := gs ! 5,
     user_r9 := gs ! 6 \<rparr>) e"

definition switch_out_entry :: "u64 list \<Rightarrow> ProcessEntry \<Rightarrow> ProcessEntry" where
  "switch_out_entry gs e =
     (let e1 = (if has_entered_user (process e) then save_syscall_context_to_entry gs e else e)
      in if p_state (process e1) = Running then upd_process (\<lambda>pr. pr\<lparr> p_state := Ready \<rparr>) e1 else e1)"

definition transition_current_to_ready :: "u64 list \<Rightarrow> Pid \<Rightarrow> sched_state \<Rightarrow> sched_state" where
  "transition_current_to_ready gs curr_pid s =
     (case find_slot (\<lambda>slot. case slot of None \<Rightarrow> False
          | Some e \<Rightarrow> pid (process e) = curr_pid \<and> (p_state (process e) = Running \<or> p_state (process e) = Sleeping))
          (PROCESS_TABLE s) of
        None \<Rightarrow> s
      | Some i \<Rightarrow> upd_slot (switch_out_entry gs) i s)"

text \<open>The update of the chosen entry; the tuple the function returns are fields of the result.\<close>

definition extract_next_process_info :: "nat \<Rightarrow> u64 \<Rightarrow> ProcessEntry \<Rightarrow> ProcessEntry" where
  "extract_next_process_info cpu current_tick e =
     (let e1 = (if slice_remaining_ns e = 0 then replenish_slice e else e)
      in e1\<lparr> lag := 0, vdeadline := calc_vdeadline (vruntime e1) (slice_ns e1) (weight e1), last_scheduled := current_tick,
             wait_time := 0, cpu_burst_count := cpu_burst_count e1 + 1, time_slice := ns_to_ms (slice_remaining_ns e1),
             process := (process e1)\<lparr> p_state := Running \<rparr>, last_cpu := of_nat cpu \<rparr>)"

definition save_old_entry :: "u64 \<Rightarrow> ProcessEntry \<Rightarrow> ProcessEntry" where
  "save_old_entry current_fs_base e =
     (let e1 = (if p_state (process e) = Sleeping then e\<lparr> voluntary_switches := voluntary_switches e + 1 \<rparr> else e) in
      if p_state (process e1) = Zombie \<or> \<not> has_entered_user (process e1) then e1
      else upd_process (\<lambda>pr. (if current_fs_base \<noteq> 0 then pr\<lparr> fs_base := current_fs_base \<rparr> else pr)\<lparr> context_valid := True \<rparr>) e1)"

definition get_old_context_info :: "u64 \<Rightarrow> Pid option \<Rightarrow> sched_state \<Rightarrow> (nat option \<times> bool) \<times> sched_state" where
  "get_old_context_info current_fs_base curr_pid s =
     (case curr_pid of
        None \<Rightarrow> ((None, False), s)
      | Some p \<Rightarrow>
          (case pid_slot (PROCESS_TABLE s) p of
             None \<Rightarrow> ((None, False), s)
           | Some i \<Rightarrow>
               (let pr = process (entry_at s i); voluntary = (p_state pr = Sleeping)
                in ((if p_state pr = Zombie \<or> \<not> has_entered_user pr then None else Some i, voluntary),
                    upd_slot (save_old_entry current_fs_base) i s))))"

text \<open>The three searches for the next slot, in their order.\<close>

definition next_index :: "nat \<Rightarrow> proc_table \<Rightarrow> Pid option \<Rightarrow> nat option" where
  "next_index cpu table current =
     (case Option.bind current (find_zombie_parent_index table) of
        Some i \<Rightarrow> Some i
      | None \<Rightarrow>
          (case find_next_ready_index cpu table (find_start_index table current) of
             Some i \<Rightarrow> Some i
           | None \<Rightarrow> Option.bind current (find_current_running_entry_mut table)))"

definition decision_of :: "Process \<Rightarrow> nat option \<Rightarrow> bool \<Rightarrow> ScheduleDecision" where
  "decision_of pr old voluntary =
     (if \<not> context_valid pr
      then FirstRun \<lparr> fr_process = pr, fr_old_context = old, fr_cr3 = cr3 pr, fr_kernel_stack = kernel_stack pr, fr_fs_base = fs_base pr \<rparr>
      else Switch \<lparr> sw_old_context = old, sw_next_context = p_context pr, sw_cr3 = cr3 pr, sw_user_rip = user_rip pr,
        sw_user_rsp = user_rsp pr, sw_user_rflags = user_rflags pr, sw_user_r10 = user_r10 pr, sw_user_r8 = user_r8 pr,
        sw_user_r9 = user_r9 pr, sw_is_voluntary = voluntary, sw_kernel_stack = kernel_stack pr, sw_fs_base = fs_base pr \<rparr>)"

definition compute_schedule_decision :: "nat \<Rightarrow> cpu_hw \<Rightarrow> sched_state \<Rightarrow> ScheduleDecision option \<times> sched_state" where
  "compute_schedule_decision cpu h s =
     (let current = current_pid cpu s; table = PROCESS_TABLE s in
      case next_index cpu table current of
        None \<Rightarrow>
          (None, case current of
                   None \<Rightarrow> s
                 | Some p \<Rightarrow>
                     (case find_slot (\<lambda>slot. case slot of None \<Rightarrow> False
                          | Some e \<Rightarrow> pid (process e) = p \<and> has_entered_user (process e)) table of
                        None \<Rightarrow> s
                      | Some i \<Rightarrow> upd_slot (save_syscall_context_to_entry (gs_data h)) i s))
      | Some next_idx \<Rightarrow>
          if (case current of None \<Rightarrow> False
              | Some p \<Rightarrow> has_pid p (table ! next_idx) \<and> p_state (process (the (table ! next_idx))) = Running)
          then (None, upd_slot (\<lambda>e. if slice_remaining_ns e = 0 then replenish_slice e else e) next_idx s)
          else
            (let s1 = (case current of None \<Rightarrow> s | Some p \<Rightarrow> transition_current_to_ready (gs_data h) p s);
                 s2 = upd_slot (extract_next_process_info cpu (GLOBAL_TICK s1)) next_idx s1;
                 pr = process (entry_at s2 next_idx);
                 s3 = set_current_pid cpu (Some (pid pr)) s2
             in case get_old_context_info (fs_base_msr h) current s3 of
                  ((old, voluntary), s4) \<Rightarrow> (Some (decision_of pr old voluntary), s4)))"

definition mark_process_entered_user :: "Pid \<Rightarrow> sched_state \<Rightarrow> sched_state" where
  "mark_process_entered_user p s = snd (update_found (upd_process (\<lambda>pr. pr\<lparr> has_entered_user := True \<rparr>)) p s)"

section \<open>Executing the decision\<close>

text \<open>The kernel stack and the FS base of the next process, common to both kinds of decision.\<close>

definition load_kernel_stack :: "u64 \<Rightarrow> cpu_hw \<Rightarrow> cpu_hw" where
  "load_kernel_stack kstack h =
     (if kstack \<noteq> 0 then (gs_write GS_SLOT_KERNEL_RSP (kstack + KERNEL_STACK_SIZE) h)\<lparr> tss_rsp0 := kstack + KERNEL_STACK_SIZE \<rparr> else h)"

definition load_fs_base :: "u64 \<Rightarrow> cpu_hw \<Rightarrow> cpu_hw" where
  "load_fs_base fs h = (if fs \<noteq> 0 then h\<lparr> fs_base_msr := fs \<rparr> else h)"

definition first_run_context :: "u64 \<Rightarrow> u64 \<Rightarrow> Context" where
  "first_run_context trampoline kstack =
     (let top = kstack + KERNEL_STACK_SIZE
      in Context_zero\<lparr> cx_rip := trampoline, cx_rsp := top - ((top - 8) AND 0xF), cx_rflags := 2 \<rparr>)"

definition execute_first_run_via_context_switch :: "u64 \<Rightarrow> nat \<Rightarrow> first_run_info \<Rightarrow> machine \<Rightarrow> machine" where
  "execute_first_run_via_context_switch trampoline cpu d M =
     (let M1 = M\<lparr> FIRST_RUN_PROCESS := Some (fr_process d), FIRST_RUN_CR3 := fr_cr3 d \<rparr>;
          M2 = upd_cpu cpu (\<lambda>h. load_fs_base (fr_fs_base d) (load_kernel_stack (fr_kernel_stack d) h)) M1
      in context_switch cpu (fr_old_context d) (first_run_context trampoline (fr_kernel_stack d)) M2)"

definition is_kernel_context :: "Context \<Rightarrow> bool" where
  "is_kernel_context c \<longleftrightarrow> 0x100000 \<le> cx_rip c \<and> cx_rip c < 0x300000 \<and> 0x100000 \<le> cx_rsp c"

definition trampoline_context :: "u64 \<Rightarrow> switch_info \<Rightarrow> Context" where
  "trampoline_context trampoline d =
     Context_zero\<lparr> cx_rip := trampoline, cx_rsp := sw_kernel_stack d + KERNEL_STACK_SIZE - 16 - 8, cx_rflags := 0x202,
       cx_r12 := sw_user_rip d, cx_r13 := sw_user_rsp d, cx_r14 := sw_user_rflags d, cx_r15 := sw_cr3 d,
       cx_rbx := sw_user_r10 d, cx_rbp := sw_user_r8 d \<rparr>"

definition execute_context_switch :: "u64 \<Rightarrow> nat \<Rightarrow> switch_info \<Rightarrow> machine \<Rightarrow> machine" where
  "execute_context_switch trampoline cpu d M =
     (let M1 = upd_cpu cpu (\<lambda>h. load_fs_base (sw_fs_base d) (load_kernel_stack (sw_kernel_stack d) h)) M in
      if is_kernel_context (sw_next_context d) then
        (let M2 = M1\<lparr> sched := record_call (ActivateAddressSpace (sw_cr3 d)) (sched M1) \<rparr>;
             M3 = upd_cpu cpu (restore_user_syscall_context_full (sw_user_rip d) (sw_user_rsp d) (sw_user_rflags d)
                    (sw_user_r10 d) (sw_user_r8 d) (sw_user_r9 d)) M2
         in context_switch cpu (sw_old_context d) (sw_next_context d) M3)
      else
        (let M2 = M1\<lparr> sched := record_call (WriteKernel64 (sw_kernel_stack d + KERNEL_STACK_SIZE - 16 - 8) (sw_user_r9 d)) (sched M1) \<rparr>
         in context_switch cpu (sw_old_context d) (trampoline_context trampoline d) M2))"

text \<open>What a process does when it is resumed in \<open>execute_context_switch\<close>: activate its own page tables.\<close>

definition after_switch :: "nat \<Rightarrow> sched_state \<Rightarrow> sched_state" where
  "after_switch cpu s =
     (case current_pid cpu s of
        None \<Rightarrow> s
      | Some p \<Rightarrow>
          (case pid_slot (PROCESS_TABLE s) p of
             None \<Rightarrow> s
           | Some i \<Rightarrow> record_call (ActivateAddressSpace (cr3 (process (entry_at s i)))) s))"

datatype sched_outcome = Switched ScheduleDecision | Continues | Idles

definition count_switch :: "sched_state \<Rightarrow> sched_state" where
  "count_switch s = s\<lparr> SCHED_STATS := (SCHED_STATS s)\<lparr> total_context_switches := total_context_switches (SCHED_STATS s) + 1 \<rparr> \<rparr>"

definition has_running_process :: "nat \<Rightarrow> sched_state \<Rightarrow> bool" where
  "has_running_process cpu s =
     (case current_pid cpu s of
        None \<Rightarrow> False
      | Some p \<Rightarrow> find_current_running_entry_mut (PROCESS_TABLE s) p \<noteq> None)"

definition do_schedule_internal :: "u64 \<Rightarrow> u64 \<Rightarrow> nat \<Rightarrow> machine \<Rightarrow> sched_outcome \<times> machine" where
  "do_schedule_internal first_run_addr switch_return_addr cpu M =
     (case compute_schedule_decision cpu (cpus M cpu) (count_switch (sched M)) of
        (Some (FirstRun d), s) \<Rightarrow>
          (Switched (FirstRun d), execute_first_run_via_context_switch first_run_addr cpu d (M\<lparr> sched := s \<rparr>))
      | (Some (Switch d), s) \<Rightarrow>
          (Switched (Switch d), execute_context_switch switch_return_addr cpu d (M\<lparr> sched := s \<rparr>))
      | (None, s) \<Rightarrow> (if has_running_process cpu s then Continues else Idles, M\<lparr> sched := s \<rparr>))"

text \<open>One round of the idle loop: schedule again when a process is ready, else halt.\<close>

definition idle_round :: "u64 \<Rightarrow> u64 \<Rightarrow> nat \<Rightarrow> machine \<Rightarrow> sched_outcome \<times> machine" where
  "idle_round first_run_addr switch_return_addr cpu M =
     (if any_ready (PROCESS_TABLE (sched M)) then do_schedule_internal first_run_addr switch_return_addr cpu M else (Idles, M))"

text \<open>
  \<open>Process::execute\<close> on the CPU that took the process: where user mode is entered, as instruction
  pointer, stack pointer and page table.  A forked child returns from its system call, any other
  process starts at its entry point with the CPU's own kernel stack in the GS block.
\<close>

definition execute :: "u64 \<Rightarrow> u64 \<Rightarrow> u64 \<Rightarrow> Process \<Rightarrow> cpu_hw \<Rightarrow> (u64 \<times> u64 \<times> u64) \<times> cpu_hw" where
  "execute kernel_stack_top user_cs user_ds pr h =
     ((entry_point pr, stack_top pr, cr3 pr),
      if is_fork_child pr then restore_user_syscall_context (entry_point pr) (stack_top pr) (user_rflags pr) h
      else set_gs_data kernel_stack_top (entry_point pr) (stack_top pr) (user_cs OR 3) (user_ds OR 3) (user_ds OR 3) h)"

text \<open>The trampoline takes the process from the global variable; \<open>None\<close> is a panic.\<close>

definition first_run_trampoline :: "u64 \<Rightarrow> u64 \<Rightarrow> u64 \<Rightarrow> nat \<Rightarrow> machine \<Rightarrow> ((u64 \<times> u64 \<times> u64) \<times> machine) option" where
  "first_run_trampoline kernel_stack_top user_cs user_ds cpu M =
     (case FIRST_RUN_PROCESS M of
        None \<Rightarrow> None
      | Some pr \<Rightarrow>
          if cr3 pr = 0 then None
          else (let M1 = M\<lparr> FIRST_RUN_PROCESS := None, sched := mark_process_entered_user (pid pr) (sched M) \<rparr>
                in case execute kernel_stack_top user_cs user_ds pr (cpus M1 cpu) of
                     (user, h) \<Rightarrow> Some (user, upd_cpu cpu (\<lambda>_. h) M1)))"

section \<open>Facts on registers\<close>

lemma save_load [simp]:
  "Context_of_words (save_words r (Context_words c)) = r" "load_words (Context_words c) r = c"
  by (simp_all add: save_words_def context_saves_def Context_words_def Context_of_words_def load_words_def context_loads_def)

lemma context_switch_alt:
  "context_switch cpu old new M =
     upd_cpu cpu (\<lambda>h. h\<lparr> regs := new \<rparr>)
       (case old of None \<Rightarrow> M
        | Some i \<Rightarrow> M\<lparr> sched := upd_slot (upd_process (\<lambda>pr. pr\<lparr> p_context := regs (cpus M cpu) \<rparr>)) i (sched M) \<rparr>)"
  by (simp add: context_switch_def Let_def split: option.split)

lemma gs_write_simps [simp]:
  "length (gs_data (gs_write k v h)) = length (gs_data h)"
  "gs_data (gs_write k v h) ! j = (if k = j \<and> j < length (gs_data h) then v else gs_data h ! j)"
  "regs (gs_write k v h) = regs h" "fs_base_msr (gs_write k v h) = fs_base_msr h" "tss_rsp0 (gs_write k v h) = tss_rsp0 h"
  by (simp_all add: gs_write_def nth_update_if)

text \<open>A first-run process starts with the stack alignment of a function entry.\<close>

lemma first_run_aligned: "cx_rsp (first_run_context t k) AND 0xF = 8"
proof -
  have "(x - ((x - 8) AND 0xF)) AND 0xF = (8 :: u64)" for x
  proof -
    have low: "y AND 0xF = y mod 16" for y :: u64
      using take_bit_eq_mask [of 4 y] take_bit_eq_mod [of 4 y] by (simp add: mask_eq_exp_minus_1)
    define q r where "q = (x - 8) div 16" and r: "r = (x - 8) mod 16"
    have "x - 8 = q * 16 + r" unfolding q_def r by (rule word_mod_div_equality [symmetric])
    then have "x = q * 16 + r + 8" by (simp only: diff_eq_eq)
    then have x: "x - r = q * 16 + 8" by simp
    have "unat q < 2 ^ 60" unfolding q_def using unsigned_less [of "x - 8", where ?'a = nat] by (simp add: unat_div)
    then have "unat (q * 16) = unat q * 16" using unat_mult_lem [of q "16 :: u64"] by simp
    then have "unat (q * 16 + 8) = unat q * 16 + 8" using unat_add_lem [of "q * 16" "8 :: u64"] \<open>unat q < 2 ^ 60\<close> by simp
    then have "unat ((q * 16 + 8) mod 16) = unat (8 :: u64)" by (simp add: unat_mod)
    then show ?thesis unfolding low r [symmetric] x by (simp only: word_unat_eq_iff)
  qed
  then show ?thesis by (simp add: first_run_context_def Let_def)
qed

section \<open>What a decision does to the table\<close>

text \<open>Updating the first slot that satisfies \<open>Q\<close> updates every entry that does, when only one can.\<close>

lemma find_slot_upd:
  assumes "\<And>j k. j < length t \<Longrightarrow> k < length t \<Longrightarrow> Q (t ! j) \<Longrightarrow> Q (t ! k) \<Longrightarrow> j = k" "\<not> Q None" "j < length t"
  shows "(case find_slot Q t of None \<Rightarrow> t | Some i \<Rightarrow> upd_entry f i t) ! j = map_option (\<lambda>e. if Q (Some e) then f e else e) (t ! j)"
proof (cases "find_slot Q t")
  case None
  then have "\<not> Q (t ! j)" using assms(3) by (simp add: find_slot_None_iff)
  then show ?thesis using None by (cases "t ! j") simp_all
next
  case (Some i)
  note i = find_slot_SomeD [OF Some]
  have "Q (t ! j) \<Longrightarrow> j = i" using assms(1) [of j i] i assms(3) by blast
  then show ?thesis using Some i assms(2,3)
    by (cases "t ! j"; cases "i = j") (auto simp: upd_entry_def nth_modify_nth)
qed

lemma pid_unique:
  assumes "pids_distinct t" "j < length t" "k < length t" "t ! j = Some a" "t ! k = Some b" "pid (process a) = pid (process b)"
  shows "j = k"
  using pids_distinctD [OF assms(1-3), of "pid (process b)"] assms(4-6) by simp

definition leave_cpu :: "u64 list \<Rightarrow> ProcessEntry \<Rightarrow> ProcessEntry" where
  "leave_cpu gs e = (if p_state (process e) = Running \<or> p_state (process e) = Sleeping then switch_out_entry gs e else e)"

lemma transition_table:
  assumes "pids_distinct (PROCESS_TABLE s)" "j < length (PROCESS_TABLE s)"
  shows "PROCESS_TABLE (transition_current_to_ready gs p s) ! j =
    map_option (\<lambda>e. if pid (process e) = p then leave_cpu gs e else e) (PROCESS_TABLE s ! j)"
proof -
  let ?Q = "\<lambda>slot. case slot of None \<Rightarrow> False
    | Some e \<Rightarrow> pid (process e) = p \<and> (p_state (process e) = Running \<or> p_state (process e) = Sleeping)"
  have t: "PROCESS_TABLE (transition_current_to_ready gs p s) =
      (case find_slot ?Q (PROCESS_TABLE s) of None \<Rightarrow> PROCESS_TABLE s | Some i \<Rightarrow> upd_entry (switch_out_entry gs) i (PROCESS_TABLE s))"
    by (simp add: transition_current_to_ready_def upd_slot_def split: option.split)
  show ?thesis unfolding t
    by (subst find_slot_upd)
      (use assms pid_unique [OF assms(1)] in \<open>auto simp: leave_cpu_def split: option.splits intro!: option.map_cong\<close>)
qed

lemma transition_frame [simp]:
  "length (PROCESS_TABLE (transition_current_to_ready gs p s)) = length (PROCESS_TABLE s)"
  "GLOBAL_TICK (transition_current_to_ready gs p s) = GLOBAL_TICK s" "PERCPU (transition_current_to_ready gs p s) = PERCPU s"
  "current_pid c (transition_current_to_ready gs p s) = current_pid c s"
  by (simp_all add: transition_current_to_ready_def upd_slot_def upd_entry_def split: option.split)

lemma old_context_table:
  assumes "pids_distinct (PROCESS_TABLE s)" "j < length (PROCESS_TABLE s)"
  shows "PROCESS_TABLE (snd (get_old_context_info fs cur s)) ! j =
    map_option (\<lambda>e. if cur = Some (pid (process e)) then save_old_entry fs e else e) (PROCESS_TABLE s ! j)"
proof (cases cur)
  case None
  then show ?thesis by (simp add: get_old_context_info_def option.map_ident)
next
  case (Some p)
  have t: "PROCESS_TABLE (snd (get_old_context_info fs cur s)) =
      (case find_slot (has_pid p) (PROCESS_TABLE s) of None \<Rightarrow> PROCESS_TABLE s | Some i \<Rightarrow> upd_entry (save_old_entry fs) i (PROCESS_TABLE s))"
    by (simp add: Some get_old_context_info_def upd_slot_def pid_slot_def Let_def split: option.split)
  show ?thesis unfolding t
    by (subst find_slot_upd) (use assms pids_distinctD [OF assms(1)] Some in \<open>auto intro: option.map_cong\<close>)
qed

lemma old_context_frame [simp]:
  "length (PROCESS_TABLE (snd (get_old_context_info fs cur s))) = length (PROCESS_TABLE s)"
  "GLOBAL_TICK (snd (get_old_context_info fs cur s)) = GLOBAL_TICK s" "PERCPU (snd (get_old_context_info fs cur s)) = PERCPU s"
  "current_pid c (snd (get_old_context_info fs cur s)) = current_pid c s"
  by (simp_all add: get_old_context_info_def upd_slot_def upd_entry_def Let_def split: option.split)

text \<open>The whole effect of a decision that hands slot \<open>i\<close> the CPU, on the entry of slot \<open>j\<close>.\<close>

definition decided :: "nat \<Rightarrow> cpu_hw \<Rightarrow> Pid option \<Rightarrow> u64 \<Rightarrow> nat \<Rightarrow> nat \<Rightarrow> ProcessEntry \<Rightarrow> ProcessEntry" where
  "decided cpu h cur tk i j e =
     (let is_cur = (cur = Some (pid (process e)));
          e1 = (if is_cur then leave_cpu (gs_data h) e else e);
          e2 = (if i = j then extract_next_process_info cpu tk e1 else e1)
      in if is_cur then save_old_entry (fs_base_msr h) e2 else e2)"

lemma pid_kept [simp]:
  "pid (process (leave_cpu gs e)) = pid (process e)" "pid (process (extract_next_process_info cpu tk e)) = pid (process e)"
  "pid (process (save_old_entry fs e)) = pid (process e)" "pid (process (decided cpu h cur tk i j e)) = pid (process e)"
  by (simp_all add: leave_cpu_def switch_out_entry_def save_syscall_context_to_entry_def upd_process_def Let_def
      extract_next_process_info_def save_old_entry_def replenish_slice_def decided_def)

lemma map_pid_distinct:
  assumes "pids_distinct t" "length t' = length t" "\<And>j. j < length t \<Longrightarrow> t' ! j = map_option (f j) (t ! j)"
    and "\<And>j e. pid (process (f j e)) = pid (process e)"
  shows "pids_distinct t'"
proof (rule pids_distinctI)
  fix j k p
  assume "j < length t'" "k < length t'" "has_pid p (t' ! j)" "has_pid p (t' ! k)"
  then show "j = k" using pids_distinctD [OF assms(1), of j k p] assms(2-4) by (cases "t ! j"; cases "t ! k") auto
qed

lemma kept_flags:
  "p_state (process (leave_cpu gs e)) = Zombie \<longleftrightarrow> p_state (process e) = Zombie"
  "has_entered_user (process (leave_cpu gs e)) = has_entered_user (process e)"
  "p_state (process (extract_next_process_info cpu tk e)) = Running"
  "has_entered_user (process (extract_next_process_info cpu tk e)) = has_entered_user (process e)"
  by (simp_all add: leave_cpu_def switch_out_entry_def save_syscall_context_to_entry_def upd_process_def Let_def
      extract_next_process_info_def replenish_slice_def)

text \<open>The context of the process that gives up the CPU is saved in its own entry.\<close>

lemma old_context_slot:
  assumes "pids_distinct (PROCESS_TABLE s)"
  shows "fst (fst (get_old_context_info fs cur s)) = Some k \<longleftrightarrow> k < length (PROCESS_TABLE s) \<and>
    (\<exists>e. PROCESS_TABLE s ! k = Some e \<and> cur = Some (pid (process e)) \<and> p_state (process e) \<noteq> Zombie \<and> has_entered_user (process e))"
proof (cases cur)
  case None
  then show ?thesis by (simp add: get_old_context_info_def)
next
  case (Some p)
  have slot: "pid_slot (PROCESS_TABLE s) p = Some k \<longleftrightarrow> k < length (PROCESS_TABLE s) \<and> has_pid p (PROCESS_TABLE s ! k)" for k
    using linear.find_sound [of s p k] linear.find_unique [of s p k] pids_distinctD [OF assms, of _ k p] by blast
  show ?thesis
  proof (cases "pid_slot (PROCESS_TABLE s) p")
    case None
    then have "\<not> (k < length (PROCESS_TABLE s) \<and> has_pid p (PROCESS_TABLE s ! k))" using slot [of k] by simp
    then have "\<not> (k < length (PROCESS_TABLE s) \<and> (\<exists>e. PROCESS_TABLE s ! k = Some e \<and> cur = Some (pid (process e))))"
      by (auto simp: \<open>cur = Some p\<close>)
    then show ?thesis using None by (auto simp: \<open>cur = Some p\<close> get_old_context_info_def)
  next
    case (Some j)
    then obtain e where e: "PROCESS_TABLE s ! j = Some e" "pid (process e) = p" "j < length (PROCESS_TABLE s)"
      using slot [of j] by (cases "PROCESS_TABLE s ! j") auto
    have k: "j = k \<longleftrightarrow> k < length (PROCESS_TABLE s) \<and> has_pid p (PROCESS_TABLE s ! k)" using slot [of k] Some by simp
    have run: "fst (fst (get_old_context_info fs cur s)) =
        (if p_state (process e) \<noteq> Zombie \<and> has_entered_user (process e) then Some j else None)"
      using e by (simp add: \<open>cur = Some p\<close> Some get_old_context_info_def Let_def entry_at_def)
    show ?thesis
    proof (cases "j = k")
      case True
      then show ?thesis using run e \<open>cur = Some p\<close> by simp
    next
      case False
      then have "\<not> (k < length (PROCESS_TABLE s) \<and> has_pid p (PROCESS_TABLE s ! k))" using k by simp
      then show ?thesis using run False by (auto simp: \<open>cur = Some p\<close>)
    qed
  qed
qed

lemma old_context_kept:
  assumes "pids_distinct (PROCESS_TABLE s)" "length (PROCESS_TABLE s) = length t"
    and "\<And>j. j < length t \<Longrightarrow> PROCESS_TABLE s ! j = map_option (f j) (t ! j)"
    and "\<And>j e. t ! j = Some e \<Longrightarrow> pid (process (f j e)) = pid (process e) \<and>
      (p_state (process (f j e)) = Zombie \<longleftrightarrow> p_state (process e) = Zombie) \<and> has_entered_user (process (f j e)) = has_entered_user (process e)"
    and "get_old_context_info fs cur s = ((old, vol), s')"
  shows "old = Some k \<longleftrightarrow> k < length t \<and>
    (\<exists>e. t ! k = Some e \<and> cur = Some (pid (process e)) \<and> p_state (process e) \<noteq> Zombie \<and> has_entered_user (process e))"
proof -
  have old: "old = Some k \<longleftrightarrow> k < length t \<and> (\<exists>e. PROCESS_TABLE s ! k = Some e \<and> cur = Some (pid (process e)) \<and>
      p_state (process e) \<noteq> Zombie \<and> has_entered_user (process e))"
    using old_context_slot [OF assms(1), of fs cur k] unfolding assms(2,5) fst_conv .
  show ?thesis
  proof (cases "k < length t")
    case True
    show ?thesis unfolding old assms(3) [OF True] using assms(4) [of k] by (cases "t ! k") simp_all
  next
    case False
    then show ?thesis unfolding old by simp
  qed
qed

text \<open>A decision for a ready process.\<close>

lemma decide_ready:
  assumes "pids_distinct (PROCESS_TABLE s)" "percpu_ok (PERCPU s)"
    and "next_index cpu (PROCESS_TABLE s) (current_pid cpu s) = Some i" "i < length (PROCESS_TABLE s)"
    and "PROCESS_TABLE s ! i = Some e" "p_state (process e) = Ready"
    and "compute_schedule_decision cpu h s = (d, s')"
  shows "\<exists>old vol. d = Some (decision_of (process (extract_next_process_info cpu (GLOBAL_TICK s) e)) old vol) \<and>
      (\<forall>k. old = Some k \<longleftrightarrow> k < length (PROCESS_TABLE s) \<and> (\<exists>ek. PROCESS_TABLE s ! k = Some ek \<and>
         current_pid cpu s = Some (pid (process ek)) \<and> p_state (process ek) \<noteq> Zombie \<and> has_entered_user (process ek)))"
    and "j < length (PROCESS_TABLE s) \<Longrightarrow> PROCESS_TABLE s' ! j =
      map_option (decided cpu h (current_pid cpu s) (GLOBAL_TICK s) i j) (PROCESS_TABLE s ! j)"
    and "length (PROCESS_TABLE s') = length (PROCESS_TABLE s)"
    and "current_pid c s' =
      (if get_percpu_sched (PERCPU s) c = get_percpu_sched (PERCPU s) cpu then Some (pid (process e)) else current_pid c s)"
    and "percpu_ok (PERCPU s')" "GLOBAL_TICK s' = GLOBAL_TICK s"
proof -
  let ?cur = "current_pid cpu s"
  let ?s1 = "case ?cur of None \<Rightarrow> s | Some p \<Rightarrow> transition_current_to_ready (gs_data h) p s"
  let ?s2 = "upd_slot (extract_next_process_info cpu (GLOBAL_TICK ?s1)) i ?s1"
  let ?e1 = "extract_next_process_info cpu (GLOBAL_TICK s) e"
  let ?s3 = "set_current_pid cpu (Some (pid (process e))) ?s2"
  have t1: "PROCESS_TABLE ?s1 ! j = map_option (\<lambda>e. if ?cur = Some (pid (process e)) then leave_cpu (gs_data h) e else e) (PROCESS_TABLE s ! j)"
    if "j < length (PROCESS_TABLE s)" for j
    using transition_table [OF assms(1) that, of "gs_data h"] by (auto simp: option.map_ident split: option.split intro!: option.map_cong)
  have l1 [simp]: "length (PROCESS_TABLE ?s1) = length (PROCESS_TABLE s)" "GLOBAL_TICK ?s1 = GLOBAL_TICK s" "PERCPU ?s1 = PERCPU s"
    "current_pid c ?s1 = current_pid c s" for c by (simp_all split: option.split)
  have "PROCESS_TABLE ?s1 ! i = Some e" using t1 [OF assms(4)] assms(5,6) by (simp add: leave_cpu_def)
  then have e2: "entry_at ?s2 i = ?e1" using assms(4) by (simp add: entry_at_def upd_slot_def upd_entry_def)
  have t3: "PROCESS_TABLE ?s3 ! j = map_option (\<lambda>e. let e1 = (if ?cur = Some (pid (process e)) then leave_cpu (gs_data h) e else e)
      in if i = j then extract_next_process_info cpu (GLOBAL_TICK s) e1 else e1) (PROCESS_TABLE s ! j)"
    if "j < length (PROCESS_TABLE s)" for j
    using t1 [OF that] that by (auto simp: upd_slot_def upd_entry_def Let_def option.map_comp comp_def)
  have l3: "length (PROCESS_TABLE ?s3) = length (PROCESS_TABLE s)" by (simp add: upd_slot_def upd_entry_def)
  have d3: "pids_distinct (PROCESS_TABLE ?s3)" by (rule map_pid_distinct [OF assms(1) l3 t3]) (simp_all add: Let_def)
  have run: "compute_schedule_decision cpu h s = (case get_old_context_info (fs_base_msr h) ?cur ?s3 of
      ((old, vol), s4) \<Rightarrow> (Some (decision_of (process ?e1) old vol), s4))"
    using assms(3,5,6) e2 by (simp add: compute_schedule_decision_def Let_def split: option.split)
  obtain old vol where g: "get_old_context_info (fs_base_msr h) ?cur ?s3 = ((old, vol), s')" "d = Some (decision_of (process ?e1) old vol)"
    using assms(7) run by (auto split: prod.splits)
  have s': "s' = snd (get_old_context_info (fs_base_msr h) ?cur ?s3)" using g by simp
  have "old = Some k \<longleftrightarrow> k < length (PROCESS_TABLE s) \<and> (\<exists>ek. PROCESS_TABLE s ! k = Some ek \<and>
      ?cur = Some (pid (process ek)) \<and> p_state (process ek) \<noteq> Zombie \<and> has_entered_user (process ek))" for k
    by (rule old_context_kept [OF d3 l3 t3 _ g(1)]) (use assms(5,6) in \<open>auto simp: Let_def kept_flags\<close>)
  then show "\<exists>old vol. d = Some (decision_of (process ?e1) old vol) \<and> (\<forall>k. old = Some k \<longleftrightarrow> k < length (PROCESS_TABLE s) \<and>
      (\<exists>ek. PROCESS_TABLE s ! k = Some ek \<and> ?cur = Some (pid (process ek)) \<and> p_state (process ek) \<noteq> Zombie \<and> has_entered_user (process ek)))"
    by (intro exI [of _ old] exI [of _ vol] conjI allI g(2))
  show "PROCESS_TABLE s' ! j = map_option (decided cpu h ?cur (GLOBAL_TICK s) i j) (PROCESS_TABLE s ! j)" if "j < length (PROCESS_TABLE s)"
    unfolding s' using old_context_table [OF d3, of j "fs_base_msr h" ?cur] t3 [OF that] that l3
    by (auto simp: option.map_comp comp_def decided_def Let_def intro!: option.map_cong)
  show "length (PROCESS_TABLE s') = length (PROCESS_TABLE s)" unfolding s' using l3 by simp
  show "current_pid c s' = (if get_percpu_sched (PERCPU s) c = get_percpu_sched (PERCPU s) cpu then Some (pid (process e)) else current_pid c s)"
    unfolding s' using assms(2) by (simp add: current_pid_set upd_slot_def)
  show "percpu_ok (PERCPU s')" "GLOBAL_TICK s' = GLOBAL_TICK s" unfolding s' using assms(2) by (simp_all add: upd_slot_def)
qed

section \<open>Which slot is next\<close>

lemma find_next_ready_SomeD:
  assumes "find_next_ready_index cpu table start = Some i"
  obtains k e where "k < MAX_PROCESSES" "i = (start + k) mod MAX_PROCESSES" "table ! i = Some e" "ready_on cpu e"
    and "\<And>k' e'. k' < k \<Longrightarrow> table ! ((start + k') mod MAX_PROCESSES) = Some e' \<Longrightarrow> \<not> ready_on cpu e'"
proof -
  let ?P = "\<lambda>idx. case table ! idx of None \<Rightarrow> False | Some e \<Rightarrow> p_state (process e) = Ready \<and> cm_is_set (cpu_affinity e) cpu"
  obtain k where k: "k < MAX_PROCESSES" "i = (start + k) mod MAX_PROCESSES" "?P i"
    and least: "\<forall>k' < k. \<not> ?P ((start + k') mod MAX_PROCESSES)"
    using assms by (auto simp: find_next_ready_index_def find_Some_iff)
  obtain e where "table ! i = Some e" "ready_on cpu e" using k(3) by (auto simp: ready_on_def split: option.splits)
  moreover have "\<not> ready_on cpu e'" if "k' < k" "table ! ((start + k') mod MAX_PROCESSES) = Some e'" for k' e'
    using least that by (auto simp: ready_on_def)
  ultimately show ?thesis using that k(1,2) by blast
qed

lemma rotation_reaches:
  assumes "i < (n :: nat)"
  obtains k where "k < n" "(start + k) mod n = i"
proof (cases "start mod n \<le> i")
  case True
  have "(start + (i - start mod n)) mod n = (start mod n + (i - start mod n)) mod n" by (simp add: mod_simps)
  then show ?thesis using that [of "i - start mod n"] True assms by simp
next
  case False
  have "start mod n < n" using assms by simp
  have "(start + (i + n - start mod n)) mod n = (start mod n + (i + n - start mod n)) mod n" by (metis mod_add_left_eq)
  also have "\<dots> = i" using False assms \<open>start mod n < n\<close> by simp
  finally show ?thesis using that [of "i + n - start mod n"] False \<open>start mod n < n\<close> by simp
qed

lemma find_next_ready_None:
  assumes "find_next_ready_index cpu table start = None" "i < MAX_PROCESSES" "table ! i = Some e"
  shows "\<not> ready_on cpu e"
proof -
  obtain k where "k < MAX_PROCESSES" "(start + k) mod MAX_PROCESSES = i" using rotation_reaches [OF assms(2)] .
  then have "i \<in> set (map (\<lambda>offset. (start + offset) mod MAX_PROCESSES) [0..<MAX_PROCESSES])" by auto
  then show ?thesis using assms(1,3) by (auto simp: find_next_ready_index_def find_None_iff ready_on_def)
qed

lemma zombie_parent_SomeD:
  assumes "find_zombie_parent_index table p = Some i"
  shows "i < length table \<and> (\<exists>e. table ! i = Some e \<and> p_state (process e) = Ready)"
proof -
  obtain q where "find_slot (\<lambda>slot. case slot of None \<Rightarrow> False | Some e \<Rightarrow> pid (process e) = q \<and> p_state (process e) = Ready) table = Some i"
    using assms by (auto simp: find_zombie_parent_index_def Let_def split: option.splits if_splits)
  from find_slot_SomeD [OF this] show ?thesis by (auto split: option.splits)
qed

lemma running_SomeD:
  "find_current_running_entry_mut table p = Some i \<Longrightarrow>
     i < length table \<and> (\<exists>e. table ! i = Some e \<and> p_state (process e) = Running \<and> pid (process e) = p)"
  unfolding find_current_running_entry_mut_def by (drule find_slot_SomeD) (auto split: option.splits)

lemma next_index_cases:
  assumes "next_index cpu table cur = Some i" "length table = MAX_PROCESSES"
  obtains e where "i < length table" "table ! i = Some e" "p_state (process e) = Ready"
  | e where "i < length table" "table ! i = Some e" "p_state (process e) = Running" "cur = Some (pid (process e))"
proof -
  consider p where "cur = Some p" "find_zombie_parent_index table p = Some i"
    | "find_next_ready_index cpu table (find_start_index table cur) = Some i"
    | p where "cur = Some p" "find_current_running_entry_mut table p = Some i"
    using assms(1) by (cases cur) (auto simp: next_index_def split: option.splits)
  then show ?thesis
  proof cases
    case 1
    then show ?thesis using zombie_parent_SomeD [OF 1(2)] that(1) by blast
  next
    case 2
    then obtain k e where "i = (find_start_index table cur + k) mod MAX_PROCESSES" "table ! i = Some e" "ready_on cpu e"
      by (rule find_next_ready_SomeD)
    then show ?thesis using that(1) [of e] assms(2) by (simp add: ready_on_def MAX_PROCESSES_def)
  next
    case 3
    then show ?thesis using running_SomeD [OF 3(2)] that(2) by blast
  qed
qed

text \<open>A decision is one of: nothing to run, the running process continues, a ready process takes over.\<close>

lemma decide_cases:
  assumes "length (PROCESS_TABLE s) = MAX_PROCESSES" "compute_schedule_decision cpu h s = (d, s')"
  obtains (idle) "next_index cpu (PROCESS_TABLE s) (current_pid cpu s) = None" "d = None"
      "s' = s \<or> (\<exists>i. s' = upd_slot (save_syscall_context_to_entry (gs_data h)) i s)"
  | (continue) i e where "i < MAX_PROCESSES" "PROCESS_TABLE s ! i = Some e" "p_state (process e) = Running"
      "current_pid cpu s = Some (pid (process e))" "d = None"
      "s' = upd_slot (\<lambda>e. if slice_remaining_ns e = 0 then replenish_slice e else e) i s"
  | (switch) i e where "next_index cpu (PROCESS_TABLE s) (current_pid cpu s) = Some i" "i < length (PROCESS_TABLE s)"
      "PROCESS_TABLE s ! i = Some e" "p_state (process e) = Ready"
proof (cases "next_index cpu (PROCESS_TABLE s) (current_pid cpu s)")
  case None
  then have "d = None \<and> (s' = s \<or> (\<exists>i. s' = upd_slot (save_syscall_context_to_entry (gs_data h)) i s))"
    using assms(2) by (auto simp: compute_schedule_decision_def Let_def split: option.splits)
  then show ?thesis using idle None by blast
next
  case (Some i)
  then show ?thesis
  proof (cases rule: next_index_cases [OF Some assms(1)])
    case (1 e)
    then show ?thesis using switch Some by blast
  next
    case (2 e)
    then have "compute_schedule_decision cpu h s = (None, upd_slot (\<lambda>e. if slice_remaining_ns e = 0 then replenish_slice e else e) i s)"
      using Some by (simp add: compute_schedule_decision_def Let_def)
    then show ?thesis using continue [of i e] 2 assms by simp
  qed
qed

end
