(* ===== verification/Sched_Run.thy ===== *)
theory Sched_Run
  imports Sched_Switch
begin

text \<open>
  Runs of the whole scheduler: all CPUs interleave process operations, scheduling decisions, timer
  ticks and \<open>schedule\<close>.  The theory shows what such runs keep (a running process is the current process
  of a CPU), that the round-robin search passes over nobody, and two schedules in which the decision
  code goes wrong.
\<close>

section \<open>Operations and runs\<close>

text \<open>
  The operations of a CPU: process operations, scheduling decisions with the hardware state they read,
  timer ticks and \<open>schedule\<close>.  No caller in the kernel asks for the state \<open>Running\<close>; only the scheduler
  sets it.
\<close>

datatype sched_op = Proc proc_op | Decide cpu_hw | Tick bool u64 | Schedule

fun sched_exec :: "nat \<Rightarrow> sched_op \<Rightarrow> sched_state \<Rightarrow> sched_state" where
  "sched_exec cpu (Proc op) s = proc_exec cpu op s"
| "sched_exec cpu (Decide h) s = snd (compute_schedule_decision cpu h s)"
| "sched_exec cpu (Tick locked ms) s = snd (tick locked cpu ms s)"
| "sched_exec cpu Schedule s = snd (schedule cpu s)"

fun sched_op_ok :: "sched_op \<Rightarrow> sched_state \<Rightarrow> bool" where
  "sched_op_ok (Proc op) s = (op_ok op s \<and>
     (case op of OpSetState _ st \<Rightarrow> st \<noteq> Running | OpSetCurrentState st \<Rightarrow> st \<noteq> Running
      | OpAdd pr _ _ _ \<Rightarrow> p_state pr \<noteq> Running | _ \<Rightarrow> True))"
| "sched_op_ok _ s = True"

inductive sched_run :: "(nat \<times> sched_op) list \<Rightarrow> sched_state \<Rightarrow> sched_state \<Rightarrow> bool" where
  srun_nil: "sched_run [] s s"
| srun_cons: "sched_op_ok op s \<Longrightarrow> sched_run ops (sched_exec cpu op s) s' \<Longrightarrow> sched_run ((cpu, op) # ops) s s'"

inductive_cases sched_run_ConsE: "sched_run ((cpu, op) # ops) s s'"

text \<open>The boot state with any set of CPUs brought up.\<close>

definition sched_start :: "percpu_state \<Rightarrow> sched_state" where
  "sched_start g = sched_boot\<lparr> PERCPU := g \<rparr>"

definition running_current :: "sched_state \<Rightarrow> bool" where
  "running_current s \<longleftrightarrow> (\<forall>i e. i < length (PROCESS_TABLE s) \<longrightarrow> PROCESS_TABLE s ! i = Some e \<longrightarrow>
     p_state (process e) = Running \<longrightarrow> (\<exists>c. current_pid c s = Some (pid (process e))))"

definition sched_inv :: "sched_state \<Rightarrow> bool" where
  "sched_inv s \<longleftrightarrow> proc_inv s \<and> percpu_ok (PERCPU s) \<and> running_current s"

text \<open>Operations that leave the running processes of all CPUs alone.\<close>

definition same_current :: "sched_state \<Rightarrow> sched_state \<Rightarrow> bool" where
  "same_current s s' \<longleftrightarrow> (\<forall>c. current_pid c s' = current_pid c s) \<and> (percpu_ok (PERCPU s) \<longrightarrow> percpu_ok (PERCPU s'))"

lemma upd_slot_percpu [simp]: "PERCPU (upd_slot f i s) = PERCPU s"
  by (simp add: upd_slot_def)

lemma same_current_upd_slot: "same_current s (upd_slot f i s)"
  by (simp add: same_current_def)

lemma same_current_queue:
  assumes "\<And>q. rq_current (f q) = rq_current q"
  shows "same_current s (s\<lparr> PERCPU := upd_queue i f (PERCPU s) \<rparr>)"
  using assms by (simp add: same_current_def current_pid_def rq_current_upd split: option.split)

lemma same_current_resched: "same_current s (s\<lparr> PERCPU := set_need_resched c (PERCPU s) \<rparr>)"
proof (cases "get_percpu_sched (PERCPU s) (unat c)")
  case None
  then show ?thesis by (simp add: set_need_resched_def same_current_def)
next
  case (Some i)
  then show ?thesis by (simp add: set_need_resched_def same_current_queue)
qed

interpretation cur: state_relation same_current UNIV UNIV
proof (unfold_locales, goal_cases)
  case (2 a b c)
  then show ?case by (simp add: same_current_def)
qed (simp_all add: same_current_upd_slot same_current_resched, simp_all add: same_current_def record_call_def)

definition no_new_running :: "ProcessEntry \<Rightarrow> ProcessEntry \<Rightarrow> bool" where
  "no_new_running e e' \<longleftrightarrow> pid (process e') = pid (process e) \<and> (p_state (process e') = Running \<longrightarrow> p_state (process e) = Running)"

interpretation nr: entry_relation no_new_running UNIV "- {Running}"
proof (unfold_locales, goal_cases)
  case (4 e m)
  then show ?case by (cases "p_state (process e)") (simp_all add: no_new_running_def wake_entry_def upd_process_def Let_def)
qed (auto simp: no_new_running_def upd_process_def request_state_def)

lemma running_current_kept:
  assumes "running_current s" "table_rel no_new_running s s'" "same_current s s'"
  shows "running_current s'"
  unfolding running_current_def
proof (intro allI impI)
  fix i e'
  assume i: "i < length (PROCESS_TABLE s')" "PROCESS_TABLE s' ! i = Some e'" "p_state (process e') = Running"
  have "i < length (PROCESS_TABLE s)" using i(1) table_relD(1) [OF assms(2)] by simp
  then obtain e where "PROCESS_TABLE s ! i = Some e" "no_new_running e e'" using table_rel_slot [OF assms(2) _ i(2)] by blast
  then show "\<exists>c. current_pid c s' = Some (pid (process e'))"
    using assms(1,3) i \<open>i < length (PROCESS_TABLE s)\<close> by (auto simp: running_current_def no_new_running_def same_current_def)
qed

section \<open>Every operation keeps the invariant\<close>

lemma entry_ok_switch:
  "entry_ok e \<Longrightarrow> entry_ok (extract_next_process_info cpu tk e)" "entry_ok (leave_cpu gs e) = entry_ok e"
  "entry_ok (save_old_entry fs e) = entry_ok e" "entry_ok e \<Longrightarrow> entry_ok (start_entry tk e)"
  "entry_ok (save_syscall_context_to_entry gs e) = entry_ok e" "entry_ok e \<Longrightarrow> entry_ok (charge_tick d e)"
  using replenish_slice_ok [of e] update_curr_ok [of e d]
  by (auto simp: entry_ok_def extract_next_process_info_def leave_cpu_def switch_out_entry_def save_old_entry_def start_entry_def
      save_syscall_context_to_entry_def charge_tick_def upd_process_def Let_def i64_min_def i64_max_def)

lemma credit_entry_ok: "entry_ok e \<Longrightarrow> entry_ok (credit_entry tk w e)"
  using sat_i64_bounds by (auto simp: entry_ok_def credit_entry_def Let_def MAX_LAG_def i64_min_def i64_max_def min_def)

lemma decided_ok: "entry_ok e \<Longrightarrow> entry_ok (decided cpu h cur tk i j e)"
  by (simp add: decided_def Let_def entry_ok_switch)

lemma decided_sleep_ok: "sleep_ok e \<Longrightarrow> sleep_ok (decided cpu h cur tk i j e)"
  by (auto simp: sleep_ok_def decided_def leave_cpu_def switch_out_entry_def save_old_entry_def extract_next_process_info_def
      save_syscall_context_to_entry_def upd_process_def replenish_slice_def Let_def)

text \<open>An update of every slot that keeps PIDs and entry invariants keeps the table's invariant.\<close>

lemma proc_inv_map:
  assumes "proc_inv s" "length (PROCESS_TABLE s') = length (PROCESS_TABLE s)"
    and "\<And>j. j < length (PROCESS_TABLE s) \<Longrightarrow> PROCESS_TABLE s' ! j = map_option (f j) (PROCESS_TABLE s ! j)"
    and "\<And>j e. pid (process (f j e)) = pid (process e)" "\<And>j e. entry_ok e \<Longrightarrow> entry_ok (f j e)" "\<And>j e. sleep_ok e \<Longrightarrow> sleep_ok (f j e)"
  shows "proc_inv s'"
proof -
  have "pids_distinct (PROCESS_TABLE s')"
    using map_pid_distinct [OF _ assms(2,3)] assms(1,4) by (simp add: proc_inv_def)
  moreover have "list_all (pred_option P) (PROCESS_TABLE s')"
    if "list_all (pred_option P) (PROCESS_TABLE s)" "\<And>j e. P e \<Longrightarrow> P (f j e)" for P
    using that(1) that(2) assms(2,3) by (auto simp: list_all_length option.pred_map pred_option_def)
  ultimately show ?thesis using assms(1,2) assms(5,6) by (simp add: proc_inv_def table_ok_def)
qed

lemma shares_current: "get_percpu_sched (PERCPU s) c = get_percpu_sched (PERCPU s) cpu \<Longrightarrow> current_pid c s = current_pid cpu s"
  by (simp add: current_pid_def)

lemma decided_running:
  "p_state (process (decided cpu h cur tk i j e)) = Running \<Longrightarrow> i = j \<or> p_state (process e) = Running \<and> cur \<noteq> Some (pid (process e))"
  by (auto simp: decided_def leave_cpu_def switch_out_entry_def save_old_entry_def extract_next_process_info_def
      save_syscall_context_to_entry_def upd_process_def Let_def split: if_splits)

text \<open>A CPU takes over slot \<open>i\<close>: whoever runs afterwards runs there or ran before on another CPU.\<close>

lemma takeover_running_current:
  assumes "running_current s" "length (PROCESS_TABLE s') = length (PROCESS_TABLE s)"
    and "\<And>j. j < length (PROCESS_TABLE s) \<Longrightarrow> PROCESS_TABLE s' ! j = map_option (f j) (PROCESS_TABLE s ! j)"
    and "\<And>j e. pid (process (f j e)) = pid (process e)"
    and "\<And>j e. p_state (process (f j e)) = Running \<Longrightarrow> i = j \<or> p_state (process e) = Running \<and> current_pid cpu s \<noteq> Some (pid (process e))"
    and "i < length (PROCESS_TABLE s)" "has_pid p (PROCESS_TABLE s ! i)"
    and "\<And>c. current_pid c s' = (if get_percpu_sched (PERCPU s) c = get_percpu_sched (PERCPU s) cpu then Some p else current_pid c s)"
  shows "running_current s'"
  unfolding running_current_def
proof (intro allI impI)
  fix j e' assume j: "j < length (PROCESS_TABLE s')" "PROCESS_TABLE s' ! j = Some e'" "p_state (process e') = Running"
  then obtain e0 where e0: "j < length (PROCESS_TABLE s)" "PROCESS_TABLE s ! j = Some e0" "e' = f j e0" using assms(2,3) by auto
  show "\<exists>c. current_pid c s' = Some (pid (process e'))"
  proof (cases "i = j")
    case True
    then show ?thesis using e0 assms(4,7,8) by (auto intro!: exI [of _ cpu])
  next
    case False
    then have n: "p_state (process e0) = Running" "current_pid cpu s \<noteq> Some (pid (process e0))" using assms(5) j(3) e0(3) by blast+
    then obtain c where c: "current_pid c s = Some (pid (process e0))" using assms(1) e0 by (auto simp: running_current_def)
    then have "get_percpu_sched (PERCPU s) c \<noteq> get_percpu_sched (PERCPU s) cpu" using n(2) shares_current [of s c cpu] by auto
    then show ?thesis using c assms(4,8) e0(3) by (auto intro!: exI [of _ c])
  qed
qed

lemma decide_inv:
  assumes "sched_inv s"
  shows "sched_inv (snd (compute_schedule_decision cpu h s))"
proof -
  obtain d s' where r: "compute_schedule_decision cpu h s = (d, s')" by (meson surj_pair)
  have inv: "proc_inv s" "percpu_ok (PERCPU s)" "running_current s" using assms by (simp_all add: sched_inv_def)
  then have l: "length (PROCESS_TABLE s) = MAX_PROCESSES" and dist: "pids_distinct (PROCESS_TABLE s)" by (simp_all add: proc_inv_def table_ok_def)
  have upd: "sched_inv (upd_slot f i s)"
    if "\<And>e. pid (process (f e)) = pid (process e)" "\<And>e. p_state (process (f e)) = p_state (process e)"
      "\<And>e. wake_pending (process (f e)) = wake_pending (process e)" "\<And>e. entry_ok e \<Longrightarrow> entry_ok (f e)" for f i
  proof -
    have "proc_inv (upd_slot f i s)"
      by (rule proc_inv_map [OF inv(1), where f = "\<lambda>j e. if j = i then f e else e"])
        (use that in \<open>auto simp: upd_slot_table sleep_ok_def option.map_ident\<close>)
    moreover have "running_current (upd_slot f i s)"
      by (rule running_current_kept [OF inv(3) nr.upd_slot_rel same_current_upd_slot]) (simp add: no_new_running_def that)
    ultimately show ?thesis using inv(2) by (simp add: sched_inv_def)
  qed
  from l r show ?thesis
  proof (cases rule: decide_cases)
    case idle
    then show ?thesis using r assms upd [of "save_syscall_context_to_entry (gs_data h)"]
      by (auto simp: entry_ok_switch) (simp_all add: save_syscall_context_to_entry_def upd_process_def)
  next
    case (continue i e)
    have "process (replenish_slice e) = process e" for e by (simp add: replenish_slice_def Let_def)
    then have "sched_inv (upd_slot (\<lambda>e. if slice_remaining_ns e = 0 then replenish_slice e else e) i s)"
      by (intro upd) (simp_all add: replenish_slice_ok)
    then show ?thesis using r continue by simp
  next
    case (switch i e)
    note d = decide_ready [OF dist inv(2) switch r]
    have "proc_inv s'" by (rule proc_inv_map [OF inv(1) d(3) d(2)]) (simp_all add: decided_ok decided_sleep_ok)
    moreover have "running_current s'"
      by (rule takeover_running_current [OF inv(3) d(3) d(2) _ _ switch(2) _ d(4)]) (use switch(3) decided_running in auto)
    ultimately show ?thesis using d(5) r by (simp add: sched_inv_def)
  qed
qed

text \<open>Updates in place: the table evolves, nobody starts to run, and the CPUs keep their processes.\<close>

lemma in_place_inv:
  assumes "sched_inv s" "table_rel (evolves UNIV) s s'" "table_rel no_new_running s s'" "same_current s s'"
  shows "sched_inv s'"
  using assms evolves_inv [OF assms(2)] running_current_kept [OF _ assms(3,4)] by (simp add: sched_inv_def same_current_def)

lemma tick_inv: "sched_inv s \<Longrightarrow> sched_inv (snd (tick locked cpu ms s))"
proof -
  assume inv: "sched_inv s"
  have ev: "evolves UNIV e (charge_tick d e)" "evolves UNIV e (e\<lparr> preempt_count := n \<rparr>)" for e d n
    using entry_ok_switch(6) [of e d] by (simp_all add: evolves_def sleep_ok_def entry_ok_def)
  have nr: "no_new_running e (charge_tick d e)" "no_new_running e (e\<lparr> preempt_count := n \<rparr>)" for e d n by (simp_all add: no_new_running_def)
  have tick0: "sched_inv (a\<lparr> GLOBAL_TICK := k \<rparr>)" if "sched_inv a" for a k
    by (rule in_place_inv [OF that]) (simp_all add: ev.rel_same nr.rel_same same_current_def)
  have charge: "sched_inv (upd_slot (charge_tick d) i a)" if "sched_inv a" for a i d
    by (rule in_place_inv [OF that]) (simp_all add: ev.upd_slot_rel nr.upd_slot_rel ev nr same_current_upd_slot)
  have resched: "sched_inv (a\<lparr> PERCPU := snd (check_need_resched cpu (PERCPU a)) \<rparr>)" if "sched_inv a" for a
  proof -
    have "same_current a (a\<lparr> PERCPU := snd (check_need_resched cpu (PERCPU a)) \<rparr>)"
      using same_current_queue [of "\<lambda>q. q\<lparr> rq_need_resched := False \<rparr>" a] cur.Rel_refl [of a]
      by (simp add: check_need_resched_def split: option.split)
    then show ?thesis by (intro in_place_inv [OF that]) (simp_all add: ev.rel_same nr.rel_same)
  qed
  have preempt: "sched_inv (handle_preemption p a)" if "sched_inv a" for a p
    using in_place_inv [OF that, of "upd_slot (\<lambda>e. e\<lparr> preempt_count := preempt_count e + 1 \<rparr>) _ a"] that
    by (auto simp: handle_preemption_def ev.upd_slot_rel nr.upd_slot_rel ev nr same_current_upd_slot split: option.split)
  show ?thesis
    using inv tick0 charge resched [OF charge [OF tick0 [OF inv]]] preempt [OF resched [OF charge [OF tick0 [OF inv]]]]
    by (auto simp: tick_def Let_def split: option.split prod.split)
qed

definition stop_entry :: "u64 \<Rightarrow> Pid option \<Rightarrow> ProcessEntry \<Rightarrow> ProcessEntry" where
  "stop_entry tk cur e = (if cur = Some (pid (process e)) \<and> p_state (process e) = Running
     then e\<lparr> process := (process e)\<lparr> p_state := Ready \<rparr>, last_scheduled := tk \<rparr> else e)"

definition credited :: "proc_table \<Rightarrow> u64 \<Rightarrow> ProcessEntry \<Rightarrow> ProcessEntry" where
  "credited t tk e = (if length [e. Some e \<leftarrow> t, runnable e] \<le> 1 \<or> total_weight t = 0 then e else credit_entry tk (total_weight t) e)"

lemma update_ready_map: "j < length t \<Longrightarrow> update_ready_process_eevdf t tk ! j = map_option (credited t tk) (t ! j)"
  by (cases "t ! j") (simp_all add: update_ready_process_eevdf_def Let_def credited_def)

lemma credited_frame [simp]: "process (credited t tk e) = process e" "sleep_ok (credited t tk e) = sleep_ok e"
  by (simp_all add: credited_def sleep_ok_def)

lemma credited_ok: "entry_ok e \<Longrightarrow> entry_ok (credited t tk e)"
  by (simp add: credited_def credit_entry_ok)

lemma stop_start_frame [simp]:
  "pid (process (stop_entry tk p x)) = pid (process x)" "entry_ok (stop_entry tk p x) = entry_ok x"
  "sleep_ok x \<Longrightarrow> sleep_ok (stop_entry tk p x)" "pid (process (start_entry tk x)) = pid (process x)" "sleep_ok (start_entry tk x)"
  "p_state (process (stop_entry tk p x)) = Running \<longleftrightarrow> p_state (process x) = Running \<and> p \<noteq> Some (pid (process x))"
  by (auto simp: stop_entry_def start_entry_def entry_ok_def sleep_ok_def replenish_slice_def Let_def)

lemma previous_map:
  assumes "pids_distinct t" "j < length t"
  shows "(case cur of None \<Rightarrow> t | Some p \<Rightarrow> update_previous_process_state t p tk) ! j = map_option (stop_entry tk cur) (t ! j)"
proof (cases cur)
  case None
  then have "stop_entry tk cur = (\<lambda>e. e)" by (simp add: stop_entry_def fun_eq_iff)
  then show ?thesis using None by (simp add: option.map_ident)
next
  case (Some p)
  have "update_previous_process_state t p tk ! j = map_option (stop_entry tk cur) (t ! j)"
    unfolding update_previous_process_state_def
    by (subst find_slot_upd)
      (use assms pid_unique [OF assms(1)] in \<open>auto simp: stop_entry_def Some split: option.splits intro!: option.map_cong\<close>)
  then show ?thesis by (simp add: Some)
qed

lemma schedule_table:
  assumes "find_best_candidate cpu (update_ready_process_eevdf (PROCESS_TABLE s) (GLOBAL_TICK s)) 0 = Some (candidate_of i e)"
    and "pids_distinct (PROCESS_TABLE s)" "j < length (PROCESS_TABLE s)"
  shows "PROCESS_TABLE (snd (schedule cpu s)) ! j =
      map_option (\<lambda>e. let e' = stop_entry (GLOBAL_TICK s) (current_pid cpu s) e in if i = j then start_entry (GLOBAL_TICK s) e' else e')
        (update_ready_process_eevdf (PROCESS_TABLE s) (GLOBAL_TICK s) ! j)"
    and "length (PROCESS_TABLE (snd (schedule cpu s))) = length (PROCESS_TABLE s)"
proof -
  let ?t = "update_ready_process_eevdf (PROCESS_TABLE s) (GLOBAL_TICK s)"
  let ?t2 = "case current_pid cpu s of None \<Rightarrow> ?t | Some p \<Rightarrow> update_previous_process_state ?t p (GLOBAL_TICK s)"
  have d: "pids_distinct ?t" by (rule map_pid_distinct [OF assms(2) _ update_ready_map]) simp_all
  have b: "find_best_candidate cpu ?t k = Some (candidate_of i e)" for k using assms(1) by (simp add: find_best_candidate_def)
  have t: "PROCESS_TABLE (snd (schedule cpu s)) = upd_entry (start_entry (GLOBAL_TICK s)) i ?t2"
    by (simp add: schedule_def schedule_locked_def Let_def b candidate_of_def)
  have l: "length ?t2 = length (PROCESS_TABLE s)" by (simp split: option.split)
  show "length (PROCESS_TABLE (snd (schedule cpu s))) = length (PROCESS_TABLE s)" using l by (simp add: t upd_entry_def)
  have "?t2 ! j = map_option (stop_entry (GLOBAL_TICK s) (current_pid cpu s)) (?t ! j)" using previous_map [OF d] assms(3) by simp
  then show "PROCESS_TABLE (snd (schedule cpu s)) ! j =
      map_option (\<lambda>e. let e' = stop_entry (GLOBAL_TICK s) (current_pid cpu s) e in if i = j then start_entry (GLOBAL_TICK s) e' else e') (?t ! j)"
    unfolding t using l assms(3) by (auto simp: upd_entry_def option.map_comp comp_def Let_def)
qed

lemma schedule_inv:
  assumes "sched_inv s"
  shows "sched_inv (snd (schedule cpu s))"
proof -
  have inv: "proc_inv s" "percpu_ok (PERCPU s)" "running_current s" using assms by (simp_all add: sched_inv_def)
  then have dist: "pids_distinct (PROCESS_TABLE s)" by (simp add: proc_inv_def)
  let ?t = "update_ready_process_eevdf (PROCESS_TABLE s) (GLOBAL_TICK s)" and ?s = "snd (schedule cpu s)"
  let ?f = "credited (PROCESS_TABLE s) (GLOBAL_TICK s)"
  show ?thesis
  proof (cases "find_best_candidate cpu ?t 0")
    case None
    then have "find_best_candidate cpu ?t k = None" for k by (simp add: find_best_candidate_def)
    then have s: "?s = s\<lparr> PROCESS_TABLE := ?t \<rparr>" by (simp add: schedule_def schedule_locked_def Let_def)
    have "proc_inv ?s" by (rule proc_inv_map [OF inv(1), where f = "\<lambda>_. ?f"]) (simp_all add: s update_ready_map credited_ok)
    moreover have "table_rel no_new_running s ?s"
      unfolding table_rel_def s
      by (rule list_all2_all_nthI) (simp_all add: update_ready_map option.rel_map no_new_running_def option.rel_refl)
    ultimately show ?thesis using running_current_kept [OF inv(3), of ?s] inv(2) by (simp add: sched_inv_def s same_current_def)
  next
    case (Some k)
    then obtain i e where ie: "i < length ?t" "?t ! i = Some e" "k = candidate_of i e" by (rule find_best_candidate_Some)
    have b: "find_best_candidate cpu ?t n = Some (candidate_of i e)" for n using Some ie(3) by (simp add: find_best_candidate_def)
    note t = schedule_table [OF b dist]
    let ?g = "\<lambda>j e0. let e' = stop_entry (GLOBAL_TICK s) (current_pid cpu s) (?f e0) in if i = j then start_entry (GLOBAL_TICK s) e' else e'"
    have l: "length (PROCESS_TABLE ?s) = length (PROCESS_TABLE s)" using t(2) ie(1) by simp
    have tj: "PROCESS_TABLE ?s ! j = map_option (?g j) (PROCESS_TABLE s ! j)" if "j < length (PROCESS_TABLE s)" for j
      using t(1) [OF that] update_ready_map [OF that, of "GLOBAL_TICK s"] by (simp add: option.map_comp comp_def)
    have "proc_inv ?s" by (rule proc_inv_map [OF inv(1) l tj]) (simp_all add: Let_def credited_ok entry_ok_switch)
    moreover have cu: "current_pid c ?s = (if get_percpu_sched (PERCPU s) c = get_percpu_sched (PERCPU s) cpu then Some (pid (process e)) else current_pid c s)" for c
      using inv(2) ie(2) by (simp add: schedule_def schedule_locked_def Let_def b candidate_of_def current_pid_set)
    moreover have "percpu_ok (PERCPU ?s)" using inv(2) by (simp add: schedule_def schedule_locked_def Let_def b candidate_of_def)
    moreover have "running_current ?s"
      by (rule takeover_running_current [OF inv(3) l tj _ _ _ _ cu, of i])
        (use ie update_ready_map [of i "PROCESS_TABLE s" "GLOBAL_TICK s"] in \<open>auto simp: Let_def split: if_split_asm\<close>)
    ultimately show ?thesis by (simp add: sched_inv_def)
  qed
qed

lemma in_place_rels:
  assumes "sched_op_ok (Proc op) s" "case op of OpAdd _ _ _ _ \<Rightarrow> False | OpRemove _ \<Rightarrow> False | OpForked _ \<Rightarrow> False | _ \<Rightarrow> True"
  shows "table_rel no_new_running s (proc_exec cpu op s)" and "same_current s (proc_exec cpu op s)"
proof -
  show "table_rel no_new_running s (proc_exec cpu op s)"
    using assms by (cases op) (simp_all add: nr.set_process_state_rel nr.set_current_state_rel nr.set_exit_code_rel nr.set_term_signal_rel
      nr.update_cr3_rel nr.wake_process_rel try_wake_process_def nr.rel_same nr.futex_wake_rel terminate_thread_group_def
      nr.terminate_fold_rel wake_thread_group_def nr.wake_fold_rel)
  show "same_current s (proc_exec cpu op s)"
    using assms by (cases op) (simp_all add: cur.set_process_state_rel cur.set_current_state_rel cur.set_exit_code_rel cur.set_term_signal_rel
      cur.update_cr3_rel cur.wake_process_rel try_wake_process_def cur.Rel_refl cur.futex_wake_rel terminate_thread_group_def
      cur.terminate_fold_rel wake_thread_group_def cur.wake_fold_rel)
qed

lemma add_running_current:
  assumes "running_current s" "p_state pr \<noteq> Running"
  shows "running_current (snd (add_process_with_policy pr prio pol n s))" (is "running_current ?s")
proof -
  have "current_pid c ?s = current_pid c s" for c
    by (simp add: add_process_alt insert_process_def current_pid_frame split: option.split)
  moreover have "p_state (process (new_entry pr prio pol n t m)) \<noteq> Running" for t m using assms(2) by (simp add: new_entry_def Let_def)
  ultimately show ?thesis using assms(1)
    by (auto simp: running_current_def add_process_table nth_update_if split: option.splits if_splits)
qed

lemma remove_current:
  assumes "percpu_ok (PERCPU s)"
  shows "current_pid c (snd (remove_process cpu p s)) = current_pid c s \<or> current_pid c s = Some p"
    and "percpu_ok (PERCPU (snd (remove_process cpu p s)))"
proof -
  have rel: "PERCPU (release_resources pr a) = PERCPU a" "current_pid c (release_resources pr a) = current_pid c a" for pr a
    by (simp_all add: release_resources_def record_call_def Let_def)
  have "current_pid c (set_current_pid cpu None (remove_slot i s)) = current_pid c s \<or> current_pid c s = Some p"
    if "current_pid cpu s = Some p" for i
    using that current_pid_set [of "remove_slot i s" c cpu None] assms shares_current [of s c cpu] by (auto simp: remove_slot_def)
  then show "current_pid c (snd (remove_process cpu p s)) = current_pid c s \<or> current_pid c s = Some p"
    by (auto simp: remove_process_def Let_def rel remove_slot_def split: option.split)
  show "percpu_ok (PERCPU (snd (remove_process cpu p s)))" using assms
    by (auto simp: remove_process_def Let_def rel remove_slot_def split: option.split)
qed

lemma remove_running_current:
  assumes "running_current s" "percpu_ok (PERCPU s)" "pids_distinct (PROCESS_TABLE s)"
  shows "running_current (snd (remove_process cpu p s))"
  unfolding running_current_def
proof (intro allI impI)
  fix j e
  assume j: "j < length (PROCESS_TABLE (snd (remove_process cpu p s)))" "PROCESS_TABLE (snd (remove_process cpu p s)) ! j = Some e"
    "p_state (process e) = Running"
  have l: "j < length (PROCESS_TABLE s)" "PROCESS_TABLE s ! j = Some e"
    using j by (auto simp: remove_process_table nth_update_if split: option.splits if_splits)
  have ne: "pid (process e) \<noteq> p"
  proof
    assume "pid (process e) = p"
    then have "find_process s p = Some j" using find_process_iff [OF assms(3), of p j] l by simp
    then show False using j(2) l by (simp add: remove_process_table)
  qed
  obtain c where "current_pid c s = Some (pid (process e))" using assms(1) l j(3) by (auto simp: running_current_def)
  then show "\<exists>c. current_pid c (snd (remove_process cpu p s)) = Some (pid (process e))"
    using remove_current(1) [OF assms(2), of c cpu p] ne by auto
qed

lemma proc_sched_inv:
  assumes "sched_inv s" "sched_op_ok (Proc op) s"
  shows "sched_inv (proc_exec cpu op s)"
proof (cases "case op of OpAdd _ _ _ _ \<Rightarrow> False | OpRemove _ \<Rightarrow> False | OpForked _ \<Rightarrow> False | _ \<Rightarrow> True")
  case True
  show ?thesis by (rule in_place_inv [OF assms(1) in_place_evolves [OF True] in_place_rels [OF assms(2) True]])
next
  case False
  have inv: "proc_inv s" "percpu_ok (PERCPU s)" "running_current s" using assms(1) by (simp_all add: sched_inv_def)
  have p: "proc_inv (proc_exec cpu op s)" using proc_exec_inv [OF inv(1)] assms(2) by simp
  show ?thesis
  proof (cases op)
    case (OpAdd pr prio pol n)
    have "PERCPU (proc_exec cpu op s) = PERCPU s" by (simp add: OpAdd add_process_table)
    then show ?thesis using p inv add_running_current [OF inv(3), of pr] assms(2) by (simp add: sched_inv_def OpAdd)
  next
    case (OpRemove q)
    then show ?thesis using p inv remove_running_current [OF inv(3,2)] remove_current(2) [OF inv(2)] by (simp add: sched_inv_def proc_inv_def)
  next
    case (OpForked q)
    have "table_rel no_new_running s (proc_exec cpu op s)"
      unfolding OpForked proc_exec.simps mark_process_as_forked_child_def by (rule nr.update_found_rel) (simp add: no_new_running_def upd_process_def)
    moreover have "same_current s (proc_exec cpu op s)"
      unfolding OpForked proc_exec.simps mark_process_as_forked_child_def by (rule cur.update_found_Rel) (rule same_current_upd_slot)
    ultimately show ?thesis using p inv running_current_kept [OF inv(3)] by (simp add: sched_inv_def same_current_def)
  qed (use False in simp_all)
qed

lemma sched_exec_inv: "sched_inv s \<Longrightarrow> sched_op_ok op s \<Longrightarrow> sched_inv (sched_exec cpu op s)"
  by (cases op) (simp_all add: proc_sched_inv decide_inv tick_inv schedule_inv)

lemma sched_run_inv: "sched_run ops s s' \<Longrightarrow> sched_inv s \<Longrightarrow> sched_inv s'"
  by (induction rule: sched_run.induct) (simp_all add: sched_exec_inv)

lemma sched_start_inv: "percpu_ok g \<Longrightarrow> sched_inv (sched_start g)"
  using proc_inv_boot by (simp add: sched_inv_def sched_start_def proc_inv_def running_current_def sched_boot_def)

text \<open>
  C4: who runs where.  Whatever the CPUs execute from the boot state, in whatever order, the process
  table stays well-formed and every process in the state \<open>Running\<close> is the current process of some
  CPU; so no two running processes share a CPU.
\<close>

theorem running_is_current:
  assumes "percpu_ok g" "sched_run ops (sched_start g) s" "i < MAX_PROCESSES" "PROCESS_TABLE s ! i = Some e" "p_state (process e) = Running"
  shows "proc_inv s \<and> (\<exists>c. current_pid c s = Some (pid (process e)) \<and>
    (\<forall>j e'. j < MAX_PROCESSES \<longrightarrow> j \<noteq> i \<longrightarrow> PROCESS_TABLE s ! j = Some e' \<longrightarrow> current_pid c s \<noteq> Some (pid (process e'))))"
proof -
  have inv: "sched_inv s" using sched_run_inv [OF assms(2) sched_start_inv [OF assms(1)]] .
  then have p: "proc_inv s" and l: "length (PROCESS_TABLE s) = MAX_PROCESSES" by (simp_all add: sched_inv_def proc_inv_def table_ok_def)
  obtain c where "current_pid c s = Some (pid (process e))" using inv assms(3-5) l by (auto simp: sched_inv_def running_current_def)
  moreover have "pid (process e') \<noteq> pid (process e)" if "j < MAX_PROCESSES" "j \<noteq> i" "PROCESS_TABLE s ! j = Some e'" for j e'
    using pid_unique [of "PROCESS_TABLE s" j i e' e] p that l assms(3,4) by (auto simp: proc_inv_def)
  ultimately show ?thesis using p by fastforce
qed

section \<open>Nobody is passed over\<close>

definition waits_at :: "nat \<Rightarrow> nat \<Rightarrow> Pid \<Rightarrow> sched_state \<Rightarrow> bool" where
  "waits_at cpu i p s \<longleftrightarrow> i < MAX_PROCESSES \<and> (\<exists>e. PROCESS_TABLE s ! i = Some e \<and> pid (process e) = p \<and> ready_on cpu e)"

text \<open>
  A decision takes the parent of the CPU's current process, ahead of the rotation, when that process is a
  zombie and its parent is ready.  This is the case the rotation excludes.
\<close>

definition no_zombie_parent :: "nat \<Rightarrow> sched_state \<Rightarrow> bool" where
  "no_zombie_parent cpu s \<longleftrightarrow> Option.bind (current_pid cpu s) (find_zombie_parent_index (PROCESS_TABLE s)) = None"

text \<open>
  What happens between two decisions of a CPU while \<open>p\<close> waits in slot \<open>i\<close>: anything that leaves \<open>p\<close>
  ready and allowed on the CPU, and leaves the CPU's current process in its slot.
\<close>

definition undisturbed :: "nat \<Rightarrow> nat \<Rightarrow> Pid \<Rightarrow> sched_state \<Rightarrow> sched_state \<Rightarrow> bool" where
  "undisturbed cpu i p s s' \<longleftrightarrow> sched_inv s' \<and> waits_at cpu i p s' \<and>
     current_pid cpu s' = current_pid cpu s \<and>
     (\<forall>q. current_pid cpu s = Some q \<longrightarrow> pid_slot (PROCESS_TABLE s') q = pid_slot (PROCESS_TABLE s) q)"

abbreviation decide :: "nat \<Rightarrow> cpu_hw \<Rightarrow> sched_state \<Rightarrow> sched_state" where
  "decide cpu h s \<equiv> snd (compute_schedule_decision cpu h s)"

lemma decided_next: "p_state (process e) = Ready \<Longrightarrow> p_state (process (decided cpu h cur tk j j e)) = Running"
  by (auto simp: decided_def leave_cpu_def extract_next_process_info_def save_old_entry_def upd_process_def Let_def)

lemma decided_wake_pending: "wake_pending (process (decided cpu h cur tk i j e)) = wake_pending (process e)"
  by (simp add: decided_def leave_cpu_def switch_out_entry_def save_old_entry_def extract_next_process_info_def
      save_syscall_context_to_entry_def upd_process_def replenish_slice_def Let_def)

lemma decide_rotates:
  assumes "sched_inv s" "waits_at cpu i p s" "no_zombie_parent cpu s"
    and "d < MAX_PROCESSES" "(find_start_index (PROCESS_TABLE s) (current_pid cpu s) + d) mod MAX_PROCESSES = i"
  obtains (chosen) e where "current_pid cpu (decide cpu h s) = Some p" "PROCESS_TABLE (decide cpu h s) ! i = Some e"
      "pid (process e) = p" "p_state (process e) = Running"
  | (nearer) q j d' where "current_pid cpu (decide cpu h s) = Some q" "pid_slot (PROCESS_TABLE (decide cpu h s)) q = Some j"
      "q \<noteq> p" "d' < d" "(j + 1 + d') mod MAX_PROCESSES = i"
proof -
  let ?start = "find_start_index (PROCESS_TABLE s) (current_pid cpu s)"
  have inv: "pids_distinct (PROCESS_TABLE s)" "percpu_ok (PERCPU s)" and l: "length (PROCESS_TABLE s) = MAX_PROCESSES"
    using assms(1) by (simp_all add: sched_inv_def proc_inv_def table_ok_def)
  obtain e where e: "PROCESS_TABLE s ! i = Some e" "pid (process e) = p" "ready_on cpu e" using assms(2) by (auto simp: waits_at_def)
  have "find_next_ready_index cpu (PROCESS_TABLE s) ?start \<noteq> None"
    using find_next_ready_None [OF _ _ e(1)] e(3) assms(2) by (auto simp: waits_at_def)
  then obtain j where j: "find_next_ready_index cpu (PROCESS_TABLE s) ?start = Some j" by blast
  then obtain k ej where k: "k < MAX_PROCESSES" "j = (?start + k) mod MAX_PROCESSES" "PROCESS_TABLE s ! j = Some ej" "ready_on cpu ej"
    and least: "\<And>k' e'. k' < k \<Longrightarrow> PROCESS_TABLE s ! ((?start + k') mod MAX_PROCESSES) = Some e' \<Longrightarrow> \<not> ready_on cpu e'"
    by (rule find_next_ready_SomeD) blast
  have "k \<le> d" using least [of d e] assms(5) e by fastforce
  have nx: "next_index cpu (PROCESS_TABLE s) (current_pid cpu s) = Some j"
    using j assms(3) by (simp add: next_index_def no_zombie_parent_def)
  have jl: "j < length (PROCESS_TABLE s)" using k(2) l by (simp add: MAX_PROCESSES_def)
  obtain dd s' where r: "compute_schedule_decision cpu h s = (dd, s')" by (meson surj_pair)
  note dr = decide_ready [OF inv nx jl k(3) _ r]
  have rdy: "p_state (process ej) = Ready" using k(4) by (simp add: ready_on_def)
  let ?ej = "decided cpu h (current_pid cpu s) (GLOBAL_TICK s) j j ej"
  have sj: "PROCESS_TABLE s' ! j = Some ?ej" using dr(2) [OF rdy jl] k(3) by simp
  have cur: "current_pid cpu s' = Some (pid (process ej))" using dr(4) [OF rdy, of cpu] by simp
  show ?thesis
  proof (cases "j = i")
    case True
    have "p_state (process ?ej) = Running" using decided_next [OF rdy] .
    then show ?thesis using chosen [of ?ej] True k(3) e cur sj r by simp
  next
    case False
    have "k < d" using \<open>k \<le> d\<close> False k(2) assms(5) by (cases "k = d") auto
    have "pid (process ej) \<noteq> p" using pid_unique [OF inv(1) jl _ k(3) e(1)] False e(2) assms(2) l by (auto simp: waits_at_def)
    have d': "pids_distinct (PROCESS_TABLE s')" by (rule map_pid_distinct [OF inv(1) dr(3) dr(2)]) (simp_all add: rdy)
    have "pid_slot (PROCESS_TABLE s') (pid (process ej)) = Some j"
      using linear.find_unique [of s' "pid (process ej)" j] pids_distinctD [OF d'] sj jl dr(3) [OF rdy] by simp
    moreover have "(j + 1 + (d - k - 1)) mod MAX_PROCESSES = i"
    proof -
      have "(j + (d - k)) mod MAX_PROCESSES = (?start + k + (d - k)) mod MAX_PROCESSES" unfolding k(2) by (rule mod_add_left_eq)
      moreover have "j + 1 + (d - k - 1) = j + (d - k)" using \<open>k < d\<close> by simp
      ultimately show ?thesis using \<open>k < d\<close> assms(5) by simp
    qed
    ultimately show ?thesis using nearer [of "pid (process ej)" j "d - k - 1"] cur r \<open>pid (process ej) \<noteq> p\<close> \<open>k < d\<close> by simp
  qed
qed

lemma rotation_ends:
  assumes "\<And>k. current_pid cpu (decide cpu (h k) (f k)) \<noteq> Some p \<Longrightarrow>
      undisturbed cpu i p (decide cpu (h k) (f k)) (f (Suc k)) \<and> no_zombie_parent cpu (f (Suc k))"
    and "sched_inv (f n)" "waits_at cpu i p (f n)" "no_zombie_parent cpu (f n)"
    and "d < MAX_PROCESSES" "(find_start_index (PROCESS_TABLE (f n)) (current_pid cpu (f n)) + d) mod MAX_PROCESSES = i"
  shows "\<exists>k \<le> d. \<exists>e. current_pid cpu (decide cpu (h (n + k)) (f (n + k))) = Some p \<and>
    PROCESS_TABLE (decide cpu (h (n + k)) (f (n + k))) ! i = Some e \<and> pid (process e) = p \<and> p_state (process e) = Running"
  using assms(2-)
proof (induction d arbitrary: n rule: less_induct)
  case (less d)
  show ?case
  proof (cases rule: decide_rotates [OF less.prems, of "h n"])
    case (1 e)
    then show ?thesis by (intro exI [of _ 0]) auto
  next
    case (2 q j d')
    then have u: "undisturbed cpu i p (decide cpu (h n) (f n)) (f (Suc n))" "no_zombie_parent cpu (f (Suc n))" using assms(1) [of n] by simp_all
    then have "find_start_index (PROCESS_TABLE (f (Suc n))) (current_pid cpu (f (Suc n))) = (j + 1) mod MAX_PROCESSES"
      using 2(1,2) by (simp add: undisturbed_def find_start_index_def)
    then have m: "(find_start_index (PROCESS_TABLE (f (Suc n))) (current_pid cpu (f (Suc n))) + d') mod MAX_PROCESSES = i"
      using 2(5) by (metis mod_add_left_eq)
    obtain k e where "k \<le> d'" "current_pid cpu (decide cpu (h (Suc n + k)) (f (Suc n + k))) = Some p"
      "PROCESS_TABLE (decide cpu (h (Suc n + k)) (f (Suc n + k))) ! i = Some e" "pid (process e) = p" "p_state (process e) = Running"
      using less.IH [OF 2(4) _ _ _ _ m] u less.prems(4) 2(4) by (auto simp: undisturbed_def)
    then show ?thesis using 2(4) by (intro exI [of _ "Suc k"]) auto
  qed
qed

text \<open>
  C5: round-robin without starvation.  Let \<open>p\<close> be ready and allowed on a CPU, and let \<open>f k\<close> be the
  states in which the CPU makes its scheduling decisions.  Suppose that until \<open>p\<close> is chosen nothing but
  the decisions moves the CPU's position in the table and \<open>p\<close> stays ready in its slot (other CPUs and
  interrupts may do anything else in between), and that no decision is made while the current process
  is a zombie whose parent is ready, because the parent would then take precedence over the rotation.
  Then one of the next 64 decisions of the CPU makes \<open>p\<close> its running process.
\<close>

theorem round_robin_no_starvation:
  assumes "sched_inv (f 0)" "waits_at cpu i p (f 0)" "no_zombie_parent cpu (f 0)"
    and "\<forall>k. current_pid cpu (decide cpu (h k) (f k)) \<noteq> Some p \<longrightarrow>
      undisturbed cpu i p (decide cpu (h k) (f k)) (f (Suc k)) \<and> no_zombie_parent cpu (f (Suc k))"
  shows "\<exists>k < MAX_PROCESSES. \<exists>e. current_pid cpu (decide cpu (h k) (f k)) = Some p \<and>
    PROCESS_TABLE (decide cpu (h k) (f k)) ! i = Some e \<and> pid (process e) = p \<and> p_state (process e) = Running"
proof -
  obtain d where d: "d < MAX_PROCESSES" "(find_start_index (PROCESS_TABLE (f 0)) (current_pid cpu (f 0)) + d) mod MAX_PROCESSES = i"
    using rotation_reaches [of i MAX_PROCESSES] assms(2) by (auto simp: waits_at_def)
  have "undisturbed cpu i p (decide cpu (h k) (f k)) (f (Suc k)) \<and> no_zombie_parent cpu (f (Suc k))" if "current_pid cpu (decide cpu (h k) (f k)) \<noteq> Some p" for k
    using assms(4) that by blast
  from rotation_ends [of cpu h f p i 0 d, OF this assms(1-3) d]
  obtain k where k: "k \<le> d" "\<exists>e. current_pid cpu (decide cpu (h k) (f k)) = Some p \<and>
    PROCESS_TABLE (decide cpu (h k) (f k)) ! i = Some e \<and> pid (process e) = p \<and> p_state (process e) = Running" by auto
  show ?thesis using k(2) le_less_trans [OF k(1) d(1)] by blast
qed

section \<open>A process on two CPUs\<close>

lemma only_ready_next:
  assumes "length t = MAX_PROCESSES" "i < MAX_PROCESSES" "t ! i = Some e" "ready_on cpu e"
    and "\<And>j e'. j < MAX_PROCESSES \<Longrightarrow> j \<noteq> i \<Longrightarrow> t ! j = Some e' \<Longrightarrow> p_state (process e') \<noteq> Ready"
    and "Option.bind cur (find_zombie_parent_index t) = None"
  shows "next_index cpu t cur = Some i"
proof -
  obtain j where j: "find_next_ready_index cpu t (find_start_index t cur) = Some j"
    using find_next_ready_None [OF _ assms(2,3)] assms(4) by (cases "find_next_ready_index cpu t (find_start_index t cur)") auto
  then obtain k e' where "j = (find_start_index t cur + k) mod MAX_PROCESSES" "t ! j = Some e'" "ready_on cpu e'"
    by (rule find_next_ready_SomeD)
  moreover from this have "j < MAX_PROCESSES" by (simp add: MAX_PROCESSES_def)
  ultimately have "j = i" using assms(5) [of j e'] by (auto simp: ready_on_def)
  then show ?thesis using j assms(6) by (simp add: next_index_def)
qed

lemma sleep_then_wake:
  assumes "proc_inv s" "i < MAX_PROCESSES" "PROCESS_TABLE s ! i = Some e" "pid (process e) = p" "current_pid a s = Some p"
    and "p_state (process e) = Running" "\<not> wake_pending (process e)"
    and s'_def: "s' = snd (wake_process b p (set_current_process_state a Sleeping s))"
  obtains e' where "PROCESS_TABLE s' = (PROCESS_TABLE s)[i := Some e']" "p_state (process e') = Ready" "pid (process e') = p"
    "cpu_affinity e' = cpu_affinity e" "context_valid (process e') = context_valid (process e)" "p_context (process e') = p_context (process e)"
    "same_current s s'" "proc_inv s'"
proof -
  let ?s1 = "set_current_process_state a Sleeping s" and ?e1 = "upd_process (request_state Sleeping) e"
  have l: "length (PROCESS_TABLE s) = MAX_PROCESSES" "pids_distinct (PROCESS_TABLE s)" using assms(1) by (simp_all add: proc_inv_def table_ok_def)
  have f: "find_process s p = Some i" using find_process_iff [OF l(2), of p i] assms(2-4) l(1) by simp
  have t1: "PROCESS_TABLE ?s1 = (PROCESS_TABLE s)[i := Some ?e1]"
    using f assms(2,3,5) l(1) by (simp add: set_current_process_state_def update_found_def upd_slot_def upd_entry_def modify_nth_def)
  have e1: "p_state (process ?e1) = Sleeping" using assms(6,7) by (simp add: upd_process_def request_state_def)
  have i1: "proc_inv ?s1" using evolves_inv [OF update_any_state_evolves(2) assms(1)] .
  have w: "PROCESS_TABLE s' = (PROCESS_TABLE ?s1)[i := Some (wake_entry (MIN_VRUNTIME ?s1) ?e1)]"
    unfolding s'_def using wake_process_slot(1) [of ?s1 i ?e1 p b] i1 t1 assms(2,4) l(1)
    by (simp add: proc_inv_def upd_process_def request_state_def)
  have "same_current s s'" unfolding s'_def by (rule cur.Rel_trans [OF cur.set_current_state_rel cur.wake_process_rel]) simp
  moreover have "proc_inv s'" unfolding s'_def using evolves_inv [OF ev.wake_process_rel i1] .
  ultimately show ?thesis using that [of "wake_entry (MIN_VRUNTIME ?s1) ?e1"] w t1 e1 assms(4,6,7)
    by (simp add: wake_entry_def Let_def upd_process_def request_state_def)
qed

text \<open>
  C32: a process can run on two CPUs at once.  CPU \<open>a\<close> runs \<open>p\<close> and \<open>p\<close> asks to sleep; before \<open>a\<close> makes
  its scheduling decision, \<open>p\<close> is woken by the idle CPU \<open>b\<close>, which finds it ready and takes it.
  Both CPUs then have \<open>p\<close> as their current process, and \<open>b\<close> resumes \<open>p\<close> from the context of its last
  switch, which \<open>a\<close> has left behind.
\<close>

theorem process_on_two_cpus:
  assumes "sched_inv s" "i < MAX_PROCESSES" "PROCESS_TABLE s ! i = Some e" "p_state (process e) = Running"
    and "\<not> wake_pending (process e)" "context_valid (process e)" "cm_is_set (cpu_affinity e) b"
    and "current_pid a s = Some (pid (process e))" "current_pid b s = None"
    and "\<forall>j e'. j < MAX_PROCESSES \<longrightarrow> j \<noteq> i \<longrightarrow> PROCESS_TABLE s ! j = Some e' \<longrightarrow> p_state (process e') \<noteq> Ready"
    and "s1 = set_current_process_state a Sleeping s" "s2 = snd (wake_process b (pid (process e)) s1)"
    and "compute_schedule_decision b h s2 = (d, s3)"
  shows "current_pid a s3 = Some (pid (process e)) \<and> current_pid b s3 = Some (pid (process e)) \<and>
    (\<exists>w. d = Some (Switch w) \<and> sw_next_context w = p_context (process e))"
proof -
  have inv: "proc_inv s" "percpu_ok (PERCPU s)" using assms(1) by (simp_all add: sched_inv_def)
  obtain e' where e': "PROCESS_TABLE s2 = (PROCESS_TABLE s)[i := Some e']" "p_state (process e') = Ready" "pid (process e') = pid (process e)"
      "cpu_affinity e' = cpu_affinity e" "context_valid (process e') = context_valid (process e)" "p_context (process e') = p_context (process e)"
      "same_current s s2" "proc_inv s2"
    using sleep_then_wake [OF inv(1) assms(2,3) refl assms(8,4,5)] assms(11,12) by metis
  have l: "length (PROCESS_TABLE s) = MAX_PROCESSES" using inv(1) by (simp add: proc_inv_def table_ok_def)
  have cur: "current_pid a s2 = Some (pid (process e))" "current_pid b s2 = None" "percpu_ok (PERCPU s2)"
    using e'(7) assms(8,9) inv(2) by (simp_all add: same_current_def)
  have "next_index b (PROCESS_TABLE s2) None = Some i"
    by (rule only_ready_next [of _ i e']) (use l e' assms(2,7,10) in \<open>auto simp: ready_on_def\<close>)
  then have d: "next_index b (PROCESS_TABLE s2) (current_pid b s2) = Some i" "i < length (PROCESS_TABLE s2)" "PROCESS_TABLE s2 ! i = Some e'"
    using cur l assms(2) e'(1) by simp_all
  have dist: "pids_distinct (PROCESS_TABLE s2)" using e'(8) by (simp add: proc_inv_def)
  note r = decide_ready [OF dist cur(3) d e'(2) assms(13)]
  have "get_percpu_sched (PERCPU s2) a \<noteq> get_percpu_sched (PERCPU s2) b" using cur shares_current [of s2 a b] by auto
  moreover have "p_context (process (extract_next_process_info b tk x)) = p_context (process x)"
    "context_valid (process (extract_next_process_info b tk x)) = context_valid (process x)" for tk x
    by (simp_all add: extract_next_process_info_def replenish_slice_def Let_def)
  ultimately show ?thesis using r(1) r(4) [of a] r(4) [of b] cur e' assms(6) by (auto simp: decision_of_def)
qed

section \<open>Sleeping with nothing else to run\<close>

lemma count_switch_frame [simp]:
  "PROCESS_TABLE (count_switch s) = PROCESS_TABLE s" "current_pid c (count_switch s) = current_pid c s"
  "PERCPU (count_switch s) = PERCPU s" "proc_inv (count_switch s) = proc_inv s" "GLOBAL_TICK (count_switch s) = GLOBAL_TICK s"
  by (simp_all add: count_switch_def proc_inv_def)

lemma not_zombie_no_parent:
  assumes "pids_distinct t" "i < length t" "t ! i = Some e" "p_state (process e) \<noteq> Zombie"
  shows "find_zombie_parent_index t (pid (process e)) = None"
proof -
  have "pid_slot t (pid (process e)) = Some i"
    unfolding pid_slot_def by (rule find_slot_unique [OF assms(2)]) (use assms(3) pids_distinctD [OF assms(1) _ assms(2)] in auto)
  then show ?thesis using assms(3,4) by (simp add: find_zombie_parent_index_def)
qed

lemma nothing_to_run:
  assumes "pids_distinct t" "length t = MAX_PROCESSES" "i < MAX_PROCESSES" "t ! i = Some e" "p_state (process e) = Sleeping"
    and "\<And>j e'. j < MAX_PROCESSES \<Longrightarrow> t ! j = Some e' \<Longrightarrow> p_state (process e') \<noteq> Ready"
  shows "next_index cpu t (Some (pid (process e))) = None" "find_current_running_entry_mut t (pid (process e)) = None"
proof -
  show r: "find_current_running_entry_mut t (pid (process e)) = None"
  proof (cases "find_current_running_entry_mut t (pid (process e))")
    case (Some j)
    then obtain e' where "j < length t" "t ! j = Some e'" "p_state (process e') = Running" "pid (process e') = pid (process e)"
      using running_SomeD by blast
    then show ?thesis using pid_unique [OF assms(1), of j i e' e] assms(2-5) by auto
  qed
  have "find_next_ready_index cpu t k \<noteq> Some j" for k j
  proof
    assume "find_next_ready_index cpu t k = Some j"
    then obtain m e' where "j = (k + m) mod MAX_PROCESSES" "t ! j = Some e'" "ready_on cpu e'" by (rule find_next_ready_SomeD)
    then show False using assms(6) [of j e'] by (simp add: ready_on_def MAX_PROCESSES_def)
  qed
  then have "find_next_ready_index cpu t k = None" for k by (metis option.exhaust)
  then show "next_index cpu t (Some (pid (process e))) = None"
    using not_zombie_no_parent [OF assms(1), of i e] assms(2-5) r by (simp add: next_index_def)
qed

text \<open>The user context is saved, but the kernel context is not.\<close>

lemma idles_asleep:
  assumes "proc_inv (sched M)" "i < MAX_PROCESSES" "PROCESS_TABLE (sched M) ! i = Some e" "p_state (process e) = Sleeping"
    and "current_pid cpu (sched M) = Some (pid (process e))" "has_entered_user (process e)"
    and "\<And>j e'. j < MAX_PROCESSES \<Longrightarrow> PROCESS_TABLE (sched M) ! j = Some e' \<Longrightarrow> p_state (process e') \<noteq> Ready"
  shows "do_schedule_internal fr sr cpu M = (Idles, M\<lparr> sched := upd_slot (save_syscall_context_to_entry (gs_data (cpus M cpu))) i (count_switch (sched M)) \<rparr>)"
proof -
  have l: "length (PROCESS_TABLE (sched M)) = MAX_PROCESSES" "pids_distinct (PROCESS_TABLE (sched M))"
    using assms(1) by (simp_all add: proc_inv_def table_ok_def)
  note n = nothing_to_run [OF l(2,1) assms(2-4,7)]
  let ?Q = "\<lambda>slot. case slot of None \<Rightarrow> False | Some e' \<Rightarrow> pid (process e') = pid (process e) \<and> has_entered_user (process e')"
  have "find_slot ?Q (PROCESS_TABLE (sched M)) = Some i"
    using assms(2,3,6) l pid_unique [OF l(2)] by (intro find_slot_unique) (auto split: option.splits)
  then have c: "compute_schedule_decision cpu (cpus M cpu) (count_switch (sched M)) =
      (None, upd_slot (save_syscall_context_to_entry (gs_data (cpus M cpu))) i (count_switch (sched M)))"
    using n(1) assms(5) by (simp add: compute_schedule_decision_def Let_def)
  have t: "PROCESS_TABLE (upd_slot (save_syscall_context_to_entry gs) i (count_switch (sched M))) =
      (PROCESS_TABLE (sched M))[i := Some (save_syscall_context_to_entry gs e)]" for gs
    using assms(2,3) l(1) by (simp add: upd_slot_def upd_entry_def modify_nth_def)
  have "find_current_running_entry_mut ((PROCESS_TABLE (sched M))[i := Some (save_syscall_context_to_entry gs e)]) (pid (process e)) = None" for gs
    using n(2) assms(2,3) find_slot_same [of i "PROCESS_TABLE (sched M)" _ "Some (save_syscall_context_to_entry gs e)"]
    by (simp add: find_current_running_entry_mut_def save_syscall_context_to_entry_def upd_process_def)
  then show ?thesis using c assms(5) t by (simp add: do_schedule_internal_def has_running_process_def)
qed

lemma any_readyI: "i < length t \<Longrightarrow> t ! i = Some e \<Longrightarrow> p_state (process e) = Ready \<Longrightarrow> any_ready t"
  using nth_mem [of i t] by (auto simp: any_ready_def list_ex_iff intro!: bexI [of _ "Some e"])

lemma first_run_taken:
  assumes "do_schedule_internal fr sr cpu M = (Switched (FirstRun d), M')" "cr3 (fr_process d) \<noteq> 0"
  shows "\<exists>M''. first_run_trampoline kst cs ds cpu M' =
    Some ((entry_point (fr_process d), stack_top (fr_process d), cr3 (fr_process d)), M'')"
proof -
  have "FIRST_RUN_PROCESS M' = Some (fr_process d)"
    using assms(1)
    by (auto simp: do_schedule_internal_def execute_first_run_via_context_switch_def context_switch_alt upd_cpu_def Let_def
        split: prod.splits option.splits ScheduleDecision.splits if_splits)
  then show ?thesis using assms(2) by (simp add: first_run_trampoline_def execute_def Let_def)
qed

text \<open>
  C33: a process that sleeps when nothing else can run is restarted.  The CPU finds nothing to run,
  saves the user context of the sleeping process but not its kernel context, and idles.  When the
  process is woken, the idle loop schedules it; if it has never been switched out before, the decision
  is a first run, and the trampoline enters user mode at the program's entry point with the initial
  stack instead of returning to where the process went to sleep.
\<close>

theorem idle_wake_restarts_program:
  assumes "proc_inv (sched M)" "percpu_ok (PERCPU (sched M))" "i < MAX_PROCESSES" "PROCESS_TABLE (sched M) ! i = Some e"
    and "p_state (process e) = Sleeping" "\<not> wake_pending (process e)" "current_pid cpu (sched M) = Some (pid (process e))"
    and "has_entered_user (process e)" "\<not> context_valid (process e)" "cr3 (process e) \<noteq> 0" "cm_is_set (cpu_affinity e) cpu"
    and "\<forall>j e'. j < MAX_PROCESSES \<longrightarrow> PROCESS_TABLE (sched M) ! j = Some e' \<longrightarrow> p_state (process e') \<noteq> Ready"
    and "do_schedule_internal fr sr cpu M = (out1, M1)"
    and "M2 = M1\<lparr> sched := snd (wake_process b (pid (process e)) (sched M1)) \<rparr>"
    and "idle_round fr sr cpu M2 = (out2, M3)"
  shows "out1 = Idles \<and> (\<exists>M4. first_run_trampoline kst cs ds cpu M3 = Some ((entry_point (process e), stack_top (process e), cr3 (process e)), M4))"
proof -
  let ?s1 = "upd_slot (save_syscall_context_to_entry (gs_data (cpus M cpu))) i (count_switch (sched M))"
  let ?e1 = "save_syscall_context_to_entry (gs_data (cpus M cpu)) e"
  have l: "length (PROCESS_TABLE (sched M)) = MAX_PROCESSES" "pids_distinct (PROCESS_TABLE (sched M))"
    using assms(1) by (simp_all add: proc_inv_def table_ok_def)
  have 1: "out1 = Idles" "M1 = M\<lparr> sched := ?s1 \<rparr>"
    using idles_asleep [OF assms(1,3,4,5,7,8), of fr sr] assms(12,13) by auto
  have t1: "PROCESS_TABLE ?s1 = (PROCESS_TABLE (sched M))[i := Some ?e1]"
    using assms(3,4) l(1) by (simp add: upd_slot_def upd_entry_def modify_nth_def)
  have e1: "pid (process ?e1) = pid (process e)" "p_state (process ?e1) = Sleeping" by (simp_all add: save_syscall_context_to_entry_def upd_process_def assms(5))
  have d1: "pids_distinct (PROCESS_TABLE ?s1)" unfolding t1 using distinct_same_pid [OF l(2) assms(4) e1(1)] .
  let ?e2 = "wake_entry (MIN_VRUNTIME ?s1) ?e1" and ?s2 = "sched M2"
  have t2: "PROCESS_TABLE ?s2 = (PROCESS_TABLE (sched M))[i := Some ?e2]"
    using wake_process_slot(1) [OF d1, of i ?e1 "pid (process e)" b] t1 e1 assms(3,14) l(1) 1(2) by simp
  have e2: "p_state (process ?e2) = Ready" "pid (process ?e2) = pid (process e)" "cpu_affinity ?e2 = cpu_affinity e"
    "context_valid (process ?e2) = context_valid (process e)" "entry_point (process ?e2) = entry_point (process e)"
    "stack_top (process ?e2) = stack_top (process e)" "cr3 (process ?e2) = cr3 (process e)"
    using e1(2) by (simp_all add: wake_entry_def Let_def) (simp_all add: save_syscall_context_to_entry_def upd_process_def)
  have sc: "same_current ?s1 ?s2" using cur.wake_process_rel [of ?s1 b "pid (process e)"] assms(14) 1(2) by simp
  then have cur2: "current_pid cpu ?s2 = Some (pid (process e))" "percpu_ok (PERCPU ?s2)" using assms(2,7) by (simp_all add: same_current_def)
  let ?s3 = "count_switch ?s2"
  have d2: "pids_distinct (PROCESS_TABLE ?s3)" using distinct_same_pid [OF l(2) assms(4) e2(2)] by (simp add: t2)
  have s3: "i < length (PROCESS_TABLE ?s3)" "PROCESS_TABLE ?s3 ! i = Some ?e2" using assms(3) l(1) by (simp_all add: t2)
  have "next_index cpu (PROCESS_TABLE ?s3) (Some (pid (process e))) = Some i"
    by (rule only_ready_next [of _ i ?e2])
      (use s3 l(1) assms(3,11,12) e2 not_zombie_no_parent [OF d2 s3] in \<open>auto simp: t2 ready_on_def\<close>)
  then have n: "next_index cpu (PROCESS_TABLE ?s3) (current_pid cpu ?s3) = Some i" using cur2 by simp
  have p3: "percpu_ok (PERCPU ?s3)" using cur2(2) by simp
  obtain d s4 where r: "compute_schedule_decision cpu (cpus M2 cpu) ?s3 = (d, s4)" by (meson surj_pair)
  obtain old vol where "d = Some (decision_of (process (extract_next_process_info cpu (GLOBAL_TICK ?s3) ?e2)) old vol)"
    using decide_ready(1) [OF d2 p3 n s3 e2(1) r] by blast
  then obtain w where w: "d = Some (FirstRun w)" "entry_point (fr_process w) = entry_point (process e)"
      "stack_top (fr_process w) = stack_top (process e)" "cr3 (fr_process w) = cr3 (process e)"
    using e2 assms(9) by (simp add: decision_of_def extract_next_process_info_def replenish_slice_def Let_def split: if_splits)
  have "any_ready (PROCESS_TABLE ?s2)" using any_readyI [OF s3 e2(1)] by simp
  then have "do_schedule_internal fr sr cpu M2 = (Switched (FirstRun w), M3)"
    using assms(15) r w(1) by (auto simp: idle_round_def do_schedule_internal_def)
  then show ?thesis using first_run_taken [of fr sr cpu M2 w M3 kst cs ds] w assms(10) 1(1) by simp
qed

section \<open>Concrete states\<close>

text \<open>A machine with two CPUs up and one process in slot 0.\<close>

definition two_cpus :: percpu_state where
  "two_cpus = percpu_boot\<lparr> PERCPU_SCHED_READY := (replicate MAX_CPUS False)[0 := True, 1 := True] \<rparr>"

definition hw0 :: cpu_hw where
  "hw0 = \<lparr> gs_data = replicate 32 0, fs_base_msr = 0, tss_rsp0 = 0, regs = Context_zero \<rparr>"

definition lone :: "Process \<Rightarrow> sched_state" where
  "lone pr = (sched_start two_cpus)\<lparr> PROCESS_TABLE := (replicate MAX_PROCESSES None)[0 := Some (new_entry pr 128 Normal 0 0 0)] \<rparr>"

lemma two_cpus_simps [simp]:
  "percpu_ok two_cpus" "get_percpu_sched two_cpus 0 = Some 0" "get_percpu_sched two_cpus (Suc 0) = Some 1"
  "c < 2 \<Longrightarrow> rq_current (run_queue (sched_at two_cpus c)) = None"
  by (simp_all add: two_cpus_def percpu_ok_def percpu_boot_def get_percpu_sched_def MAX_CPUS_def STATIC_PERCPU_SCHED_COUNT_def
      sched_at_def sched_data_new_def rq_new_def)

lemma lone_slot: "j < MAX_PROCESSES \<Longrightarrow> PROCESS_TABLE (lone pr) ! j = (if j = 0 then Some (new_entry pr 128 Normal 0 0 0) else None)"
  by (auto simp: lone_def nth_list_update)

lemma lone_simps [simp]:
  "PERCPU (lone pr) = two_cpus" "current_pid 0 (lone pr) = None" "current_pid (Suc 0) (lone pr) = None"
  "length (PROCESS_TABLE (lone pr)) = MAX_PROCESSES" "process (new_entry pr 128 Normal 0 0 0) = pr"
  "cpu_affinity (new_entry pr 128 Normal 0 0 0) = CpuMask_all" "0 < MAX_PROCESSES"
  by (simp_all add: lone_def sched_start_def sched_boot_def current_pid_def new_entry_def Let_def MAX_PROCESSES_def)

lemma lone_inv: "wake_pending pr = False \<Longrightarrow> proc_inv (lone pr)"
  unfolding proc_inv_def table_ok_def
  using new_entry_ok [of pr 128 Normal 0 0 0]
  by (auto simp: list_all_length lone_slot sleep_ok_def has_pid_def intro!: pids_distinctI split: if_splits)

lemma lone_sched_inv: "wake_pending pr = False \<Longrightarrow> p_state pr \<noteq> Running \<Longrightarrow> sched_inv (lone pr)"
  using lone_inv [of pr] by (auto simp: sched_inv_def running_current_def lone_slot split: if_splits)

lemma affinity_two: "cm_is_set CpuMask_all 0" "cm_is_set CpuMask_all (Suc 0)"
  using affinity_all [of 0] affinity_all [of 1] by (simp_all add: ProcessEntry_empty_def)

lemma no_zombies: "(\<And>j e. j < length t \<Longrightarrow> t ! j = Some e \<Longrightarrow> p_state (process e) \<noteq> Zombie) \<Longrightarrow> find_zombie_parent_index t p = None"
  using linear.find_sound [of "sched_boot\<lparr> PROCESS_TABLE := t \<rparr>" p]
  by (fastforce simp: find_zombie_parent_index_def Let_def has_pid_def split: option.splits)

lemma lone_decides:
  assumes "sched_inv s" "PROCESS_TABLE s = PROCESS_TABLE (lone pr)" "p_state pr = Ready" "cpu < 2"
  shows "no_zombie_parent cpu s"
    and "\<exists>e. PROCESS_TABLE (decide cpu h s) ! 0 = Some e \<and> pid (process e) = pid pr \<and> p_state (process e) = Running \<and>
      wake_pending (process e) = wake_pending pr"
    and "current_pid cpu (decide cpu h s) = Some (pid pr)"
proof -
  let ?e = "new_entry pr 128 Normal 0 0 0"
  have inv: "pids_distinct (PROCESS_TABLE s)" "percpu_ok (PERCPU s)" using assms(1) by (simp_all add: sched_inv_def proc_inv_def)
  have t: "length (PROCESS_TABLE s) = MAX_PROCESSES" "PROCESS_TABLE s ! 0 = Some ?e" by (simp_all add: assms(2) lone_slot)
  have z: "find_zombie_parent_index (PROCESS_TABLE s) p = None" for p
    by (rule no_zombies) (auto simp: assms(2,3) lone_slot split: if_splits)
  then have zb: "Option.bind (current_pid cpu s) (find_zombie_parent_index (PROCESS_TABLE s)) = None"
    by (cases "current_pid cpu s") simp_all
  then show "no_zombie_parent cpu s" by (simp add: no_zombie_parent_def)
  have "cpu = 0 \<or> cpu = Suc 0" using assms(4) by auto
  then have "ready_on cpu ?e" using assms(3) affinity_two by (auto simp: ready_on_def)
  then have nx: "next_index cpu (PROCESS_TABLE s) (current_pid cpu s) = Some 0"
    by (intro only_ready_next [of _ 0 ?e]) (use zb in \<open>auto simp: t lone_slot assms(2) split: if_splits\<close>)
  obtain d s' where r: "compute_schedule_decision cpu h s = (d, s')" by (meson surj_pair)
  note dr = decide_ready [OF inv nx _ t(2) _ r]
  show "\<exists>e. PROCESS_TABLE (decide cpu h s) ! 0 = Some e \<and> pid (process e) = pid pr \<and> p_state (process e) = Running \<and>
      wake_pending (process e) = wake_pending pr"
    using dr(2) [of 0] t assms(3) r decided_wake_pending decided_next [of ?e cpu h "current_pid cpu s" "GLOBAL_TICK s" 0] by simp
  show "current_pid cpu (decide cpu h s) = Some (pid pr)" using dr(4) [of cpu] assms(3) t r by simp
qed

definition proc5 :: "ProcessState \<Rightarrow> Process" where
  "proc5 st = Process_empty\<lparr> pid := 5, p_state := st, has_entered_user := True, cr3 := 0x1000 \<rparr>"

lemma proc5_simps [simp]: "pid (proc5 st) = 5" "p_state (proc5 st) = st" "wake_pending (proc5 st) = False"
  "has_entered_user (proc5 st)" "context_valid (proc5 st) = False" "cr3 (proc5 st) = 0x1000"
  by (simp_all add: proc5_def Process_empty_def)

text \<open>Process 5 is added to the machine.\<close>

lemma boot_with_5:
  defines "s1 \<equiv> proc_exec 0 (OpAdd (proc5 Ready) 128 Normal 0) (sched_start two_cpus)"
  shows "op_ok (OpAdd (proc5 Ready) 128 Normal 0) (sched_start two_cpus)" "sched_inv s1" "PROCESS_TABLE s1 = PROCESS_TABLE (lone (proc5 Ready))"
proof -
  show ok: "op_ok (OpAdd (proc5 Ready) 128 Normal 0) (sched_start two_cpus)"
    by (simp add: op_ok_def sched_start_def sched_boot_def)
  then show "sched_inv s1"
    unfolding s1_def by - (rule sched_run_inv [of "[(0, Proc (OpAdd (proc5 Ready) 128 Normal 0))]" "sched_start two_cpus"],
      auto intro!: sched_run.intros sched_start_inv)
  have "replicate MAX_PROCESSES (None :: ProcessEntry option) = None # replicate 63 None"
    by (simp add: MAX_PROCESSES_def numeral_eq_Suc)
  then show "PROCESS_TABLE s1 = PROCESS_TABLE (lone (proc5 Ready))"
    by (simp add: s1_def add_process_table sched_start_def sched_boot_def lone_def)
qed

theorem running_is_current_witness:
  "\<exists>s e. sched_run [(0, Proc (OpAdd (proc5 Ready) 128 Normal 0)), (1, Decide hw0)] (sched_start two_cpus) s \<and>
     PROCESS_TABLE s ! 0 = Some e \<and> p_state (process e) = Running \<and> (\<exists>c. current_pid c s = Some (pid (process e)))"
proof -
  let ?s1 = "sched_exec 0 (Proc (OpAdd (proc5 Ready) 128 Normal 0)) (sched_start two_cpus)"
  have run: "sched_run [(0, Proc (OpAdd (proc5 Ready) 128 Normal 0)), (1, Decide hw0)] (sched_start two_cpus) (decide 1 hw0 ?s1)"
    using boot_with_5(1) by (auto intro!: sched_run.intros)
  obtain e where e: "PROCESS_TABLE (decide 1 hw0 ?s1) ! 0 = Some e" "p_state (process e) = Running"
    using lone_decides(2) [OF boot_with_5(2,3), of 1 hw0] by auto
  show ?thesis using running_is_current [OF _ run _ e] run e by auto
qed

theorem round_robin_no_starvation_witness:
  "\<exists>k < MAX_PROCESSES. \<exists>e. current_pid 0 (decide 0 hw0 (lone (proc5 Ready))) = Some 5 \<and>
     PROCESS_TABLE (decide 0 hw0 (lone (proc5 Ready))) ! 0 = Some e \<and> pid (process e) = 5 \<and> p_state (process e) = Running"
proof -
  let ?s = "lone (proc5 Ready)"
  have inv: "sched_inv ?s" by (simp add: lone_sched_inv)
  have "waits_at 0 0 5 ?s" using affinity_two by (simp add: waits_at_def lone_slot ready_on_def)
  then show ?thesis
    using round_robin_no_starvation [of "\<lambda>_. ?s" 0 0 5 "\<lambda>_. hw0"] inv lone_decides(1) [OF inv refl, of 0] lone_decides(3) [OF inv refl, of 0 hw0] by simp
qed

text \<open>Process 5 runs on CPU 0 after it has been switched out before; CPU 1 is idle.\<close>

definition runs_on_0 :: sched_state where
  "runs_on_0 = set_current_pid 0 (Some 5) (lone ((proc5 Running)\<lparr> context_valid := True \<rparr>))"

theorem process_on_two_cpus_witness:
  "\<exists>d s3. compute_schedule_decision 1 hw0 (snd (wake_process 1 5 (set_current_process_state 0 Sleeping runs_on_0))) = (d, s3) \<and>
     current_pid 0 s3 = Some 5 \<and> current_pid 1 s3 = Some 5"
proof -
  let ?pr = "(proc5 Running)\<lparr> context_valid := True \<rparr>"
  have t: "PROCESS_TABLE runs_on_0 = PROCESS_TABLE (lone ?pr)" by (simp add: runs_on_0_def)
  have c: "current_pid 0 runs_on_0 = Some 5" "current_pid 1 runs_on_0 = None" "percpu_ok (PERCPU runs_on_0)"
    by (simp_all add: runs_on_0_def current_pid_set)
  have "proc_inv runs_on_0" using lone_inv [of ?pr] t by (simp add: proc_inv_def)
  then have inv: "sched_inv runs_on_0"
    using c by (auto simp: sched_inv_def running_current_def t lone_slot split: if_splits intro!: exI [of _ 0])
  obtain d s3 where r: "compute_schedule_decision 1 hw0 (snd (wake_process 1 5 (set_current_process_state 0 Sleeping runs_on_0))) = (d, s3)"
    by (meson surj_pair)
  show ?thesis
    using process_on_two_cpus [OF inv, of 0 "new_entry ?pr 128 Normal 0 0 0" 1 0, OF _ _ _ _ _ _ _ _ _ refl refl]
      r c affinity_two by (auto simp: t lone_slot split: if_splits)
qed

theorem idle_wake_restarts_program_witness:
  "\<exists>M1 out2 M3 M4. do_schedule_internal 0 0 0 \<lparr> sched = set_current_pid 0 (Some 5) (lone (proc5 Sleeping)), cpus = (\<lambda>_. hw0),
       FIRST_RUN_PROCESS = None, FIRST_RUN_CR3 = 0 \<rparr> = (Idles, M1) \<and>
     idle_round 0 0 0 (M1\<lparr> sched := snd (wake_process 1 5 (sched M1)) \<rparr>) = (out2, M3) \<and>
     first_run_trampoline 0 0 0 0 M3 = Some ((entry_point (proc5 Sleeping), stack_top (proc5 Sleeping), 0x1000), M4)"
proof -
  let ?M = "\<lparr> sched = set_current_pid 0 (Some 5) (lone (proc5 Sleeping)), cpus = (\<lambda>_. hw0), FIRST_RUN_PROCESS = None, FIRST_RUN_CR3 = 0 \<rparr>"
  have t: "PROCESS_TABLE (sched ?M) = PROCESS_TABLE (lone (proc5 Sleeping))" by simp
  have inv: "proc_inv (sched ?M)" "percpu_ok (PERCPU (sched ?M))" "current_pid 0 (sched ?M) = Some 5"
    using lone_inv [of "proc5 Sleeping"] t by (simp_all add: proc_inv_def current_pid_set)
  obtain out1 M1 where r1: "do_schedule_internal 0 0 0 ?M = (out1, M1)" by (meson surj_pair)
  obtain out2 M3 where r2: "idle_round 0 0 0 (M1\<lparr> sched := snd (wake_process 1 5 (sched M1)) \<rparr>) = (out2, M3)" by (meson surj_pair)
  show ?thesis
    using idle_wake_restarts_program [OF inv(1,2), of 0 "new_entry (proc5 Sleeping) 128 Normal 0 0 0" 0, OF _ _ _ _ _ _ _ _ _ _ r1 refl]
      r1 r2 inv(3) affinity_two by (auto simp: t lone_slot split: if_splits)
qed

end
