(* ===== verification/Sched_Lock.thy ===== *)
theory Sched_Lock
  imports Sched_Run
begin

text \<open>
  Runs at the granularity of the locks.  The operations of \<open>src/src/scheduler/process.rs\<close> and
  \<open>core.rs\<close> that release the process table's lock half-way (\<open>add_process_with_policy\<close>,
  \<open>remove_process\<close>, \<open>wake_process\<close>, \<open>schedule\<close>, the exit of a thread group) are broken up here into their
  locked sections, so that a run interleaves the sections of all CPUs in any order.  The theory shows
  what holds in every state of every such run: the table's invariant, and that no wake is lost.
\<close>

section \<open>Locked sections\<close>

text \<open>
  A step of a CPU: a whole operation of the scheduler (all its in-place operations hold the lock
  throughout, and the others may also run undisturbed), or one section of an operation.
  \<open>terminate_thread_group\<close> is made of the wake, \<open>LThreadExit\<close>, \<open>futex_wake\<close>, the exit code and the state
  \<open>Zombie\<close>; \<open>futex_wake\<close> of requests for the state \<open>Ready\<close> and changes of the futex queue; \<open>remove_process\<close>
  of \<open>LClearSlot\<close>, \<open>LSetCurrent\<close>, \<open>LRelease\<close> and \<open>LFreePid\<close>.  \<open>LWake\<close> carries the minimum that the wake has
  read before it took the lock.
\<close>

datatype lock_step =
    Whole sched_op
  | LInsert Process u8 SchedPolicy int
  | LUpdateMin
  | LClearSlot Pid
  | LSetCurrent "Pid option"
  | LRelease Process
  | LFreePid Pid
  | LWake u64 Pid
  | LResched u16
  | LPickNext
  | LThreadExit Pid
  | LFutexQueue "FutexWaiter list"
  | LVruntime Pid u64
  | LLag Pid int
  | LPolicy Pid SchedPolicy int
  | LNice Pid int
  | LAge
  | LForceResched
  | LEnteredUser Pid
  | LUserContext u64 u64 u64

definition clear_slot :: "Pid \<Rightarrow> sched_state \<Rightarrow> sched_state" where
  "clear_slot p s = (case find_process s p of None \<Rightarrow> s | Some i \<Rightarrow> remove_slot i s)"

definition wake_with_min :: "u64 \<Rightarrow> Pid \<Rightarrow> sched_state \<Rightarrow> sched_state" where
  "wake_with_min m p s = (snd (wake_locked p (s\<lparr> MIN_VRUNTIME := m \<rparr>)))\<lparr> MIN_VRUNTIME := MIN_VRUNTIME s \<rparr>"

fun lock_exec :: "nat \<Rightarrow> lock_step \<Rightarrow> sched_state \<Rightarrow> sched_state" where
  "lock_exec cpu (Whole op) s = sched_exec cpu op s"
| "lock_exec cpu (LInsert pr prio pol n) s = snd (insert_process pr prio pol n s)"
| "lock_exec cpu LUpdateMin s = refresh_min_vruntime s"
| "lock_exec cpu (LClearSlot p) s = clear_slot p s"
| "lock_exec cpu (LSetCurrent q) s = set_current_pid cpu q s"
| "lock_exec cpu (LRelease pr) s = release_resources pr s"
| "lock_exec cpu (LFreePid p) s = s\<lparr> PID_MANAGER := free_pid (PID_MANAGER s) p \<rparr>"
| "lock_exec cpu (LWake m p) s = wake_with_min m p s"
| "lock_exec cpu (LResched target) s = s\<lparr> PERCPU := set_need_resched target (PERCPU s) \<rparr>"
| "lock_exec cpu LPickNext s = snd (schedule_locked cpu s)"
| "lock_exec cpu (LThreadExit p) s = snd (handle_thread_exit p s)"
| "lock_exec cpu (LFutexQueue w) s = s\<lparr> FUTEX_WAITERS := w \<rparr>"
| "lock_exec cpu (LVruntime p v) s = snd (set_process_vruntime p v s)"
| "lock_exec cpu (LLag p v) s = snd (set_process_lag p v s)"
| "lock_exec cpu (LPolicy p pol n) s = s\<lparr> PROCESS_TABLE := fst (set_process_policy (PROCESS_TABLE s) p pol n) \<rparr>"
| "lock_exec cpu (LNice p d) s = s\<lparr> PROCESS_TABLE := fst (adjust_process_priority (PROCESS_TABLE s) p d) \<rparr>"
| "lock_exec cpu LAge s = s\<lparr> PROCESS_TABLE := age_process_priorities (PROCESS_TABLE s) (GLOBAL_TICK s) \<rparr>"
| "lock_exec cpu LForceResched s = s\<lparr> PROCESS_TABLE := force_reschedule (PROCESS_TABLE s) (current_pid cpu s) \<rparr>"
| "lock_exec cpu (LEnteredUser p) s = mark_process_entered_user p s"
| "lock_exec cpu (LUserContext rip rsp rflags) s = update_current_user_context cpu rip rsp rflags s"

text \<open>
  New processes have a PID that no live process has and are not created asleep with a wake pending; a lag
  is a value of \<open>i64\<close>.
\<close>

fun lock_ok :: "lock_step \<Rightarrow> sched_state \<Rightarrow> bool" where
  "lock_ok (Whole (Proc op)) s = op_ok op s"
| "lock_ok (LInsert pr prio pol n) s = op_ok (OpAdd pr prio pol n) s"
| "lock_ok (LLag p v) s = (i64_min \<le> v \<and> v \<le> i64_max)"
| "lock_ok _ s = True"

inductive lock_run :: "(nat \<times> lock_step) list \<Rightarrow> sched_state \<Rightarrow> sched_state \<Rightarrow> bool" where
  lrun_nil: "lock_run [] s s"
| lrun_cons: "lock_ok st s \<Longrightarrow> lock_run steps (lock_exec cpu st s) s' \<Longrightarrow> lock_run ((cpu, st) # steps) s s'"

inductive_simps lock_run_simps: "lock_run [] s s'" "lock_run ((cpu, st) # steps) s s'"

text \<open>The operations are their sections in sequence.\<close>

lemma lock_run_append: "lock_run a s s1 \<Longrightarrow> lock_run b s1 s2 \<Longrightarrow> lock_run (a @ b) s s2"
  by (induction rule: lock_run.induct) (auto intro: lock_run.intros)

lemma add_sections:
  assumes "op_ok (OpAdd pr prio pol n) s" "None \<in> set (PROCESS_TABLE s)"
  shows "lock_run [(cpu, LInsert pr prio pol n), (cpu, LUpdateMin)] s (snd (add_process_with_policy pr prio pol n s))"
proof -
  have "find_slot (\<lambda>slot. slot = None) (PROCESS_TABLE s) \<noteq> None" using assms(2) by (auto simp: find_slot_None_iff)
  then show ?thesis using assms(1) by (auto simp: lock_run_simps add_process_alt)
qed

lemma schedule_sections:
  assumes "schedule cpu s = (Some p, s')"
  shows "lock_run [(cpu, LPickNext), (cpu, LSetCurrent (Some p)), (cpu, LUpdateMin)] s s'"
  using assms by (auto simp: lock_run_simps schedule_def split: prod.splits option.splits)

lemma remove_sections:
  assumes "find_process s p = Some i" "current_pid cpu s = Some p"
  shows "lock_run [(cpu, LClearSlot p), (cpu, LSetCurrent None), (cpu, LRelease (process (entry_at s i))), (cpu, LFreePid p)] s
    (snd (remove_process cpu p s))"
  using assms by (simp add: lock_run_simps clear_slot_def remove_process_def remove_slot_def Let_def)

lemma terminate_sections:
  "\<exists>steps. lock_run steps s (terminate_thread cpu code p s)"
proof -
  let ?s1 = "snd (wake_process cpu p s)" and ?r = "handle_thread_exit p (snd (wake_process cpu p s))"
  let ?mid = "case fst ?r of None \<Rightarrow> [] | Some a \<Rightarrow> [(cpu, Whole (Proc (OpFutexWake a 2147483647)))]"
  have "lock_run ([(cpu, Whole (Proc (OpWake p))), (cpu, LThreadExit p)] @ ?mid @
      [(cpu, Whole (Proc (OpExitCode p code))), (cpu, Whole (Proc (OpSetState p Zombie)))]) s (terminate_thread cpu code p s)"
    by (cases "fst ?r"; cases ?r) (simp_all add: lock_run_simps terminate_thread_def op_ok_def)
  then show ?thesis by blast
qed

section \<open>What a step does to an entry\<close>

definition transits :: "ProcessEntry \<Rightarrow> ProcessEntry \<Rightarrow> bool" where
  "transits e e' \<longleftrightarrow> pid (process e') = pid (process e) \<and> (entry_ok e \<longrightarrow> entry_ok e') \<and> (sleep_ok e \<longrightarrow> sleep_ok e') \<and>
     (awake e \<longrightarrow> awake e')"

lemma transits_refl: "transits e e"
  by (simp add: transits_def)

lemma transits_trans: "transits a b \<Longrightarrow> transits b c \<Longrightarrow> transits a c"
  by (simp add: transits_def)

lemma transits_process:
  "(entry_ok e \<Longrightarrow> entry_ok e') \<Longrightarrow> pid (process e') = pid (process e) \<Longrightarrow> p_state (process e') = p_state (process e) \<Longrightarrow>
   wake_pending (process e') = wake_pending (process e) \<Longrightarrow> transits e e'"
  by (simp add: transits_def sleep_ok_def awake_def runnable_def)

lemma transits_same [simp]: "PROCESS_TABLE s' = PROCESS_TABLE s \<Longrightarrow> table_rel transits s s'"
  by (simp add: table_rel_def list.rel_refl option.rel_refl transits_refl)

lemma transits_map:
  assumes "length (PROCESS_TABLE s') = length (PROCESS_TABLE s)"
    and "\<And>j. j < length (PROCESS_TABLE s) \<Longrightarrow> PROCESS_TABLE s' ! j = map_option (f j) (PROCESS_TABLE s ! j)"
    and "\<And>j e. j < length (PROCESS_TABLE s) \<Longrightarrow> PROCESS_TABLE s ! j = Some e \<Longrightarrow> transits e (f j e)"
  shows "table_rel transits s s'"
  unfolding table_rel_def
proof (rule list_all2_all_nthI)
  fix j assume "j < length (PROCESS_TABLE s)"
  then show "rel_option transits (PROCESS_TABLE s ! j) (PROCESS_TABLE s' ! j)"
    using assms(2,3) [of j] by (cases "PROCESS_TABLE s ! j") simp_all
qed (simp add: assms(1))

lemma transits_upd_slot: "(\<And>e. transits e (f e)) \<Longrightarrow> table_rel transits s (upd_slot f i s)"
  by (rule transits_map [where f = "\<lambda>j e. if j = i then f e else e"])
    (auto simp: upd_slot_table option.map_ident transits_refl)

lemma transits_update_found: "(\<And>e. transits e (f e)) \<Longrightarrow> table_rel transits s (snd (update_found f p s))"
  by (auto simp: update_found_def transits_upd_slot split: option.split)

lemma transits_rel_trans: "table_rel transits a b \<Longrightarrow> table_rel transits b c \<Longrightarrow> table_rel transits a c"
  unfolding table_rel_def
  by (rule list_all2_trans [where ?P1.0 = "rel_option transits" and ?P2.0 = "rel_option transits"])
    (auto elim!: option.rel_cases intro: transits_trans)

lemma transits_from:
  assumes "table_rel (evolves C) s s'" "table_rel stays_awake s s'"
  shows "table_rel transits s s'"
  unfolding table_rel_def
proof (rule list_all2_all_nthI)
  fix j assume j: "j < length (PROCESS_TABLE s)"
  show "rel_option transits (PROCESS_TABLE s ! j) (PROCESS_TABLE s' ! j)"
    using table_relD(2) [OF assms(1) j] table_relD(2) [OF assms(2) j]
    by (cases "PROCESS_TABLE s ! j"; cases "PROCESS_TABLE s' ! j") (simp_all add: transits_def evolves_def stays_awake_def)
qed (simp add: table_relD(1) [OF assms(1)])

lemma transits_inv:
  assumes "table_rel transits s s'" "proc_inv s"
  shows "proc_inv s'"
proof -
  have l: "length (PROCESS_TABLE s') = length (PROCESS_TABLE s)" using table_relD(1) [OF assms(1)] .
  have "list_all (pred_option P) (PROCESS_TABLE s')"
    if P: "\<And>e e'. transits e e' \<Longrightarrow> P e \<Longrightarrow> P e'" "list_all (pred_option P) (PROCESS_TABLE s)" for P
    unfolding list_all_length
  proof (intro allI impI)
    fix j assume j: "j < length (PROCESS_TABLE s')"
    then have "rel_option transits (PROCESS_TABLE s ! j) (PROCESS_TABLE s' ! j)" using table_relD(2) [OF assms(1)] l by simp
    then show "pred_option P (PROCESS_TABLE s' ! j)"
      using P(2) j l P(1) by (cases rule: option.rel_cases) (auto simp: list_all_length)
  qed
  from this [of entry_ok] this [of sleep_ok] have "list_all (pred_option entry_ok) (PROCESS_TABLE s')" "list_all (pred_option sleep_ok) (PROCESS_TABLE s')"
    using assms(2) by (simp_all add: proc_inv_def table_ok_def transits_def)
  moreover have "pids_distinct (PROCESS_TABLE s')"
  proof (rule pids_distinctI)
    fix i j q assume h: "i < length (PROCESS_TABLE s')" "j < length (PROCESS_TABLE s')" "has_pid q (PROCESS_TABLE s' ! i)" "has_pid q (PROCESS_TABLE s' ! j)"
    have "has_pid q (PROCESS_TABLE s ! k)" if "k < length (PROCESS_TABLE s')" "has_pid q (PROCESS_TABLE s' ! k)" for k
      using table_relD(2) [OF assms(1), of k] that l
      by (cases "PROCESS_TABLE s ! k"; cases "PROCESS_TABLE s' ! k") (simp_all add: transits_def)
    then show "i = j" using pids_distinctD [of "PROCESS_TABLE s" i j q] assms(2) h l by (simp add: proc_inv_def)
  qed
  ultimately show ?thesis using assms(2) l by (simp add: proc_inv_def table_ok_def)
qed

lemma transits_keeps_awake: "table_rel transits s s' \<Longrightarrow> awake_at i p s \<Longrightarrow> awake_at i p s'"
proof -
  assume r: "table_rel transits s s'" and a: "awake_at i p s"
  obtain e where e: "i < length (PROCESS_TABLE s)" "PROCESS_TABLE s ! i = Some e" "pid (process e) = p" "awake e" using awake_atD [OF a] by blast
  obtain e' where "PROCESS_TABLE s' ! i = Some e'" "transits e e'" "i < length (PROCESS_TABLE s')" using rel_slot [OF r e(1,2)] .
  then show ?thesis using e by (simp add: awake_at_def transits_def)
qed

lemma table_rel_left [simp]:
  "table_rel R (s\<lparr> GLOBAL_TICK := k \<rparr>) s' = table_rel R s s'" "table_rel R (s\<lparr> MIN_VRUNTIME := m \<rparr>) s' = table_rel R s s'"
  "table_rel R s (s'\<lparr> MIN_VRUNTIME := m \<rparr>) = table_rel R s s'"
  by (simp_all add: table_rel_def)

lemma decided_transits:
  assumes "i = j \<Longrightarrow> p_state (process e) = Ready"
  shows "transits e (decided cpu h cur tk i j e)"
proof -
  have "awake (decided cpu h cur tk i j e)" if "awake e"
    using that assms
    by (auto simp: awake_def runnable_def decided_def leave_cpu_def switch_out_entry_def save_old_entry_def extract_next_process_info_def
        save_syscall_context_to_entry_def upd_process_def replenish_slice_def Let_def)
  then show ?thesis by (simp add: transits_def decided_ok decided_sleep_ok)
qed

lemma decide_transits:
  assumes "proc_inv s" "percpu_ok (PERCPU s)"
  shows "table_rel transits s (decide cpu h s)" "percpu_ok (PERCPU (decide cpu h s))"
proof -
  obtain d s' where r: "compute_schedule_decision cpu h s = (d, s')" by (meson surj_pair)
  have l: "length (PROCESS_TABLE s) = MAX_PROCESSES" and dist: "pids_distinct (PROCESS_TABLE s)"
    using assms(1) by (simp_all add: proc_inv_def table_ok_def)
  have "transits e (save_syscall_context_to_entry gs e)" "transits e (if slice_remaining_ns e = 0 then replenish_slice e else e)" for gs e
    using replenish_slice_ok [of e] entry_ok_switch(5) [of gs e] transits_process [of e "replenish_slice e"]
      transits_process [of e "save_syscall_context_to_entry gs e"]
    by (simp_all add: transits_refl) (simp_all add: save_syscall_context_to_entry_def upd_process_def replenish_slice_def Let_def)
  then have upd: "table_rel transits s (upd_slot (save_syscall_context_to_entry gs) i s)"
    "table_rel transits s (upd_slot (\<lambda>e. if slice_remaining_ns e = 0 then replenish_slice e else e) i s)" for gs i
    by (simp_all add: transits_upd_slot)
  have "table_rel transits s s' \<and> percpu_ok (PERCPU s')"
    using l r
  proof (cases rule: decide_cases)
    case idle
    then show ?thesis using upd(1) assms(2) by auto
  next
    case (continue i e)
    then show ?thesis using upd(2) assms(2) by simp
  next
    case (switch i e)
    note d = decide_ready [OF dist assms(2) switch r]
    have "table_rel transits s s'" by (rule transits_map [OF d(3) d(2)]) (use switch in \<open>auto intro: decided_transits\<close>)
    then show ?thesis using d(5) by simp
  qed
  then show "table_rel transits s (decide cpu h s)" "percpu_ok (PERCPU (decide cpu h s))" using r by simp_all
qed

lemma schedule_locked_frame:
  "PROCESS_TABLE (snd (schedule_locked cpu s)) = PROCESS_TABLE (snd (schedule cpu s))" "PERCPU (snd (schedule_locked cpu s)) = PERCPU s"
  "percpu_ok (PERCPU (snd (schedule cpu s))) = percpu_ok (PERCPU s)"
proof -
  show p: "PERCPU (snd (schedule_locked cpu s)) = PERCPU s"
    by (simp add: schedule_locked_def Let_def split: option.split prod.split)
  show "PROCESS_TABLE (snd (schedule_locked cpu s)) = PROCESS_TABLE (snd (schedule cpu s))"
    "percpu_ok (PERCPU (snd (schedule cpu s))) = percpu_ok (PERCPU s)"
    using p by (auto simp: schedule_def split: option.split prod.split)
qed

lemma credit_transits: "transits e (stop_entry tk cur (credited t tk' e))"
  by (auto simp: transits_def credited_ok) (auto simp: stop_entry_def awake_def runnable_def)

lemma start_transits: "p_state (process e) = Ready \<Longrightarrow> transits e (start_entry tk e)"
  using entry_ok_switch(4) [of e tk]
  by (auto simp: transits_def awake_def runnable_def start_entry_def replenish_slice_def sleep_ok_def Let_def)

lemma schedule_transits:
  assumes "proc_inv s"
  shows "table_rel transits s (snd (schedule cpu s))"
proof -
  have dist: "pids_distinct (PROCESS_TABLE s)" using assms by (simp add: proc_inv_def)
  let ?t = "update_ready_process_eevdf (PROCESS_TABLE s) (GLOBAL_TICK s)" and ?f = "credited (PROCESS_TABLE s) (GLOBAL_TICK s)"
  show ?thesis
  proof (cases "find_best_candidate cpu ?t 0")
    case None
    then have "find_best_candidate cpu ?t k = None" for k by (simp add: find_best_candidate_def)
    then have "PROCESS_TABLE (snd (schedule cpu s)) = ?t" by (simp add: schedule_def schedule_locked_def Let_def)
    then show ?thesis
      by (intro transits_map [where f = "\<lambda>_. ?f"]) (simp_all add: update_ready_map transits_process credited_ok)
  next
    case (Some k)
    then obtain i e where ie: "i < length ?t" "?t ! i = Some e" "ready_on cpu e" "k = candidate_of i e" by (rule find_best_candidate_Some)
    have b: "find_best_candidate cpu ?t n = Some (candidate_of i e)" for n using Some ie(4) by (simp add: find_best_candidate_def)
    note t = schedule_table [OF b dist]
    let ?g = "\<lambda>j e0. let e' = stop_entry (GLOBAL_TICK s) (current_pid cpu s) (?f e0) in if i = j then start_entry (GLOBAL_TICK s) e' else e'"
    have l: "length (PROCESS_TABLE (snd (schedule cpu s))) = length (PROCESS_TABLE s)" using t(2) ie(1) by simp
    have tj: "PROCESS_TABLE (snd (schedule cpu s)) ! j = map_option (?g j) (PROCESS_TABLE s ! j)" if "j < length (PROCESS_TABLE s)" for j
      using t(1) [OF that] update_ready_map [OF that, of "GLOBAL_TICK s"] by (simp add: option.map_comp comp_def)
    show ?thesis
    proof (rule transits_map [OF l tj])
      fix j e0 assume j: "j < length (PROCESS_TABLE s)" "PROCESS_TABLE s ! j = Some e0"
      have "p_state (process (stop_entry (GLOBAL_TICK s) (current_pid cpu s) (?f e0))) = Ready" if "i = j"
        using ie(2,3) update_ready_map [OF j(1), of "GLOBAL_TICK s"] j(2) that by (auto simp: stop_entry_def ready_on_def)
      then show "transits e0 (?g j e0)"
        using credit_transits start_transits transits_trans [OF credit_transits start_transits] by (simp add: Let_def)
    qed
  qed
qed

lemma tick_transits:
  "table_rel transits s (snd (tick locked cpu ms s))" "percpu_ok (PERCPU (snd (tick locked cpu ms s))) = percpu_ok (PERCPU s)"
proof -
  have c: "transits e (charge_tick d e)" "transits e (e\<lparr> preempt_count := n \<rparr>)" for e d n
    using entry_ok_switch(6) [of e d] transits_process [of e "charge_tick d e"] transits_process [of e "e\<lparr> preempt_count := n \<rparr>"]
    by (simp_all add: entry_ok_def)
  have r: "percpu_ok (snd (check_need_resched cpu g)) = percpu_ok g" for g
    by (simp add: check_need_resched_def split: option.split)
  have h: "table_rel transits a (handle_preemption p b)" if "table_rel transits a b" for a b p
    using transits_rel_trans [OF that transits_upd_slot] that c(2) by (simp add: handle_preemption_def split: option.split)
  have g: "PERCPU (handle_preemption p b) = PERCPU b" for b p by (simp add: handle_preemption_def split: option.split)
  have u: "table_rel transits s (upd_slot (charge_tick d) i (s\<lparr> GLOBAL_TICK := k \<rparr>))" for d i k
    using transits_upd_slot [of "charge_tick d" "s\<lparr> GLOBAL_TICK := k \<rparr>" i] c(1) by simp
  show "table_rel transits s (snd (tick locked cpu ms s))"
    using u h by (auto simp: tick_def Let_def split: option.split prod.split)
  show "percpu_ok (PERCPU (snd (tick locked cpu ms s))) = percpu_ok (PERCPU s)"
    using r [of "PERCPU s"] by (auto simp: tick_def Let_def g split: option.split prod.split)
qed

lemma entry_updates_transit:
  "transits e (e\<lparr> vruntime := v \<rparr>)" "i64_min \<le> l \<Longrightarrow> l \<le> i64_max \<Longrightarrow> transits e (e\<lparr> lag := l \<rparr>)"
  "transits e (with_policy pol n e)" "transits e (with_nice_delta d e)" "transits e (age_entry tk w e)"
  "transits e (e\<lparr> slice_remaining_ns := 0, time_slice := 0 \<rparr>)" "transits e (upd_process (\<lambda>pr. pr\<lparr> has_entered_user := True \<rparr>) e)"
  "transits e (upd_process (\<lambda>pr. pr\<lparr> user_rip := a, user_rsp := b, user_rflags := c \<rparr>) e)"
proof -
  have "process (with_policy pol n e) = process e" "process (with_nice_delta d e) = process e" "process (age_entry tk w e) = process e"
    by (simp_all add: with_policy_def with_nice_delta_def age_entry_def Let_def)
  then show "transits e (with_policy pol n e)" "transits e (with_nice_delta d e)" "transits e (age_entry tk w e)"
    by (simp_all add: transits_process entry_ok_ops)
qed (rule transits_process; simp add: entry_ok_def upd_process_def)+

text \<open>Updates of the table by the functions of \<open>priority.rs\<close>.\<close>

lemma upd_entry_transits: "(\<And>e. transits e (f e)) \<Longrightarrow> table_rel transits s (s\<lparr> PROCESS_TABLE := upd_entry f i (PROCESS_TABLE s) \<rparr>)"
  using transits_upd_slot [of f s i] by (simp add: upd_slot_def)

lemma priority_transits:
  "table_rel transits s (s\<lparr> PROCESS_TABLE := fst (set_process_policy (PROCESS_TABLE s) p pol n) \<rparr>)"
  "table_rel transits s (s\<lparr> PROCESS_TABLE := fst (adjust_process_priority (PROCESS_TABLE s) p d) \<rparr>)"
  "table_rel transits s (s\<lparr> PROCESS_TABLE := age_process_priorities (PROCESS_TABLE s) tk \<rparr>)"
  "table_rel transits s (s\<lparr> PROCESS_TABLE := force_reschedule (PROCESS_TABLE s) cur \<rparr>)"
proof -
  show "table_rel transits s (s\<lparr> PROCESS_TABLE := age_process_priorities (PROCESS_TABLE s) tk \<rparr>)"
    by (rule transits_map [where f = "\<lambda>_. age_entry tk (total_weight (PROCESS_TABLE s))"])
      (simp_all add: age_process_priorities_def Let_def entry_updates_transit)
qed (simp_all add: set_process_policy_def adjust_process_priority_def force_reschedule_def upd_entry_transits entry_updates_transit
    split: option.split)

lemma wake_with_min_transits: "table_rel transits s (wake_with_min m p s)"
proof -
  let ?s = "s\<lparr> MIN_VRUNTIME := m \<rparr>"
  have "table_rel (evolves UNIV) ?s (snd (wake_locked p ?s))" "table_rel stays_awake ?s (snd (wake_locked p ?s))"
    by (rule ev.wake_locked_rel, rule aw.wake_locked_rel)
  then have "table_rel transits ?s (snd (wake_locked p ?s))" by (rule transits_from)
  then show ?thesis by (simp add: wake_with_min_def)
qed

section \<open>The invariant\<close>

definition lock_inv :: "sched_state \<Rightarrow> bool" where
  "lock_inv s \<longleftrightarrow> proc_inv s \<and> percpu_ok (PERCPU s)"

text \<open>Steps that leave every process in its slot and every pending wake pending.\<close>

fun stays_put :: "lock_step \<Rightarrow> bool" where
  "stays_put (Whole (Proc op)) = False"
| "stays_put (LInsert pr prio pol n) = False"
| "stays_put (LClearSlot p) = False"
| "stays_put _ = True"

lemma frame_percpu [simp]:
  "PERCPU (release_resources pr s) = PERCPU s" "PERCPU (snd (handle_thread_exit p s)) = PERCPU s"
  "PROCESS_TABLE (snd (handle_thread_exit p s)) = PROCESS_TABLE s" "PERCPU (snd (update_found f p s)) = PERCPU s"
  "PERCPU (clear_slot p s) = PERCPU s" "PERCPU (update_current_user_context cpu a b c s) = PERCPU s"
  "percpu_ok (set_need_resched t g) = percpu_ok g" "PERCPU (snd (wake_at k s)) = PERCPU s"
  by (simp_all add: release_resources_def record_call_def handle_thread_exit_def update_found_def clear_slot_def remove_slot_def
      update_current_user_context_def set_need_resched_def wake_at_def Let_def split: option.split)

lemma wake_with_min_percpu [simp]: "PERCPU (wake_with_min m p s) = PERCPU s"
proof -
  let ?s = "s\<lparr> MIN_VRUNTIME := m \<rparr>"
  obtain f s1 where 1: "wake_at (find_hint ?s p) ?s = (f, s1)" by (meson surj_pair)
  then have "PERCPU s1 = PERCPU s" using frame_percpu(8) [of "find_hint ?s p" ?s] by simp
  then show ?thesis using 1 by (auto simp: wake_with_min_def wake_locked_def split: prod.split)
qed

lemma stays_put_transits:
  assumes "stays_put st" "lock_inv s" "lock_ok st s"
  shows "table_rel transits s (lock_exec cpu st s)" "percpu_ok (PERCPU (lock_exec cpu st s))"
proof -
  have inv: "proc_inv s" "percpu_ok (PERCPU s)" using assms(2) by (simp_all add: lock_inv_def)
  have ctx: "table_rel transits s (update_current_user_context cpu a b c s)" for a b c
    by (auto simp: update_current_user_context_def transits_upd_slot entry_updates_transit split: option.split)
  have sch: "table_rel transits s (snd (schedule_locked cpu s))"
    using schedule_transits [OF inv(1), of cpu] by (simp add: table_rel_def schedule_locked_frame)
  have "table_rel transits s (lock_exec cpu st s) \<and> percpu_ok (PERCPU (lock_exec cpu st s))"
  proof (cases st)
    case (Whole op)
    then show ?thesis using inv assms(1) decide_transits [OF inv] schedule_transits [OF inv(1)] tick_transits
      by (cases op) (simp_all add: schedule_locked_frame)
  qed (use assms inv ctx sch in \<open>simp_all add: schedule_locked_frame priority_transits wake_with_min_transits
      set_process_vruntime_def set_process_lag_def mark_process_entered_user_def transits_update_found entry_updates_transit\<close>)
  then show "table_rel transits s (lock_exec cpu st s)" "percpu_ok (PERCPU (lock_exec cpu st s))" by simp_all
qed

lemma proc_percpu:
  assumes "percpu_ok (PERCPU s)"
  shows "percpu_ok (PERCPU (proc_exec cpu op s))"
proof (cases "case op of OpAdd _ _ _ _ \<Rightarrow> False | OpRemove _ \<Rightarrow> False | OpForked _ \<Rightarrow> False | _ \<Rightarrow> True")
  case True
  then have "same_current s (proc_exec cpu op s)"
    by (cases op) (simp_all add: cur.set_process_state_rel cur.set_current_state_rel cur.set_exit_code_rel cur.set_term_signal_rel
      cur.update_cr3_rel cur.wake_process_rel try_wake_process_def cur.Rel_refl cur.futex_wake_rel terminate_thread_group_def
      cur.terminate_fold_rel wake_thread_group_def cur.wake_fold_rel)
  then show ?thesis using assms by (simp add: same_current_def)
next
  case False
  then show ?thesis using assms
    by (cases op) (simp_all add: add_process_table remove_current(2) mark_process_as_forked_child_def)
qed

text \<open>The invariant of the table and the pending wakes depend on the table only.\<close>

lemma table_only:
  assumes "PROCESS_TABLE s' = PROCESS_TABLE s"
  shows "proc_inv s' = proc_inv s" "awake_at i p s' = awake_at i p s"
  using assms by (simp_all add: proc_inv_def awake_at_def)

lemma section_tables:
  "PROCESS_TABLE (snd (insert_process pr prio pol n s)) = PROCESS_TABLE (proc_exec cpu (OpAdd pr prio pol n) s)"
  "PROCESS_TABLE (clear_slot p s) = PROCESS_TABLE (proc_exec cpu (OpRemove p) s)"
  by (simp_all add: insert_process_table add_process_table remove_process_table clear_slot_def remove_slot_def split: option.split)

lemma lock_exec_inv:
  assumes "lock_inv s" "lock_ok st s"
  shows "lock_inv (lock_exec cpu st s)"
proof (cases "stays_put st")
  case True
  then show ?thesis using stays_put_transits [OF True assms, of cpu] transits_inv assms(1) by (auto simp: lock_inv_def)
next
  case False
  have inv: "proc_inv s" "percpu_ok (PERCPU s)" using assms(1) by (simp_all add: lock_inv_def)
  note e = proc_exec_inv [OF inv(1)]
  show ?thesis
  proof (cases st)
    case (Whole op)
    then show ?thesis using False e assms(2) proc_percpu [OF inv(2)] by (cases op) (simp_all add: lock_inv_def)
  next
    case (LInsert pr prio pol n)
    then show ?thesis using e [of "OpAdd pr prio pol n" cpu] assms(2) inv(2) table_only(1) [OF section_tables(1) [of pr prio pol n s cpu]]
      by (simp add: lock_inv_def insert_process_table)
  next
    case (LClearSlot p)
    then show ?thesis using e [of "OpRemove p" cpu] inv(2) table_only(1) [OF section_tables(2) [of p s cpu]]
      by (simp add: lock_inv_def op_ok_def)
  qed (use False in simp_all)
qed

lemma lock_run_inv: "lock_run steps s s' \<Longrightarrow> lock_inv s \<Longrightarrow> lock_inv s'"
  by (induction rule: lock_run.induct) (simp_all add: lock_exec_inv)

lemma lock_start_inv: "percpu_ok g \<Longrightarrow> lock_inv (sched_start g)"
  using sched_start_inv [of g] by (simp add: lock_inv_def sched_inv_def)

text \<open>
  C2: the process table stays well-formed.  Start from the boot state with any set of CPUs up, and let
  the CPUs interleave in any order the scheduling decisions, timer ticks, the operations of
  \<open>process.rs\<close> and of \<open>priority.rs\<close>, as a whole or section by section as they take and release the table's
  lock.  At every moment the table has its 64 slots, live processes have distinct PIDs, every entry
  satisfies its scheduling invariant (nice value in range, weight in step with it, lag inside \<open>i64\<close>,
  slice within its bounds, affinity mask of the right size), and no process sleeps while a wake is
  pending for it.
\<close>

theorem process_table_invariant:
  assumes "percpu_ok g" "lock_run steps (sched_start g) s"
  shows "table_ok (PROCESS_TABLE s) \<and> pids_distinct (PROCESS_TABLE s) \<and>
    (\<forall>e. Some e \<in> set (PROCESS_TABLE s) \<longrightarrow> p_state (process e) = Sleeping \<longrightarrow> \<not> wake_pending (process e))"
  using lock_run_inv [OF assms(2) lock_start_inv [OF assms(1)]]
  by (auto simp: lock_inv_def proc_inv_def list_all_iff sleep_ok_def)

section \<open>A wake is not lost\<close>

text \<open>Steps other than a request of \<open>p\<close> to sleep, its removal, and its marking as forked.\<close>

fun leaves_step :: "Pid \<Rightarrow> nat \<Rightarrow> lock_step \<Rightarrow> sched_state \<Rightarrow> bool" where
  "leaves_step p cpu (Whole (Proc op)) s = leaves p cpu op s"
| "leaves_step p cpu (LClearSlot q) s = (q \<noteq> p)"
| "leaves_step p cpu _ s = True"

inductive quiet_run :: "Pid \<Rightarrow> (nat \<times> lock_step) list \<Rightarrow> sched_state \<Rightarrow> sched_state \<Rightarrow> bool" for p where
  quiet_nil: "quiet_run p [] s s"
| quiet_cons: "lock_ok st s \<Longrightarrow> leaves_step p cpu st s \<Longrightarrow> quiet_run p steps (lock_exec cpu st s) s' \<Longrightarrow>
     quiet_run p ((cpu, st) # steps) s s'"

inductive_simps quiet_run_simps: "quiet_run p [] s s'" "quiet_run p ((cpu, st) # steps) s s'"

lemma lock_exec_awake:
  assumes "lock_inv s" "lock_ok st s" "leaves_step p cpu st s" "awake_at i p s"
  shows "awake_at i p (lock_exec cpu st s)"
proof (cases "stays_put st")
  case True
  then show ?thesis using transits_keeps_awake [OF stays_put_transits(1) [OF True assms(1,2)] assms(4)] by simp
next
  case False
  have inv: "proc_inv s" using assms(1) by (simp add: lock_inv_def)
  note k = exec_keeps_awake [OF inv assms(4)]
  show ?thesis
  proof (cases st)
    case (Whole op)
    then show ?thesis using False k assms(3) by (cases op) simp_all
  next
    case (LInsert pr prio pol n)
    then show ?thesis using k [of cpu "OpAdd pr prio pol n"] table_only(2) [OF section_tables(1) [of pr prio pol n s cpu]]
      by (simp add: leaves_def)
  next
    case (LClearSlot q)
    then show ?thesis using k [of cpu "OpRemove q"] assms(3) table_only(2) [OF section_tables(2) [of q s cpu]]
      by (simp add: leaves_def)
  qed (use False in simp_all)
qed

lemma quiet_run_awake: "quiet_run p steps s s' \<Longrightarrow> lock_inv s \<Longrightarrow> awake_at i p s \<Longrightarrow> lock_inv s' \<and> awake_at i p s'"
  by (induction rule: quiet_run.induct) (simp_all add: lock_exec_inv lock_exec_awake)

definition slot_state :: "nat \<Rightarrow> sched_state \<Rightarrow> ProcessState option" where
  "slot_state i s = map_option (\<lambda>e. p_state (process e)) (PROCESS_TABLE s ! i)"

lemma wake_slot:
  assumes "lock_inv s" "i < MAX_PROCESSES" "PROCESS_TABLE s ! i = Some e"
  shows "PROCESS_TABLE (snd (wake_process cpu (pid (process e)) s)) ! i = Some (wake_entry (MIN_VRUNTIME s) e)"
    and "lock_inv (snd (wake_process cpu (pid (process e)) s))"
    and "runnable e \<Longrightarrow> awake_at i (pid (process e)) (snd (wake_process cpu (pid (process e)) s))"
proof -
  have inv: "proc_inv s" "percpu_ok (PERCPU s)" using assms(1) by (simp_all add: lock_inv_def)
  then have l: "length (PROCESS_TABLE s) = MAX_PROCESSES" by (simp add: proc_inv_def table_ok_def)
  show t: "PROCESS_TABLE (snd (wake_process cpu (pid (process e)) s)) ! i = Some (wake_entry (MIN_VRUNTIME s) e)"
    using wake_process_slot(1) [of s i e "pid (process e)" cpu] inv l assms(2,3) by (simp add: proc_inv_def)
  show i: "lock_inv (snd (wake_process cpu (pid (process e)) s))"
    using lock_exec_inv [OF assms(1), of "Whole (Proc (OpWake (pid (process e))))" cpu] by (simp add: op_ok_def)
  show "awake_at i (pid (process e)) (snd (wake_process cpu (pid (process e)) s))" if "runnable e"
    using that t i assms(2)
    by (auto simp: awake_at_def awake_def wake_entry_def runnable_def upd_process_def lock_inv_def proc_inv_def table_ok_def)
qed

text \<open>
  C1: a wake is never lost.  In every state that the CPUs reach by interleaving the operations of the
  scheduler and their locked sections: a process that sleeps is made ready by a wake; a process that is
  runnable when the wake arrives is kept awake by it, because, whatever other steps all CPUs take in
  between, its next request to sleep, by \<open>set_process_state\<close> or by \<open>set_current_process_state\<close> on any CPU
  it is then the running process of, does not put it to sleep.  Without a pending wake both requests
  do put a runnable process to sleep.
\<close>

theorem wake_never_lost:
  assumes "percpu_ok g" "lock_run steps0 (sched_start g) s" "i < MAX_PROCESSES" "PROCESS_TABLE s ! i = Some e" "p = pid (process e)"
  shows "(p_state (process e) = Sleeping \<longrightarrow> slot_state i (snd (wake_process cpu p s)) = Some Ready) \<and>
    (runnable e \<longrightarrow> quiet_run p steps (snd (wake_process cpu p s)) s' \<longrightarrow>
      slot_state i (snd (set_process_state p Sleeping s')) \<notin> {None, Some Sleeping} \<and>
      (\<forall>c. current_pid c s' = Some p \<longrightarrow> slot_state i (set_current_process_state c Sleeping s') \<notin> {None, Some Sleeping})) \<and>
    (runnable e \<longrightarrow> \<not> wake_pending (process e) \<longrightarrow>
      slot_state i (snd (set_process_state p Sleeping s)) = Some Sleeping \<and>
      (\<forall>c. current_pid c s = Some p \<longrightarrow> slot_state i (set_current_process_state c Sleeping s) = Some Sleeping))"
proof (intro conjI impI)
  have inv: "lock_inv s" using lock_run_inv [OF assms(2) lock_start_inv [OF assms(1)]] .
  then have pinv: "proc_inv s" and l: "i < length (PROCESS_TABLE s)" using assms(3) by (simp_all add: lock_inv_def proc_inv_def table_ok_def)
  note w = wake_slot [OF inv assms(3,4), of cpu, folded assms(5)]
  show "slot_state i (snd (wake_process cpu p s)) = Some Ready" if "p_state (process e) = Sleeping"
    using w(1) that by (simp add: slot_state_def wake_entry_def Let_def)
  note r = request_at [OF pinv l assms(4) assms(5) [symmetric], where st = Sleeping]
  have z: "p_state (process (upd_process (request_state Sleeping) e)) = Sleeping" if "runnable e" "\<not> wake_pending (process e)"
    using that by (auto simp: upd_process_def request_state_def runnable_def)
  show "slot_state i (snd (set_process_state p Sleeping s)) = Some Sleeping" if "runnable e" "\<not> wake_pending (process e)"
    using r(1) z [OF that] by (simp add: slot_state_def)
  show "\<forall>c. current_pid c s = Some p \<longrightarrow> slot_state i (set_current_process_state c Sleeping s) = Some Sleeping"
    if "runnable e" "\<not> wake_pending (process e)"
    using r(2) z [OF that] by (simp add: slot_state_def)
  assume h: "runnable e" "quiet_run p steps (snd (wake_process cpu p s)) s'"
  then have q: "lock_inv s'" "awake_at i p s'" using quiet_run_awake [OF h(2) w(2) w(3)] by simp_all
  then have pinv': "proc_inv s'" by (simp add: lock_inv_def)
  obtain e' where e': "i < length (PROCESS_TABLE s')" "PROCESS_TABLE s' ! i = Some e'" "pid (process e') = p" "awake e'"
    using awake_atD [OF q(2)] by blast
  note r' = request_at [OF pinv' e'(1-3), where st = Sleeping]
  show "slot_state i (snd (set_process_state p Sleeping s')) \<notin> {None, Some Sleeping}"
    using r'(1) awake_request [OF e'(4)] by (simp add: slot_state_def)
  show "\<forall>c. current_pid c s' = Some p \<longrightarrow> slot_state i (set_current_process_state c Sleeping s') \<notin> {None, Some Sleeping}"
    using r'(2) awake_request [OF e'(4)] by (simp add: slot_state_def)
qed

section \<open>A concrete run\<close>

text \<open>Process 5 is added by CPU 0 and chosen by CPU 1.\<close>

definition run5 :: "(nat \<times> lock_step) list" where
  "run5 = [(0, Whole (Proc (OpAdd (proc5 Ready) 128 Normal 0))), (1, Whole (Decide hw0))]"

lemma run5_runs:
  obtains s e where "lock_run run5 (sched_start two_cpus) s" "PROCESS_TABLE s ! 0 = Some e" "pid (process e) = 5"
    "p_state (process e) = Running" "\<not> wake_pending (process e)" "current_pid 1 s = Some 5"
proof -
  note b = boot_with_5
  let ?s = "decide 1 hw0 (proc_exec 0 (OpAdd (proc5 Ready) 128 Normal 0) (sched_start two_cpus))"
  have "lock_run run5 (sched_start two_cpus) ?s" using b(1) by (simp add: run5_def lock_run_simps)
  moreover obtain e where "PROCESS_TABLE ?s ! 0 = Some e" "pid (process e) = 5" "p_state (process e) = Running" "\<not> wake_pending (process e)"
    using lone_decides(2) [OF b(2,3), of 1 hw0] by auto
  moreover have "current_pid 1 ?s = Some 5" using lone_decides(3) [OF b(2,3), of 1 hw0] by simp
  ultimately show ?thesis using that by blast
qed

theorem process_table_invariant_witness:
  "\<exists>s. lock_run run5 (sched_start two_cpus) s \<and> slot_state 0 s = Some Running \<and> table_ok (PROCESS_TABLE s) \<and> pids_distinct (PROCESS_TABLE s)"
proof -
  obtain s e where s: "lock_run run5 (sched_start two_cpus) s" "PROCESS_TABLE s ! 0 = Some e" "p_state (process e) = Running"
    by (rule run5_runs)
  then show ?thesis using process_table_invariant [OF two_cpus_simps(1) s(1)] by (auto simp: slot_state_def)
qed

text \<open>CPU 0 wakes the process while it runs on CPU 1, which then asks to sleep.\<close>

theorem wake_never_lost_witness:
  "\<exists>s s'. lock_run run5 (sched_start two_cpus) s \<and> current_pid 1 s = Some 5 \<and>
     slot_state 0 (set_current_process_state 1 Sleeping s) = Some Sleeping \<and>
     quiet_run 5 [(0, LUpdateMin), (1, LAge)] (snd (wake_process 0 5 s)) s' \<and> current_pid 1 s' = Some 5 \<and>
     slot_state 0 (set_current_process_state 1 Sleeping s') \<notin> {None, Some Sleeping}"
proof -
  obtain s e where s: "lock_run run5 (sched_start two_cpus) s" "PROCESS_TABLE s ! 0 = Some e" "pid (process e) = 5"
    "p_state (process e) = Running" "\<not> wake_pending (process e)" "current_pid 1 s = Some 5"
    by (rule run5_runs)
  let ?w = "snd (wake_process 0 5 s)"
  obtain s' where q: "quiet_run 5 [(0, LUpdateMin), (1, LAge)] ?w s'" "s' = lock_exec 1 LAge (lock_exec 0 LUpdateMin ?w)"
    by (simp add: quiet_run_simps)
  have c: "current_pid 1 s' = Some 5" using cur.wake_process_rel [of s 0 5] s(6) by (simp add: q(2) same_current_def)
  have r: "runnable e" using s(4) by (simp add: runnable_def)
  note w = wake_never_lost [OF two_cpus_simps(1) s(1) _ s(2) s(3) [symmetric], of 0 "[(0, LUpdateMin), (1, LAge)]" s']
  have "slot_state 0 (set_current_process_state 1 Sleeping s) = Some Sleeping"
    "slot_state 0 (set_current_process_state 1 Sleeping s') \<notin> {None, Some Sleeping}"
    using w q(1) r s(5,6) c by simp_all
  then show ?thesis using s(1,6) q(1) c by blast
qed

end
