(* ===== verification/Vma.thy ===== *)
theory Vma
  imports Kernel_Prelude
begin

text \<open>
  Virtual memory areas: \<open>src/src/mm/vma.rs\<close>, lines 36 to 459.  Permissions and flags are the words the
  source wraps in one-field structs.  Addresses are 64-bit words, so additions wrap around as they do
  in a release build.
\<close>

section \<open>Permissions and flags\<close>

definition PAGE_SIZE :: u64 where "PAGE_SIZE = 4096"

definition MAX_VMAS :: nat where "MAX_VMAS = 256"

definition MAX_ADDRESS_SPACES :: nat where "MAX_ADDRESS_SPACES = 64"

type_synonym VMAPermissions = u32
type_synonym VMAFlags = u32

definition PERM_NONE :: VMAPermissions where "PERM_NONE = 0"
definition PERM_READ :: VMAPermissions where "PERM_READ = 1"
definition PERM_WRITE :: VMAPermissions where "PERM_WRITE = 2"
definition PERM_EXEC :: VMAPermissions where "PERM_EXEC = 4"

definition from_prot :: "u64 \<Rightarrow> VMAPermissions" where
  "from_prot prot = ucast (prot AND 7)"

definition to_prot :: "VMAPermissions \<Rightarrow> u64" where
  "to_prot p = ucast p"

definition is_read :: "VMAPermissions \<Rightarrow> bool" where
  "is_read p \<longleftrightarrow> p AND PERM_READ \<noteq> 0"

definition is_write :: "VMAPermissions \<Rightarrow> bool" where
  "is_write p \<longleftrightarrow> p AND PERM_WRITE \<noteq> 0"

definition is_exec :: "VMAPermissions \<Rightarrow> bool" where
  "is_exec p \<longleftrightarrow> p AND PERM_EXEC \<noteq> 0"

text \<open>Page table flags: bit 0 present, bit 1 writable, bit 2 user accessible, bit 63 no execute.\<close>

definition to_page_flags :: "VMAPermissions \<Rightarrow> u64" where
  "to_page_flags p = 1 OR 4 OR (if is_write p then 2 else 0) OR (if \<not> is_exec p then push_bit 63 1 else 0)"

definition FLAG_NONE :: VMAFlags where "FLAG_NONE = 0"
definition FLAG_SHARED :: VMAFlags where "FLAG_SHARED = 1"
definition FLAG_PRIVATE :: VMAFlags where "FLAG_PRIVATE = 2"
definition FLAG_ANONYMOUS :: VMAFlags where "FLAG_ANONYMOUS = 4"
definition FLAG_FIXED :: VMAFlags where "FLAG_FIXED = 8"
definition FLAG_GROWSDOWN :: VMAFlags where "FLAG_GROWSDOWN = 0x10"
definition FLAG_STACK :: VMAFlags where "FLAG_STACK = 0x10000"
definition FLAG_HEAP :: VMAFlags where "FLAG_HEAP = 0x20000"
definition FLAG_DEMAND :: VMAFlags where "FLAG_DEMAND = 0x1000000"
definition FLAG_POPULATE :: VMAFlags where "FLAG_POPULATE = 0x2000000"
definition FLAG_COW :: VMAFlags where "FLAG_COW = 0x4000000"

definition from_mmap_flags :: "u64 \<Rightarrow> VMAFlags" where
  "from_mmap_flags f =
     (if f AND 0x01 \<noteq> 0 then FLAG_SHARED else 0) OR (if f AND 0x02 \<noteq> 0 then FLAG_PRIVATE else 0) OR
     (if f AND 0x10 \<noteq> 0 then FLAG_FIXED else 0) OR (if f AND 0x20 \<noteq> 0 then FLAG_ANONYMOUS else 0) OR
     (if f AND 0x8000 \<noteq> 0 then FLAG_POPULATE else 0)"

definition flags_contains :: "VMAFlags \<Rightarrow> VMAFlags \<Rightarrow> bool" where
  "flags_contains f other \<longleftrightarrow> f AND other = other"

definition flags_insert :: "VMAFlags \<Rightarrow> VMAFlags \<Rightarrow> VMAFlags" where
  "flags_insert f other = f OR other"

definition flags_remove :: "VMAFlags \<Rightarrow> VMAFlags \<Rightarrow> VMAFlags" where
  "flags_remove f other = f AND NOT other"

definition is_anonymous :: "VMAFlags \<Rightarrow> bool" where
  "is_anonymous f = flags_contains f FLAG_ANONYMOUS"

definition is_shared :: "VMAFlags \<Rightarrow> bool" where
  "is_shared f = flags_contains f FLAG_SHARED"

definition is_private :: "VMAFlags \<Rightarrow> bool" where
  "is_private f = flags_contains f FLAG_PRIVATE"

section \<open>Areas\<close>

datatype VMABacking =
    Anonymous
  | File (file_inode: u64) (file_offset: u64)
  | Device (phys_addr: u64)
  | SharedMemory (shmid: u64)

record VMA =
  vma_start :: u64
  vma_end :: u64
  vma_perm :: VMAPermissions
  vma_flags :: VMAFlags
  vma_backing :: VMABacking
  vma_generation :: u64
  cow_parent :: int
  vma_refcount :: u32

definition VMA_empty :: VMA where
  "VMA_empty = \<lparr> vma_start = 0, vma_end = 0, vma_perm = PERM_NONE, vma_flags = FLAG_NONE, vma_backing = Anonymous,
     vma_generation = 0, cow_parent = - 1, vma_refcount = 0 \<rparr>"

definition VMA_new :: "u64 \<Rightarrow> u64 \<Rightarrow> VMAPermissions \<Rightarrow> VMAFlags \<Rightarrow> VMABacking \<Rightarrow> VMA" where
  "VMA_new s e p f b = \<lparr> vma_start = s, vma_end = e, vma_perm = p, vma_flags = f, vma_backing = b,
     vma_generation = 0, cow_parent = - 1, vma_refcount = 1 \<rparr>"

definition vma_is_valid :: "VMA \<Rightarrow> bool" where
  "vma_is_valid v \<longleftrightarrow> vma_start v < vma_end v"

definition vma_size :: "VMA \<Rightarrow> u64" where
  "vma_size v = (if vma_start v < vma_end v then vma_end v - vma_start v else 0)"

definition page_count :: "VMA \<Rightarrow> u64" where
  "page_count v = vma_size v div PAGE_SIZE"

definition vma_contains :: "VMA \<Rightarrow> u64 \<Rightarrow> bool" where
  "vma_contains v addr \<longleftrightarrow> vma_start v \<le> addr \<and> addr < vma_end v"

definition vma_overlaps :: "VMA \<Rightarrow> u64 \<Rightarrow> u64 \<Rightarrow> bool" where
  "vma_overlaps v s e \<longleftrightarrow> vma_start v < e \<and> s < vma_end v"

definition can_merge_with :: "VMA \<Rightarrow> VMA \<Rightarrow> bool" where
  "can_merge_with a b \<longleftrightarrow>
     \<not> (vma_end a \<noteq> vma_start b \<and> vma_end b \<noteq> vma_start a) \<and>
     vma_perm a = vma_perm b \<and>
     vma_flags a AND NOT (FLAG_STACK OR FLAG_HEAP) = vma_flags b AND NOT (FLAG_STACK OR FLAG_HEAP) \<and>
     (case (vma_backing a, vma_backing b) of
        (Anonymous, Anonymous) \<Rightarrow> True
      | (File i1 o1, File i2 o2) \<Rightarrow> i1 = i2 \<and> o1 + vma_size a = o2
      | _ \<Rightarrow> False)"

text \<open>
  Round an address or a length up to a page.  The sum wraps for an argument within a page of \<open>2^64\<close>, as
  in a build without overflow checks; a build with them (the development profile) panics there.
\<close>

definition page_up :: "u64 \<Rightarrow> u64" where
  "page_up a = (a + PAGE_SIZE - 1) AND NOT (PAGE_SIZE - 1)"

text \<open>The upper part of a split, and the shrunken lower part.\<close>

definition split_at :: "u64 \<Rightarrow> VMA \<Rightarrow> VMA option \<times> VMA" where
  "split_at addr v =
     (if addr \<le> vma_start v \<or> vma_end v \<le> addr then (None, v)
      else if vma_end v \<le> page_up addr then (None, v)
      else (Some (v\<lparr> vma_start := page_up addr,
              vma_backing := (case vma_backing v of File i off \<Rightarrow> File i (off + (page_up addr - vma_start v)) | b \<Rightarrow> b) \<rparr>),
            v\<lparr> vma_end := page_up addr \<rparr>))"

end
