(* ===== verification/Vma_Tree.thy ===== *)
theory Vma_Tree
  imports Vma "HOL-Library.Tree" "HOL-Library.Monad_Syntax"
begin

text \<open>
  The area manager: \<open>src/src/mm/vma.rs\<close>, lines 462 to 1346, an interval tree (a red-black tree by start
  address, augmented with the greatest end address of each subtree) in a pool of 256 nodes linked by
  \<open>i32\<close> indices, with -1 for no node.

  The pool is a map from indices to nodes that is only accessed through the bounds check of the array;
  a \<open>usize\<close> made from a negative index is out of range as well.  Every operation returns an \<open>option\<close>:
  \<open>None\<close> means that the code does not return, because it panics on an index or loops forever on a
  cyclic pool.  The Rust \<open>Option\<close> of an operation is inside.
\<close>

section \<open>State\<close>

datatype RBColor = Red | Black

record VMANode =
  n_vma :: VMA
  n_max_end :: u64
  n_left :: int
  n_right :: int
  n_parent :: int
  n_color :: RBColor
  n_in_use :: bool

definition VMANode_empty :: VMANode where
  "VMANode_empty = \<lparr> n_vma = VMA_empty, n_max_end = 0, n_left = - 1, n_right = - 1, n_parent = - 1, n_color = Black, n_in_use = False \<rparr>"

record VMAStats =
  mmap_count :: u64
  munmap_count :: u64
  mprotect_count :: u64
  merge_count :: u64
  split_count :: u64
  mapped_bytes :: u64
  peak_vma_count :: u64
  page_faults :: u64
  cow_faults :: u64

definition VMAStats_new :: VMAStats where
  "VMAStats_new = \<lparr> mmap_count = 0, munmap_count = 0, mprotect_count = 0, merge_count = 0, split_count = 0, mapped_bytes = 0,
     peak_vma_count = 0, page_faults = 0, cow_faults = 0 \<rparr>"

record VMAManager =
  vm_nodes :: "int \<Rightarrow> VMANode"
  vm_root :: int
  vm_count :: nat
  free_head :: int
  vm_stats :: VMAStats

definition VMAManager_new :: VMAManager where
  "VMAManager_new = \<lparr> vm_nodes = (\<lambda>_. VMANode_empty), vm_root = - 1, vm_count = 0, free_head = - 1, vm_stats = VMAStats_new \<rparr>"

definition vm_init :: "VMAManager \<Rightarrow> VMAManager" where
  "vm_init m =
     (let ns = fold (\<lambda>i ns. ns(int i := (ns (int i))\<lparr> n_left := int (i + 1) \<rparr>)) [0..<MAX_VMAS - 1] (vm_nodes m)
      in m\<lparr> vm_nodes := ns(int (MAX_VMAS - 1) := (ns (int (MAX_VMAS - 1)))\<lparr> n_left := - 1 \<rparr>), free_head := 0 \<rparr>)"

definition VMAManager_default :: VMAManager where
  "VMAManager_default = vm_init VMAManager_new"

definition vm_clear :: "VMAManager \<Rightarrow> VMAManager" where
  "vm_clear m =
     (let ns = fold (\<lambda>i ns. ns(int i := VMANode_empty\<lparr> n_left := int (i + 1) \<rparr>)) [0..<MAX_VMAS - 1] (vm_nodes m)
      in m\<lparr> vm_nodes := ns(int (MAX_VMAS - 1) := VMANode_empty\<lparr> n_left := - 1 \<rparr>), vm_root := - 1, vm_count := 0, free_head := 0,
            vm_stats := (vm_stats m)\<lparr> mapped_bytes := 0 \<rparr> \<rparr>)"

section \<open>Access to the pool\<close>

definition valid_idx :: "int \<Rightarrow> bool" where
  "valid_idx i \<longleftrightarrow> 0 \<le> i \<and> i < int MAX_VMAS"

text \<open>\<open>self.nodes[i as usize]\<close>, read and written.\<close>

definition node_at :: "VMAManager \<Rightarrow> int \<Rightarrow> VMANode option" where
  "node_at m i = (if valid_idx i then Some (vm_nodes m i) else None)"

definition upd_node :: "int \<Rightarrow> (VMANode \<Rightarrow> VMANode) \<Rightarrow> VMAManager \<Rightarrow> VMAManager option" where
  "upd_node i f m = (if valid_idx i then Some (m\<lparr> vm_nodes := (vm_nodes m)(i := f (vm_nodes m i)) \<rparr>) else None)"

text \<open>The accessor \<open>node\<close>, which checks the range and the slot itself.\<close>

definition vma_node :: "VMAManager \<Rightarrow> int \<Rightarrow> VMANode option" where
  "vma_node m i = (if valid_idx i \<and> n_in_use (vm_nodes m i) then Some (vm_nodes m i) else None)"

definition get_vma_by_index :: "VMAManager \<Rightarrow> int \<Rightarrow> VMA option" where
  "get_vma_by_index m i = map_option n_vma (vma_node m i)"

definition alloc_node :: "VMAManager \<Rightarrow> (int option \<times> VMAManager) option" where
  "alloc_node m =
     (if free_head m < 0 then Some (None, m)
      else do {
        n \<leftarrow> node_at m (free_head m);
        m1 \<leftarrow> upd_node (free_head m) (\<lambda>_. \<lparr> n_vma = VMA_empty, n_max_end = 0, n_left = - 1, n_right = - 1, n_parent = - 1,
                n_color = Red, n_in_use = True \<rparr>) (m\<lparr> free_head := n_left n \<rparr>);
        Some (Some (free_head m), m1) })"

definition free_node :: "int \<Rightarrow> VMAManager \<Rightarrow> VMAManager option" where
  "free_node i m =
     (if i < 0 \<or> int MAX_VMAS \<le> i then Some m
      else map_option (\<lambda>m1. m1\<lparr> free_head := i \<rparr>) (upd_node i (\<lambda>n. n\<lparr> n_in_use := False, n_left := free_head m \<rparr>) m))"

section \<open>Searching\<close>

partial_function (option) find_loop :: "VMAManager \<Rightarrow> u64 \<Rightarrow> int \<Rightarrow> int option option" where
  [code]: "find_loop m addr current =
     (if current < 0 then Some None
      else case vma_node m current of
          None \<Rightarrow> Some None
        | Some n \<Rightarrow>
            if addr < vma_start (n_vma n) then find_loop m addr (n_left n)
            else if vma_end (n_vma n) \<le> addr then find_loop m addr (n_right n)
            else Some (Some current))"

definition vma_find :: "VMAManager \<Rightarrow> u64 \<Rightarrow> VMA option option" where
  "vma_find m addr = map_option (map_option (\<lambda>i. n_vma (vm_nodes m i))) (find_loop m addr (vm_root m))"

text \<open>\<open>find_mut\<close> indexes the array itself; its result is the index of the node.\<close>

partial_function (option) find_mut_loop :: "VMAManager \<Rightarrow> u64 \<Rightarrow> int \<Rightarrow> int option option" where
  [code]: "find_mut_loop m addr current =
     (if current < 0 then Some None
      else do {
        n \<leftarrow> node_at m current;
        if \<not> n_in_use n then Some None
        else if addr < vma_start (n_vma n) then find_mut_loop m addr (n_left n)
        else if vma_end (n_vma n) \<le> addr then find_mut_loop m addr (n_right n)
        else Some (Some current) })"

definition vma_find_mut :: "VMAManager \<Rightarrow> u64 \<Rightarrow> int option option" where
  "vma_find_mut m addr = find_mut_loop m addr (vm_root m)"

partial_function (option) nearest_loop :: "VMAManager \<Rightarrow> u64 \<Rightarrow> int \<Rightarrow> int option \<Rightarrow> u64 \<Rightarrow> int option option" where
  [code]: "nearest_loop m addr current nearest nearest_dist =
     (if current < 0 then Some nearest
      else case vma_node m current of
          None \<Rightarrow> Some nearest
        | Some n \<Rightarrow>
            if vma_contains (n_vma n) addr then Some (Some current)
            else let dist = (if addr < vma_start (n_vma n) then vma_start (n_vma n) - addr else addr - vma_end (n_vma n) + 1);
                     (best, best_dist) = (if dist < nearest_dist then (Some current, dist) else (nearest, nearest_dist))
              in nearest_loop m addr (if addr < vma_start (n_vma n) then n_left n else n_right n) best best_dist)"

definition find_nearest :: "VMAManager \<Rightarrow> u64 \<Rightarrow> VMA option option" where
  "find_nearest m addr = map_option (\<lambda>r. Option.bind r (get_vma_by_index m)) (nearest_loop m addr (vm_root m) None (- 1))"

text \<open>The buffer of \<open>cap\<close> indices is the list of the entries written so far.\<close>

partial_function (option) find_overlapping_recursive ::
  "VMAManager \<Rightarrow> u64 \<Rightarrow> u64 \<Rightarrow> nat \<Rightarrow> int \<Rightarrow> int list \<Rightarrow> int list option" where
  [code]: "find_overlapping_recursive m s e cap idx buf =
     (if idx < 0 \<or> cap \<le> length buf then Some buf
      else case vma_node m idx of
          None \<Rightarrow> Some buf
        | Some n \<Rightarrow> do {
            buf1 \<leftarrow> (if 0 \<le> n_left n then
                       (case vma_node m (n_left n) of
                          None \<Rightarrow> Some buf
                        | Some l \<Rightarrow> if s < n_max_end l then find_overlapping_recursive m s e cap (n_left n) buf else Some buf)
                     else Some buf);
            let buf2 = (if vma_overlaps (n_vma n) s e \<and> length buf1 < cap then buf1 @ [idx] else buf1);
            (if vma_start (n_vma n) < e then find_overlapping_recursive m s e cap (n_right n) buf2 else Some buf2) })"

definition find_overlapping :: "VMAManager \<Rightarrow> u64 \<Rightarrow> u64 \<Rightarrow> nat \<Rightarrow> int list option" where
  "find_overlapping m s e cap = find_overlapping_recursive m s e cap (vm_root m) []"

section \<open>Rotations\<close>

definition update_max_end :: "int \<Rightarrow> VMAManager \<Rightarrow> VMAManager option" where
  "update_max_end i m =
     (if i < 0 then Some m
      else do {
        n \<leftarrow> node_at m i;
        k1 \<leftarrow> (if 0 \<le> n_left n then map_option (\<lambda>l. max (vma_end (n_vma n)) (n_max_end l)) (node_at m (n_left n))
               else Some (vma_end (n_vma n)));
        k2 \<leftarrow> (if 0 \<le> n_right n then map_option (\<lambda>r. max k1 (n_max_end r)) (node_at m (n_right n)) else Some k1);
        upd_node i (\<lambda>n. n\<lparr> n_max_end := k2 \<rparr>) m })"

text \<open>The relinking of a rotation, up to the updates of the greatest end addresses.\<close>

definition relink_left :: "int \<Rightarrow> int \<Rightarrow> VMAManager \<Rightarrow> VMAManager option" where
  "relink_left i right_idx m = do {
     r \<leftarrow> node_at m right_idx;
     m1 \<leftarrow> upd_node i (\<lambda>n. n\<lparr> n_right := n_left r \<rparr>) m;
     m2 \<leftarrow> (if 0 \<le> n_left r then upd_node (n_left r) (\<lambda>n. n\<lparr> n_parent := i \<rparr>) m1 else Some m1);
     n \<leftarrow> node_at m2 i;
     m3 \<leftarrow> upd_node right_idx (\<lambda>r. r\<lparr> n_parent := n_parent n \<rparr>) m2;
     m4 \<leftarrow> (if n_parent n < 0 then Some (m3\<lparr> vm_root := right_idx \<rparr>)
            else do {
              p \<leftarrow> node_at m3 (n_parent n);
              if n_left p = i then upd_node (n_parent n) (\<lambda>p. p\<lparr> n_left := right_idx \<rparr>) m3
              else upd_node (n_parent n) (\<lambda>p. p\<lparr> n_right := right_idx \<rparr>) m3 });
     m5 \<leftarrow> upd_node right_idx (\<lambda>r. r\<lparr> n_left := i \<rparr>) m4;
     upd_node i (\<lambda>n. n\<lparr> n_parent := right_idx \<rparr>) m5 }"

definition rotate_left :: "int \<Rightarrow> VMAManager \<Rightarrow> VMAManager option" where
  "rotate_left i m = do {
     n \<leftarrow> node_at m i;
     let right_idx = n_right n;
     if right_idx < 0 then Some m
     else do {
       m6 \<leftarrow> relink_left i right_idx m;
       m7 \<leftarrow> update_max_end i m6;
       update_max_end right_idx m7 } }"

definition relink_right :: "int \<Rightarrow> int \<Rightarrow> VMAManager \<Rightarrow> VMAManager option" where
  "relink_right i left_idx m = do {
     l \<leftarrow> node_at m left_idx;
     m1 \<leftarrow> upd_node i (\<lambda>n. n\<lparr> n_left := n_right l \<rparr>) m;
     m2 \<leftarrow> (if 0 \<le> n_right l then upd_node (n_right l) (\<lambda>n. n\<lparr> n_parent := i \<rparr>) m1 else Some m1);
     n \<leftarrow> node_at m2 i;
     m3 \<leftarrow> upd_node left_idx (\<lambda>l. l\<lparr> n_parent := n_parent n \<rparr>) m2;
     m4 \<leftarrow> (if n_parent n < 0 then Some (m3\<lparr> vm_root := left_idx \<rparr>)
            else do {
              p \<leftarrow> node_at m3 (n_parent n);
              if n_right p = i then upd_node (n_parent n) (\<lambda>p. p\<lparr> n_right := left_idx \<rparr>) m3
              else upd_node (n_parent n) (\<lambda>p. p\<lparr> n_left := left_idx \<rparr>) m3 });
     m5 \<leftarrow> upd_node left_idx (\<lambda>l. l\<lparr> n_right := i \<rparr>) m4;
     upd_node i (\<lambda>n. n\<lparr> n_parent := left_idx \<rparr>) m5 }"

definition rotate_right :: "int \<Rightarrow> VMAManager \<Rightarrow> VMAManager option" where
  "rotate_right i m = do {
     n \<leftarrow> node_at m i;
     let left_idx = n_left n;
     if left_idx < 0 then Some m
     else do {
       m6 \<leftarrow> relink_right i left_idx m;
       m7 \<leftarrow> update_max_end i m6;
       update_max_end left_idx m7 } }"

section \<open>Insertion\<close>

partial_function (option) insert_descend :: "VMA \<Rightarrow> int \<Rightarrow> int \<Rightarrow> VMAManager \<Rightarrow> VMAManager option" where
  [code]: "insert_descend v new_idx current m = do {
     n \<leftarrow> node_at m current;
     m1 \<leftarrow> (if n_max_end n < vma_end v then upd_node current (\<lambda>n. n\<lparr> n_max_end := vma_end v \<rparr>) m else Some m);
     if vma_start v < vma_start (n_vma n) then
       (if n_left n < 0 then do {
          m2 \<leftarrow> upd_node current (\<lambda>n. n\<lparr> n_left := new_idx \<rparr>) m1;
          upd_node new_idx (\<lambda>n. n\<lparr> n_parent := current \<rparr>) m2 }
        else insert_descend v new_idx (n_left n) m1)
     else
       (if n_right n < 0 then do {
          m2 \<leftarrow> upd_node current (\<lambda>n. n\<lparr> n_right := new_idx \<rparr>) m1;
          upd_node new_idx (\<lambda>n. n\<lparr> n_parent := current \<rparr>) m2 }
        else insert_descend v new_idx (n_right n) m1) }"

abbreviation set_color :: "int \<Rightarrow> RBColor \<Rightarrow> VMAManager \<Rightarrow> VMAManager option" where
  "set_color i c \<equiv> upd_node i (\<lambda>n. n\<lparr> n_color := c \<rparr>)"

text \<open>The cases of a black uncle, for a parent that is a left child and one that is a right child.\<close>

definition fixup_left :: "int \<Rightarrow> int \<Rightarrow> VMAManager \<Rightarrow> VMAManager option" where
  "fixup_left i parent_idx m = do {
     p \<leftarrow> node_at m parent_idx;
     (j, m1) \<leftarrow> (if n_right p = i then map_option (Pair parent_idx) (rotate_left parent_idx m) else Some (i, m));
     jn \<leftarrow> node_at m1 j;
     pn \<leftarrow> node_at m1 (n_parent jn);
     m2 \<leftarrow> set_color (n_parent jn) Black m1;
     m3 \<leftarrow> set_color (n_parent pn) Red m2;
     rotate_right (n_parent pn) m3 }"

definition fixup_right :: "int \<Rightarrow> int \<Rightarrow> VMAManager \<Rightarrow> VMAManager option" where
  "fixup_right i parent_idx m = do {
     p \<leftarrow> node_at m parent_idx;
     (j, m1) \<leftarrow> (if n_left p = i then map_option (Pair parent_idx) (rotate_right parent_idx m) else Some (i, m));
     jn \<leftarrow> node_at m1 j;
     pn \<leftarrow> node_at m1 (n_parent jn);
     m2 \<leftarrow> set_color (n_parent jn) Black m1;
     m3 \<leftarrow> set_color (n_parent pn) Red m2;
     rotate_left (n_parent pn) m3 }"

text \<open>The loop of \<open>insert_fixup\<close>; it ends after a rotation.\<close>

partial_function (option) insert_fixup_loop :: "int \<Rightarrow> VMAManager \<Rightarrow> VMAManager option" where
  [code]: "insert_fixup_loop i m =
     (if i = vm_root m then Some m
      else do {
        n \<leftarrow> node_at m i;
        let parent_idx = n_parent n;
        if parent_idx < 0 then Some m
        else do {
          p \<leftarrow> node_at m parent_idx;
          if n_color p = Black then Some m
          else (let grandparent_idx = n_parent p in
            if grandparent_idx < 0 then Some m
            else do {
              g \<leftarrow> node_at m grandparent_idx;
              let uncle_idx = (if n_left g = parent_idx then n_right g else n_left g);
              uncle_color \<leftarrow> (if 0 \<le> uncle_idx then map_option n_color (node_at m uncle_idx) else Some Black);
              if uncle_color = Red then do {
                m1 \<leftarrow> set_color parent_idx Black m;
                m2 \<leftarrow> (if 0 \<le> uncle_idx then set_color uncle_idx Black m1 else Some m1);
                m3 \<leftarrow> set_color grandparent_idx Red m2;
                insert_fixup_loop grandparent_idx m3 }
              else if n_left g = parent_idx then fixup_left i parent_idx m
              else fixup_right i parent_idx m }) } })"

definition insert_fixup :: "int \<Rightarrow> VMAManager \<Rightarrow> VMAManager option" where
  "insert_fixup i m = do {
     m1 \<leftarrow> insert_fixup_loop i m;
     if 0 \<le> vm_root m1 then set_color (vm_root m1) Black m1 else Some m1 }"

text \<open>Linking the new node into the tree, and the statistics.\<close>

definition attach_node :: "VMA \<Rightarrow> int \<Rightarrow> VMAManager \<Rightarrow> VMAManager option" where
  "attach_node v new_idx m =
     (if vm_root m < 0 then set_color new_idx Black (m\<lparr> vm_root := new_idx \<rparr>)
      else do { m1 \<leftarrow> insert_descend v new_idx (vm_root m) m; insert_fixup new_idx m1 })"

definition count_insert :: "VMA \<Rightarrow> VMAManager \<Rightarrow> VMAManager" where
  "count_insert v m =
     (let cnt = vm_count m + 1; st = vm_stats m
      in m\<lparr> vm_count := cnt, vm_stats := st\<lparr> mapped_bytes := mapped_bytes st + vma_size v,
              peak_vma_count := (if peak_vma_count st < of_nat cnt then of_nat cnt else peak_vma_count st) \<rparr> \<rparr>)"

definition vma_insert :: "VMA \<Rightarrow> VMAManager \<Rightarrow> (int option \<times> VMAManager) option" where
  "vma_insert v m =
     (if \<not> vma_is_valid v then Some (None, m)
      else do {
        (idx, m1) \<leftarrow> alloc_node m;
        case idx of
          None \<Rightarrow> Some (None, m1)
        | Some new_idx \<Rightarrow> do {
            m2 \<leftarrow> upd_node new_idx (\<lambda>n. n\<lparr> n_vma := v \<rparr>) m1;
            m3 \<leftarrow> upd_node new_idx (\<lambda>n. n\<lparr> n_max_end := vma_end v \<rparr>) m2;
            m4 \<leftarrow> attach_node v new_idx m3;
            Some (Some new_idx, count_insert v m4) } })"

section \<open>Removal\<close>

text \<open>The search of \<open>remove\<close> and \<open>try_merge\<close> for a start address; -1 when the code returns early.\<close>

partial_function (option) start_loop :: "VMAManager \<Rightarrow> u64 \<Rightarrow> int \<Rightarrow> int option" where
  [code]: "start_loop m s current =
     (if current < 0 then Some current
      else do {
        n \<leftarrow> node_at m current;
        if \<not> n_in_use n then Some (- 1)
        else if s < vma_start (n_vma n) then start_loop m s (n_left n)
        else if vma_start (n_vma n) < s then start_loop m s (n_right n)
        else Some current })"

partial_function (option) leftmost :: "VMAManager \<Rightarrow> int \<Rightarrow> int option" where
  [code]: "leftmost m i = do {
     n \<leftarrow> node_at m i;
     if 0 \<le> n_left n then leftmost m (n_left n) else Some i }"

partial_function (option) update_up :: "int \<Rightarrow> VMAManager \<Rightarrow> VMAManager option" where
  [code]: "update_up current m =
     (if current < 0 then Some m
      else do {
        m1 \<leftarrow> update_max_end current m;
        n \<leftarrow> node_at m1 current;
        update_up (n_parent n) m1 })"

text \<open>Replace a node by its only child, if any.\<close>

definition unlink_node :: "int \<Rightarrow> VMANode \<Rightarrow> VMAManager \<Rightarrow> VMAManager option" where
  "unlink_node i n m = do {
     let child = (if 0 \<le> n_left n then n_left n else n_right n);
     let parent = n_parent n;
     m1 \<leftarrow> (if 0 \<le> child then upd_node child (\<lambda>n. n\<lparr> n_parent := parent \<rparr>) m else Some m);
     if parent < 0 then Some (m1\<lparr> vm_root := child \<rparr>)
     else do {
       p \<leftarrow> node_at m1 parent;
       if n_left p = i then upd_node parent (\<lambda>n. n\<lparr> n_left := child \<rparr>) m1
       else upd_node parent (\<lambda>n. n\<lparr> n_right := child \<rparr>) m1 } }"

partial_function (option) remove_node :: "int \<Rightarrow> VMAManager \<Rightarrow> VMAManager option" where
  [code]: "remove_node i m = do {
     n \<leftarrow> node_at m i;
     if 0 \<le> n_left n \<and> 0 \<le> n_right n then do {
       successor \<leftarrow> leftmost m (n_right n);
       sn \<leftarrow> node_at m successor;
       m1 \<leftarrow> upd_node i (\<lambda>n. n\<lparr> n_vma := n_vma sn \<rparr>) m;
       remove_node successor m1 }
     else do {
       m1 \<leftarrow> unlink_node i n m;
       m2 \<leftarrow> update_up (n_parent n) m1;
       m3 \<leftarrow> free_node i m2;
       Some (m3\<lparr> vm_count := vm_count m3 - 1 \<rparr>) } }"

definition vma_remove :: "u64 \<Rightarrow> VMAManager \<Rightarrow> (VMA option \<times> VMAManager) option" where
  "vma_remove s m = do {
     current \<leftarrow> start_loop m s (vm_root m);
     if current < 0 then Some (None, m)
     else do {
       n \<leftarrow> node_at m current;
       m1 \<leftarrow> remove_node current m;
       Some (Some (n_vma n), m1\<lparr> vm_stats := (vm_stats m1)\<lparr>
         mapped_bytes := saturating_sub (mapped_bytes (vm_stats m1)) (vma_size (n_vma n)) \<rparr> \<rparr>) } }"

section \<open>Iteration and free regions\<close>

text \<open>The stack of the iterator holds 32 indices, its top first; a push on a full stack is dropped.\<close>

definition ITER_DEPTH :: nat where "ITER_DEPTH = 32"

partial_function (option) push_left :: "VMAManager \<Rightarrow> int \<Rightarrow> int list \<Rightarrow> int list option" where
  [code]: "push_left m current stack =
     (if current < 0 then Some stack
      else do {
        n \<leftarrow> node_at m current;
        push_left m (n_left n) (if length stack < ITER_DEPTH then current # stack else stack) })"

text \<open>One call of \<open>next\<close> after the first: the popped entries that are not in use are skipped.\<close>

fun iter_next :: "VMAManager \<Rightarrow> int list \<Rightarrow> (VMA option \<times> int list) option" where
  "iter_next m [] = Some (None, [])"
| "iter_next m (i # stack) = do {
     n \<leftarrow> node_at m i;
     if \<not> n_in_use n then iter_next m stack
     else do {
       stack1 \<leftarrow> push_left m (n_right n) stack;
       Some (Some (n_vma n), stack1) } }"

partial_function (option) iter_list :: "VMAManager \<Rightarrow> int list \<Rightarrow> VMA list option" where
  [code]: "iter_list m stack = do {
     (v, stack1) \<leftarrow> iter_next m stack;
     case v of None \<Rightarrow> Some [] | Some v \<Rightarrow> do { vs \<leftarrow> iter_list m stack1; Some (v # vs) } }"

definition vma_iter :: "VMAManager \<Rightarrow> VMA list option" where
  "vma_iter m = do { stack \<leftarrow> push_left m (vm_root m) []; iter_list m stack }"

partial_function (option) free_region_loop :: "VMAManager \<Rightarrow> u64 \<Rightarrow> u64 \<Rightarrow> int list \<Rightarrow> u64 \<Rightarrow> u64 option option" where
  [code]: "free_region_loop m max_addr aligned_size stack candidate = do {
     (v, stack1) \<leftarrow> iter_next m stack;
     case v of
       None \<Rightarrow> Some (if candidate + aligned_size \<le> max_addr then Some candidate else None)
     | Some v \<Rightarrow>
         if candidate + aligned_size \<le> vma_start v then Some (Some candidate)
         else free_region_loop m max_addr aligned_size stack1 (if candidate < vma_end v then vma_end v else candidate) }"

definition find_free_region :: "VMAManager \<Rightarrow> u64 \<Rightarrow> u64 \<Rightarrow> u64 \<Rightarrow> u64 option option" where
  "find_free_region m min_addr max_addr sz = do {
     stack \<leftarrow> push_left m (vm_root m) [];
     free_region_loop m max_addr (page_up sz) stack min_addr }"

section \<open>Merging\<close>

partial_function (option) previous_loop :: "VMAManager \<Rightarrow> u64 \<Rightarrow> int \<Rightarrow> VMA option \<Rightarrow> VMA option option" where
  [code]: "previous_loop m addr current res =
     (if current < 0 then Some res
      else case vma_node m current of
          None \<Rightarrow> Some res
        | Some n \<Rightarrow>
            if vma_end (n_vma n) \<le> addr then previous_loop m addr (n_right n) (Some (n_vma n))
            else previous_loop m addr (n_left n) res)"

definition find_previous :: "VMAManager \<Rightarrow> u64 \<Rightarrow> VMA option option" where
  "find_previous m addr = previous_loop m addr (vm_root m) None"

partial_function (option) next_loop :: "VMAManager \<Rightarrow> u64 \<Rightarrow> int \<Rightarrow> VMA option \<Rightarrow> VMA option option" where
  [code]: "next_loop m addr current res =
     (if current < 0 then Some res
      else case vma_node m current of
          None \<Rightarrow> Some res
        | Some n \<Rightarrow>
            if addr \<le> vma_start (n_vma n) then next_loop m addr (n_left n) (Some (n_vma n))
            else next_loop m addr (n_right n) res)"

definition find_next :: "VMAManager \<Rightarrow> u64 \<Rightarrow> VMA option option" where
  "find_next m addr = next_loop m addr (vm_root m) None"

text \<open>\<open>if let Some(v) = self.find_mut(addr) { ... }\<close> with a change of the area, and whether it was found.\<close>

definition modify_area :: "u64 \<Rightarrow> (VMA \<Rightarrow> VMA) \<Rightarrow> VMAManager \<Rightarrow> (bool \<times> VMAManager) option" where
  "modify_area addr f m = do {
     idx \<leftarrow> vma_find_mut m addr;
     case idx of
       None \<Rightarrow> Some (False, m)
     | Some i \<Rightarrow> map_option (Pair True) (upd_node i (\<lambda>n. n\<lparr> n_vma := f (n_vma n) \<rparr>) m) }"

definition count_merge :: "VMAManager \<Rightarrow> VMAManager" where
  "count_merge m = m\<lparr> vm_stats := (vm_stats m)\<lparr> merge_count := merge_count (vm_stats m) + 1 \<rparr> \<rparr>"

text \<open>Extend the area at \<open>keep\<close> to \<open>new_end\<close> and remove the area at \<open>drop\<close>.\<close>

definition absorb :: "u64 \<Rightarrow> u64 \<Rightarrow> u64 \<Rightarrow> VMAManager \<Rightarrow> VMAManager option" where
  "absorb keep new_end dropped m = do {
     (_, m1) \<leftarrow> modify_area keep (\<lambda>v. v\<lparr> vma_end := new_end \<rparr>) m;
     (_, m2) \<leftarrow> vma_remove dropped m1;
     Some (count_merge m2) }"

definition try_merge :: "u64 \<Rightarrow> VMAManager \<Rightarrow> (bool \<times> VMAManager) option" where
  "try_merge s m = do {
     idx \<leftarrow> start_loop m s (vm_root m);
     if idx < 0 then Some (False, m)
     else do {
       n \<leftarrow> node_at m idx;
       let v = n_vma n;
       prev \<leftarrow> find_previous m (vma_start v);
       if (case prev of None \<Rightarrow> False | Some p \<Rightarrow> can_merge_with p v)
       then map_option (Pair True) (absorb (vma_start (the prev)) (vma_end v) (vma_start v) m)
       else do {
         nxt \<leftarrow> find_next m (vma_end v);
         if (case nxt of None \<Rightarrow> False | Some q \<Rightarrow> can_merge_with v q)
         then map_option (Pair True) (absorb (vma_start v) (vma_end (the nxt)) (vma_start (the nxt)) m)
         else Some (False, m) } } }"

end
