(* ===== verification/Vma_Shape.thy ===== *)
theory Vma_Shape
  imports Vma_Tree
begin

text \<open>
  The pool of \<open>Vma_Tree\<close> as a tree.  \<open>tree_at\<close> says that the linked nodes below an index have the shape
  and the contents of a tree value; a path from the root to a node is a list of frames with a hole
  below the innermost one.  Each loop and rotation of the manager is shown to act on such a path as a
  function on trees, so that the later theories reason about trees only.
\<close>

section \<open>Trees in the pool\<close>

text \<open>A tree node holds its index, its area, its colour and the greatest end address recorded for its subtree.\<close>

type_synonym area = "int \<times> VMA \<times> RBColor \<times> u64"

fun root_idx :: "area tree \<Rightarrow> int" where
  "root_idx Leaf = - 1"
| "root_idx (Node l (x, v, c, k) r) = x"

definition cell :: "VMA \<Rightarrow> RBColor \<Rightarrow> u64 \<Rightarrow> int \<Rightarrow> int \<Rightarrow> int \<Rightarrow> VMANode" where
  "cell v c k l r p = \<lparr> n_vma = v, n_max_end = k, n_left = l, n_right = r, n_parent = p, n_color = c, n_in_use = True \<rparr>"

fun tree_at :: "(int \<Rightarrow> VMANode) \<Rightarrow> int \<Rightarrow> area tree \<Rightarrow> bool" where
  "tree_at ns p Leaf = True"
| "tree_at ns p (Node l (x, v, c, k) r) =
     (valid_idx x \<and> ns x = cell v c k (root_idx l) (root_idx r) p \<and> tree_at ns x l \<and> tree_at ns x r)"

fun idx_set :: "area tree \<Rightarrow> int set" where
  "idx_set Leaf = {}"
| "idx_set (Node l (x, v, c, k) r) = insert x (idx_set l \<union> idx_set r)"

fun dist :: "area tree \<Rightarrow> bool" where
  "dist Leaf = True"
| "dist (Node l (x, v, c, k) r) = (x \<notin> idx_set l \<and> x \<notin> idx_set r \<and> idx_set l \<inter> idx_set r = {} \<and> dist l \<and> dist r)"

text \<open>Frames of a path, innermost first: the hole is the left or the right child of the frame's node.\<close>

datatype frame = LeftOf area "area tree" | RightOf "area tree" area

fun plug :: "frame list \<Rightarrow> area tree \<Rightarrow> area tree" where
  "plug [] t = t"
| "plug (LeftOf a r # c) t = plug c (Node t a r)"
| "plug (RightOf l a # c) t = plug c (Node l a t)"

fun hole_parent :: "frame list \<Rightarrow> int" where
  "hole_parent [] = - 1"
| "hole_parent (LeftOf a r # c) = fst a"
| "hole_parent (RightOf l a # c) = fst a"

fun ctx_at :: "(int \<Rightarrow> VMANode) \<Rightarrow> frame list \<Rightarrow> int \<Rightarrow> bool" where
  "ctx_at ns [] i = True"
| "ctx_at ns (LeftOf (x, v, c, k) r # cs) i =
     (valid_idx x \<and> ns x = cell v c k i (root_idx r) (hole_parent cs) \<and> tree_at ns x r \<and> ctx_at ns cs x)"
| "ctx_at ns (RightOf l (x, v, c, k) # cs) i =
     (valid_idx x \<and> ns x = cell v c k (root_idx l) i (hole_parent cs) \<and> tree_at ns x l \<and> ctx_at ns cs x)"

fun ctx_set :: "frame list \<Rightarrow> int set" where
  "ctx_set [] = {}"
| "ctx_set (LeftOf a r # cs) = insert (fst a) (idx_set r \<union> ctx_set cs)"
| "ctx_set (RightOf l a # cs) = insert (fst a) (idx_set l \<union> ctx_set cs)"

fun cdist :: "frame list \<Rightarrow> bool" where
  "cdist [] = True"
| "cdist (LeftOf a r # cs) = (fst a \<notin> idx_set r \<and> dist r \<and> fst a \<notin> ctx_set cs \<and> idx_set r \<inter> ctx_set cs = {} \<and> cdist cs)"
| "cdist (RightOf l a # cs) = (fst a \<notin> idx_set l \<and> dist l \<and> fst a \<notin> ctx_set cs \<and> idx_set l \<inter> ctx_set cs = {} \<and> cdist cs)"

text \<open>The pool holds the tree \<open>t\<close> below the path \<open>cs\<close>.\<close>

definition zip_at :: "VMAManager \<Rightarrow> frame list \<Rightarrow> area tree \<Rightarrow> bool" where
  "zip_at m cs t \<longleftrightarrow> vm_root m = root_idx (plug cs t) \<and> ctx_at (vm_nodes m) cs (root_idx t) \<and>
     tree_at (vm_nodes m) (hole_parent cs) t \<and> dist t \<and> cdist cs \<and> idx_set t \<inter> ctx_set cs = {}"

definition same_pool :: "int set \<Rightarrow> VMAManager \<Rightarrow> VMAManager \<Rightarrow> bool" where
  "same_pool S m m' \<longleftrightarrow> free_head m' = free_head m \<and> vm_count m' = vm_count m \<and> vm_stats m' = vm_stats m \<and>
     (\<forall>i. i \<notin> S \<longrightarrow> vm_nodes m' i = vm_nodes m i)"

section \<open>Basic facts\<close>

lemma tree_at_frame [simp]: "i \<notin> idx_set t \<Longrightarrow> tree_at (ns(i := n)) p t = tree_at ns p t"
  by (induction t arbitrary: p rule: idx_set.induct) auto

lemma ctx_at_frame [simp]: "i \<notin> ctx_set cs \<Longrightarrow> ctx_at (ns(i := n)) cs j = ctx_at ns cs j"
  by (induction ns cs j rule: ctx_at.induct) auto

lemma tree_at_valid: "tree_at ns p t \<Longrightarrow> i \<in> idx_set t \<Longrightarrow> valid_idx i"
  by (induction ns p t rule: tree_at.induct) auto

lemma root_idx_in: "t \<noteq> Leaf \<Longrightarrow> root_idx t \<in> idx_set t"
  by (cases t rule: root_idx.cases) auto

lemma valid_idx_nonneg [simp]: "valid_idx i \<Longrightarrow> 0 \<le> i" "valid_idx i \<Longrightarrow> \<not> i < 0" "\<not> valid_idx (- 1)"
  by (simp_all add: valid_idx_def)

lemma root_idx_neg: "tree_at ns p t \<Longrightarrow> root_idx t < 0 \<longleftrightarrow> t = Leaf" "tree_at ns p t \<Longrightarrow> 0 \<le> root_idx t \<longleftrightarrow> t \<noteq> Leaf"
  by (cases t rule: root_idx.cases; auto simp: valid_idx_def)+

lemma idx_set_plug [simp]: "idx_set (plug cs t) = idx_set t \<union> ctx_set cs"
proof (induction cs arbitrary: t)
  case (Cons f cs)
  then show ?case by (cases f) (auto split: prod.splits)
qed simp

lemma dist_plug: "dist (plug cs t) \<longleftrightarrow> dist t \<and> cdist cs \<and> idx_set t \<inter> ctx_set cs = {}"
proof (induction cs arbitrary: t)
  case (Cons f cs)
  show ?case
  proof (cases f)
    case (LeftOf a r)
    obtain x v c k where "a = (x, v, c, k)" by (cases a)
    then show ?thesis using Cons [of "Node t a r"] LeftOf by auto
  next
    case (RightOf l a)
    obtain x v c k where "a = (x, v, c, k)" by (cases a)
    then show ?thesis using Cons [of "Node l a t"] RightOf by auto
  qed
qed simp

lemma tree_at_plug: "tree_at ns (- 1) (plug cs t) \<longleftrightarrow> ctx_at ns cs (root_idx t) \<and> tree_at ns (hole_parent cs) t"
proof (induction cs arbitrary: t)
  case (Cons f cs)
  show ?case
  proof (cases f)
    case (LeftOf a r)
    obtain x v c k where "a = (x, v, c, k)" by (cases a)
    then show ?thesis using Cons [of "Node t a r"] LeftOf by auto
  next
    case (RightOf l a)
    obtain x v c k where "a = (x, v, c, k)" by (cases a)
    then show ?thesis using Cons [of "Node l a t"] RightOf by auto
  qed
qed simp

fun root_of :: "frame list \<Rightarrow> int \<Rightarrow> int" where
  "root_of [] i = i"
| "root_of (LeftOf a r # cs) i = root_of cs (fst a)"
| "root_of (RightOf l a # cs) i = root_of cs (fst a)"

lemma root_idx_plug [simp]: "root_idx (plug cs t) = root_of cs (root_idx t)"
proof (induction cs arbitrary: t)
  case (Cons f cs)
  show ?case
  proof (cases f)
    case (LeftOf a r)
    then show ?thesis using Cons [of "Node t a r"] by (cases a) simp
  next
    case (RightOf l a)
    then show ?thesis using Cons [of "Node l a t"] by (cases a) simp
  qed
qed simp

definition vm_rep :: "VMAManager \<Rightarrow> area tree \<Rightarrow> bool" where
  "vm_rep m t \<longleftrightarrow> vm_root m = root_idx t \<and> tree_at (vm_nodes m) (- 1) t \<and> dist t"

lemma vm_rep_plug: "vm_rep m (plug cs t) \<longleftrightarrow> zip_at m cs t"
  by (auto simp: vm_rep_def zip_at_def tree_at_plug dist_plug)

lemma zip_at_root: "zip_at m [] t \<longleftrightarrow> vm_rep m t"
  using vm_rep_plug [of m "[]" t] by simp

lemma zip_down:
  "zip_at m cs (Node l a r) \<longleftrightarrow> zip_at m (LeftOf a r # cs) l" "zip_at m cs (Node l a r) \<longleftrightarrow> zip_at m (RightOf l a # cs) r"
  by (simp_all flip: vm_rep_plug)

lemma zip_node:
  assumes "zip_at m cs (Node l (x, v, c, k) r)"
  shows "valid_idx x" "vm_nodes m x = cell v c k (root_idx l) (root_idx r) (hole_parent cs)"
    "node_at m x = Some (cell v c k (root_idx l) (root_idx r) (hole_parent cs))"
    "vma_node m x = Some (cell v c k (root_idx l) (root_idx r) (hole_parent cs))"
  using assms by (auto simp: zip_at_def node_at_def vma_node_def cell_def)

lemma cell_simps [simp]:
  "n_vma (cell v c k l r p) = v" "n_color (cell v c k l r p) = c" "n_max_end (cell v c k l r p) = k"
  "n_left (cell v c k l r p) = l" "n_right (cell v c k l r p) = r" "n_parent (cell v c k l r p) = p" "n_in_use (cell v c k l r p)"
  "(cell v c k l r p)\<lparr> n_vma := v' \<rparr> = cell v' c k l r p" "(cell v c k l r p)\<lparr> n_color := c' \<rparr> = cell v c' k l r p"
  "(cell v c k l r p)\<lparr> n_max_end := k' \<rparr> = cell v c k' l r p" "(cell v c k l r p)\<lparr> n_left := l' \<rparr> = cell v c k l' r p"
  "(cell v c k l r p)\<lparr> n_right := r' \<rparr> = cell v c k l r' p" "(cell v c k l r p)\<lparr> n_parent := p' \<rparr> = cell v c k l r p'"
  by (simp_all add: cell_def)

lemma same_pool_refl [simp]: "same_pool S m m"
  by (simp add: same_pool_def)

lemma same_pool_trans: "same_pool S m1 m2 \<Longrightarrow> same_pool S m2 m3 \<Longrightarrow> same_pool S m1 m3"
  by (simp add: same_pool_def)

lemma same_pool_mono: "same_pool S m m' \<Longrightarrow> S \<subseteq> T \<Longrightarrow> same_pool T m m'"
  by (auto simp: same_pool_def)

section \<open>Changing one node\<close>

fun top_end :: "area tree \<Rightarrow> u64" where
  "top_end Leaf = 0"
| "top_end (Node l (x, v, c, k) r) = k"

text \<open>The node with its greatest end address computed from its area and its children.\<close>

fun mk :: "area tree \<Rightarrow> area \<Rightarrow> area tree \<Rightarrow> area tree" where
  "mk l (x, v, c, k) r = Node l (x, v, c, max (max (vma_end v) (top_end l)) (top_end r)) r"

lemma top_end_node: "tree_at ns p t \<Longrightarrow> t \<noteq> Leaf \<Longrightarrow> n_max_end (ns (root_idx t)) = top_end t"
  by (cases t rule: root_idx.cases) auto

lemma zip_upd:
  assumes "zip_at m cs (Node l (x, v, c, k) r)"
    and "f (cell v c k (root_idx l) (root_idx r) (hole_parent cs)) = cell v' c' k' (root_idx l) (root_idx r) (hole_parent cs)"
  obtains m' where "upd_node x f m = Some m'" "zip_at m' cs (Node l (x, v', c', k') r)" "same_pool {x} m m'"
proof -
  let ?m = "m\<lparr> vm_nodes := (vm_nodes m)(x := f (vm_nodes m x)) \<rparr>"
  have "upd_node x f m = Some ?m" using zip_node [OF assms(1)] by (simp add: upd_node_def)
  moreover have "zip_at ?m cs (Node l (x, v', c', k') r)"
    using assms(1) zip_node(2) [OF assms(1)] assms(2) by (simp add: zip_at_def)
  moreover have "same_pool {x} m ?m" by (simp add: same_pool_def)
  ultimately show ?thesis using that by blast
qed

lemma zip_update_max_end:
  assumes "zip_at m cs (Node l (x, v, c, k) r)"
  obtains m' where "update_max_end x m = Some m'" "zip_at m' cs (mk l (x, v, c, k) r)" "same_pool {x} m m'"
proof -
  have t: "tree_at (vm_nodes m) x l" "tree_at (vm_nodes m) x r" using assms by (simp_all add: zip_at_def)
  have l: "l \<noteq> Leaf \<Longrightarrow> node_at m (root_idx l) = Some (vm_nodes m (root_idx l)) \<and> 0 \<le> root_idx l \<and> n_max_end (vm_nodes m (root_idx l)) = top_end l"
    using tree_at_valid [OF t(1) root_idx_in] top_end_node [OF t(1)] by (simp add: node_at_def)
  have r: "r \<noteq> Leaf \<Longrightarrow> node_at m (root_idx r) = Some (vm_nodes m (root_idx r)) \<and> 0 \<le> root_idx r \<and> n_max_end (vm_nodes m (root_idx r)) = top_end r"
    using tree_at_valid [OF t(2) root_idx_in] top_end_node [OF t(2)] by (simp add: node_at_def)
  let ?k = "max (max (vma_end v) (top_end l)) (top_end r)"
  have "update_max_end x m = upd_node x (\<lambda>n. n\<lparr> n_max_end := ?k \<rparr>) m"
    using zip_node(1,3) [OF assms] l r by (cases "l = Leaf"; cases "r = Leaf") (simp_all add: update_max_end_def)
  moreover obtain m' where "upd_node x (\<lambda>n. n\<lparr> n_max_end := ?k \<rparr>) m = Some m'" "zip_at m' cs (Node l (x, v, c, ?k) r)" "same_pool {x} m m'"
    using zip_upd [OF assms, of "\<lambda>n. n\<lparr> n_max_end := ?k \<rparr>" v c ?k] by auto
  ultimately show ?thesis using that by simp
qed

section \<open>Rotations\<close>

lemma node_at_upd [simp]: "node_at (m\<lparr> vm_nodes := ns \<rparr>) i = (if valid_idx i then Some (ns i) else None)"
  "node_at (m\<lparr> vm_root := j \<rparr>) i = node_at m i"
  by (simp_all add: node_at_def)

lemma upd_node_valid: "valid_idx i \<Longrightarrow> upd_node i f m = Some (m\<lparr> vm_nodes := (vm_nodes m)(i := f (vm_nodes m i)) \<rparr>)"
  by (simp add: upd_node_def)

lemmas relink_simps = relink_left_def relink_right_def node_at_def upd_node_valid zip_at_def same_pool_def
  Int_Un_distrib Int_Un_distrib2 Int_commute

lemma relink_left_zip:
  assumes "zip_at m cs (Node A (x, v, cx, kx) (Node B (y, w, cy, ky) C))"
  shows "\<exists>m'. relink_left x y m = Some m' \<and> zip_at m' cs (Node (Node A (x, v, cx, kx) B) (y, w, cy, ky) C) \<and>
    same_pool (idx_set B \<union> {x, y} \<union> ctx_set cs) m m'"
proof -
  note z = assms [unfolded zip_at_def]
  show ?thesis
  proof (cases cs rule: hole_parent.cases)
    case 1
    then show ?thesis using z by (cases B rule: root_idx.cases) (simp_all add: relink_simps)
  next
    case (2 a r c)
    obtain p pv pc pk where "a = (p, pv, pc, pk)" by (cases a)
    then show ?thesis using z 2 by (cases B rule: root_idx.cases) (simp_all add: relink_simps)
  next
    case (3 l a c)
    obtain p pv pc pk where a: "a = (p, pv, pc, pk)" by (cases a)
    have "root_idx l \<noteq> x"
      using z 3 a root_idx_in [of l] by (cases "l = Leaf") auto
    then show ?thesis using z 3 a by (cases B rule: root_idx.cases) (simp_all add: relink_simps)
  qed
qed

lemma relink_right_zip:
  assumes "zip_at m cs (Node (Node A (x, v, cx, kx) B) (y, w, cy, ky) C)"
  shows "\<exists>m'. relink_right y x m = Some m' \<and> zip_at m' cs (Node A (x, v, cx, kx) (Node B (y, w, cy, ky) C)) \<and>
    same_pool (idx_set B \<union> {x, y} \<union> ctx_set cs) m m'"
proof -
  note z = assms [unfolded zip_at_def]
  show ?thesis
  proof (cases cs rule: hole_parent.cases)
    case 1
    then show ?thesis using z by (cases B rule: root_idx.cases) (simp_all add: relink_simps)
  next
    case (2 a r c)
    obtain p pv pc pk where a: "a = (p, pv, pc, pk)" by (cases a)
    have "root_idx r \<noteq> y"
      using z 2 a root_idx_in [of r] by (cases "r = Leaf") auto
    then show ?thesis using z 2 a by (cases B rule: root_idx.cases) (simp_all add: relink_simps)
  next
    case (3 l a c)
    obtain p pv pc pk where "a = (p, pv, pc, pk)" by (cases a)
    then show ?thesis using z 3 by (cases B rule: root_idx.cases) (simp_all add: relink_simps)
  qed
qed

lemma rotate_left_zip:
  assumes "zip_at m cs (Node A (x, v, cx, kx) (Node B (y, w, cy, ky) C))"
  obtains m' where "rotate_left x m = Some m'" "zip_at m' cs (mk (mk A (x, v, cx, kx) B) (y, w, cy, ky) C)"
    "same_pool (idx_set B \<union> {x, y} \<union> ctx_set cs) m m'"
proof -
  let ?S = "idx_set B \<union> {x, y} \<union> ctx_set cs"
  have "valid_idx y" using assms by (simp add: zip_at_def)
  obtain m1 where m1: "relink_left x y m = Some m1" "zip_at m1 (LeftOf (y, w, cy, ky) C # cs) (Node A (x, v, cx, kx) B)" "same_pool ?S m m1"
    using relink_left_zip [OF assms] zip_down(1) by blast
  obtain m2 where m2: "update_max_end x m1 = Some m2" "zip_at m2 cs (Node (mk A (x, v, cx, kx) B) (y, w, cy, ky) C)" "same_pool {x} m1 m2"
    using zip_update_max_end [OF m1(2)] zip_down(1) by metis
  obtain m3 where m3: "update_max_end y m2 = Some m3" "zip_at m3 cs (mk (mk A (x, v, cx, kx) B) (y, w, cy, ky) C)" "same_pool {y} m2 m3"
    using zip_update_max_end [OF m2(2)] by metis
  have "rotate_left x m = Some m3" using zip_node(3) [OF assms] m1(1) m2(1) m3(1) \<open>valid_idx y\<close> by (simp add: rotate_left_def)
  moreover have "same_pool ?S m m3" using m1(3) m2(3) m3(3) by (simp add: same_pool_def)
  ultimately show ?thesis using that m3(2) by blast
qed

lemma rotate_right_zip:
  assumes "zip_at m cs (Node (Node A (x, v, cx, kx) B) (y, w, cy, ky) C)"
  obtains m' where "rotate_right y m = Some m'" "zip_at m' cs (mk A (x, v, cx, kx) (mk B (y, w, cy, ky) C))"
    "same_pool (idx_set B \<union> {x, y} \<union> ctx_set cs) m m'"
proof -
  let ?S = "idx_set B \<union> {x, y} \<union> ctx_set cs"
  have "valid_idx x" using assms by (simp add: zip_at_def)
  obtain m1 where m1: "relink_right y x m = Some m1" "zip_at m1 (RightOf A (x, v, cx, kx) # cs) (Node B (y, w, cy, ky) C)" "same_pool ?S m m1"
    using relink_right_zip [OF assms] zip_down(2) by blast
  obtain m2 where m2: "update_max_end y m1 = Some m2" "zip_at m2 cs (Node A (x, v, cx, kx) (mk B (y, w, cy, ky) C))" "same_pool {y} m1 m2"
    using zip_update_max_end [OF m1(2)] zip_down(2) by metis
  obtain m3 where m3: "update_max_end x m2 = Some m3" "zip_at m3 cs (mk A (x, v, cx, kx) (mk B (y, w, cy, ky) C))" "same_pool {x} m2 m3"
    using zip_update_max_end [OF m2(2)] by metis
  have "rotate_right y m = Some m3" using zip_node(3) [OF assms] m1(1) m2(1) m3(1) \<open>valid_idx x\<close> by (simp add: rotate_right_def)
  moreover have "same_pool ?S m m3" using m1(3) m2(3) m3(3) by (simp add: same_pool_def)
  ultimately show ?thesis using that m3(2) by blast
qed

section \<open>The areas of a tree\<close>

fun key :: "area \<Rightarrow> int \<times> VMA" where
  "key (x, v, c, k) = (x, v)"

fun entries :: "area tree \<Rightarrow> (int \<times> VMA) list" where
  "entries Leaf = []"
| "entries (Node l a r) = entries l @ key a # entries r"

fun before_hole :: "frame list \<Rightarrow> (int \<times> VMA) list" where
  "before_hole [] = []"
| "before_hole (LeftOf a r # cs) = before_hole cs"
| "before_hole (RightOf l a # cs) = before_hole cs @ entries l @ [key a]"

fun after_hole :: "frame list \<Rightarrow> (int \<times> VMA) list" where
  "after_hole [] = []"
| "after_hole (LeftOf a r # cs) = key a # entries r @ after_hole cs"
| "after_hole (RightOf l a # cs) = after_hole cs"

lemma entries_plug: "entries (plug cs t) = before_hole cs @ entries t @ after_hole cs"
proof (induction cs arbitrary: t)
  case (Cons f cs)
  then show ?case by (cases f) simp_all
qed simp

lemma entries_mk [simp]: "entries (mk l a r) = entries l @ key a # entries r"
  by (cases a) simp

lemma idx_set_mk [simp]: "idx_set (mk l a r) = insert (fst a) (idx_set l \<union> idx_set r)"
  by (cases a) simp

lemma idx_set_entries: "idx_set t = fst ` set (entries t)"
proof (induction t)
  case (Node l a r)
  then show ?case by (cases a) auto
qed simp

lemma length_entries [simp]: "length (entries t) = size t"
  by (induction t) simp_all

text \<open>Every recorded greatest end bounds the areas of its subtree.\<close>

fun max_ok :: "area tree \<Rightarrow> bool" where
  "max_ok Leaf = True"
| "max_ok (Node l (x, v, c, k) r) =
     ((\<forall>e\<in>set (entries (Node l (x, v, c, k) r)). vma_end (snd e) \<le> k) \<and> max_ok l \<and> max_ok r)"

fun ctx_max_ok :: "frame list \<Rightarrow> (int \<times> VMA) set \<Rightarrow> bool" where
  "ctx_max_ok [] S = True"
| "ctx_max_ok (LeftOf (x, v, c, k) r # cs) S =
     ((\<forall>e\<in>insert (x, v) (S \<union> set (entries r)). vma_end (snd e) \<le> k) \<and> max_ok r \<and> ctx_max_ok cs (insert (x, v) (S \<union> set (entries r))))"
| "ctx_max_ok (RightOf l (x, v, c, k) # cs) S =
     ((\<forall>e\<in>insert (x, v) (S \<union> set (entries l)). vma_end (snd e) \<le> k) \<and> max_ok l \<and> ctx_max_ok cs (insert (x, v) (S \<union> set (entries l))))"

lemma max_ok_plug: "max_ok (plug cs t) \<longleftrightarrow> max_ok t \<and> ctx_max_ok cs (set (entries t))"
proof (induction cs arbitrary: t)
  case (Cons f cs)
  show ?case
  proof (cases f)
    case (LeftOf a r)
    obtain x v c k where "a = (x, v, c, k)" by (cases a)
    then show ?thesis using Cons [of "Node t a r"] LeftOf by auto
  next
    case (RightOf l a)
    obtain x v c k where a: "a = (x, v, c, k)" by (cases a)
    have "set (entries (Node l a t)) = insert (x, v) (set (entries t) \<union> set (entries l))" using a by auto
    then show ?thesis using Cons [of "Node l a t"] RightOf a by auto
  qed
qed simp

lemma max_ok_top: "max_ok t \<Longrightarrow> e \<in> set (entries t) \<Longrightarrow> vma_end (snd e) \<le> top_end t"
  by (cases t rule: top_end.cases) auto

lemma max_ok_mk [simp]: "max_ok (mk l a r) \<longleftrightarrow> max_ok l \<and> max_ok r"
proof (cases a)
  case (fields x v c k)
  show ?thesis
  proof
    assume "max_ok l \<and> max_ok r"
    then show "max_ok (mk l a r)"
      using fields by (auto simp: le_max_iff_disj dest: max_ok_top)
  qed (use fields in simp)
qed

end
