(* ===== verification/Vma_Free.thy ===== *)
theory Vma_Free
  imports Vma_Shape
begin

text \<open>
  The free list of the area pool and the allocation of a node.
\<close>

section \<open>The free list\<close>

fun free_at :: "(int \<Rightarrow> VMANode) \<Rightarrow> int \<Rightarrow> int list \<Rightarrow> bool" where
  "free_at ns h [] = (h = - 1)"
| "free_at ns h (x # xs) = (h = x \<and> valid_idx x \<and> free_at ns (n_left (ns x)) xs)"

lemma free_at_cong: "\<forall>i\<in>set fs. ns' i = ns i \<Longrightarrow> free_at ns' h fs = free_at ns h fs"
  by (induction fs arbitrary: h) auto

text \<open>The whole manager: the tree, and the free list with every other slot.\<close>

definition vm_inv :: "VMAManager \<Rightarrow> area tree \<Rightarrow> bool" where
  "vm_inv m t \<longleftrightarrow> vm_rep m t \<and> vm_count m = size t \<and>
     (\<exists>fs. free_at (vm_nodes m) (free_head m) fs \<and> distinct fs \<and> set fs = Collect valid_idx - idx_set t)"

lemma valid_idx_set: "Collect valid_idx = {0..<int MAX_VMAS}"
  by (auto simp: valid_idx_def)

lemma card_idx_set: "dist t \<Longrightarrow> card (idx_set t) = size t"
proof (induction t)
  case (Node l a r)
  have "finite (idx_set t)" for t by (simp add: idx_set_entries)
  then show ?case using Node by (cases a) (auto simp: card_Un_disjoint)
qed simp

lemma idx_set_valid: "vm_rep m t \<Longrightarrow> idx_set t \<subseteq> Collect valid_idx"
  by (auto simp: vm_rep_def intro: tree_at_valid)

lemma vm_inv_size: "vm_inv m t \<Longrightarrow> size t \<le> MAX_VMAS"
proof -
  assume "vm_inv m t"
  then have r: "vm_rep m t" by (simp add: vm_inv_def)
  then have "card (idx_set t) = size t" using card_idx_set by (simp add: vm_rep_def)
  moreover have "card (idx_set t) \<le> card (Collect valid_idx)" by (intro card_mono idx_set_valid [OF r]) (simp add: valid_idx_set)
  ultimately show ?thesis by (simp add: valid_idx_set)
qed

lemma full_no_free:
  assumes "vm_inv m t"
  shows "size t = MAX_VMAS \<longleftrightarrow> Collect valid_idx - idx_set t = {}"
proof -
  have r: "vm_rep m t" using assms by (simp add: vm_inv_def)
  then have c: "card (idx_set t) = size t" using card_idx_set by (simp add: vm_rep_def)
  have f: "finite (Collect valid_idx)" "card (Collect valid_idx) = MAX_VMAS" by (simp_all add: valid_idx_set)
  have "Collect valid_idx - idx_set t = {} \<longleftrightarrow> idx_set t = Collect valid_idx" using idx_set_valid [OF r] by blast
  also have "\<dots> \<longleftrightarrow> card (idx_set t) = card (Collect valid_idx)" using card_subset_eq [OF f(1) idx_set_valid [OF r]] by metis
  finally show ?thesis using c f(2) by auto
qed

lemma tree_at_cong: "\<forall>i\<in>idx_set t. ns' i = ns i \<Longrightarrow> tree_at ns' p t = tree_at ns p t"
  by (induction ns p t rule: tree_at.induct) auto

lemma vm_rep_same:
  assumes "vm_rep m t" "vm_root m' = vm_root m" "\<forall>i\<in>idx_set t. vm_nodes m' i = vm_nodes m i"
  shows "vm_rep m' t"
  using assms tree_at_cong [OF assms(3)] by (simp add: vm_rep_def)

lemma alloc_node_full:
  assumes "vm_inv m t" "size t = MAX_VMAS"
  shows "alloc_node m = Some (None, m)"
proof -
  obtain fs where "free_at (vm_nodes m) (free_head m) fs" "set fs = Collect valid_idx - idx_set t" using assms(1) by (auto simp: vm_inv_def)
  moreover from this have "fs = []" using full_no_free [OF assms(1)] assms(2) by (metis set_empty)
  ultimately show ?thesis by (simp add: alloc_node_def)
qed

lemma alloc_node_some:
  assumes "vm_inv m t" "size t < MAX_VMAS"
  obtains i m' fs where "alloc_node m = Some (Some i, m')" "valid_idx i" "i \<notin> idx_set t" "vm_rep m' t"
    "vm_nodes m' i = cell VMA_empty Red 0 (- 1) (- 1) (- 1)" "vm_count m' = vm_count m" "vm_stats m' = vm_stats m"
    "free_at (vm_nodes m') (free_head m') fs" "distinct fs" "set fs = Collect valid_idx - insert i (idx_set t)"
proof -
  obtain fs where f: "free_at (vm_nodes m) (free_head m) fs" "distinct fs" "set fs = Collect valid_idx - idx_set t"
    using assms(1) by (auto simp: vm_inv_def)
  have "Collect valid_idx - idx_set t \<noteq> {}" unfolding full_no_free [OF assms(1), symmetric] using assms(2) by simp
  then have "fs \<noteq> []" unfolding f(3) [symmetric] by simp
  then obtain i gs where fs: "fs = i # gs" by (cases fs) auto
  have "i \<in> set fs" by (simp add: fs)
  then have "i \<notin> idx_set t" unfolding f(3) by blast
  then have i: "free_head m = i" "valid_idx i" "i \<notin> idx_set t" "i \<notin> set gs" using f(1,2) fs by simp_all
  let ?m = "m\<lparr> free_head := n_left (vm_nodes m i), vm_nodes := (vm_nodes m)(i := cell VMA_empty Red 0 (- 1) (- 1) (- 1)) \<rparr>"
  have 1: "alloc_node m = Some (Some i, ?m)" using i by (simp add: alloc_node_def node_at_def upd_node_valid cell_def)
  have 2: "vm_rep ?m t" by (rule vm_rep_same [of m]) (use assms(1) i(3) in \<open>auto simp: vm_inv_def\<close>)
  have 3: "free_at (vm_nodes ?m) (free_head ?m) gs"
    using f(1) fs i(1,4) free_at_cong [of gs "vm_nodes ?m" "vm_nodes m"] by simp
  have "set gs = set fs - {i}" using i(4) fs by simp
  then have 4: "set gs = Collect valid_idx - insert i (idx_set t)" unfolding f(3) by blast
  show ?thesis by (rule that [OF 1 i(2,3) 2 _ _ _ 3 _ 4]) (use f(2) fs in simp_all)
qed

end
