(* ===== verification/Vma_Insert.thy ===== *)
theory Vma_Insert
  imports Vma_Free
begin

text \<open>
  Insertion into the area tree.  The descent and the red-black repair of \<open>Vma_Tree\<close> are equal to two
  functions on paths and trees; the repair keeps the areas in their order.
\<close>

section \<open>The descent\<close>

fun descend :: "VMA \<Rightarrow> frame list \<Rightarrow> area tree \<Rightarrow> frame list" where
  "descend v cs Leaf = cs"
| "descend v cs (Node l (x, w, c, k) r) =
     (if vma_start v < vma_start w then descend v (LeftOf (x, w, c, max k (vma_end v)) r # cs) l
      else descend v (RightOf l (x, w, c, max k (vma_end v)) # cs) r)"

definition fresh_at :: "VMAManager \<Rightarrow> int \<Rightarrow> VMA \<Rightarrow> int set \<Rightarrow> bool" where
  "fresh_at m i v S \<longleftrightarrow> valid_idx i \<and> i \<notin> S \<and> vm_nodes m i = cell v Red (vma_end v) (- 1) (- 1) (- 1)"

lemma link_left:
  assumes "zip_at m cs (Node Leaf (x, w, c, k) r)" "fresh_at m i v (insert x (idx_set r \<union> ctx_set cs))"
  shows "\<exists>m'. do { m2 \<leftarrow> upd_node x (\<lambda>n. n\<lparr> n_left := i \<rparr>) m; upd_node i (\<lambda>n. n\<lparr> n_parent := x \<rparr>) m2 } = Some m' \<and>
    zip_at m' (LeftOf (x, w, c, k) r # cs) (Node Leaf (i, v, Red, vma_end v) Leaf) \<and> same_pool {x, i} m m'"
  using assms by (simp add: relink_simps fresh_at_def)

lemma link_right:
  assumes "zip_at m cs (Node l (x, w, c, k) Leaf)" "fresh_at m i v (insert x (idx_set l \<union> ctx_set cs))"
  shows "\<exists>m'. do { m2 \<leftarrow> upd_node x (\<lambda>n. n\<lparr> n_right := i \<rparr>) m; upd_node i (\<lambda>n. n\<lparr> n_parent := x \<rparr>) m2 } = Some m' \<and>
    zip_at m' (RightOf l (x, w, c, k) # cs) (Node Leaf (i, v, Red, vma_end v) Leaf) \<and> same_pool {x, i} m m'"
  using assms by (simp add: relink_simps fresh_at_def)

lemma raise_max:
  assumes "zip_at m cs (Node l (x, w, c, k) r)"
  obtains m1 where "(if k < e then upd_node x (\<lambda>n. n\<lparr> n_max_end := e \<rparr>) m else Some m) = Some m1"
    "zip_at m1 cs (Node l (x, w, c, max k e) r)" "same_pool {x} m m1"
proof (cases "k < e")
  case True
  obtain m1 where "upd_node x (\<lambda>n. n\<lparr> n_max_end := e \<rparr>) m = Some m1" "zip_at m1 cs (Node l (x, w, c, e) r)" "same_pool {x} m m1"
    using zip_upd [OF assms, of "\<lambda>n. n\<lparr> n_max_end := e \<rparr>" w c e] by auto
  then show ?thesis using that [of m1] True by (simp add: max_absorb2 less_imp_le)
next
  case False
  then show ?thesis using that [of m] assms by (simp add: max_absorb1)
qed

lemma fresh_same: "fresh_at m i v S \<Longrightarrow> same_pool T m m1 \<Longrightarrow> i \<notin> T \<Longrightarrow> fresh_at m1 i v S"
  by (simp add: fresh_at_def same_pool_def)

lemma insert_descend_zip:
  assumes "t \<noteq> Leaf" "zip_at m cs t" "fresh_at m i v (idx_set t \<union> ctx_set cs)"
  shows "\<exists>m'. insert_descend v i (root_idx t) m = Some m' \<and> zip_at m' (descend v cs t) (Node Leaf (i, v, Red, vma_end v) Leaf) \<and>
    same_pool (insert i (idx_set t \<union> ctx_set cs)) m m'"
  using assms
proof (induction t arbitrary: m cs)
  case (Node l a r)
  obtain x w c k where a: "a = (x, w, c, k)" by (cases a)
  note z = Node.prems(2) [unfolded a]
  let ?k = "max k (vma_end v)"
  note n = zip_node [OF z]
  obtain m1 where m1: "(if k < vma_end v then upd_node x (\<lambda>n. n\<lparr> n_max_end := vma_end v \<rparr>) m else Some m) = Some m1"
    "zip_at m1 cs (Node l (x, w, c, ?k) r)" "same_pool {x} m m1" by (rule raise_max [OF z])
  have f1: "fresh_at m1 i v (insert x (idx_set l \<union> idx_set r \<union> ctx_set cs))"
    using fresh_same [OF Node.prems(3) m1(3)] Node.prems(3) a by (auto simp: fresh_at_def)
  have neg: "root_idx l < 0 \<longleftrightarrow> l = Leaf" "root_idx r < 0 \<longleftrightarrow> r = Leaf"
    using z root_idx_neg(1) by (auto simp: zip_at_def)
  have step: "insert_descend v i x m = (if vma_start v < vma_start w then
        (if l = Leaf then do { m2 \<leftarrow> upd_node x (\<lambda>n. n\<lparr> n_left := i \<rparr>) m1; upd_node i (\<lambda>n. n\<lparr> n_parent := x \<rparr>) m2 }
         else insert_descend v i (root_idx l) m1)
      else if r = Leaf then do { m2 \<leftarrow> upd_node x (\<lambda>n. n\<lparr> n_right := i \<rparr>) m1; upd_node i (\<lambda>n. n\<lparr> n_parent := x \<rparr>) m2 }
         else insert_descend v i (root_idx r) m1)"
    by (subst insert_descend.simps) (simp add: n(3) m1(1) neg)
  let ?S = "insert i (idx_set (Node l a r) \<union> ctx_set cs)"
  show ?case
  proof (cases "vma_start v < vma_start w")
    case True
    have "\<exists>m'. insert_descend v i x m = Some m' \<and> zip_at m' (descend v (LeftOf (x, w, c, ?k) r # cs) l) (Node Leaf (i, v, Red, vma_end v) Leaf) \<and>
        same_pool ?S m1 m'"
    proof (cases "l = Leaf")
      case True
      then show ?thesis
        using link_left [of m1 cs x w c ?k r i v] m1(2) f1 step \<open>vma_start v < vma_start w\<close> a by (auto simp: same_pool_def)
    next
      case False
      have "zip_at m1 (LeftOf (x, w, c, ?k) r # cs) l" using m1(2) zip_down(1) by blast
      then show ?thesis
        using Node.IH(1) [OF False, of m1 "LeftOf (x, w, c, ?k) r # cs"] f1 step True False a by (auto simp: fresh_at_def same_pool_def)
    qed
    then show ?thesis using True a m1(3) by (auto simp: same_pool_def)
  next
    case False
    have "\<exists>m'. insert_descend v i x m = Some m' \<and> zip_at m' (descend v (RightOf l (x, w, c, ?k) # cs) r) (Node Leaf (i, v, Red, vma_end v) Leaf) \<and>
        same_pool ?S m1 m'"
    proof (cases "r = Leaf")
      case True
      then show ?thesis
        using link_right [of m1 cs l x w c ?k i v] m1(2) f1 step False a by (auto simp: same_pool_def)
    next
      case rn: False
      have "zip_at m1 (RightOf l (x, w, c, ?k) # cs) r" using m1(2) zip_down(2) by blast
      then show ?thesis
        using Node.IH(2) [OF rn, of m1 "RightOf l (x, w, c, ?k) # cs"] f1 step False rn a by (auto simp: fresh_at_def same_pool_def)
    qed
    then show ?thesis using False a m1(3) by (auto simp: same_pool_def)
  qed
qed simp

section \<open>The repair\<close>

fun acolor :: "area \<Rightarrow> RBColor" where
  "acolor (x, v, c, k) = c"

fun paint :: "RBColor \<Rightarrow> area \<Rightarrow> area" where
  "paint c' (x, v, c, k) = (x, v, c', k)"

fun tcolor :: "area tree \<Rightarrow> RBColor" where
  "tcolor Leaf = Black"
| "tcolor (Node l a r) = acolor a"

fun tpaint :: "RBColor \<Rightarrow> area tree \<Rightarrow> area tree" where
  "tpaint c Leaf = Leaf"
| "tpaint c (Node l a r) = Node l (paint c a) r"

fun frame_area :: "frame \<Rightarrow> area" where
  "frame_area (LeftOf a r) = a"
| "frame_area (RightOf l a) = a"

fun sibling :: "frame \<Rightarrow> area tree" where
  "sibling (LeftOf a r) = r"
| "sibling (RightOf l a) = l"

fun refill :: "frame \<Rightarrow> area \<Rightarrow> area tree \<Rightarrow> area tree \<Rightarrow> area tree" where
  "refill (LeftOf _ _) a u t = Node t a u"
| "refill (RightOf _ _) a u t = Node u a t"

text \<open>The rotations for a red node below a red parent with a black uncle.\<close>

fun rot :: "frame \<Rightarrow> frame \<Rightarrow> area tree \<Rightarrow> area tree" where
  "rot (LeftOf p s) (LeftOf g u) t = mk t (paint Black p) (mk s (paint Red g) u)"
| "rot (RightOf s p) (RightOf u g) t = mk (mk u (paint Red g) s) (paint Black p) t"
| "rot (RightOf s p) (LeftOf g u) (Node l x r) = mk (mk s p l) (paint Black x) (mk r (paint Red g) u)"
| "rot (LeftOf p s) (RightOf u g) (Node l x r) = mk (mk u (paint Red g) l) (paint Black x) (mk r p s)"
| "rot f g Leaf = Leaf"

fun fix_path :: "frame list \<Rightarrow> area tree \<Rightarrow> area tree" where
  "fix_path (f # g # cs) t =
     (if acolor (frame_area f) = Black then plug (f # g # cs) t
      else if tcolor (sibling g) = Red
      then fix_path cs (refill g (paint Red (frame_area g)) (tpaint Black (sibling g)) (tpaint Black (plug [f] t)))
      else plug cs (rot f g t))"
| "fix_path cs t = plug cs t"

lemma zip_color:
  assumes "zip_at m cs (Node l (x, v, c, k) r)"
  obtains m' where "set_color x c' m = Some m'" "zip_at m' cs (Node l (x, v, c', k) r)" "same_pool {x} m m'"
  using zip_upd [OF assms, of "\<lambda>n. n\<lparr> n_color := c' \<rparr>" v c' k] by auto

lemma child_neq:
  assumes "zip_at m (LeftOf (p, pv, pc, pk) s # cs) (Node l (x, v, c, k) r) \<or> zip_at m (RightOf s (p, pv, pc, pk) # cs) (Node l (x, v, c, k) r)"
  shows "root_idx s \<noteq> x"
  using assms root_idx_in [of s] by (cases "s = Leaf") (auto simp: zip_at_def)

lemma fixup_left_LL:
  assumes "zip_at m (LeftOf (p, pv, pc, pk) s # LeftOf (q, qv, qc, qk) u # cs) (Node l (x, v, c, k) r)"
  obtains m' where "fixup_left x p m = Some m'"
    "zip_at m' cs (mk (Node l (x, v, c, k) r) (p, pv, Black, pk) (mk s (q, qv, Red, qk) u))"
    "same_pool (idx_set s \<union> {p, q} \<union> ctx_set cs) m m'"
proof -
  let ?t = "Node l (x, v, c, k) r"
  have z: "zip_at m (LeftOf (q, qv, qc, qk) u # cs) (Node ?t (p, pv, pc, pk) s)" using assms zip_down(1) by blast
  obtain m1 where m1: "set_color p Black m = Some m1" "zip_at m1 cs (Node (Node ?t (p, pv, Black, pk) s) (q, qv, qc, qk) u)" "same_pool {p} m m1"
    using zip_color [OF z] zip_down(1) by metis
  obtain m2 where m2: "set_color q Red m1 = Some m2" "zip_at m2 cs (Node (Node ?t (p, pv, Black, pk) s) (q, qv, Red, qk) u)" "same_pool {q} m1 m2"
    using zip_color [OF m1(2)] by metis
  obtain m3 where m3: "rotate_right q m2 = Some m3" "zip_at m3 cs (mk ?t (p, pv, Black, pk) (mk s (q, qv, Red, qk) u))"
    "same_pool (idx_set s \<union> {p, q} \<union> ctx_set cs) m2 m3" by (rule rotate_right_zip [OF m2(2)])
  have "fixup_left x p m = Some m3"
    using zip_node(3) [OF assms] zip_node(3) [OF z] child_neq [OF disjI1 [OF assms]] m1(1) m2(1) m3(1) by (simp add: fixup_left_def)
  moreover have "same_pool (idx_set s \<union> {p, q} \<union> ctx_set cs) m m3" using m1(3) m2(3) m3(3) by (simp add: same_pool_def)
  ultimately show ?thesis using that m3(2) by blast
qed

lemma fixup_left_LR:
  assumes "zip_at m (RightOf s (p, pv, pc, pk) # LeftOf (q, qv, qc, qk) u # cs) (Node l (x, v, c, k) r)"
  obtains m' where "fixup_left x p m = Some m'"
    "zip_at m' cs (mk (mk s (p, pv, pc, pk) l) (x, v, Black, k) (mk r (q, qv, Red, qk) u))"
    "same_pool (idx_set l \<union> idx_set r \<union> idx_set u \<union> {p, q, x} \<union> ctx_set cs) m m'"
proof -
  have z: "zip_at m (LeftOf (q, qv, qc, qk) u # cs) (Node s (p, pv, pc, pk) (Node l (x, v, c, k) r))" using assms zip_down(2) by blast
  obtain k1 where k1: "mk (mk s (p, pv, pc, pk) l) (x, v, c, k) r = Node (mk s (p, pv, pc, pk) l) (x, v, c, k1) r" by simp
  obtain k2 where k2: "mk s (p, pv, pc, pk) l = Node s (p, pv, pc, k2) l" by simp
  obtain m1 where m1: "rotate_left p m = Some m1" "zip_at m1 (LeftOf (q, qv, qc, qk) u # cs) (Node (mk s (p, pv, pc, pk) l) (x, v, c, k1) r)"
    "same_pool (idx_set l \<union> {p, x} \<union> ctx_set (LeftOf (q, qv, qc, qk) u # cs)) m m1"
    using rotate_left_zip [OF z] k1 by metis
  have zp: "zip_at m1 (LeftOf (x, v, c, k1) r # LeftOf (q, qv, qc, qk) u # cs) (Node s (p, pv, pc, k2) l)"
    using m1(2) k2 zip_down(1) by metis
  obtain m2 where m2: "set_color x Black m1 = Some m2" "zip_at m2 cs (Node (Node (mk s (p, pv, pc, pk) l) (x, v, Black, k1) r) (q, qv, qc, qk) u)"
    "same_pool {x} m1 m2" using zip_color [OF m1(2)] zip_down(1) by metis
  obtain m3 where m3: "set_color q Red m2 = Some m3" "zip_at m3 cs (Node (Node (mk s (p, pv, pc, pk) l) (x, v, Black, k1) r) (q, qv, Red, qk) u)"
    "same_pool {q} m2 m3" using zip_color [OF m2(2)] by metis
  obtain m4 where m4: "rotate_right q m3 = Some m4" "zip_at m4 cs (mk (mk s (p, pv, pc, pk) l) (x, v, Black, k1) (mk r (q, qv, Red, qk) u))"
    "same_pool (idx_set r \<union> {x, q} \<union> ctx_set cs) m3 m4" by (rule rotate_right_zip [OF m3(2)])
  have "fixup_left x p m = Some m4"
    using zip_node(3) [OF z] zip_node(3) [OF zp] zip_node(3) [OF m1(2)] m1(1) m2(1) m3(1) m4(1) by (simp add: fixup_left_def)
  moreover have "same_pool (idx_set l \<union> idx_set r \<union> idx_set u \<union> {p, q, x} \<union> ctx_set cs) m m4"
    using m1(3) m2(3) m3(3) m4(3) by (simp add: same_pool_def)
  moreover have "zip_at m4 cs (mk (mk s (p, pv, pc, pk) l) (x, v, Black, k) (mk r (q, qv, Red, qk) u))" using m4(2) by simp
  ultimately show ?thesis using that by blast
qed

lemma fixup_right_RR:
  assumes "zip_at m (RightOf s (p, pv, pc, pk) # RightOf u (q, qv, qc, qk) # cs) (Node l (x, v, c, k) r)"
  obtains m' where "fixup_right x p m = Some m'"
    "zip_at m' cs (mk (mk u (q, qv, Red, qk) s) (p, pv, Black, pk) (Node l (x, v, c, k) r))"
    "same_pool (idx_set s \<union> {p, q} \<union> ctx_set cs) m m'"
proof -
  let ?t = "Node l (x, v, c, k) r"
  have z: "zip_at m (RightOf u (q, qv, qc, qk) # cs) (Node s (p, pv, pc, pk) ?t)" using assms zip_down(2) by blast
  obtain m1 where m1: "set_color p Black m = Some m1" "zip_at m1 cs (Node u (q, qv, qc, qk) (Node s (p, pv, Black, pk) ?t))" "same_pool {p} m m1"
    using zip_color [OF z] zip_down(2) by metis
  obtain m2 where m2: "set_color q Red m1 = Some m2" "zip_at m2 cs (Node u (q, qv, Red, qk) (Node s (p, pv, Black, pk) ?t))" "same_pool {q} m1 m2"
    using zip_color [OF m1(2)] by metis
  obtain m3 where m3: "rotate_left q m2 = Some m3" "zip_at m3 cs (mk (mk u (q, qv, Red, qk) s) (p, pv, Black, pk) ?t)"
    "same_pool (idx_set s \<union> {q, p} \<union> ctx_set cs) m2 m3" by (rule rotate_left_zip [OF m2(2)])
  have "fixup_right x p m = Some m3"
    using zip_node(3) [OF assms] zip_node(3) [OF z] child_neq [OF disjI2 [OF assms]] m1(1) m2(1) m3(1) by (simp add: fixup_right_def)
  moreover have "same_pool (idx_set s \<union> {p, q} \<union> ctx_set cs) m m3" using m1(3) m2(3) m3(3) by (simp add: same_pool_def)
  ultimately show ?thesis using that m3(2) by blast
qed

lemma fixup_right_RL:
  assumes "zip_at m (LeftOf (p, pv, pc, pk) s # RightOf u (q, qv, qc, qk) # cs) (Node l (x, v, c, k) r)"
  obtains m' where "fixup_right x p m = Some m'"
    "zip_at m' cs (mk (mk u (q, qv, Red, qk) l) (x, v, Black, k) (mk r (p, pv, pc, pk) s))"
    "same_pool (idx_set l \<union> idx_set r \<union> idx_set u \<union> {p, q, x} \<union> ctx_set cs) m m'"
proof -
  have z: "zip_at m (RightOf u (q, qv, qc, qk) # cs) (Node (Node l (x, v, c, k) r) (p, pv, pc, pk) s)" using assms zip_down(1) by blast
  obtain k1 where k1: "mk l (x, v, c, k) (mk r (p, pv, pc, pk) s) = Node l (x, v, c, k1) (mk r (p, pv, pc, pk) s)" by simp
  obtain k2 where k2: "mk r (p, pv, pc, pk) s = Node r (p, pv, pc, k2) s" by simp
  obtain m1 where m1: "rotate_right p m = Some m1" "zip_at m1 (RightOf u (q, qv, qc, qk) # cs) (Node l (x, v, c, k1) (mk r (p, pv, pc, pk) s))"
    "same_pool (idx_set r \<union> {x, p} \<union> ctx_set (RightOf u (q, qv, qc, qk) # cs)) m m1"
    using rotate_right_zip [OF z] k1 by metis
  have zp: "zip_at m1 (RightOf l (x, v, c, k1) # RightOf u (q, qv, qc, qk) # cs) (Node r (p, pv, pc, k2) s)"
    using m1(2) k2 zip_down(2) by metis
  obtain m2 where m2: "set_color x Black m1 = Some m2" "zip_at m2 cs (Node u (q, qv, qc, qk) (Node l (x, v, Black, k1) (mk r (p, pv, pc, pk) s)))"
    "same_pool {x} m1 m2" using zip_color [OF m1(2)] zip_down(2) by metis
  obtain m3 where m3: "set_color q Red m2 = Some m3" "zip_at m3 cs (Node u (q, qv, Red, qk) (Node l (x, v, Black, k1) (mk r (p, pv, pc, pk) s)))"
    "same_pool {q} m2 m3" using zip_color [OF m2(2)] by metis
  obtain m4 where m4: "rotate_left q m3 = Some m4" "zip_at m4 cs (mk (mk u (q, qv, Red, qk) l) (x, v, Black, k1) (mk r (p, pv, pc, pk) s))"
    "same_pool (idx_set l \<union> {q, x} \<union> ctx_set cs) m3 m4" by (rule rotate_left_zip [OF m3(2)])
  have "fixup_right x p m = Some m4"
    using zip_node(3) [OF z] zip_node(3) [OF zp] zip_node(3) [OF m1(2)] m1(1) m2(1) m3(1) m4(1) by (simp add: fixup_right_def)
  moreover have "same_pool (idx_set l \<union> idx_set r \<union> idx_set u \<union> {p, q, x} \<union> ctx_set cs) m m4"
    using m1(3) m2(3) m3(3) m4(3) by (simp add: same_pool_def)
  moreover have "zip_at m4 cs (mk (mk u (q, qv, Red, qk) l) (x, v, Black, k) (mk r (p, pv, pc, pk) s))" using m4(2) by simp
  ultimately show ?thesis using that by blast
qed

lemma root_of_in: "cs \<noteq> [] \<Longrightarrow> root_of cs i \<in> ctx_set cs"
proof (induction cs arbitrary: i)
  case (Cons f cs)
  then show ?case by (cases f; cases "cs = []") auto
qed simp

lemma not_root:
  assumes "zip_at m (f # cs) (Node l (x, v, c, k) r)"
  shows "x \<noteq> vm_root m"
  using root_of_in [of "f # cs" x] assms unfolding zip_at_def by auto

text \<open>The node of the innermost frame, with the hole filled.\<close>

lemma zip_up: "zip_at m (f # cs) t \<longleftrightarrow> zip_at m cs (refill f (frame_area f) (sibling f) t)"
  by (cases f) (simp_all add: zip_down [symmetric])

lemma paint_uncle:
  assumes "zip_at m (g # cs) t" "t \<noteq> Leaf" "tcolor (sibling g) = Red"
  obtains m' where "set_color (root_idx (sibling g)) Black m = Some m'" "0 \<le> root_idx (sibling g)"
    "zip_at m' cs (refill g (frame_area g) (tpaint Black (sibling g)) t)" "same_pool (idx_set (sibling g)) m m'"
proof -
  obtain ul w wv wc wk ur where u: "sibling g = Node ul (w, wv, wc, wk) ur" using assms(3) by (cases "sibling g" rule: root_idx.cases) auto
  have "\<exists>m'. set_color w Black m = Some m' \<and> zip_at m' cs (refill g (frame_area g) (Node ul (w, wv, Black, wk) ur) t) \<and> same_pool {w} m m'"
  proof (cases g)
    case (LeftOf a r)
    then have "zip_at m (RightOf t a # cs) (Node ul (w, wv, wc, wk) ur)"
      using assms(1) u zip_down(1) [of m cs t a r] zip_down(2) [of m cs t a r] by simp
    then show ?thesis
      using LeftOf zip_down(2) [of _ cs t a "Node ul (w, wv, Black, wk) ur"] zip_color [of m "RightOf t a # cs" ul w wv wc wk ur Black] by auto
  next
    case (RightOf l a)
    then have "zip_at m (LeftOf a t # cs) (Node ul (w, wv, wc, wk) ur)"
      using assms(1) u zip_down(1) [of m cs l a t] zip_down(2) [of m cs l a t] by simp
    then show ?thesis
      using RightOf zip_down(1) [of _ cs "Node ul (w, wv, Black, wk) ur" a t] zip_color [of m "LeftOf a t # cs" ul w wv wc wk ur Black] by auto
  qed
  moreover have "valid_idx w" using assms(1) u by (cases g) (auto simp: zip_at_def split: prod.splits)
  ultimately show ?thesis using that u by (auto simp: same_pool_def)
qed

fun is_left :: "frame \<Rightarrow> bool" where
  "is_left (LeftOf a r) = True"
| "is_left (RightOf l a) = False"

lemma fixup_step:
  assumes "zip_at m (f # g # cs) (Node l (x, v, c, k) r)" "fst (frame_area f) = p" "fst (frame_area g) = q"
  shows "insert_fixup_loop x m = (if acolor (frame_area f) = Black then Some m
    else if tcolor (sibling g) = Red then do {
      m1 \<leftarrow> set_color p Black m;
      m2 \<leftarrow> set_color (root_idx (sibling g)) Black m1;
      m3 \<leftarrow> set_color q Red m2;
      insert_fixup_loop q m3 }
    else if is_left g then fixup_left x p m else fixup_right x p m)"
proof -
  let ?t = "Node l (x, v, c, k) r"
  obtain pv pc pk where fp: "frame_area f = (p, pv, pc, pk)" using assms(2) by (cases "frame_area f") auto
  obtain qv qc qk where gq: "frame_area g = (q, qv, qc, qk)" using assms(3) by (cases "frame_area g") auto
  obtain pl pr where pt: "plug [f] ?t = Node pl (p, pv, pc, pk) pr" using fp by (cases f) auto
  have zp: "zip_at m (g # cs) (Node pl (p, pv, pc, pk) pr)" using assms(1) pt fp by (cases f) (auto simp: zip_up)
  obtain ql qr where qt: "refill g (q, qv, qc, qk) (sibling g) (Node pl (p, pv, pc, pk) pr) = Node ql (q, qv, qc, qk) qr"
    and qc: "root_idx ql = p \<longleftrightarrow> is_left g" "sibling g = (if is_left g then qr else ql)"
  proof (cases g)
    case (LeftOf a u)
    then show ?thesis using that gq by simp
  next
    case (RightOf u a)
    have "root_idx u \<noteq> p" using zp RightOf gq by (intro child_neq [of m q qv qc qk u cs]) auto
    then show ?thesis using that gq RightOf by simp
  qed
  have zq: "zip_at m cs (Node ql (q, qv, qc, qk) qr)" using zp gq qt by (simp add: zip_up)
  have uncle: "root_idx (sibling g) = (if root_idx ql = p then root_idx qr else root_idx ql)" using qc by auto
  have tu: "tree_at (vm_nodes m) q (sibling g)" using zp gq by (cases g) (auto simp: zip_at_def)
  then have uc: "0 \<le> root_idx (sibling g) \<Longrightarrow> node_at m (root_idx (sibling g)) = Some (vm_nodes m (root_idx (sibling g))) \<and>
      n_color (vm_nodes m (root_idx (sibling g))) = tcolor (sibling g)"
    and un: "\<not> 0 \<le> root_idx (sibling g) \<Longrightarrow> tcolor (sibling g) = Black"
    by (cases "sibling g" rule: root_idx.cases; auto simp: node_at_def)+
  have hp: "hole_parent (f # g # cs) = p" using fp by (cases f) simp_all
  have hq: "hole_parent (g # cs) = q" using gq by (cases g) simp_all
  note facts = not_root [OF assms(1)] zip_node(1,3) [OF assms(1)] zip_node(1,3) [OF zp] zip_node(1,3) [OF zq] hp hq fp uc un
  show ?thesis
  proof (cases "is_left g")
    case True
    then show ?thesis using facts qc by (cases "0 \<le> root_idx (sibling g)"; subst insert_fixup_loop.simps) (simp_all add: Let_def)
  next
    case False
    then show ?thesis using facts qc by (cases "0 \<le> root_idx (sibling g)"; subst insert_fixup_loop.simps) (simp_all add: Let_def)
  qed
qed

lemma fixup_recolor:
  assumes "zip_at m (f # g # cs) (Node l (x, v, c, k) r)" "acolor (frame_area f) = Red" "tcolor (sibling g) = Red"
  obtains m' where "insert_fixup_loop x m = insert_fixup_loop (fst (frame_area g)) m'"
    "zip_at m' cs (refill g (paint Red (frame_area g)) (tpaint Black (sibling g)) (tpaint Black (plug [f] (Node l (x, v, c, k) r))))"
    "same_pool (idx_set (Node l (x, v, c, k) r) \<union> ctx_set (f # g # cs)) m m'"
proof -
  let ?t = "Node l (x, v, c, k) r"
  obtain p pv pc pk where fp: "frame_area f = (p, pv, pc, pk)" by (cases "frame_area f")
  obtain q qv qc qk where gq: "frame_area g = (q, qv, qc, qk)" by (cases "frame_area g")
  obtain pl pr where pt: "plug [f] ?t = Node pl (p, pv, pc, pk) pr" using fp by (cases f) auto
  have zp: "zip_at m (g # cs) (Node pl (p, pv, pc, pk) pr)" using assms(1) pt fp by (cases f) (auto simp: zip_up)
  obtain m1 where m1: "set_color p Black m = Some m1" "zip_at m1 (g # cs) (Node pl (p, pv, Black, pk) pr)" "same_pool {p} m m1"
    using zip_color [OF zp] by metis
  obtain m2 where m2: "set_color (root_idx (sibling g)) Black m1 = Some m2"
    "zip_at m2 cs (refill g (q, qv, qc, qk) (tpaint Black (sibling g)) (Node pl (p, pv, Black, pk) pr))" "same_pool (idx_set (sibling g)) m1 m2"
    using paint_uncle [OF m1(2) _ assms(3)] gq by auto
  obtain m3 where m3: "set_color q Red m2 = Some m3"
    "zip_at m3 cs (refill g (q, qv, Red, qk) (tpaint Black (sibling g)) (Node pl (p, pv, Black, pk) pr))" "same_pool {q} m2 m3"
  proof (cases g)
    case (LeftOf a u)
    then show ?thesis using zip_color [of m2 cs "Node pl (p, pv, Black, pk) pr" q qv qc qk "tpaint Black u" Red] m2(2) that by auto
  next
    case (RightOf u a)
    then show ?thesis using zip_color [of m2 cs "tpaint Black u" q qv qc qk "Node pl (p, pv, Black, pk) pr" Red] m2(2) that by auto
  qed
  have "insert_fixup_loop x m = insert_fixup_loop q m3"
    using fixup_step [OF assms(1) refl refl] fp gq assms(2,3) m1(1) m2(1) m3(1) by simp
  moreover have "same_pool (idx_set ?t \<union> ctx_set (f # g # cs)) m m3"
    using m1(3) m2(3) m3(3) fp gq by (cases f; cases g) (auto simp: same_pool_def)
  ultimately show ?thesis using that m3(2) gq pt by simp
qed

lemma fixup_rotates:
  assumes "zip_at m (f # g # cs) (Node l (x, v, c, k) r)" "acolor (frame_area f) = Red" "tcolor (sibling g) \<noteq> Red"
  obtains m' where "insert_fixup_loop x m = Some m'" "zip_at m' cs (rot f g (Node l (x, v, c, k) r))"
    "same_pool (idx_set (Node l (x, v, c, k) r) \<union> ctx_set (f # g # cs)) m m'"
proof -
  let ?t = "Node l (x, v, c, k) r"
  obtain p pv pc pk where fp: "frame_area f = (p, pv, pc, pk)" by (cases "frame_area f")
  obtain q qv qc qk where gq: "frame_area g = (q, qv, qc, qk)" by (cases "frame_area g")
  have step: "insert_fixup_loop x m = (if is_left g then fixup_left x p m else fixup_right x p m)"
    using fixup_step [OF assms(1) refl refl] fp assms(2,3) by simp
  consider (LL) s u where "f = LeftOf (p, pv, pc, pk) s" "g = LeftOf (q, qv, qc, qk) u"
    | (LR) s u where "f = RightOf s (p, pv, pc, pk)" "g = LeftOf (q, qv, qc, qk) u"
    | (RR) s u where "f = RightOf s (p, pv, pc, pk)" "g = RightOf u (q, qv, qc, qk)"
    | (RL) s u where "f = LeftOf (p, pv, pc, pk) s" "g = RightOf u (q, qv, qc, qk)"
    using fp gq by (cases f; cases g) auto
  then show ?thesis
  proof cases
    case LL
    from assms(1) [unfolded LL] obtain m' where "fixup_left x p m = Some m'"
      "zip_at m' cs (mk ?t (p, pv, Black, pk) (mk s (q, qv, Red, qk) u))" "same_pool (idx_set s \<union> {p, q} \<union> ctx_set cs) m m'"
      by (rule fixup_left_LL)
    then show ?thesis using that [of m'] step LL by (auto simp: same_pool_def)
  next
    case LR
    from assms(1) [unfolded LR] obtain m' where "fixup_left x p m = Some m'"
      "zip_at m' cs (mk (mk s (p, pv, pc, pk) l) (x, v, Black, k) (mk r (q, qv, Red, qk) u))"
      "same_pool (idx_set l \<union> idx_set r \<union> idx_set u \<union> {p, q, x} \<union> ctx_set cs) m m'" by (rule fixup_left_LR)
    then show ?thesis using that [of m'] step LR by (auto simp: same_pool_def)
  next
    case RR
    from assms(1) [unfolded RR] obtain m' where "fixup_right x p m = Some m'"
      "zip_at m' cs (mk (mk u (q, qv, Red, qk) s) (p, pv, Black, pk) ?t)" "same_pool (idx_set s \<union> {p, q} \<union> ctx_set cs) m m'"
      by (rule fixup_right_RR)
    then show ?thesis using that [of m'] step RR by (auto simp: same_pool_def)
  next
    case RL
    from assms(1) [unfolded RL] obtain m' where "fixup_right x p m = Some m'"
      "zip_at m' cs (mk (mk u (q, qv, Red, qk) l) (x, v, Black, k) (mk r (p, pv, pc, pk) s))"
      "same_pool (idx_set l \<union> idx_set r \<union> idx_set u \<union> {p, q, x} \<union> ctx_set cs) m m'" by (rule fixup_right_RL)
    then show ?thesis using that [of m'] step RL by (auto simp: same_pool_def)
  qed
qed

lemma insert_fixup_loop_zip:
  assumes "zip_at m cs (Node l (x, v, c, k) r)"
  shows "\<exists>m'. insert_fixup_loop x m = Some m' \<and> vm_rep m' (fix_path cs (Node l (x, v, c, k) r)) \<and>
    same_pool (idx_set (Node l (x, v, c, k) r) \<union> ctx_set cs) m m'"
  using assms
proof (induction "length cs" arbitrary: m cs l x v c k r rule: less_induct)
  case less
  let ?t = "Node l (x, v, c, k) r"
  consider "cs = []" | f where "cs = [f]" | f g cs' where "cs = f # g # cs'" by (metis list.exhaust)
  then show ?case
  proof cases
    case 1
    then show ?thesis using less.prems by (subst insert_fixup_loop.simps) (simp add: zip_at_root vm_rep_def)
  next
    case (2 f)
    obtain p pv pc pk where fp: "frame_area f = (p, pv, pc, pk)" by (cases "frame_area f")
    obtain pl pr where pt: "plug [f] ?t = Node pl (p, pv, pc, pk) pr" using fp by (cases f) auto
    have zp: "zip_at m [] (Node pl (p, pv, pc, pk) pr)" using less.prems 2 pt fp by (cases f) (auto simp: zip_up)
    have "hole_parent [f] = p" using fp by (cases f) simp_all
    then have "insert_fixup_loop x m = Some m"
      using less.prems not_root [of m f "[]" l x v c k r] zip_node(1,3) [of m "[f]" l x v c k r] zip_node(1,3) [OF zp] 2
      by (subst insert_fixup_loop.simps) (simp add: Let_def)
    moreover have "vm_rep m (fix_path cs ?t)" using less.prems 2 by (simp add: vm_rep_plug)
    ultimately show ?thesis by simp
  next
    case (3 f g cs')
    note z = less.prems [unfolded 3]
    show ?thesis
    proof (cases "acolor (frame_area f) = Black")
      case True
      then have "insert_fixup_loop x m = Some m" using fixup_step [OF z refl refl] by simp
      moreover have "vm_rep m (fix_path cs ?t)" using z 3 True by (simp add: vm_rep_plug)
      ultimately show ?thesis by simp
    next
      case False
      then have red: "acolor (frame_area f) = Red" by (cases "acolor (frame_area f)") auto
      show ?thesis
      proof (cases "tcolor (sibling g) = Red")
        case True
        let ?t' = "refill g (paint Red (frame_area g)) (tpaint Black (sibling g)) (tpaint Black (plug [f] ?t))"
        obtain m1 where m1: "insert_fixup_loop x m = insert_fixup_loop (fst (frame_area g)) m1" "zip_at m1 cs' ?t'"
          "same_pool (idx_set ?t \<union> ctx_set (f # g # cs')) m m1" by (rule fixup_recolor [OF z red True])
        obtain l' a' r' where t': "?t' = Node l' a' r'" by (cases g) auto
        obtain x' v' c' k' where a': "a' = (x', v', c', k')" by (cases a')
        have x': "x' = fst (frame_area g)" using t' a' by (cases g; cases "frame_area g") auto
        obtain m2 where "insert_fixup_loop x' m1 = Some m2" "vm_rep m2 (fix_path cs' ?t')"
          "same_pool (idx_set ?t' \<union> ctx_set cs') m1 m2"
          using less.hyps [of cs' m1 l' x' v' c' k' r'] m1(2) 3 t' a' by auto
        moreover have "idx_set ?t' \<union> ctx_set cs' \<subseteq> idx_set ?t \<union> ctx_set (f # g # cs')"
          by (cases f; cases g; cases "sibling g" rule: root_idx.cases) (auto split: prod.splits)
        ultimately show ?thesis using m1 x' 3 True red by (auto simp: same_pool_def)
      next
        case unc: False
        obtain m1 where "insert_fixup_loop x m = Some m1" "zip_at m1 cs' (rot f g ?t)"
          "same_pool (idx_set ?t \<union> ctx_set (f # g # cs')) m m1" by (rule fixup_rotates [OF z red unc])
        then show ?thesis using 3 red unc by (simp add: vm_rep_plug)
      qed
    qed
  qed
qed

section \<open>What insertion keeps\<close>

lemma key_paint [simp]: "key (paint c a) = key a" "fst (paint c a) = fst a" "acolor (paint c a) = c"
  by (cases a; simp)+

lemma entries_tpaint [simp]: "entries (tpaint c t) = entries t"
  by (cases t) simp_all

lemma entries_refill: "set (entries (refill g a u t)) = insert (key a) (set (entries u) \<union> set (entries t))"
  by (cases g) auto

lemma entries_rot: "entries (rot f g (Node l a r)) = entries (plug [f, g] (Node l a r))"
  by (cases f; cases g) simp_all

lemma entries_fix: "t \<noteq> Leaf \<Longrightarrow> entries (fix_path cs t) = entries (plug cs t)"
proof (induction cs t rule: fix_path.induct)
  case (1 f g cs t)
  obtain l a r where t: "t = Node l a r" using 1(2) by (cases t) auto
  let ?t' = "refill g (paint Red (frame_area g)) (tpaint Black (sibling g)) (tpaint Black (plug [f] t))"
  have "entries ?t' = entries (plug [f, g] t)" using t by (cases f; cases g) simp_all
  moreover have "?t' \<noteq> Leaf" by (cases g) simp_all
  ultimately have "acolor (frame_area f) \<noteq> Black \<Longrightarrow> tcolor (sibling g) = Red \<Longrightarrow> entries (fix_path cs ?t') = entries (plug (f # g # cs) t)"
    using 1(1) by (cases f; cases g) (simp_all add: entries_plug)
  moreover have "entries (plug cs (rot f g t)) = entries (plug (f # g # cs) t)"
    unfolding entries_plug t entries_rot by (cases f; cases g) (simp_all add: entries_plug)
  ultimately show ?case by simp
qed simp_all

lemma max_ok_paint [simp]: "max_ok (Node l (paint c a) r) \<longleftrightarrow> max_ok (Node l a r)"
  by (cases a) simp

lemma max_ok_tpaint [simp]: "max_ok (tpaint c t) \<longleftrightarrow> max_ok t"
  by (cases t) simp_all

lemma max_ok_refill: "max_ok (refill g (paint c a) (tpaint c' u) (tpaint c'' t)) \<longleftrightarrow> max_ok (refill g a u t)"
  by (cases g; cases a) simp_all

lemma max_ok_parts:
  "max_ok (plug [f, g] (Node l a r)) \<Longrightarrow> max_ok l \<and> max_ok r \<and> max_ok (sibling f) \<and> max_ok (sibling g)"
  by (cases f; cases g; cases a; cases "frame_area f"; cases "frame_area g") simp_all

lemma max_ok_rot: "max_ok (plug [f, g] (Node l a r)) \<Longrightarrow> max_ok (Node l a r) \<Longrightarrow> max_ok (rot f g (Node l a r))"
  using max_ok_parts [of f g l a r] by (cases f; cases g) simp_all

lemma plug_append: "plug (cs @ ds) t = plug ds (plug cs t)"
proof (induction cs arbitrary: t)
  case (Cons f cs)
  then show ?case by (cases f) simp_all
qed simp

lemma max_ok_same: "max_ok (plug cs t) \<Longrightarrow> max_ok t' \<Longrightarrow> set (entries t') = set (entries t) \<Longrightarrow> max_ok (plug cs t')"
  by (simp add: max_ok_plug)

lemma max_ok_fix: "t \<noteq> Leaf \<Longrightarrow> max_ok (plug cs t) \<Longrightarrow> max_ok (fix_path cs t)"
proof (induction cs t rule: fix_path.induct)
  case (1 f g cs t)
  obtain l a r where t: "t = Node l a r" using 1(2) by (cases t) auto
  have p: "max_ok (plug cs (plug [f, g] t))" using 1(3) plug_append [of "[f, g]" cs t] by simp
  then have ok: "max_ok (plug [f, g] t)" "max_ok t" using max_ok_plug by blast+
  let ?t' = "refill g (paint Red (frame_area g)) (tpaint Black (sibling g)) (tpaint Black (plug [f] t))"
  have "plug [f, g] t = refill g (frame_area g) (sibling g) (plug [f] t)" by (cases f; cases g) simp_all
  then have t': "max_ok ?t'" "set (entries ?t') = set (entries (plug [f, g] t))"
    using ok(1) max_ok_refill by (simp, simp add: entries_refill)
  have "?t' \<noteq> Leaf" by (cases g) simp_all
  then have "acolor (frame_area f) \<noteq> Black \<Longrightarrow> tcolor (sibling g) = Red \<Longrightarrow> max_ok (fix_path cs ?t')"
    using 1(1) max_ok_same [OF p t'] by simp
  moreover have "max_ok (plug cs (rot f g t))"
    using max_ok_same [OF p] max_ok_rot [of f g l a r] ok entries_rot [of f g l a r] t by simp
  ultimately show ?case using 1(3) by simp
qed simp_all

section \<open>The position of the new area\<close>

abbreviation start_of :: "int \<times> VMA \<Rightarrow> u64" where
  "start_of e \<equiv> vma_start (snd e)"

fun ins_entry :: "int \<times> VMA \<Rightarrow> (int \<times> VMA) list \<Rightarrow> (int \<times> VMA) list" where
  "ins_entry e [] = [e]"
| "ins_entry e (a # es) = (if start_of e < start_of a then e # a # es else a # ins_entry e es)"

lemma set_ins_entry [simp]: "set (ins_entry e es) = insert e (set es)"
  by (induction es) auto

lemma length_ins_entry [simp]: "length (ins_entry e es) = Suc (length es)"
  by (induction es) auto

lemma ins_entry_append_less: "start_of e < start_of a \<Longrightarrow> ins_entry e (xs @ a # ys) = ins_entry e xs @ a # ys"
  by (induction xs) auto

lemma ins_entry_append_ge:
  "\<not> start_of e < start_of a \<Longrightarrow> \<forall>x\<in>set xs. start_of x \<le> start_of a \<Longrightarrow> ins_entry e (xs @ a # ys) = xs @ a # ins_entry e ys"
  by (induction xs) auto

lemma entries_descend:
  assumes "sorted_wrt (\<lambda>a b. start_of a \<le> start_of b) (entries t)"
  shows "entries (plug (descend v cs t) (Node Leaf (i, v, c, k) Leaf)) = before_hole cs @ ins_entry (i, v) (entries t) @ after_hole cs"
  using assms
proof (induction t arbitrary: cs)
  case Leaf
  then show ?case by (simp add: entries_plug)
next
  case (Node l a r)
  obtain x w d j where a: "a = (x, w, d, j)" by (cases a)
  have s: "sorted_wrt (\<lambda>a b. start_of a \<le> start_of b) (entries l)" "sorted_wrt (\<lambda>a b. start_of a \<le> start_of b) (entries r)"
    "\<forall>e\<in>set (entries l). start_of e \<le> vma_start w" using Node.prems a by (auto simp: sorted_wrt_append)
  show ?case
  proof (cases "vma_start v < vma_start w")
    case True
    then show ?thesis using Node.IH(1) [OF s(1)] a ins_entry_append_less [of "(i, v)" "(x, w)"] by simp
  next
    case False
    then show ?thesis using Node.IH(2) [OF s(2)] a s(3) ins_entry_append_ge [of "(i, v)" "(x, w)" "entries l" "entries r"] by simp
  qed
qed

lemma set_entries_descend:
  "set (entries (plug (descend v cs t) (Node Leaf (i, v, c, k) Leaf))) = insert (i, v) (set (entries (plug cs t)))"
proof (induction t arbitrary: cs)
  case (Node l a r)
  then show ?case by (cases a) (auto simp: entries_plug)
qed (auto simp: entries_plug)

lemma size_descend: "size (plug (descend v cs t) (Node Leaf a Leaf)) = Suc (size (plug cs t))"
proof -
  have len: "size (plug cs t) = length (before_hole cs) + size t + length (after_hole cs)" for cs t
    using length_entries [of "plug cs t"] by (simp add: entries_plug)
  have "length (before_hole (descend v cs t)) + length (after_hole (descend v cs t)) = length (before_hole cs) + size t + length (after_hole cs)"
  proof (induction t arbitrary: cs)
    case (Node l a r)
    then show ?case by (cases a) simp
  qed simp
  then show ?thesis by (simp add: len)
qed

lemma max_ok_descend:
  assumes "max_ok t" "ctx_max_ok cs (insert (i, v) (set (entries t)))"
  shows "max_ok (plug (descend v cs t) (Node Leaf (i, v, c, vma_end v) Leaf))"
  using assms
proof (induction t arbitrary: cs)
  case Leaf
  then show ?case by (simp add: max_ok_plug)
next
  case (Node l a r)
  obtain x w d j where a: "a = (x, w, d, j)" by (cases a)
  have k: "\<forall>e\<in>insert (i, v) (insert (x, w) (set (entries l) \<union> set (entries r))). vma_end (snd e) \<le> max j (vma_end v)"
    using Node.prems(1) a by (auto simp: le_max_iff_disj)
  show ?case
  proof (cases "vma_start v < vma_start w")
    case True
    have "insert (i, v) (set (entries (Node l a r))) = insert (x, w) (insert (i, v) (set (entries l)) \<union> set (entries r))" using a by auto
    then have "ctx_max_ok (LeftOf (x, w, d, max j (vma_end v)) r # cs) (insert (i, v) (set (entries l)))"
      using Node.prems k a by auto
    then show ?thesis using Node.IH(1) Node.prems(1) True a by simp
  next
    case False
    have "insert (i, v) (set (entries (Node l a r))) = insert (x, w) (insert (i, v) (set (entries r)) \<union> set (entries l))" using a by auto
    then have "ctx_max_ok (RightOf l (x, w, d, max j (vma_end v)) # cs) (insert (i, v) (set (entries r)))"
      using Node.prems k a by auto
    then show ?thesis using Node.IH(2) Node.prems(1) False a by simp
  qed
qed

section \<open>The operation\<close>

definition insert_tree :: "VMA \<Rightarrow> int \<Rightarrow> area tree \<Rightarrow> area tree" where
  "insert_tree v i t =
     (if t = Leaf then Node Leaf (i, v, Black, vma_end v) Leaf
      else tpaint Black (fix_path (descend v [] t) (Node Leaf (i, v, Red, vma_end v) Leaf)))"

lemma insert_tree_entries:
  "sorted_wrt (\<lambda>a b. start_of a \<le> start_of b) (entries t) \<Longrightarrow> entries (insert_tree v i t) = ins_entry (i, v) (entries t)"
  by (simp add: insert_tree_def entries_fix entries_descend)

lemma insert_tree_set: "set (entries (insert_tree v i t)) = insert (i, v) (set (entries t))"
  by (simp add: insert_tree_def entries_fix set_entries_descend)

lemma insert_tree_size: "size (insert_tree v i t) = Suc (size t)"
proof (cases "t = Leaf")
  case False
  have "size (insert_tree v i t) = length (entries (insert_tree v i t))" by simp
  also have "\<dots> = length (entries (plug (descend v [] t) (Node Leaf (i, v, Red, vma_end v) Leaf)))"
    using False by (simp add: insert_tree_def entries_fix)
  finally show ?thesis using size_descend [of v "[]" t "(i, v, Red, vma_end v)"] by simp
qed (simp add: insert_tree_def)

lemma insert_tree_max_ok: "max_ok t \<Longrightarrow> max_ok (insert_tree v i t)"
  using max_ok_descend [of t "[]" i v Red] by (simp add: insert_tree_def max_ok_fix)

lemma insert_fixup_rep:
  assumes "zip_at m cs (Node l (x, v, c, k) r)"
  obtains m' where "insert_fixup x m = Some m'" "vm_rep m' (tpaint Black (fix_path cs (Node l (x, v, c, k) r)))"
    "same_pool (idx_set (Node l (x, v, c, k) r) \<union> ctx_set cs) m m'"
proof -
  let ?t = "fix_path cs (Node l (x, v, c, k) r)" and ?S = "idx_set (Node l (x, v, c, k) r) \<union> ctx_set cs"
  obtain m1 where m1: "insert_fixup_loop x m = Some m1" "vm_rep m1 ?t" "same_pool ?S m m1"
    using insert_fixup_loop_zip [OF assms] by blast
  have S: "idx_set ?t = ?S" using idx_set_plug [of cs "Node l (x, v, c, k) r"] by (simp add: idx_set_entries entries_fix)
  then obtain l' y w d j r' where t: "?t = Node l' (y, w, d, j) r'" by (cases ?t rule: root_idx.cases) auto
  obtain m2 where m2: "set_color y Black m1 = Some m2" "zip_at m2 [] (Node l' (y, w, Black, j) r')" "same_pool {y} m1 m2"
    using zip_color [of m1 "[]" l' y w d j r' Black] m1(2) t by (auto simp: zip_at_root)
  have "y \<in> ?S" unfolding S [symmetric] t by simp
  then have "same_pool ?S m m2" using m1(3) m2(3) by (auto simp: same_pool_def)
  moreover have "insert_fixup x m = Some m2" using m1(1,2) m2(1) t by (auto simp: insert_fixup_def vm_rep_def valid_idx_def)
  ultimately show ?thesis using that [of m2] m2(2) t by (simp add: zip_at_root)
qed

lemma vma_insert_rep:
  assumes "vm_inv m t" "vma_is_valid v" "size t < MAX_VMAS"
  obtains i m' where "vma_insert v m = Some (Some i, m')" "valid_idx i" "i \<notin> idx_set t" "vm_inv m' (insert_tree v i t)"
    "mapped_bytes (vm_stats m') = mapped_bytes (vm_stats m) + vma_size v"
proof -
  obtain i m1 fs where a: "alloc_node m = Some (Some i, m1)" "valid_idx i" "i \<notin> idx_set t" "vm_rep m1 t"
    "vm_nodes m1 i = cell VMA_empty Red 0 (- 1) (- 1) (- 1)" "vm_count m1 = vm_count m" "vm_stats m1 = vm_stats m"
    "free_at (vm_nodes m1) (free_head m1) fs" "distinct fs" "set fs = Collect valid_idx - insert i (idx_set t)"
    by (rule alloc_node_some [OF assms(1,3)])
  let ?m3 = "m1\<lparr> vm_nodes := (vm_nodes m1)(i := cell v Red (vma_end v) (- 1) (- 1) (- 1)) \<rparr>"
  have m3: "do { m2 \<leftarrow> upd_node i (\<lambda>n. n\<lparr> n_vma := v \<rparr>) m1; upd_node i (\<lambda>n. n\<lparr> n_max_end := vma_end v \<rparr>) m2 } = Some ?m3"
    using a(2,5) by (simp add: upd_node_valid)
  have rep: "vm_rep ?m3 t" by (rule vm_rep_same [OF a(4)]) (use a(3) in auto)
  have fresh: "fresh_at ?m3 i v (idx_set t)" using a(2,3) by (simp add: fresh_at_def)
  have "\<exists>m4. attach_node v i ?m3 = Some m4 \<and>
    vm_rep m4 (insert_tree v i t) \<and> same_pool (insert i (idx_set t)) m1 m4"
  proof (cases "t = Leaf")
    case True
    then have "vm_root m1 < 0" using a(4) by (simp add: vm_rep_def)
    then show ?thesis using True a(2) by (simp add: attach_node_def insert_tree_def upd_node_valid vm_rep_def same_pool_def)
  next
    case False
    have root: "vm_root ?m3 = root_idx t" "\<not> vm_root ?m3 < 0"
      using rep False root_idx_neg(1) [of "vm_nodes ?m3" "- 1" t] by (auto simp: vm_rep_def)
    obtain m5 where m5: "insert_descend v i (root_idx t) ?m3 = Some m5"
      "zip_at m5 (descend v [] t) (Node Leaf (i, v, Red, vma_end v) Leaf)" "same_pool (insert i (idx_set t)) ?m3 m5"
      using insert_descend_zip [OF False, of ?m3 "[]" i v] rep fresh by (auto simp: zip_at_root)
    obtain m6 where m6: "insert_fixup i m5 = Some m6" "vm_rep m6 (tpaint Black (fix_path (descend v [] t) (Node Leaf (i, v, Red, vma_end v) Leaf)))"
      "same_pool (idx_set (Node Leaf (i, v, Red, vma_end v) Leaf) \<union> ctx_set (descend v [] t)) m5 m6" by (rule insert_fixup_rep [OF m5(2)])
    have "idx_set (Node Leaf (i, v, Red, vma_end v) Leaf) \<union> ctx_set (descend v [] t) = insert i (idx_set t)"
      using set_entries_descend [of v "[]" t i Red "vma_end v"] idx_set_plug [of "descend v [] t" "Node Leaf (i, v, Red, vma_end v) Leaf"]
      by (simp add: idx_set_entries)
    then show ?thesis using root m5 m6 False by (auto simp: attach_node_def insert_tree_def same_pool_def)
  qed
  then obtain m4 where m4: "attach_node v i ?m3 = Some m4"
    "vm_rep m4 (insert_tree v i t)" "same_pool (insert i (idx_set t)) m1 m4" by blast
  let ?m = "count_insert v m4"
  have 1: "vma_insert v m = Some (Some i, ?m)"
    using assms(2) a(1,2,5) m4(1) by (simp add: vma_insert_def upd_node_valid)
  have "vm_inv ?m (insert_tree v i t)" unfolding vm_inv_def
  proof (intro conjI exI [of _ fs])
    show "vm_rep ?m (insert_tree v i t)" using m4(2) by (simp add: vm_rep_def count_insert_def Let_def)
    show "vm_count ?m = size (insert_tree v i t)"
      using m4(3) a(6) assms(1) by (simp add: same_pool_def vm_inv_def insert_tree_size count_insert_def Let_def)
    have "\<forall>j\<in>set fs. vm_nodes m4 j = vm_nodes m1 j" using m4(3) a(10) by (auto simp: same_pool_def)
    then show "free_at (vm_nodes ?m) (free_head ?m) fs"
      using a(8) m4(3) free_at_cong [of fs "vm_nodes m4" "vm_nodes m1"] by (simp add: same_pool_def count_insert_def Let_def)
    show "set fs = Collect valid_idx - idx_set (insert_tree v i t)"
      unfolding a(10) idx_set_entries insert_tree_set by simp
  qed (use a(9) in simp)
  then show ?thesis using that [OF 1 a(2,3)] m4(3) a(7) by (simp add: same_pool_def count_insert_def Let_def)
qed

end
