(* ===== verification/Vma_Remove.thy ===== *)
theory Vma_Remove
  imports Vma_Insert
begin

text \<open>
  Removal from the area tree: the search for the start address, the unlinking of a node with at most
  one child, the copy of the successor's area otherwise, and the update of the greatest end addresses
  up to the root.  Colours are not repaired, so only the order and the bounds are kept.
\<close>

section \<open>Updating a path to the root\<close>

fun plug_max :: "frame list \<Rightarrow> area tree \<Rightarrow> area tree" where
  "plug_max [] t = t"
| "plug_max (LeftOf a r # cs) t = plug_max cs (mk t a r)"
| "plug_max (RightOf l a # cs) t = plug_max cs (mk l a t)"

lemma entries_plug_max: "entries (plug_max cs t) = before_hole cs @ entries t @ after_hole cs"
proof (induction cs arbitrary: t)
  case (Cons f cs)
  then show ?case by (cases f) simp_all
qed simp

lemma size_plug_max: "size (plug_max cs t) = size (plug cs t)"
proof -
  have "length (entries (plug_max cs t)) = length (entries (plug cs t))" unfolding entries_plug_max entries_plug ..
  then show ?thesis by (simp only: length_entries)
qed

lemma max_ok_siblings: "max_ok (plug cs t) \<Longrightarrow> max_ok t \<and> (\<forall>f\<in>set cs. max_ok (sibling f))"
proof (induction cs arbitrary: t)
  case (Cons f cs)
  then show ?case
  proof (cases f)
    case (LeftOf a r)
    then show ?thesis using Cons.IH [of "Node t a r"] Cons.prems by (cases a) simp
  next
    case (RightOf l a)
    then show ?thesis using Cons.IH [of "Node l a t"] Cons.prems by (cases a) simp
  qed
qed simp

lemma max_ok_plug_max: "max_ok t \<Longrightarrow> \<forall>f\<in>set cs. max_ok (sibling f) \<Longrightarrow> max_ok (plug_max cs t)"
proof (induction cs arbitrary: t)
  case (Cons f cs)
  then show ?case by (cases f) simp_all
qed simp

lemma update_up_zip:
  assumes "zip_at m cs t"
  shows "\<exists>m'. update_up (hole_parent cs) m = Some m' \<and> vm_rep m' (plug_max cs t) \<and> same_pool (ctx_set cs) m m' \<and>
    (\<forall>i. n_vma (vm_nodes m' i) = n_vma (vm_nodes m i))"
  using assms
proof (induction cs arbitrary: m t)
  case Nil
  then show ?case by (subst update_up.simps) (simp add: zip_at_root)
next
  case (Cons f cs)
  obtain x v c k where a: "frame_area f = (x, v, c, k)" by (cases "frame_area f")
  obtain l r where t: "refill f (frame_area f) (sibling f) t = Node l (x, v, c, k) r" using a by (cases f) simp_all
  have z: "zip_at m cs (Node l (x, v, c, k) r)" using Cons.prems t by (simp add: zip_up)
  obtain m1 where m1: "update_max_end x m = Some m1" "zip_at m1 cs (mk l (x, v, c, k) r)" "same_pool {x} m m1"
    by (rule zip_update_max_end [OF z])
  have p: "plug_max (f # cs) t = plug_max cs (mk l (x, v, c, k) r)" using t a by (cases f) auto
  have x: "hole_parent (f # cs) = x" "x \<in> ctx_set (f # cs)" "ctx_set cs \<subseteq> ctx_set (f # cs)" using a by (cases f; auto)+
  have n: "node_at m1 x = Some (vm_nodes m1 x)" "n_parent (vm_nodes m1 x) = hole_parent cs" "n_vma (vm_nodes m1 x) = v" "\<not> x < 0"
    using zip_node [of m1 cs l x v c _ r] m1(2) by simp_all
  obtain m2 where m2: "update_up (hole_parent cs) m1 = Some m2" "vm_rep m2 (plug_max cs (mk l (x, v, c, k) r))" "same_pool (ctx_set cs) m1 m2"
    "\<forall>i. n_vma (vm_nodes m2 i) = n_vma (vm_nodes m1 i)" using Cons.IH [OF m1(2)] by blast
  have "update_up x m = Some m2" using n m1(1) m2(1) by (subst update_up.simps) simp
  moreover have "same_pool (ctx_set (f # cs)) m m2" using same_pool_mono [OF m1(3)] same_pool_mono [OF m2(3) x(3)] x(2) same_pool_trans by blast
  moreover have "n_vma (vm_nodes m1 i) = n_vma (vm_nodes m i)" for i
    using m1(3) n(3) zip_node(2) [OF z] by (cases "i = x") (auto simp: same_pool_def)
  ultimately show ?case using x(1) p m2(2,4) by auto
qed

section \<open>Unlinking a node\<close>

lemma unlink_zip:
  assumes "zip_at m cs (Node l (x, v, c, k) r)" "l = Leaf \<or> r = Leaf" "ch = (if l = Leaf then r else l)"
  shows "\<exists>m'. unlink_node x (vm_nodes m x) m = Some m' \<and> zip_at m' cs ch \<and> same_pool (idx_set ch \<union> ctx_set cs) m m' \<and>
    (\<forall>i. n_vma (vm_nodes m' i) = n_vma (vm_nodes m i))"
proof -
  have tr: "tree_at (vm_nodes m) x l" "tree_at (vm_nodes m) x r" using assms(1) by (simp_all add: zip_at_def)
  have ch: "(if 0 \<le> root_idx l then root_idx l else root_idx r) = root_idx ch"
    using root_idx_neg(2) [OF tr(1)] root_idx_neg(2) [OF tr(2)] assms(2,3) by auto
  have tc: "tree_at (vm_nodes m) x ch" "dist ch" "idx_set ch \<inter> ctx_set cs = {}" "x \<notin> idx_set ch" "x \<notin> ctx_set cs"
    using assms by (auto simp: zip_at_def)
  have z: "vm_nodes m x = cell v c k (root_idx l) (root_idx r) (hole_parent cs)" "vm_root m = root_of cs x" "ctx_at (vm_nodes m) cs x" "cdist cs"
    using assms(1) by (auto simp: zip_at_def)
  have u: "unlink_node x (vm_nodes m x) m = do {
      m1 \<leftarrow> (if 0 \<le> root_idx ch then upd_node (root_idx ch) (\<lambda>n. n\<lparr> n_parent := hole_parent cs \<rparr>) m else Some m);
      if hole_parent cs < 0 then Some (m1\<lparr> vm_root := root_idx ch \<rparr>)
      else do {
        p \<leftarrow> node_at m1 (hole_parent cs);
        if n_left p = x then upd_node (hole_parent cs) (\<lambda>n. n\<lparr> n_left := root_idx ch \<rparr>) m1
        else upd_node (hole_parent cs) (\<lambda>n. n\<lparr> n_right := root_idx ch \<rparr>) m1 } }"
    unfolding unlink_node_def z(1) Let_def cell_simps ch ..
  note defs = node_at_def upd_node_valid zip_at_def same_pool_def Int_Un_distrib Int_Un_distrib2 Int_commute
  show ?thesis
  proof (cases cs rule: hole_parent.cases)
    case 1
    then show ?thesis unfolding u using z tc by (cases ch rule: root_idx.cases) (simp_all add: defs)
  next
    case (2 a q c)
    obtain p pv pc pk where "a = (p, pv, pc, pk)" by (cases a)
    then show ?thesis unfolding u using z tc 2 by (cases ch rule: root_idx.cases) (simp_all add: defs)
  next
    case (3 q a c)
    obtain p pv pc pk where a: "a = (p, pv, pc, pk)" by (cases a)
    have "root_idx q \<noteq> x" using assms(1) 3 a root_idx_in [of q] by (cases "q = Leaf") (auto simp: zip_at_def)
    then show ?thesis unfolding u using z tc 3 a by (cases ch rule: root_idx.cases) (simp_all add: defs)
  qed
qed

section \<open>Removing a node\<close>

text \<open>The path to the least node of a subtree.\<close>

fun go_min :: "frame list \<Rightarrow> area tree \<Rightarrow> frame list \<times> area tree" where
  "go_min cs (Node (Node ll b lr) a r) = go_min (LeftOf a r # cs) (Node ll b lr)"
| "go_min cs Leaf = (cs, Leaf)"
| "go_min cs (Node Leaf a r) = (cs, Node Leaf a r)"

lemma go_min_plug: "plug (fst (go_min cs t)) (snd (go_min cs t)) = plug cs t"
  by (induction cs t rule: go_min.induct) simp_all

lemma go_min_shape: "t \<noteq> Leaf \<Longrightarrow> \<exists>x v c k r. snd (go_min cs t) = Node Leaf (x, v, c, k) r \<and> (x, v) \<in> set (entries t)"
  by (induction cs t rule: go_min.induct) auto

lemma leftmost_zip:
  assumes "t \<noteq> Leaf" "zip_at m cs t"
  shows "leftmost m (root_idx t) = Some (root_idx (snd (go_min cs t)))"
  using assms
proof (induction cs t rule: go_min.induct)
  case (1 cs ll b lr a r)
  obtain x v c k where a: "a = (x, v, c, k)" by (cases a)
  have "zip_at m (LeftOf a r # cs) (Node ll b lr)" using 1(3) zip_down(1) by blast
  moreover have "0 \<le> root_idx (Node ll b lr)" using 1(3) a by (cases b) (auto simp: zip_at_def)
  ultimately show ?case using 1(1) zip_node(3) [OF 1(3) [unfolded a]] a by (subst leftmost.simps) simp
next
  case (2 cs)
  then show ?case by simp
next
  case (3 cs a r)
  obtain x v c k where a: "a = (x, v, c, k)" by (cases a)
  then show ?case using zip_node(3) [OF 3(2) [unfolded a]] by (subst leftmost.simps) simp
qed

lemma remove_node_one:
  assumes "vm_inv m (plug cs (Node l (x, v, c, k) r))" "l = Leaf \<or> r = Leaf" "ch = (if l = Leaf then r else l)"
  obtains m' where "remove_node x m = Some m'" "vm_inv m' (plug_max cs ch)" "vm_stats m' = vm_stats m"
    "\<forall>i. n_vma (vm_nodes m' i) = n_vma (vm_nodes m i)"
proof -
  let ?t = "plug cs (Node l (x, v, c, k) r)"
  have z: "zip_at m cs (Node l (x, v, c, k) r)" using assms(1) by (simp add: vm_inv_def vm_rep_plug)
  obtain fs where f: "free_at (vm_nodes m) (free_head m) fs" "distinct fs" "set fs = Collect valid_idx - idx_set ?t"
    and cnt: "vm_count m = size ?t" using assms(1) by (auto simp: vm_inv_def)
  obtain m1 where m1: "unlink_node x (vm_nodes m x) m = Some m1" "zip_at m1 cs ch" "same_pool (idx_set ch \<union> ctx_set cs) m m1"
    "\<forall>i. n_vma (vm_nodes m1 i) = n_vma (vm_nodes m i)" using unlink_zip [OF z assms(2,3)] by blast
  obtain m2 where m2: "update_up (hole_parent cs) m1 = Some m2" "vm_rep m2 (plug_max cs ch)" "same_pool (ctx_set cs) m1 m2"
    "\<forall>i. n_vma (vm_nodes m2 i) = n_vma (vm_nodes m1 i)" using update_up_zip [OF m1(2)] by blast
  have pool: "same_pool (idx_set ch \<union> ctx_set cs) m m2" using m1(3) m2(3) by (simp add: same_pool_def)
  have S: "idx_set (plug_max cs ch) = idx_set ch \<union> ctx_set cs"
    using idx_set_plug [of cs ch] by (simp add: idx_set_entries entries_plug_max entries_plug)
  have St: "idx_set ?t = insert x (idx_set ch \<union> ctx_set cs)" and x: "x \<notin> idx_set ch \<union> ctx_set cs" "valid_idx x"
    using assms(2,3) z by (auto simp: zip_at_def)
  let ?m3 = "m2\<lparr> vm_nodes := (vm_nodes m2)(x := (vm_nodes m2 x)\<lparr> n_in_use := False, n_left := free_head m2 \<rparr>), free_head := x,
      vm_count := vm_count m2 - 1 \<rparr>"
  have nx: "node_at m x = Some (vm_nodes m x)" "\<not> (0 \<le> n_left (vm_nodes m x) \<and> 0 \<le> n_right (vm_nodes m x))"
    "n_parent (vm_nodes m x) = hole_parent cs" using zip_node(2,3) [OF z] assms(2) by auto
  have "free_node x m2 = Some (m2\<lparr> vm_nodes := (vm_nodes m2)(x := (vm_nodes m2 x)\<lparr> n_in_use := False, n_left := free_head m2 \<rparr>), free_head := x \<rparr>)"
    using x(2) by (simp add: free_node_def valid_idx_def upd_node_def)
  then have 1: "remove_node x m = Some ?m3" using nx m1(1) m2(1) by (subst remove_node.simps) auto
  have "vm_inv ?m3 (plug_max cs ch)" unfolding vm_inv_def
  proof (intro conjI exI [of _ "x # fs"])
    show "vm_rep ?m3 (plug_max cs ch)" by (rule vm_rep_same [OF m2(2)]) (use S x(1) in auto)
    have "size ?t = Suc (size (plug cs ch))"
      using length_entries [of ?t] length_entries [of "plug cs ch"] assms(2,3) by (auto simp: entries_plug)
    then show "vm_count ?m3 = size (plug_max cs ch)" using cnt pool by (simp add: same_pool_def size_plug_max)
    have "x \<notin> set fs" and n: "\<forall>i\<in>set fs. vm_nodes ?m3 i = vm_nodes m i" using f(3) St pool by (auto simp: same_pool_def)
    moreover have "free_at (vm_nodes ?m3) (free_head m) fs"
      using free_at_cong [of fs "vm_nodes ?m3" "vm_nodes m" "free_head m", OF n] f(1) by blast
    ultimately show "free_at (vm_nodes ?m3) (free_head ?m3) (x # fs)" "distinct (x # fs)"
      using f(2) pool x(2) by (simp_all add: same_pool_def)
    have "insert x (Collect valid_idx - insert x (idx_set ch \<union> ctx_set cs)) = Collect valid_idx - (idx_set ch \<union> ctx_set cs)" using x by blast
    then show "set (x # fs) = Collect valid_idx - idx_set (plug_max cs ch)" using f(3) St S by simp
  qed
  moreover have "\<forall>i. n_vma (vm_nodes ?m3 i) = n_vma (vm_nodes m i)" using m1(4) m2(4) by simp
  moreover have "vm_stats ?m3 = vm_stats m" using pool by (simp add: same_pool_def)
  ultimately show ?thesis using that [OF 1] by blast
qed

text \<open>
  The areas after the removal of the one at \<open>x\<close>: the others keep their order, and at most the area
  behind the removed one moves to the index \<open>x\<close>.
\<close>

definition removed_at :: "int \<Rightarrow> (int \<times> VMA) list \<Rightarrow> (int \<times> VMA) list \<Rightarrow> bool" where
  "removed_at x es es' \<longleftrightarrow> (\<exists>as v bs. es = as @ (x, v) # bs \<and>
     (es' = as @ bs \<or> (\<exists>y w bs'. bs = (y, w) # bs' \<and> es' = as @ (x, w) # bs')))"

lemma go_min_snd: "snd (go_min cs t) = snd (go_min cs' t)"
proof (induction cs t arbitrary: cs' rule: go_min.induct)
  case (1 cs ll b lr a r)
  show ?case using 1 [of "LeftOf a r # cs'"] by simp
qed simp_all

lemma go_min_entries: "t \<noteq> Leaf \<Longrightarrow> before_hole (fst (go_min cs t)) = before_hole cs"
  by (induction cs t rule: go_min.induct) simp_all

lemma go_min_frames:
  "t \<noteq> Leaf \<Longrightarrow> max_ok t \<Longrightarrow> \<forall>f\<in>set cs. max_ok (sibling f) \<Longrightarrow>
   max_ok (snd (go_min cs t)) \<and> (\<forall>f\<in>set (fst (go_min cs t)). max_ok (sibling f))"
proof (induction cs t rule: go_min.induct)
  case (1 cs ll b lr a r)
  then show ?case by (cases a) auto
qed auto

lemma vm_inv_store:
  assumes "vm_inv m (plug cs (Node l (x, v, c, k) r))"
  shows "vm_inv (m\<lparr> vm_nodes := (vm_nodes m)(x := (vm_nodes m x)\<lparr> n_vma := w \<rparr>) \<rparr>) (plug cs (Node l (x, w, c, k) r))"
proof -
  let ?t = "plug cs (Node l (x, v, c, k) r)" and ?t' = "plug cs (Node l (x, w, c, k) r)"
  let ?m = "m\<lparr> vm_nodes := (vm_nodes m)(x := (vm_nodes m x)\<lparr> n_vma := w \<rparr>) \<rparr>"
  have z: "zip_at m cs (Node l (x, v, c, k) r)" using assms by (simp add: vm_inv_def vm_rep_plug)
  obtain fs where f: "free_at (vm_nodes m) (free_head m) fs" "distinct fs" "set fs = Collect valid_idx - idx_set ?t"
    and cnt: "vm_count m = size ?t" using assms by (auto simp: vm_inv_def)
  have "zip_at ?m cs (Node l (x, w, c, k) r)" using z zip_node(2) [OF z] by (simp add: zip_at_def)
  moreover have "idx_set ?t' = idx_set ?t" by simp
  moreover have "size ?t' = size ?t" using length_entries [of ?t'] length_entries [of ?t] by (simp add: entries_plug)
  moreover have "\<forall>i\<in>set fs. vm_nodes ?m i = vm_nodes m i" using f(3) by simp
  then have "free_at (vm_nodes ?m) (free_head ?m) fs" using f(1) free_at_cong [of fs "vm_nodes ?m" "vm_nodes m"] by simp
  ultimately show ?thesis unfolding vm_inv_def vm_rep_plug using f(2,3) cnt by (intro conjI exI [of _ fs]) simp_all
qed

lemma remove_node_two:
  assumes "vm_inv m (plug cs (Node l (x, v, c, k) r))" "l \<noteq> Leaf" "r \<noteq> Leaf"
  obtains m' t' where "remove_node x m = Some m'" "vm_inv m' t'" "max_ok (plug cs (Node l (x, v, c, k) r)) \<longrightarrow> max_ok t'"
    "removed_at x (entries (plug cs (Node l (x, v, c, k) r))) (entries t')" "vm_stats m' = vm_stats m"
    "\<forall>i. i \<noteq> x \<longrightarrow> n_vma (vm_nodes m' i) = n_vma (vm_nodes m i)"
proof -
  have z: "zip_at m cs (Node l (x, v, c, k) r)" using assms(1) by (simp add: vm_inv_def vm_rep_plug)
  have tr: "tree_at (vm_nodes m) x l" "tree_at (vm_nodes m) x r" using z by (simp_all add: zip_at_def)
  let ?d = "RightOf l (x, v, c, k) # cs"
  have zr: "zip_at m ?d r" using z zip_down(2) by blast
  obtain y w d q yr where y: "snd (go_min ?d r) = Node Leaf (y, w, d, q) yr" using go_min_shape [OF assms(3)] by blast
  have zy: "zip_at m (fst (go_min ?d r)) (Node Leaf (y, w, d, q) yr)"
    using zr y go_min_plug [of ?d r] by (simp flip: vm_rep_plug)
  let ?m1 = "m\<lparr> vm_nodes := (vm_nodes m)(x := (vm_nodes m x)\<lparr> n_vma := w \<rparr>) \<rparr>" and ?e = "RightOf l (x, w, c, k) # cs"
  have inv: "vm_inv ?m1 (plug ?e r)" using vm_inv_store [OF assms(1), of w] by simp
  have sn: "snd (go_min ?e r) = snd (go_min ?d r)" by (rule go_min_snd)
  have "vm_inv ?m1 (plug (fst (go_min ?e r)) (Node Leaf (y, w, d, q) yr))"
    using inv go_min_plug [of ?e r] sn y by simp
  then obtain m' where m': "remove_node y ?m1 = Some m'" "vm_inv m' (plug_max (fst (go_min ?e r)) yr)" "vm_stats m' = vm_stats ?m1"
    "\<forall>i. n_vma (vm_nodes m' i) = n_vma (vm_nodes ?m1 i)" using remove_node_one [of ?m1 _ Leaf y w d q yr yr] by auto
  have 1: "remove_node x m = Some m'"
    using leftmost_zip [OF assms(3) zr] y zip_node(3) [OF zy] zip_node(1,3) [OF z] m'(1) root_idx_neg(2) [OF tr(1)] root_idx_neg(2) [OF tr(2)] assms(2,3)
    by (subst remove_node.simps) (simp add: upd_node_valid)
  have 2: "max_ok (plug_max (fst (go_min ?e r)) yr)" if "max_ok (plug cs (Node l (x, v, c, k) r))"
  proof -
    have "max_ok l" "max_ok r" "\<forall>f\<in>set cs. max_ok (sibling f)" using max_ok_siblings [OF that] by simp_all
    then have "max_ok (snd (go_min ?e r)) \<and> (\<forall>f\<in>set (fst (go_min ?e r)). max_ok (sibling f))"
      by (intro go_min_frames assms(3)) auto
    then show ?thesis using y sn by (intro max_ok_plug_max) simp_all
  qed
  have "entries (plug (fst (go_min ?e r)) (snd (go_min ?e r))) = entries (plug ?e r)" using go_min_plug [of ?e r] by simp
  then have e: "(y, w) # entries yr @ after_hole (fst (go_min ?e r)) = entries r @ after_hole cs"
    using y sn go_min_entries [OF assms(3), of ?e] by (simp add: entries_plug)
  have 3: "removed_at x (entries (plug cs (Node l (x, v, c, k) r))) (entries (plug_max (fst (go_min ?e r)) yr))"
    unfolding removed_at_def
    by (rule exI [of _ "before_hole cs @ entries l"], rule exI [of _ v], rule exI [of _ "entries r @ after_hole cs"], rule conjI [OF _ disjI2],
        simp add: entries_plug, rule exI [of _ y], rule exI [of _ w])
      (use e [symmetric] go_min_entries [OF assms(3), of ?e] in \<open>simp add: entries_plug_max\<close>)
  show ?thesis by (rule that [OF 1 m'(2) _ 3]) (use 2 m'(3,4) in auto)
qed

lemma remove_node_rep:
  assumes "vm_inv m (plug cs (Node l (x, v, c, k) r))"
  obtains m' t' where "remove_node x m = Some m'" "vm_inv m' t'" "max_ok (plug cs (Node l (x, v, c, k) r)) \<longrightarrow> max_ok t'"
    "removed_at x (entries (plug cs (Node l (x, v, c, k) r))) (entries t')" "vm_stats m' = vm_stats m"
    "\<forall>i. i \<noteq> x \<longrightarrow> n_vma (vm_nodes m' i) = n_vma (vm_nodes m i)"
proof (cases "l = Leaf \<or> r = Leaf")
  case True
  let ?ch = "if l = Leaf then r else l"
  obtain m' where m': "remove_node x m = Some m'" "vm_inv m' (plug_max cs ?ch)" "vm_stats m' = vm_stats m"
    "\<forall>i. n_vma (vm_nodes m' i) = n_vma (vm_nodes m i)" using remove_node_one [OF assms True refl] by blast
  have "removed_at x (entries (plug cs (Node l (x, v, c, k) r))) (entries (plug_max cs ?ch))" unfolding removed_at_def
    by (rule exI [of _ "before_hole cs @ entries l"], rule exI [of _ v], rule exI [of _ "entries r @ after_hole cs"])
      (use True in \<open>auto simp: entries_plug entries_plug_max\<close>)
  moreover have "max_ok (plug_max cs ?ch)" if "max_ok (plug cs (Node l (x, v, c, k) r))"
    using max_ok_siblings [OF that] by (intro max_ok_plug_max) simp_all
  ultimately show ?thesis by (intro that [OF m'(1,2)]) (use m'(3,4) in auto)
next
  case False
  then show ?thesis using remove_node_two [OF assms] that by blast
qed

section \<open>Removal by start address\<close>

text \<open>The path to the node that the search for a start address stops at.\<close>

fun seek :: "u64 \<Rightarrow> frame list \<Rightarrow> area tree \<Rightarrow> frame list \<times> area tree" where
  "seek s cs Leaf = (cs, Leaf)"
| "seek s cs (Node l a r) =
     (if s < start_of (key a) then seek s (LeftOf a r # cs) l
      else if start_of (key a) < s then seek s (RightOf l a # cs) r
      else (cs, Node l a r))"

lemma seek_plug: "plug (fst (seek s cs t)) (snd (seek s cs t)) = plug cs t"
  by (induction s cs t rule: seek.induct) simp_all

lemma seek_start: "snd (seek s cs t) = Node l a r \<Longrightarrow> start_of (key a) = s"
  by (induction s cs t rule: seek.induct) (auto split: if_splits)

lemma strict_start_inj:
  assumes "sorted_wrt (\<lambda>a b. start_of a < start_of b) es" "e \<in> set es" "e' \<in> set es" "start_of e = start_of e'"
  shows "e = e'"
  using assms by (induction es) auto

lemma seek_found:
  assumes "sorted_wrt (\<lambda>a b. start_of a < start_of b) (entries t)" "s \<in> start_of ` set (entries t)"
  shows "snd (seek s cs t) \<noteq> Leaf"
  using assms
proof (induction s cs t rule: seek.induct)
  case (2 s cs l a r)
  have ord: "\<forall>e\<in>set (entries l). start_of e < start_of (key a)" "\<forall>e\<in>set (entries r). start_of (key a) < start_of e"
    "sorted_wrt (\<lambda>a b. start_of a < start_of b) (entries l)" "sorted_wrt (\<lambda>a b. start_of a < start_of b) (entries r)"
    using 2(3) by (simp_all add: sorted_wrt_append)
  consider "s < start_of (key a)" | "start_of (key a) < s" | "s = start_of (key a)" by force
  then show ?case
  proof cases
    case 1
    then have "s \<in> start_of ` set (entries l)" using 2(4) ord(2) by (auto dest: less_asym)
    then show ?thesis using 1 2(1) ord(3) by simp
  next
    case t: 2
    then have "s \<in> start_of ` set (entries r)" using 2(4) ord(1) by (auto dest: less_asym)
    then show ?thesis using t 2(2) ord(4) by auto
  next
    case 3
    then show ?thesis by simp
  qed
qed simp

lemma start_loop_zip:
  assumes "zip_at m cs t"
  shows "start_loop m s (root_idx t) = Some (root_idx (snd (seek s cs t)))"
  using assms
proof (induction s cs t rule: seek.induct)
  case (1 s cs)
  show ?case by (subst start_loop.simps) simp
next
  case (2 s cs l a r)
  obtain x v c k where a: "a = (x, v, c, k)" by (cases a)
  have "zip_at m (LeftOf a r # cs) l" "zip_at m (RightOf l a # cs) r" using 2(3) zip_down by blast+
  then show ?case using 2(1,2) zip_node(1,3) [OF 2(3) [unfolded a]] a by (subst start_loop.simps) simp
qed

lemma vma_remove_absent:
  assumes "vm_inv m t" "s \<notin> start_of ` set (entries t)"
  shows "vma_remove s m = Some (None, m)"
proof -
  have z: "zip_at m [] t" "vm_root m = root_idx t" using assms(1) by (simp_all add: vm_inv_def vm_rep_def zip_at_root)
  have "snd (seek s [] t) = Leaf"
  proof (rule ccontr)
    assume "snd (seek s [] t) \<noteq> Leaf"
    then obtain l a r where n: "snd (seek s [] t) = Node l a r" by (cases "snd (seek s [] t)") auto
    have "key a \<in> set (entries t)" using seek_plug [of s "[]" t] n entries_plug [of "fst (seek s [] t)" "Node l a r"] by simp
    then show False using seek_start [OF n] assms(2) by auto
  qed
  then show ?thesis using start_loop_zip [OF z(1), of s] z(2) by (simp add: vma_remove_def)
qed

lemma vma_remove_rep:
  assumes "vm_inv m t" "sorted_wrt (\<lambda>a b. start_of a < start_of b) (entries t)" "(x, v) \<in> set (entries t)"
  obtains m' t' where "vma_remove (vma_start v) m = Some (Some v, m')" "vm_inv m' t'" "max_ok t \<longrightarrow> max_ok t'"
    "removed_at x (entries t) (entries t')" "\<forall>i. i \<noteq> x \<longrightarrow> n_vma (vm_nodes m' i) = n_vma (vm_nodes m i)"
proof -
  have z: "zip_at m [] t" "vm_root m = root_idx t" using assms(1) by (simp_all add: vm_inv_def vm_rep_def zip_at_root)
  have "snd (seek (vma_start v) [] t) \<noteq> Leaf" by (rule seek_found [OF assms(2)]) (use assms(3) in force)
  then obtain l a r where n: "snd (seek (vma_start v) [] t) = Node l a r" by (cases "snd (seek (vma_start v) [] t)") auto
  let ?cs = "fst (seek (vma_start v) [] t)"
  have t: "t = plug ?cs (Node l a r)" using seek_plug [of "vma_start v" "[]" t] n by simp
  have "key a \<in> set (entries t)" using t entries_plug [of ?cs "Node l a r"] by simp
  then have "key a = (x, v)" by (rule strict_start_inj [OF assms(2) _ assms(3)]) (simp add: seek_start [OF n])
  then obtain c k where a: "a = (x, v, c, k)" by (cases a) auto
  have inv: "vm_inv m (plug ?cs (Node l (x, v, c, k) r))" using assms(1) t a by simp
  obtain m' t' where m': "remove_node x m = Some m'" "vm_inv m' t'" "max_ok (plug ?cs (Node l (x, v, c, k) r)) \<longrightarrow> max_ok t'"
    "removed_at x (entries (plug ?cs (Node l (x, v, c, k) r))) (entries t')" "vm_stats m' = vm_stats m"
    "\<forall>i. i \<noteq> x \<longrightarrow> n_vma (vm_nodes m' i) = n_vma (vm_nodes m i)" by (rule remove_node_rep [OF inv])
  have zx: "zip_at m ?cs (Node l (x, v, c, k) r)" using inv by (simp add: vm_inv_def vm_rep_plug)
  let ?m = "m'\<lparr> vm_stats := (vm_stats m')\<lparr> mapped_bytes := saturating_sub (mapped_bytes (vm_stats m')) (vma_size v) \<rparr> \<rparr>"
  have "vma_remove (vma_start v) m = Some (Some v, ?m)"
    using start_loop_zip [OF z(1), of "vma_start v"] z(2) n a zip_node(1,3) [OF zx] m'(1) by (simp add: vma_remove_def)
  moreover have "vm_inv ?m t'" using m'(2) by (simp add: vm_inv_def vm_rep_def)
  ultimately show ?thesis using that m'(3,4,6) t a by simp
qed

end
