(* ===== verification/Vma_Search.thy ===== *)
theory Vma_Search
  imports Vma_Remove
begin

text \<open>
  The searches over the area tree, on the list of areas it holds.  When the areas are disjoint and in
  order, \<open>find\<close> returns the one area that contains an address, \<open>find_overlapping\<close> the areas that meet a
  range, \<open>find_previous\<close> and \<open>find_next\<close> the neighbours, the iterator every area in order when the tree
  is at most 32 high, and \<open>find_free_region\<close> the lowest gap that is large enough.
\<close>

section \<open>Disjoint areas in order\<close>

definition ordered :: "(int \<times> VMA) list \<Rightarrow> bool" where
  "ordered es \<longleftrightarrow> sorted_wrt (\<lambda>a b. vma_end (snd a) \<le> vma_start (snd b)) es \<and> (\<forall>e\<in>set es. vma_is_valid (snd e))"

lemma ordered_Nil [simp]: "ordered []"
  by (simp add: ordered_def)

lemma ordered_append [simp]:
  "ordered (xs @ ys) \<longleftrightarrow> ordered xs \<and> ordered ys \<and> (\<forall>x\<in>set xs. \<forall>y\<in>set ys. vma_end (snd x) \<le> vma_start (snd y))"
  by (auto simp: ordered_def sorted_wrt_append)

lemma ordered_Cons [simp]:
  "ordered (x # ys) \<longleftrightarrow> vma_is_valid (snd x) \<and> ordered ys \<and> (\<forall>y\<in>set ys. vma_end (snd x) \<le> vma_start (snd y))"
  by (auto simp: ordered_def)

lemma ordered_valid: "ordered es \<Longrightarrow> e \<in> set es \<Longrightarrow> vma_is_valid (snd e)"
  by (simp add: ordered_def)

lemma ordered_starts: "ordered es \<Longrightarrow> sorted_wrt (\<lambda>a b. start_of a < start_of b) es"
  by (induction es) (auto simp: vma_is_valid_def)

lemma ordered_starts_le: "ordered es \<Longrightarrow> sorted_wrt (\<lambda>a b. start_of a \<le> start_of b) es"
  by (drule ordered_starts, rule sorted_wrt_mono_rel [rotated], assumption) simp

lemma tree_at_node:
  assumes "tree_at (vm_nodes m) p (Node l (x, v, c, k) r)"
  shows "node_at m x = Some (cell v c k (root_idx l) (root_idx r) p)" "vma_node m x = Some (cell v c k (root_idx l) (root_idx r) p)"
    "\<not> x < 0" "0 \<le> x" "tree_at (vm_nodes m) x l" "tree_at (vm_nodes m) x r"
  using assms by (auto simp: node_at_def vma_node_def cell_def)

section \<open>The area that contains an address\<close>

fun tfind :: "u64 \<Rightarrow> area tree \<Rightarrow> (int \<times> VMA) option" where
  "tfind addr Leaf = None"
| "tfind addr (Node l a r) =
     (if addr < start_of (key a) then tfind addr l
      else if vma_end (snd (key a)) \<le> addr then tfind addr r else Some (key a))"

lemma find_loop_tree: "tree_at (vm_nodes m) p t \<Longrightarrow> find_loop m addr (root_idx t) = Some (map_option fst (tfind addr t))"
proof (induction t arbitrary: p)
  case Leaf
  show ?case by (subst find_loop.simps) simp
next
  case (Node l a r)
  obtain x v c k where a: "a = (x, v, c, k)" by (cases a)
  show ?case using Node.IH tree_at_node [OF Node.prems [unfolded a]] a by (subst find_loop.simps) simp
qed

lemma find_mut_loop_tree: "tree_at (vm_nodes m) p t \<Longrightarrow> find_mut_loop m addr (root_idx t) = Some (map_option fst (tfind addr t))"
proof (induction t arbitrary: p)
  case Leaf
  show ?case by (subst find_mut_loop.simps) simp
next
  case (Node l a r)
  obtain x v c k where a: "a = (x, v, c, k)" by (cases a)
  show ?case using Node.IH tree_at_node [OF Node.prems [unfolded a]] a by (subst find_mut_loop.simps) simp
qed

lemma tfind_in: "tfind addr t = Some e \<Longrightarrow> e \<in> set (entries t) \<and> vma_contains (snd e) addr"
  by (induction addr t rule: tfind.induct) (auto split: if_splits simp: vma_contains_def)

lemma tree_at_vma: "tree_at ns p t \<Longrightarrow> (x, v) \<in> set (entries t) \<Longrightarrow> valid_idx x \<and> n_vma (ns x) = v"
  by (induction ns p t rule: tree_at.induct) auto

lemma tfind_ordered: "ordered (entries t) \<Longrightarrow> tfind addr t = List.find (\<lambda>e. vma_contains (snd e) addr) (entries t)"
proof (induction t)
  case (Node l a r)
  have none: "\<forall>e\<in>set es. \<not> P e \<Longrightarrow> List.find P (es @ es') = List.find P es'" "\<forall>e\<in>set es'. \<not> P e \<Longrightarrow> List.find P (es @ es') = List.find P es"
    for P and es es' :: "(int \<times> VMA) list" by (induction es) (auto simp: find_None_iff)
  let ?P = "\<lambda>e. vma_contains (snd e) addr"
  have ol: "\<forall>e\<in>set (entries l). vma_end (snd e) \<le> start_of (key a)" "\<forall>e\<in>set (entries r). vma_end (snd (key a)) \<le> start_of e"
    "vma_is_valid (snd (key a))" using Node.prems by auto
  have lo: "start_of (key a) \<le> start_of e" if "e \<in> set (key a # entries r)" for e
    using that ol(2,3) by (auto simp: vma_is_valid_def intro: order_trans less_imp_le)
  have hi: "vma_end (snd e) \<le> vma_end (snd (key a))" if "e \<in> set (entries l @ [key a])" for e
    using that ol(1,3) by (auto simp: vma_is_valid_def intro: order_trans less_imp_le)
  consider "addr < start_of (key a)" | "vma_end (snd (key a)) \<le> addr" "\<not> addr < start_of (key a)" | "start_of (key a) \<le> addr" "addr < vma_end (snd (key a))" by force
  then show ?case
  proof cases
    case 1
    have "\<not> ?P e" if "e \<in> set (key a # entries r)" for e using lo [OF that] 1 by (auto simp: vma_contains_def)
    then show ?thesis using 1 Node none(2) [of "key a # entries r" ?P "entries l"] by simp
  next
    case 2
    have "\<not> ?P e" if "e \<in> set (entries l @ [key a])" for e using hi [OF that] 2(1) by (auto simp: vma_contains_def)
    then show ?thesis using 2 Node none(1) [of "entries l @ [key a]" ?P "entries r"] by simp
  next
    case 3
    have "\<not> ?P e" if "e \<in> set (entries l)" for e using bspec [OF ol(1) that] 3(1) by (auto simp: vma_contains_def)
    then have "List.find ?P (entries (Node l a r)) = Some (key a)" using 3 none(1) by (simp add: vma_contains_def)
    moreover have "\<not> addr < start_of (key a)" "\<not> vma_end (snd (key a)) \<le> addr" using 3 by simp_all
    ultimately show ?thesis by simp
  qed
qed simp

lemma vm_inv_tree: "vm_inv m t \<Longrightarrow> tree_at (vm_nodes m) (- 1) t \<and> vm_root m = root_idx t"
  by (simp add: vm_inv_def vm_rep_def)

lemma vma_find_tree:
  assumes "vm_inv m t"
  shows "vma_find m addr = Some (map_option snd (tfind addr t))"
proof -
  have t: "tree_at (vm_nodes m) (- 1) t" "vm_root m = root_idx t" using vm_inv_tree [OF assms] by auto
  have "n_vma (vm_nodes m (fst e)) = snd e" if "tfind addr t = Some e" for e
    using tree_at_vma [OF t(1), of "fst e" "snd e"] tfind_in [OF that] by simp
  then show ?thesis using find_loop_tree [OF t(1)] t(2) by (cases "tfind addr t") (simp_all add: vma_find_def)
qed

lemma vma_find_mut_tree: "vm_inv m t \<Longrightarrow> vma_find_mut m addr = Some (map_option fst (tfind addr t))"
  using find_mut_loop_tree [of m "- 1" t] vm_inv_tree [of m t] by (simp add: vma_find_mut_def)

lemma tfind_start:
  assumes "ordered (entries t)" "(x, v) \<in> set (entries t)"
  shows "tfind (vma_start v) t = Some (x, v)"
proof -
  have c: "vma_contains v (vma_start v)" using assms by (auto simp: ordered_def vma_contains_def vma_is_valid_def)
  have u: "e = (x, v)" if "e \<in> set (entries t)" "vma_contains (snd e) (vma_start v)" for e
  proof -
    obtain as bs where s: "entries t = as @ (x, v) # bs" using assms(2) by (meson split_list)
    show ?thesis using that assms(1) unfolding s by (auto simp: vma_contains_def vma_is_valid_def dest!: bspec)
  qed
  obtain e where "List.find (\<lambda>e. vma_contains (snd e) (vma_start v)) (entries t) = Some e"
    using assms(2) c by (cases "List.find (\<lambda>e. vma_contains (snd e) (vma_start v)) (entries t)") (auto simp: find_None_iff)
  then show ?thesis using tfind_ordered [OF assms(1)] tfind_in [of "vma_start v" t e] u by simp
qed

section \<open>Areas that meet a range\<close>

abbreviation meets :: "u64 \<Rightarrow> u64 \<Rightarrow> int \<times> VMA \<Rightarrow> bool" where
  "meets s e x \<equiv> vma_overlaps (snd x) s e"

lemma take_append_take: "take n (take n xs @ ys) = take n (xs @ ys)"
  by (simp add: min_def)

lemma take_full: "n \<le> length xs \<Longrightarrow> take n (xs @ ys) = take n xs"
  by simp

lemma overlapping_tree:
  assumes "tree_at (vm_nodes m) p t" "max_ok t" "sorted_wrt (\<lambda>a b. start_of a \<le> start_of b) (entries t)" "length buf \<le> cap"
  shows "find_overlapping_recursive m s e cap (root_idx t) buf = Some (take cap (buf @ map fst (filter (meets s e) (entries t))))"
  using assms
proof (induction t arbitrary: p buf)
  case Leaf
  then show ?case by (subst find_overlapping_recursive.simps) simp
next
  case (Node l a r)
  obtain x v c k where a: "a = (x, v, c, k)" by (cases a)
  note n = tree_at_node [OF Node.prems(1) [unfolded a]]
  let ?f = "\<lambda>t. map fst (filter (meets s e) (entries t))"
  let ?b1 = "take cap (buf @ ?f l)" and ?b2 = "take cap (buf @ ?f l @ (if vma_overlaps v s e then [x] else []))"
  have prems: "max_ok l" "max_ok r" "sorted_wrt (\<lambda>a b. start_of a \<le> start_of b) (entries l)"
    "sorted_wrt (\<lambda>a b. start_of a \<le> start_of b) (entries r)" "\<forall>y\<in>set (entries r). vma_start v \<le> start_of y"
    using Node.prems(2,3) a by (simp_all add: sorted_wrt_append)
  show ?case
  proof (cases "cap \<le> length buf")
    case True
    then show ?thesis using Node.prems(4) by (subst find_overlapping_recursive.simps) simp
  next
    case False
    have left: "(if 0 \<le> root_idx l then (case vma_node m (root_idx l) of None \<Rightarrow> Some buf
        | Some d \<Rightarrow> if s < n_max_end d then find_overlapping_recursive m s e cap (root_idx l) buf else Some buf) else Some buf) = Some ?b1"
    proof (cases l rule: root_idx.cases)
      case 1
      then show ?thesis using Node.prems(4) by simp
    next
      case (2 ll y w d q lr)
      have "?f l = []" if "\<not> s < q"
      proof -
        have q: "\<forall>z\<in>set (entries l). vma_end (snd z) \<le> q" using prems(1) 2 by simp
        have "\<not> meets s e z" if "z \<in> set (entries l)" for z using bspec [OF q that] \<open>\<not> s < q\<close> by (auto simp: vma_overlaps_def)
        then show ?thesis by (simp add: filter_empty_conv)
      qed
      then show ?thesis using Node.IH(1) [OF n(5) prems(1,3) Node.prems(4)] tree_at_node [OF n(5) [unfolded 2]] 2 Node.prems(4) by auto
    qed
    have mid: "(if vma_overlaps v s e \<and> length ?b1 < cap then ?b1 @ [x] else ?b1) = ?b2" by auto
    have right: "(if vma_start v < e then find_overlapping_recursive m s e cap (root_idx r) ?b2 else Some ?b2) = Some (take cap (?b2 @ ?f r))"
    proof (cases "vma_start v < e")
      case True
      then show ?thesis using Node.IH(2) [OF n(6) prems(2,4), of ?b2] by simp
    next
      case False
      then have "\<not> meets s e z" if "z \<in> set (entries r)" for z using bspec [OF prems(5) that] by (auto simp: vma_overlaps_def)
      then have "?f r = []" by (auto simp: filter_empty_conv)
      then show ?thesis using False by (simp only: if_False append_Nil2 take_take min.idem)
    qed
    have "find_overlapping_recursive m s e cap x buf = Some (take cap (?b2 @ ?f r))"
      using n(2,3) False by (subst find_overlapping_recursive.simps) (simp only: left mid right cell_simps option.case Option.bind.simps Let_def de_Morgan_disj simp_thms if_False)
    moreover have "buf @ ?f (Node l a r) = (buf @ ?f l @ (if vma_overlaps v s e then [x] else [])) @ ?f r" using a by simp
    ultimately show ?thesis using a by (simp only: take_append_take root_idx.simps)
  qed
qed

lemma find_overlapping_tree:
  assumes "vm_inv m t" "max_ok t" "ordered (entries t)"
  shows "find_overlapping m s e cap = Some (take cap (map fst (filter (meets s e) (entries t))))"
  using overlapping_tree [of m "- 1" t "[]" cap s e] vm_inv_tree [OF assms(1)] assms(2) ordered_starts_le [OF assms(3)]
  by (simp add: find_overlapping_def)

section \<open>Neighbours\<close>

lemma previous_loop_tree:
  assumes "tree_at (vm_nodes m) p t" "ordered (entries t)"
  shows "previous_loop m addr (root_idx t) res =
    Some (let zs = filter (\<lambda>z. vma_end (snd z) \<le> addr) (entries t) in if zs = [] then res else Some (snd (last zs)))"
  using assms
proof (induction t arbitrary: p res)
  case Leaf
  then show ?case by (subst previous_loop.simps) simp
next
  case (Node l a r)
  obtain x v c k where a: "a = (x, v, c, k)" by (cases a)
  note n = tree_at_node [OF Node.prems(1) [unfolded a]]
  let ?P = "\<lambda>z. vma_end (snd z) \<le> addr"
  have ord: "ordered (entries l)" "ordered (entries r)" "\<forall>z\<in>set (entries r). vma_end v \<le> start_of z" "\<forall>z\<in>set (entries r). vma_is_valid (snd z)"
    using Node.prems(2) a ordered_valid [of "entries r"] by auto
  show ?case
  proof (cases "vma_end v \<le> addr")
    case True
    then show ?thesis using Node.IH(2) [OF n(6) ord(2), of "Some v"] n a by (subst previous_loop.simps) (simp add: Let_def)
  next
    case False
    then have "\<not> ?P z" if "z \<in> set (entries r)" for z using bspec [OF ord(3) that] bspec [OF ord(4) that] by (auto simp: vma_is_valid_def)
    then have "filter ?P (entries r) = []" by (simp add: filter_empty_conv)
    then show ?thesis using False Node.IH(1) [OF n(5) ord(1), of res] n a by (subst previous_loop.simps) (simp add: Let_def)
  qed
qed

lemma next_loop_tree:
  assumes "tree_at (vm_nodes m) p t" "ordered (entries t)"
  shows "next_loop m addr (root_idx t) res =
    Some (case List.find (\<lambda>z. addr \<le> start_of z) (entries t) of None \<Rightarrow> res | Some z \<Rightarrow> Some (snd z))"
  using assms
proof (induction t arbitrary: p res)
  case Leaf
  then show ?case by (subst next_loop.simps) simp
next
  case (Node l a r)
  obtain x v c k where a: "a = (x, v, c, k)" by (cases a)
  note n = tree_at_node [OF Node.prems(1) [unfolded a]]
  let ?P = "\<lambda>z. addr \<le> start_of z"
  have ord: "ordered (entries l)" "ordered (entries r)" "\<forall>z\<in>set (entries l). vma_end (snd z) \<le> vma_start v" "\<forall>z\<in>set (entries l). vma_is_valid (snd z)"
    using Node.prems(2) a ordered_valid [of "entries l"] by auto
  have app: "List.find P (xs @ ys) = (case List.find P xs of None \<Rightarrow> List.find P ys | Some z \<Rightarrow> Some z)" for P and xs ys :: "(int \<times> VMA) list"
    by (induction xs) simp_all
  show ?case
  proof (cases "addr \<le> vma_start v")
    case True
    then show ?thesis using Node.IH(1) [OF n(5) ord(1), of "Some v"] n a by (subst next_loop.simps) (simp add: app split: option.split)
  next
    case False
    then have "\<not> ?P z" if "z \<in> set (entries l)" for z using bspec [OF ord(3) that] bspec [OF ord(4) that] by (auto simp: vma_is_valid_def)
    then have "List.find ?P (entries l) = None" by (auto simp: find_None_iff)
    then show ?thesis using False Node.IH(2) [OF n(6) ord(2), of res] n a by (subst next_loop.simps) (simp add: app)
  qed
qed

end
