(* ===== verification/Vma_Iter.thy ===== *)
theory Vma_Iter
  imports Vma_Search
begin

text \<open>
  The iterator over the area tree and the search for a free region.  The iterator keeps a stack of 32
  node indices and drops a push on a full stack; on a tree that is at most 32 high it yields every
  area in order.  The free region returned is then the lowest gap that is large enough.
\<close>

section \<open>The iterator\<close>

text \<open>The stack as nodes with their right subtrees, top first.\<close>

type_synonym todo = "(area \<times> area tree) list"

fun tpush :: "area tree \<Rightarrow> todo \<Rightarrow> todo" where
  "tpush Leaf ss = ss"
| "tpush (Node l a r) ss = tpush l (if length ss < ITER_DEPTH then (a, r) # ss else ss)"

fun todo_size :: "todo \<Rightarrow> nat" where
  "todo_size [] = 0"
| "todo_size ((a, r) # ss) = Suc (size r) + todo_size ss"

lemma todo_size_tpush: "todo_size (tpush t ss) \<le> size t + todo_size ss"
proof (induction t arbitrary: ss)
  case (Node l a r)
  show ?case using Node(1) [of "(a, r) # ss"] Node(1) [of ss] by simp
qed simp

function titer :: "todo \<Rightarrow> (int \<times> VMA) list" where
  "titer [] = []"
| "titer ((a, r) # ss) = key a # titer (tpush r ss)"
  by pat_completeness auto

termination
  by (relation "measure todo_size") (auto simp: less_Suc_eq_le todo_size_tpush)

abbreviation idxs :: "todo \<Rightarrow> int list" where
  "idxs ss \<equiv> map (\<lambda>s. fst (fst s)) ss"

text \<open>The stack of the program: each entry is a node of the pool with the given right subtree.\<close>

fun todo_at :: "VMAManager \<Rightarrow> todo \<Rightarrow> bool" where
  "todo_at m [] = True"
| "todo_at m (((x, v, c, k), r) # ss) =
     ((\<exists>l p. vm_nodes m x = cell v c k l (root_idx r) p) \<and> valid_idx x \<and> tree_at (vm_nodes m) x r \<and> todo_at m ss)"

lemma push_left_tree:
  assumes "tree_at (vm_nodes m) p t" "todo_at m ss"
  shows "push_left m (root_idx t) (idxs ss) = Some (idxs (tpush t ss)) \<and> todo_at m (tpush t ss)"
  using assms
proof (induction t arbitrary: p ss)
  case Leaf
  then show ?case by (subst push_left.simps) simp
next
  case (Node l a r)
  obtain x v c k where a: "a = (x, v, c, k)" by (cases a)
  note n = tree_at_node [OF Node.prems(1) [unfolded a]]
  let ?ss = "if length ss < ITER_DEPTH then (a, r) # ss else ss"
  have "todo_at m ?ss" using Node.prems a by auto
  then have "push_left m (root_idx l) (idxs ?ss) = Some (idxs (tpush l ?ss)) \<and> todo_at m (tpush l ?ss)"
    by (rule Node.IH(1) [OF n(5)])
  moreover have "idxs ?ss = (if length (idxs ss) < ITER_DEPTH then x # idxs ss else idxs ss)"
    using a by simp
  ultimately show ?case using n a by (subst push_left.simps) (cases "length ss < ITER_DEPTH"; simp)
qed

lemma iter_next_tree:
  assumes "todo_at m ss"
  shows "iter_next m (idxs ss) =
    Some (case ss of [] \<Rightarrow> (None, []) | (a, r) # ss \<Rightarrow> (Some (snd (key a)), idxs (tpush r ss)))"
proof (cases ss)
  case (Cons z zs)
  obtain x v c k r where z: "z = ((x, v, c, k), r)" by (cases z) auto
  have t: "tree_at (vm_nodes m) x r" "todo_at m zs" "valid_idx x" using assms Cons z by auto
  obtain l p where "vm_nodes m x = cell v c k l (root_idx r) p" using assms Cons z by auto
  then show ?thesis using push_left_tree [OF t(1,2)] t(3) Cons z by (simp add: node_at_def)
qed simp

lemma iter_list_tree: "todo_at m ss \<Longrightarrow> iter_list m (idxs ss) = Some (map snd (titer ss))"
proof (induction ss rule: titer.induct)
  case 1
  show ?case by (subst iter_list.simps) simp
next
  case (2 a r ss)
  obtain x v c k where a: "a = (x, v, c, k)" by (cases a)
  have t: "tree_at (vm_nodes m) x r" "todo_at m ss" using 2(2) a by auto
  show ?case using iter_next_tree [OF 2(2)] 2(1) push_left_tree [OF t] by (subst iter_list.simps) simp
qed

text \<open>On a tree that is at most 32 high nothing is dropped.\<close>

fun todo_entries :: "todo \<Rightarrow> (int \<times> VMA) list" where
  "todo_entries [] = []"
| "todo_entries ((a, r) # ss) = key a # entries r @ todo_entries ss"

fun fits :: "todo \<Rightarrow> bool" where
  "fits [] = True"
| "fits ((a, r) # ss) = (height r + length ss < ITER_DEPTH \<and> fits ss)"

lemma tpush_fits:
  "height t + length ss \<le> ITER_DEPTH \<Longrightarrow> fits ss \<Longrightarrow> fits (tpush t ss) \<and> todo_entries (tpush t ss) = entries t @ todo_entries ss"
proof (induction t arbitrary: ss)
  case (Node l a r)
  then show ?case using Node.IH(1) [of "(a, r) # ss"] by simp
qed simp

lemma titer_fits: "fits ss \<Longrightarrow> titer ss = todo_entries ss"
proof (induction ss rule: titer.induct)
  case (2 a r ss)
  then show ?case using tpush_fits [of r ss] by simp
qed simp

lemma vma_iter_total: "vm_inv m t \<Longrightarrow> vma_iter m = Some (map snd (titer (tpush t [])))"
  using push_left_tree [of m "- 1" t "[]"] iter_list_tree [of m "tpush t []"] vm_inv_tree [of m t] by (simp add: vma_iter_def)

lemma titer_low: "height t \<le> ITER_DEPTH \<Longrightarrow> titer (tpush t []) = entries t"
  using tpush_fits [of t "[]"] titer_fits [of "tpush t []"] by simp

section \<open>Free regions\<close>

fun region :: "u64 \<Rightarrow> u64 \<Rightarrow> VMA list \<Rightarrow> u64 \<Rightarrow> u64 option" where
  "region max_addr sz [] c = (if c + sz \<le> max_addr then Some c else None)"
| "region max_addr sz (v # vs) c =
     (if c + sz \<le> vma_start v then Some c else region max_addr sz vs (if c < vma_end v then vma_end v else c))"

lemma free_region_loop_tree:
  "todo_at m ss \<Longrightarrow> free_region_loop m max_addr sz (idxs ss) c = Some (region max_addr sz (map snd (titer ss)) c)"
proof (induction ss arbitrary: c rule: titer.induct)
  case 1
  show ?case by (subst free_region_loop.simps) simp
next
  case (2 a r ss)
  obtain x v d k where a: "a = (x, v, d, k)" by (cases a)
  have t: "tree_at (vm_nodes m) x r" "todo_at m ss" using 2(2) a by auto
  show ?case using iter_next_tree [OF 2(2)] 2(1) push_left_tree [OF t] a by (subst free_region_loop.simps) simp
qed

lemma find_free_region_tree:
  "vm_inv m t \<Longrightarrow> find_free_region m lo hi sz = Some (region hi (page_up sz) (map snd (titer (tpush t []))) lo)"
  using push_left_tree [of m "- 1" t "[]"] free_region_loop_tree [of m "tpush t []"] vm_inv_tree [of m t] by (simp add: find_free_region_def)

text \<open>The range \<open>[c, c + sz)\<close> meets no area; no sum below wraps when everything stays below a bound \<open>B\<close>.\<close>

definition is_free :: "VMA list \<Rightarrow> u64 \<Rightarrow> u64 \<Rightarrow> bool" where
  "is_free vs c sz \<longleftrightarrow> (\<forall>v\<in>set vs. vma_end v \<le> c \<or> c + sz \<le> vma_start v)"

lemma is_free_Cons: "is_free (v # vs) c sz \<longleftrightarrow> (vma_end v \<le> c \<or> c + sz \<le> vma_start v) \<and> is_free vs c sz"
  by (simp add: is_free_def)

text \<open>The search returns the lowest fit at or above \<open>c\<close>; without a result no fit ends at or below \<open>hi\<close>.\<close>

definition lowest_fit :: "u64 \<Rightarrow> u64 \<Rightarrow> VMA list \<Rightarrow> u64 \<Rightarrow> u64 option \<Rightarrow> bool" where
  "lowest_fit hi sz vs c res \<longleftrightarrow>
     (\<forall>r. res = Some r \<longrightarrow> c \<le> r \<and> is_free vs r sz) \<and>
     (\<forall>q. c \<le> q \<longrightarrow> unat q + unat sz < 2 ^ 64 \<longrightarrow> is_free vs q sz \<longrightarrow>
        (case res of Some r \<Rightarrow> r \<le> q | None \<Rightarrow> hi < q + sz))"

lemma unat_sum: "unat (a :: u64) + unat b < 2 ^ 64 \<Longrightarrow> unat (a + b) = unat a + unat b"
  by (simp add: unat_word_ariths)

lemma region_lowest:
  assumes "sorted_wrt (\<lambda>a b. vma_end a \<le> vma_start b) vs" "\<forall>v\<in>set vs. vma_is_valid v"
    and "unat c + unat sz < 2 ^ 64" "\<forall>v\<in>set vs. unat (vma_end v) + unat sz < 2 ^ 64"
  shows "lowest_fit hi sz vs c (region hi sz vs c)"
  using assms
proof (induction vs arbitrary: c)
  case Nil
  then show ?case by (auto simp: lowest_fit_def is_free_def word_le_nat_alt word_less_nat_alt unat_sum)
next
  case (Cons v vs)
  have c: "unat (c + sz) = unat c + unat sz" by (rule unat_sum [OF Cons.prems(3)])
  show ?case
  proof (cases "c + sz \<le> vma_start v")
    case True
    have "c + sz \<le> vma_start w" if "w \<in> set vs" for w
    proof -
      have "vma_end v \<le> vma_start w" "vma_start v < vma_end v" using that Cons.prems(1,2) by (auto simp: vma_is_valid_def)
      then show ?thesis using True by order
    qed
    then show ?thesis using True by (simp add: lowest_fit_def is_free_def)
  next
    case False
    let ?c = "if c < vma_end v then vma_end v else c"
    have "lowest_fit hi sz vs ?c (region hi sz vs ?c)" by (rule Cons.IH) (use Cons.prems in auto)
    moreover have "?c \<le> q" if "c \<le> q" "unat q + unat sz < 2 ^ 64" "is_free (v # vs) q sz" for q
    proof -
      have "\<not> q + sz \<le> vma_start v" using False that(1) c unat_sum [OF that(2)] by (simp add: word_le_nat_alt)
      then show ?thesis using that(1,3) by (simp add: is_free_Cons)
    qed
    moreover have "vma_end v \<le> ?c" "c \<le> ?c" by auto
    ultimately show ?thesis using False unfolding lowest_fit_def
      by (auto simp: is_free_Cons simp del: if_split_asm intro: order_trans)
  qed
qed

end
