(* ===== verification/Vma_Balance.thy ===== *)
theory Vma_Balance
  imports Vma_Iter
begin

text \<open>
  Insertion keeps the area tree a red-black tree: no red node has a red child and every path has the
  same number of black nodes.  A full pool of 256 areas is then at most 16 high, within the 32
  indices of the iterator's stack.  Removal does not repair colours.
\<close>

section \<open>Red-black trees\<close>

fun bheight :: "area tree \<Rightarrow> nat" where
  "bheight Leaf = 0"
| "bheight (Node l a r) = (if acolor a = Black then Suc (bheight l) else bheight l)"

fun invc :: "area tree \<Rightarrow> bool" where
  "invc Leaf = True"
| "invc (Node l a r) = (invc l \<and> invc r \<and> (acolor a = Red \<longrightarrow> tcolor l = Black \<and> tcolor r = Black))"

fun invh :: "area tree \<Rightarrow> bool" where
  "invh Leaf = True"
| "invh (Node l a r) = (invh l \<and> invh r \<and> bheight l = bheight r)"

definition balanced :: "area tree \<Rightarrow> bool" where
  "balanced t \<longleftrightarrow> invc t \<and> invh t \<and> tcolor t = Black"

lemma not_Red [simp]: "c \<noteq> Red \<longleftrightarrow> c = Black" "c \<noteq> Black \<longleftrightarrow> c = Red"
  by (cases c; simp)+

lemma rb_mk [simp]:
  "bheight (mk l a r) = bheight (Node l a r)" "invc (mk l a r) = invc (Node l a r)" "invh (mk l a r) = invh (Node l a r)"
  "tcolor (mk l a r) = acolor a"
  by (cases a; simp)+

lemma rb_tpaint [simp]:
  "tcolor (tpaint c t) = (if t = Leaf then Black else c)" "invh (tpaint c t) = invh t" "invc t \<Longrightarrow> invc (tpaint Black t)"
  by (cases t; simp)+

lemma height_bheight: "invc t \<Longrightarrow> invh t \<Longrightarrow> height t \<le> 2 * bheight t + (if tcolor t = Red then 1 else 0)"
  by (induction t) (auto split: if_splits)

lemma bheight_size: "invh t \<Longrightarrow> 2 ^ bheight t \<le> Suc (size t)"
  by (induction t) (auto simp: mult_2)

lemma balanced_height:
  assumes "balanced t" "size t \<le> MAX_VMAS"
  shows "height t \<le> 16"
proof -
  have "(2::nat) ^ bheight t \<le> 257" using bheight_size [of t] assms by (simp add: balanced_def MAX_VMAS_def)
  moreover have "(2::nat) ^ 9 \<le> 2 ^ bheight t" if "9 \<le> bheight t" using that by (intro power_increasing) simp_all
  ultimately have "bheight t \<le> 8" by (cases "9 \<le> bheight t") simp_all
  then show ?thesis using height_bheight [of t] assms by (simp add: balanced_def)
qed

section \<open>Paths of a red-black tree\<close>

fun pcolor :: "frame list \<Rightarrow> RBColor" where
  "pcolor [] = Red"
| "pcolor (f # cs) = acolor (frame_area f)"

text \<open>A path whose hole wants a subtree with black height \<open>h\<close>; a red node is never outermost or below a red one.\<close>

fun rb_ctx :: "frame list \<Rightarrow> nat \<Rightarrow> bool" where
  "rb_ctx [] h = True"
| "rb_ctx (f # cs) h = (invc (sibling f) \<and> invh (sibling f) \<and> bheight (sibling f) = h \<and>
     (acolor (frame_area f) = Red \<longrightarrow> tcolor (sibling f) = Black \<and> pcolor cs = Black) \<and>
     rb_ctx cs (if acolor (frame_area f) = Black then Suc h else h))"

lemma plug_rb:
  "invc t \<Longrightarrow> invh t \<Longrightarrow> rb_ctx cs (bheight t) \<Longrightarrow> tcolor t = Black \<or> pcolor cs = Black \<or> cs = [] \<Longrightarrow>
   invc (plug cs t) \<and> invh (plug cs t)"
proof (induction cs arbitrary: t)
  case (Cons f cs)
  then show ?case by (cases f; cases "acolor (frame_area f)") auto
qed simp

lemma plug_one_rb: "invc t \<Longrightarrow> invh t \<Longrightarrow> rb_ctx [f] (bheight t) \<Longrightarrow> invc (plug [f] t) \<and> invh (plug [f] t)"
  using plug_rb [of t "[f]"] by auto

lemma descend_rb:
  assumes "invc t" "invh t" "rb_ctx cs (bheight t)" "tcolor t = Black \<or> pcolor cs = Black"
  shows "rb_ctx (descend v cs t) 0"
  using assms
proof (induction v cs t rule: descend.induct)
  case (2 v cs l x w c k r)
  then show ?case by (cases c) auto
qed simp

lemma fix_path_rb:
  assumes "t = Node l a r" "acolor a = Red" "invc t" "invh t" "rb_ctx cs (bheight t)"
  shows "invc (fix_path cs t) \<and> invh (fix_path cs t)"
  using assms
proof (induction cs t arbitrary: l a r rule: fix_path.induct)
  case (1 f g cs t)
  note ctx = 1(6)
  show ?case
  proof (cases "acolor (frame_area f) = Black")
    case True
    then show ?thesis using 1 plug_rb [of t "f # g # cs"] by simp
  next
    case red: False
    then have g: "acolor (frame_area g) = Black" using ctx by simp
    show ?thesis
    proof (cases "tcolor (sibling g) = Red")
      case True
      let ?t = "refill g (paint Red (frame_area g)) (tpaint Black (sibling g)) (tpaint Black (plug [f] t))"
      obtain l' a' r' where t': "?t = Node l' a' r'" "acolor a' = Red" by (cases g) auto
      have u: "bheight (tpaint Black (sibling g)) = Suc (bheight t)" using True ctx red g by (cases "sibling g") auto
      have p: "bheight (tpaint Black (plug [f] t)) = Suc (bheight t)" "invc (tpaint Black (plug [f] t))" "invh (tpaint Black (plug [f] t))"
        using ctx red 1(4,5) by (cases f; simp)+
      have "invc ?t" "invh ?t" "bheight ?t = Suc (bheight t)" using u p ctx by (cases g; cases f; simp)+
      then have "invc (fix_path cs ?t) \<and> invh (fix_path cs ?t)"
        by (intro 1(1) [OF _ True t']) (use red ctx g in \<open>simp_all\<close>)
      then show ?thesis using red True by simp
    next
      case False
      have "invc (rot f g t)" "invh (rot f g t)" "bheight (rot f g t) = Suc (bheight t)" "tcolor (rot f g t) = Black"
        using 1(2-5) ctx red g False by (cases f; cases g; simp)+
      then show ?thesis using red False g ctx plug_rb [of "rot f g t" cs] by simp
    qed
  qed
qed (simp_all add: plug_one_rb)

lemma insert_tree_balanced:
  assumes "balanced t"
  shows "balanced (insert_tree v i t)"
proof (cases "t = Leaf")
  case False
  let ?n = "Node Leaf (i, v, Red, vma_end v) Leaf"
  have "rb_ctx (descend v [] t) 0" by (rule descend_rb) (use assms in \<open>simp_all add: balanced_def\<close>)
  then have "invc (fix_path (descend v [] t) ?n) \<and> invh (fix_path (descend v [] t) ?n)" by (intro fix_path_rb [OF refl]) simp_all
  then show ?thesis using False by (simp add: balanced_def insert_tree_def)
qed (simp add: balanced_def insert_tree_def)

end
