(* ===== verification/Vma_Store.thy ===== *)
theory Vma_Store
  imports Vma_Balance
begin

text \<open>
  The area manager as a store of disjoint areas: an interface of insertion, removal and lookup over
  the list of areas, with the laws its clients rely on, and its instance on the interval tree.
\<close>

section \<open>The interface\<close>

fun ins_area :: "VMA \<Rightarrow> VMA list \<Rightarrow> VMA list" where
  "ins_area v [] = [v]"
| "ins_area v (w # ws) = (if vma_start v < vma_start w then v # w # ws else w # ins_area v ws)"

abbreviation disjoint_areas :: "VMA list \<Rightarrow> bool" where
  "disjoint_areas vs \<equiv> sorted_wrt (\<lambda>a b. vma_end a \<le> vma_start b) vs \<and> (\<forall>v\<in>set vs. vma_is_valid v)"

abbreviation clear_of :: "VMA \<Rightarrow> VMA list \<Rightarrow> bool" where
  "clear_of v vs \<equiv> \<forall>w\<in>set vs. \<not> vma_overlaps w (vma_start v) (vma_end v)"

lemma set_ins_area [simp]: "set (ins_area v vs) = insert v (set vs)"
  by (induction vs) auto

lemma length_ins_area [simp]: "length (ins_area v vs) = Suc (length vs)"
  by (induction vs) auto

lemma ins_area_entry: "map snd (ins_entry (i, v) es) = ins_area v (map snd es)"
  by (induction es) auto

lemma remove1_ins_area: "v \<notin> set vs \<Longrightarrow> remove1 v (ins_area v vs) = vs"
  by (induction vs) auto

lemma disjoint_contains:
  assumes "disjoint_areas vs" "v \<in> set vs" "w \<in> set vs" "vma_contains v a" "vma_contains w a"
  shows "v = w"
  using assms
proof (induction vs)
  case (Cons x vs)
  have "\<not> vma_contains y a" if "y \<in> set vs" "vma_contains x a" for y
  proof -
    have "vma_end x \<le> vma_start y" using Cons.prems(1) that(1) by simp
    then show ?thesis using that(2) by (auto simp: vma_contains_def)
  qed
  then show ?case using Cons by auto
qed simp

locale area_store =
  fixes areas :: "'s \<Rightarrow> VMA list \<Rightarrow> bool"
    and insert_area :: "VMA \<Rightarrow> 's \<Rightarrow> (int option \<times> 's) option"
    and remove_area :: "u64 \<Rightarrow> 's \<Rightarrow> (VMA option \<times> 's) option"
    and find_area :: "'s \<Rightarrow> u64 \<Rightarrow> VMA option option"
  assumes areas_disjoint: "areas s vs \<Longrightarrow> disjoint_areas vs"
    and insert_law: "areas s vs \<Longrightarrow> vma_is_valid v \<Longrightarrow> clear_of v vs \<Longrightarrow> length vs < MAX_VMAS \<Longrightarrow>
      \<exists>i s'. insert_area v s = Some (Some i, s') \<and> areas s' (ins_area v vs)"
    and remove_law: "areas s vs \<Longrightarrow> v \<in> set vs \<Longrightarrow> \<exists>s'. remove_area (vma_start v) s = Some (Some v, s') \<and> areas s' (remove1 v vs)"
    and remove_absent_law: "areas s vs \<Longrightarrow> a \<notin> vma_start ` set vs \<Longrightarrow> remove_area a s = Some (None, s)"
    and find_law: "areas s vs \<Longrightarrow> find_area s a = Some (List.find (\<lambda>v. vma_contains v a) vs)"
begin

lemma contains_unique:
  assumes "areas s vs" "v \<in> set vs" "w \<in> set vs" "vma_contains v a" "vma_contains w a"
  shows "v = w"
  by (rule disjoint_contains [OF areas_disjoint [OF assms(1)] assms(2-)])

lemma find_member:
  assumes "areas s vs" "v \<in> set vs" "vma_contains v a"
  shows "find_area s a = Some (Some v)"
proof -
  obtain w where "List.find (\<lambda>v. vma_contains v a) vs = Some w"
    using assms(2,3) by (cases "List.find (\<lambda>v. vma_contains v a) vs") (auto simp: find_None_iff)
  moreover from this have "w \<in> set vs" "vma_contains w a" by (auto simp: find_Some_iff)
  ultimately show ?thesis using contains_unique [OF assms(1,2)] assms(3) find_law [OF assms(1)] by auto
qed

lemma find_nothing: "areas s vs \<Longrightarrow> \<forall>v\<in>set vs. \<not> vma_contains v a \<Longrightarrow> find_area s a = Some None"
  by (simp add: find_law find_None_iff)

text \<open>A lookup after an insertion finds the new area exactly at its addresses.\<close>

lemma insert_find:
  assumes "areas s vs" "vma_is_valid v" "clear_of v vs" "length vs < MAX_VMAS"
  shows "\<exists>i s'. insert_area v s = Some (Some i, s') \<and> areas s' (ins_area v vs) \<and>
    (\<forall>a. find_area s' a = (if vma_contains v a then Some (Some v) else find_area s a))"
proof -
  obtain i s' where s': "insert_area v s = Some (Some i, s')" "areas s' (ins_area v vs)" using insert_law [OF assms] by blast
  have "find_area s' a = find_area s a" if "\<not> vma_contains v a" for a
  proof (cases "\<exists>w\<in>set vs. vma_contains w a")
    case True
    then show ?thesis using find_member [OF assms(1)] find_member [OF s'(2)] by auto
  next
    case False
    then show ?thesis using find_nothing [OF assms(1)] find_nothing [OF s'(2)] that by auto
  qed
  then show ?thesis using s' find_member [OF s'(2), of v] by auto
qed

lemma insert_remove:
  assumes "areas s vs" "vma_is_valid v" "clear_of v vs" "length vs < MAX_VMAS"
  shows "\<exists>i s' s''. insert_area v s = Some (Some i, s') \<and> remove_area (vma_start v) s' = Some (Some v, s'') \<and> areas s'' vs"
proof -
  obtain i s' where s': "insert_area v s = Some (Some i, s')" "areas s' (ins_area v vs)" using insert_law [OF assms] by blast
  obtain s'' where "remove_area (vma_start v) s' = Some (Some v, s'')" "areas s'' (remove1 v (ins_area v vs))"
    using remove_law [OF s'(2), of v] by auto
  moreover have "v \<notin> set vs" using assms(2,3) by (auto simp: vma_overlaps_def vma_is_valid_def)
  ultimately show ?thesis using s'(1) remove1_ins_area by auto
qed

end

section \<open>The interval tree as a store\<close>

text \<open>The manager holds these areas, with their indices, in order.\<close>

definition holds :: "VMAManager \<Rightarrow> (int \<times> VMA) list \<Rightarrow> bool" where
  "holds m es \<longleftrightarrow> (\<exists>t. vm_inv m t \<and> max_ok t \<and> entries t = es) \<and> ordered es"

definition vm_areas :: "VMAManager \<Rightarrow> VMA list \<Rightarrow> bool" where
  "vm_areas m vs \<longleftrightarrow> (\<exists>es. holds m es \<and> map snd es = vs)"

lemma ordered_map: "ordered es \<longleftrightarrow> disjoint_areas (map snd es)"
  by (auto simp: ordered_def sorted_wrt_map)

lemma ordered_ins_entry:
  assumes "ordered es" "vma_is_valid v" "clear_of v (map snd es)"
  shows "ordered (ins_entry (i, v) es)"
  using assms
proof (induction es)
  case (Cons e es)
  have d: "vma_end (snd e) \<le> vma_start v \<or> vma_end v \<le> start_of e" using Cons.prems(3) by (auto simp: vma_overlaps_def)
  have e: "start_of e < vma_end (snd e)" "vma_start v < vma_end v" using Cons.prems(1,2) by (auto simp: vma_is_valid_def)
  show ?case
  proof (cases "vma_start v < start_of e")
    case True
    then have "vma_end v \<le> start_of e" using d e by auto
    moreover from this have "vma_end v \<le> start_of y" if "y \<in> set es" for y
    proof -
      have "vma_end (snd e) \<le> start_of y" using Cons.prems(1) that by simp
      then show ?thesis using \<open>vma_end v \<le> start_of e\<close> e(1) by order
    qed
    ultimately show ?thesis using True Cons.prems(1,2) by simp
  next
    case False
    then have "vma_end (snd e) \<le> vma_start v" using d e by auto
    then show ?thesis using False Cons by simp
  qed
qed simp

lemma dist_distinct: "dist t \<Longrightarrow> distinct (map fst (entries t))"
  by (induction t rule: dist.induct) (auto simp: idx_set_entries)

lemma holds_distinct: "holds m es \<Longrightarrow> distinct (map fst es)"
  by (auto simp: holds_def vm_inv_def vm_rep_def dist_distinct)

lemma ordered_distinct: "ordered es \<Longrightarrow> distinct (map snd es)"
  by (induction es) (auto simp: vma_is_valid_def)

lemma removed_at_areas:
  assumes "removed_at x es es'" "ordered es" "distinct (map fst es)" "(x, v) \<in> set es"
  shows "map snd es' = remove1 v (map snd es) \<and> ordered es' \<and> (\<forall>(h, w)\<in>set es'. h = x \<and> w \<noteq> v \<or> (h, w) \<in> set es \<and> h \<noteq> x) \<and>
    (\<forall>(h, w)\<in>set es. h \<noteq> x \<longrightarrow> (h, w) \<in> set es' \<or> (x, w) \<in> set es')"
proof -
  obtain as v' bs where es: "es = as @ (x, v') # bs" and es': "es' = as @ bs \<or> (\<exists>y w bs'. bs = (y, w) # bs' \<and> es' = as @ (x, w) # bs')"
    using assms(1) unfolding removed_at_def by blast
  have v: "v' = v" using assms(3,4) unfolding es by (auto simp: image_iff)
  have d: "v \<notin> snd ` set as" "v \<notin> snd ` set bs" "x \<notin> fst ` set as" "x \<notin> fst ` set bs"
    using ordered_distinct [OF assms(2)] assms(3) unfolding es v by auto
  have o: "ordered (as @ bs)" using assms(2) unfolding es by simp
  show ?thesis
  proof (cases "es' = as @ bs")
    case True
    then show ?thesis using d o unfolding es v by (force simp: remove1_append image_iff)
  next
    case False
    then obtain y w bs' where b: "bs = (y, w) # bs'" "es' = as @ (x, w) # bs'" using es' by blast
    then show ?thesis using d o unfolding es v by (force simp: remove1_append image_iff)
  qed
qed

lemma holds_size: "holds m es \<Longrightarrow> length es \<le> MAX_VMAS"
  using vm_inv_size by (auto simp: holds_def)

lemma holds_insert:
  assumes "holds m es" "vma_is_valid v" "clear_of v (map snd es)" "length es < MAX_VMAS"
  obtains i m' where "vma_insert v m = Some (Some i, m')" "holds m' (ins_entry (i, v) es)" "valid_idx i" "i \<notin> fst ` set es"
proof -
  obtain t where t: "vm_inv m t" "max_ok t" "entries t = es" and ord: "ordered es" using assms(1) by (auto simp: holds_def)
  have "size t < MAX_VMAS" using assms(4) t(3) length_entries [of t] by simp
  then obtain i m' where m': "vma_insert v m = Some (Some i, m')" "valid_idx i" "i \<notin> idx_set t" "vm_inv m' (insert_tree v i t)"
    using vma_insert_rep [OF t(1) assms(2)] by blast
  have "entries (insert_tree v i t) = ins_entry (i, v) es" using insert_tree_entries ordered_starts_le [OF ord] t(3) by blast
  then have "holds m' (ins_entry (i, v) es)"
    using m'(4) insert_tree_max_ok [OF t(2)] ordered_ins_entry [OF ord assms(2,3)] by (auto simp: holds_def)
  then show ?thesis using that m' t(3) by (simp add: idx_set_entries)
qed

lemma holds_remove:
  assumes "holds m es" "(x, v) \<in> set es"
  obtains m' es' where "vma_remove (vma_start v) m = Some (Some v, m')" "holds m' es'" "removed_at x es es'"
    "\<forall>i. i \<noteq> x \<longrightarrow> n_vma (vm_nodes m' i) = n_vma (vm_nodes m i)"
proof -
  obtain t where t: "vm_inv m t" "max_ok t" "entries t = es" and ord: "ordered es" using assms(1) by (auto simp: holds_def)
  obtain m' t' where m': "vma_remove (vma_start v) m = Some (Some v, m')" "vm_inv m' t'" "max_ok t \<longrightarrow> max_ok t'"
    "removed_at x (entries t) (entries t')" "\<forall>i. i \<noteq> x \<longrightarrow> n_vma (vm_nodes m' i) = n_vma (vm_nodes m i)"
    using vma_remove_rep [OF t(1), of x v] ordered_starts [OF ord] t(3) assms(2) by blast
  have "ordered (entries t')" using removed_at_areas [OF m'(4)] ord t(3) holds_distinct [OF assms(1)] assms(2) by auto
  then show ?thesis using that [OF m'(1), of "entries t'"] m' t by (auto simp: holds_def)
qed

lemma holds_find: "holds m es \<Longrightarrow> vma_find m a = Some (map_option snd (List.find (\<lambda>e. vma_contains (snd e) a) es))"
  using vma_find_tree tfind_ordered by (auto simp: holds_def)

lemma find_map: "map_option snd (List.find (\<lambda>e. P (snd e)) es) = List.find P (map snd es)"
  by (induction es) auto

interpretation tree_store: area_store vm_areas vma_insert vma_remove vma_find
proof (unfold_locales, goal_cases)
  case (1 s vs)
  then show ?case by (auto simp: vm_areas_def holds_def ordered_map)
next
  case (2 s vs v)
  then obtain es where es: "holds s es" "map snd es = vs" by (auto simp: vm_areas_def)
  obtain i m' where "vma_insert v s = Some (Some i, m')" "holds m' (ins_entry (i, v) es)"
    using holds_insert [OF es(1)] 2 es(2) by (metis length_map)
  then show ?case using ins_area_entry es(2) by (auto simp: vm_areas_def)
next
  case (3 s vs v)
  then obtain es x where es: "holds s es" "map snd es = vs" "(x, v) \<in> set es" by (auto simp: vm_areas_def)
  obtain m' es' where m': "vma_remove (vma_start v) s = Some (Some v, m')" "holds m' es'" "removed_at x es es'"
    using holds_remove [OF es(1,3)] by blast
  have "map snd es' = remove1 v vs"
    using removed_at_areas [OF m'(3) _ holds_distinct [OF es(1)] es(3)] es(1,2) by (auto simp: holds_def)
  then show ?case using m'(1,2) by (auto simp: vm_areas_def)
next
  case (4 s vs a)
  then obtain es t where "vm_inv s t" "entries t = es" "map snd es = vs" by (auto simp: vm_areas_def holds_def)
  then show ?case using vma_remove_absent [of s t a] 4(2) by force
next
  case (5 s vs a)
  then obtain es where "holds s es" "map snd es = vs" by (auto simp: vm_areas_def)
  then show ?case using holds_find find_map [of "\<lambda>v. vma_contains v a" es] by simp
qed

end
