(* ===== verification/Vma_Space.thy ===== *)
theory Vma_Space
  imports Vma_Store
begin

text \<open>
  Address spaces (\<open>src/src/mm/vma.rs\<close>, \<open>AddressSpace\<close>) and the memory system calls over them
  (\<open>src/src/syscalls/memory_vma.rs\<close>).  An outer \<open>None\<close> means that the call does not return.  The user
  memory that \<open>write_bytes\<close> and \<open>copy_nonoverlapping\<close> reach is a function from addresses to bytes; the
  current PID and the open files are arguments.  Error messages are the strings of the code.
\<close>

section \<open>Address layout: \<open>src/src/process/types.rs\<close>\<close>

definition USER_VIRT_BASE :: u64 where "USER_VIRT_BASE = 0x1000000"
definition HEAP_BASE :: u64 where "HEAP_BASE = USER_VIRT_BASE + 0x200000"
definition HEAP_SIZE :: u64 where "HEAP_SIZE = 0x800000"
definition STACK_BASE :: u64 where "STACK_BASE = HEAP_BASE + HEAP_SIZE"
definition STACK_SIZE :: u64 where "STACK_SIZE = 0x200000"
definition INTERP_BASE :: u64 where "INTERP_BASE = STACK_BASE + STACK_SIZE"
definition INTERP_REGION_SIZE :: u64 where "INTERP_REGION_SIZE = 0x1000000"
definition USER_REGION_SIZE :: u64 where "USER_REGION_SIZE = (INTERP_BASE + INTERP_REGION_SIZE) - USER_VIRT_BASE"

lemmas layout_defs = USER_VIRT_BASE_def HEAP_BASE_def HEAP_SIZE_def STACK_BASE_def STACK_SIZE_def INTERP_BASE_def
  INTERP_REGION_SIZE_def USER_REGION_SIZE_def

section \<open>Address spaces\<close>

record AddressSpace =
  vmas :: VMAManager
  cr3 :: u64
  as_pid :: u64
  heap_start :: u64
  heap_end :: u64
  stack_start :: u64
  stack_end :: u64
  mmap_base :: u64
  mmap_current :: u64
  rss_pages :: u64
  vm_pages :: u64
  as_valid :: bool

definition AddressSpace_empty :: AddressSpace where
  "AddressSpace_empty = \<lparr> vmas = VMAManager_new, cr3 = 0, as_pid = 0, heap_start = 0, heap_end = 0, stack_start = 0, stack_end = 0,
     mmap_base = 0, mmap_current = 0, rss_pages = 0, vm_pages = 0, as_valid = False \<rparr>"

definition space_init :: "u64 \<Rightarrow> u64 \<Rightarrow> AddressSpace \<Rightarrow> AddressSpace" where
  "space_init pid c a = a\<lparr> vmas := VMAManager_default, cr3 := c, as_pid := pid, heap_start := HEAP_BASE, heap_end := HEAP_BASE,
     stack_start := STACK_BASE, stack_end := STACK_BASE + STACK_SIZE, mmap_base := INTERP_BASE + 0x100000,
     mmap_current := INTERP_BASE + 0x100000, rss_pages := 0, vm_pages := 0, as_valid := True \<rparr>"

definition add_vma :: "VMA \<Rightarrow> AddressSpace \<Rightarrow> (int option \<times> AddressSpace) option" where
  "add_vma v a = do {
     (r, m) \<leftarrow> vma_insert v (vmas a);
     Some (r, a\<lparr> vmas := m, vm_pages := (if r \<noteq> None then vm_pages a + page_count v else vm_pages a) \<rparr>) }"

definition remove_vma :: "u64 \<Rightarrow> AddressSpace \<Rightarrow> (VMA option \<times> AddressSpace) option" where
  "remove_vma s a = do {
     (r, m) \<leftarrow> vma_remove s (vmas a);
     Some (r, case r of None \<Rightarrow> a\<lparr> vmas := m \<rparr>
       | Some v \<Rightarrow> a\<lparr> vmas := m, vm_pages := saturating_sub (vm_pages a) (page_count v) \<rparr>) }"

text \<open>Changes of the counters through \<open>stats_mut\<close>.\<close>

definition bump :: "(VMAStats \<Rightarrow> VMAStats) \<Rightarrow> AddressSpace \<Rightarrow> AddressSpace" where
  "bump f a = a\<lparr> vmas := (vmas a)\<lparr> vm_stats := f (vm_stats (vmas a)) \<rparr> \<rparr>"

definition heap_vma :: "u64 \<Rightarrow> u64 \<Rightarrow> VMA" where
  "heap_vma s e = VMA_new s e (PERM_READ OR PERM_WRITE) (FLAG_PRIVATE OR FLAG_ANONYMOUS OR FLAG_HEAP) Anonymous"

definition space_brk :: "u64 \<Rightarrow> AddressSpace \<Rightarrow> ((u64, string) result \<times> AddressSpace) option" where
  "space_brk new_brk a =
     (if new_brk = 0 then Some (Ok (heap_end a), a)
      else if new_brk < heap_start a then Some (Err ''brk below heap start'', a)
      else if heap_start a + HEAP_SIZE < new_brk then Some (Err ''brk exceeds max heap'', a)
      else do {
        a1 \<leftarrow> (if heap_end a < new_brk then do { (_, a1) \<leftarrow> add_vma (heap_vma (heap_end a) new_brk) a; Some a1 } else Some a);
        Some (Ok new_brk, a1\<lparr> heap_end := new_brk \<rparr>) })"

abbreviation user_end :: u64 where
  "user_end \<equiv> USER_VIRT_BASE + USER_REGION_SIZE"

text \<open>The choice of the address in \<open>mmap\<close>.\<close>

definition space_mmap_addr :: "u64 \<Rightarrow> u64 \<Rightarrow> u64 \<Rightarrow> AddressSpace \<Rightarrow> ((u64, string) result \<times> AddressSpace) option" where
  "space_mmap_addr addr_hint aligned_len flags a =
     (if flags AND 0x10 \<noteq> 0 then
        Some (if addr_hint = 0 \<or> addr_hint AND (PAGE_SIZE - 1) \<noteq> 0 then Err ''MAP_FIXED with invalid address'' else Ok addr_hint, a)
      else if addr_hint \<noteq> 0 then do {
        hit \<leftarrow> vma_find (vmas a) (page_up addr_hint);
        if hit = None then Some (Ok (page_up addr_hint), a)
        else do {
          r \<leftarrow> find_free_region (vmas a) (mmap_current a) user_end aligned_len;
          Some (case r of None \<Rightarrow> Err ''No free region for mmap'' | Some addr \<Rightarrow> Ok addr, a) } }
      else do {
        r \<leftarrow> find_free_region (vmas a) (mmap_current a) user_end aligned_len;
        Some (case r of None \<Rightarrow> (Err ''No free region for mmap'', a)
          | Some addr \<Rightarrow> (Ok addr, a\<lparr> mmap_current := addr + aligned_len \<rparr>)) })"

definition space_mmap :: "u64 \<Rightarrow> u64 \<Rightarrow> u64 \<Rightarrow> u64 \<Rightarrow> AddressSpace \<Rightarrow> ((u64, string) result \<times> AddressSpace) option" where
  "space_mmap addr_hint len prot flags a = do {
     let aligned_len = page_up len;
     (r, a1) \<leftarrow> space_mmap_addr addr_hint aligned_len flags a;
     case r of
       Err e \<Rightarrow> Some (Err e, a1)
     | Ok addr \<Rightarrow> do {
         (i, a2) \<leftarrow> add_vma (VMA_new addr (addr + aligned_len) (from_prot prot) (from_mmap_flags flags) Anonymous) a1;
         if i = None then Some (Err ''Failed to add VMA'', a2)
         else Some (Ok addr, bump (\<lambda>s. s\<lparr> mmap_count := mmap_count s + 1 \<rparr>) a2) } }"

definition OVERLAP_MAX :: nat where "OVERLAP_MAX = 16"

text \<open>One step of the loop of \<open>munmap\<close>: the area is read through its index, without a look at \<open>in_use\<close>.\<close>

definition bump_split :: "u64 \<Rightarrow> AddressSpace \<Rightarrow> AddressSpace" where
  "bump_split n = bump (\<lambda>s. s\<lparr> split_count := split_count s + n \<rparr>)"

definition trim_area :: "u64 \<Rightarrow> (VMA \<Rightarrow> VMA) \<Rightarrow> AddressSpace \<Rightarrow> AddressSpace option" where
  "trim_area s f a = do {
     (found, m) \<leftarrow> modify_area s f (vmas a);
     Some (if found then bump_split 1 (a\<lparr> vmas := m \<rparr>) else a) }"

definition punch_area :: "u64 \<Rightarrow> u64 \<Rightarrow> u64 \<Rightarrow> AddressSpace \<Rightarrow> AddressSpace option" where
  "punch_area s addr e a = do {
     idx \<leftarrow> vma_find_mut (vmas a) s;
     case idx of
       None \<Rightarrow> Some a
     | Some i \<Rightarrow> do {
         n \<leftarrow> node_at (vmas a) i;
         case split_at e (n_vma n) of
           (None, low) \<Rightarrow> Some a
         | (Some upper, low) \<Rightarrow> do {
             m \<leftarrow> upd_node i (\<lambda>n. n\<lparr> n_vma := low\<lparr> vma_end := addr \<rparr> \<rparr>) (vmas a);
             (_, a1) \<leftarrow> add_vma upper (a\<lparr> vmas := m \<rparr>);
             Some (bump_split 2 a1) } } }"

definition munmap_one :: "u64 \<Rightarrow> u64 \<Rightarrow> int \<Rightarrow> AddressSpace \<Rightarrow> AddressSpace option" where
  "munmap_one addr e idx a = do {
     n \<leftarrow> node_at (vmas a) idx;
     let v = n_vma n;
     if addr \<le> vma_start v \<and> vma_end v \<le> e then do {
       (_, m) \<leftarrow> vma_remove (vma_start v) (vmas a);
       Some (a\<lparr> vmas := m \<rparr>) }
     else if vma_start v < addr \<and> e < vma_end v then punch_area (vma_start v) addr e a
     else if vma_start v < addr then trim_area (vma_start v) (\<lambda>v. v\<lparr> vma_end := addr \<rparr>) a
     else trim_area (vma_start v) (\<lambda>v. v\<lparr> vma_start := e \<rparr>) a }"

fun munmap_loop :: "u64 \<Rightarrow> u64 \<Rightarrow> int list \<Rightarrow> AddressSpace \<Rightarrow> AddressSpace option" where
  "munmap_loop addr e [] a = Some a"
| "munmap_loop addr e (i # ixs) a = do { a1 \<leftarrow> munmap_one addr e i a; munmap_loop addr e ixs a1 }"

definition space_munmap :: "u64 \<Rightarrow> u64 \<Rightarrow> AddressSpace \<Rightarrow> AddressSpace option" where
  "space_munmap addr len a = do {
     let e = addr + page_up len;
     overlapping \<leftarrow> find_overlapping (vmas a) addr e OVERLAP_MAX;
     a1 \<leftarrow> munmap_loop addr e overlapping a;
     Some (bump (\<lambda>s. s\<lparr> munmap_count := munmap_count s + 1 \<rparr>) a1) }"

text \<open>Both branches of \<open>mprotect\<close>, for an area inside the range and one that sticks out, do the same.\<close>

definition mprotect_one :: "VMAPermissions \<Rightarrow> int \<Rightarrow> AddressSpace \<Rightarrow> AddressSpace option" where
  "mprotect_one new_perm idx a = do {
     n \<leftarrow> node_at (vmas a) idx;
     (_, m) \<leftarrow> modify_area (vma_start (n_vma n)) (\<lambda>v. v\<lparr> vma_perm := new_perm \<rparr>) (vmas a);
     Some (a\<lparr> vmas := m \<rparr>) }"

fun mprotect_loop :: "VMAPermissions \<Rightarrow> int list \<Rightarrow> AddressSpace \<Rightarrow> AddressSpace option" where
  "mprotect_loop p [] a = Some a"
| "mprotect_loop p (i # ixs) a = do { a1 \<leftarrow> mprotect_one p i a; mprotect_loop p ixs a1 }"

definition space_mprotect :: "u64 \<Rightarrow> u64 \<Rightarrow> u64 \<Rightarrow> AddressSpace \<Rightarrow> AddressSpace option" where
  "space_mprotect addr len prot a = do {
     let e = addr + page_up len;
     overlapping \<leftarrow> find_overlapping (vmas a) addr e OVERLAP_MAX;
     a1 \<leftarrow> mprotect_loop (from_prot prot) overlapping a;
     Some (bump (\<lambda>s. s\<lparr> mprotect_count := mprotect_count s + 1 \<rparr>) a1) }"

definition handle_fault :: "u64 \<Rightarrow> bool \<Rightarrow> AddressSpace \<Rightarrow> ((unit, string) result \<times> AddressSpace) option" where
  "handle_fault fault_addr is_w a = do {
     hit \<leftarrow> vma_find (vmas a) fault_addr;
     Some (case hit of
         None \<Rightarrow> (Err ''Address not mapped'', a)
       | Some v \<Rightarrow>
           if is_w \<and> \<not> is_write (vma_perm v)
           then if flags_contains (vma_flags v) FLAG_COW then (Ok (), bump (\<lambda>s. s\<lparr> cow_faults := cow_faults s + 1 \<rparr>) a)
                else (Err ''Write to read-only mapping'', a)
           else (Ok (), (bump (\<lambda>s. s\<lparr> page_faults := page_faults s + 1 \<rparr>) a)\<lparr> rss_pages := rss_pages a + 1 \<rparr>)) }"

section \<open>The table of address spaces and the system calls\<close>

definition MAP_FAILED :: u64 where "MAP_FAILED = - 1"
definition MAP_FIXED :: u64 where "MAP_FIXED = 0x10"
definition MAP_ANONYMOUS :: u64 where "MAP_ANONYMOUS = 0x20"
definition MAP_POPULATE :: u64 where "MAP_POPULATE = 0x8000"
definition MAP_STACK :: u64 where "MAP_STACK = 0x20000"
definition ENO_INVAL :: int where "ENO_INVAL = 22"
definition ENO_NOMEM :: int where "ENO_NOMEM = 12"

type_synonym user_memory = "u64 \<Rightarrow> u8"

record VmSystem =
  spaces :: "AddressSpace list"
  user_mem :: user_memory
  vm_errno :: int

definition VmSystem_new :: VmSystem where
  "VmSystem_new = \<lparr> spaces = replicate MAX_ADDRESS_SPACES AddressSpace_empty, user_mem = (\<lambda>_. 0), vm_errno = 0 \<rparr>"

text \<open>\<open>write_bytes\<close> and \<open>copy_nonoverlapping\<close> on the user memory.\<close>

definition write_bytes :: "u64 \<Rightarrow> u8 \<Rightarrow> u64 \<Rightarrow> user_memory \<Rightarrow> user_memory" where
  "write_bytes a b n mem = (\<lambda>x. if x - a < n then b else mem x)"

definition copy_bytes :: "u64 \<Rightarrow> u8 list \<Rightarrow> user_memory \<Rightarrow> user_memory" where
  "copy_bytes a bs mem = (\<lambda>x. if unat (x - a) < length bs then bs ! unat (x - a) else mem x)"

definition with_current_address_space ::
  "u64 option \<Rightarrow> (AddressSpace \<Rightarrow> VmSystem \<Rightarrow> ('r \<times> AddressSpace \<times> VmSystem) option) \<Rightarrow> VmSystem \<Rightarrow> (('r, string) result \<times> VmSystem) option" where
  "with_current_address_space cur f s =
     (case cur of
        None \<Rightarrow> Some (Err ''No current process'', s)
      | Some pid \<Rightarrow>
          if of_nat MAX_ADDRESS_SPACES \<le> pid then Some (Err ''PID out of range'', s)
          else do {
            let a = spaces s ! unat pid;
            (r, a1, s1) \<leftarrow> f (if as_valid a then a else space_init pid 0 a) s;
            Some (Ok r, s1\<lparr> spaces := (spaces s1)[unat pid := a1] \<rparr>) })"

definition init_process_address_space :: "u64 \<Rightarrow> u64 \<Rightarrow> VmSystem \<Rightarrow> (unit, string) result \<times> VmSystem" where
  "init_process_address_space pid c s =
     (if of_nat MAX_ADDRESS_SPACES \<le> pid then (Err ''PID out of range'', s)
      else (Ok (), s\<lparr> spaces := (spaces s)[unat pid := space_init pid c (spaces s ! unat pid)] \<rparr>))"

definition free_process_address_space :: "u64 \<Rightarrow> VmSystem \<Rightarrow> VmSystem" where
  "free_process_address_space pid s =
     (if of_nat MAX_ADDRESS_SPACES \<le> pid then s
      else let a = spaces s ! unat pid
        in if as_valid a then s\<lparr> spaces := (spaces s)[unat pid := a\<lparr> vmas := vm_clear (vmas a), as_valid := False \<rparr>] \<rparr> else s)"

definition FORK_MAX :: nat where "FORK_MAX = 64"

definition fork_area :: "VMA \<Rightarrow> VMA" where
  "fork_area v = (if is_write (vma_perm v) \<and> is_private (vma_flags v) then v\<lparr> vma_flags := flags_insert (vma_flags v) FLAG_COW \<rparr> else v)"

fun insert_all :: "VMA list \<Rightarrow> VMAManager \<Rightarrow> VMAManager option" where
  "insert_all [] m = Some m"
| "insert_all (v # vs) m = do { (_, m1) \<leftarrow> vma_insert v m; insert_all vs m1 }"

definition copy_address_space_for_fork :: "u64 \<Rightarrow> u64 \<Rightarrow> VmSystem \<Rightarrow> ((unit, string) result \<times> VmSystem) option" where
  "copy_address_space_for_fork parent child s =
     (if of_nat MAX_ADDRESS_SPACES \<le> parent \<or> of_nat MAX_ADDRESS_SPACES \<le> child then Some (Err ''PID out of range'', s)
      else let p = spaces s ! unat parent
        in if \<not> as_valid p then Some (Err ''Parent address space not valid'', s)
        else do {
          vs \<leftarrow> vma_iter (vmas p);
          let c = (space_init child 0 (spaces s ! unat child))\<lparr> heap_start := heap_start p, heap_end := heap_end p,
                stack_start := stack_start p, stack_end := stack_end p, mmap_base := mmap_base p, mmap_current := mmap_current p \<rparr>;
          m \<leftarrow> insert_all (map fork_area (take FORK_MAX vs)) (vmas c);
          Some (Ok (), s\<lparr> spaces := (spaces s)[unat child := c\<lparr> vmas := m \<rparr>] \<rparr>) })"

text \<open>The functions of \<open>src/src/mm/vma.rs\<close> on its own table of address spaces.\<close>

definition get_address_space :: "u64 \<Rightarrow> AddressSpace list \<Rightarrow> AddressSpace list option" where
  "get_address_space pid tab = (if pid < of_nat MAX_ADDRESS_SPACES \<and> as_valid (tab ! unat pid) then Some tab else None)"

definition init_address_space :: "u64 \<Rightarrow> u64 \<Rightarrow> AddressSpace list \<Rightarrow> (unit, string) result \<times> AddressSpace list" where
  "init_address_space pid c tab =
     (if of_nat MAX_ADDRESS_SPACES \<le> pid then (Err ''PID out of range'', tab)
      else (Ok (), tab[unat pid := space_init pid c (tab ! unat pid)]))"

definition free_address_space :: "u64 \<Rightarrow> AddressSpace list \<Rightarrow> AddressSpace list" where
  "free_address_space pid tab =
     (if of_nat MAX_ADDRESS_SPACES \<le> pid then tab
      else tab[unat pid := (tab ! unat pid)\<lparr> vmas := vm_clear (vmas (tab ! unat pid)), as_valid := False \<rparr>])"

section \<open>The \<open>mmap\<close> system call\<close>

definition find_free_mmap_region :: "u64 \<Rightarrow> AddressSpace \<Rightarrow> ((u64, int) result \<times> AddressSpace) option" where
  "find_free_mmap_region sz a = do {
     r \<leftarrow> find_free_region (vmas a) (mmap_current a) user_end sz;
     case r of
       Some addr \<Rightarrow> Some (Ok addr, a\<lparr> mmap_current := addr + sz \<rparr>)
     | None \<Rightarrow> do {
         r \<leftarrow> find_free_region (vmas a) (mmap_base a) user_end sz;
         Some (case r of Some addr \<Rightarrow> (Ok addr, a\<lparr> mmap_current := addr + sz \<rparr>) | None \<Rightarrow> (Err ENO_NOMEM, a)) } }"

datatype FileBacking = Inline "u8 list" | Ext2 "nat \<Rightarrow> nat \<Rightarrow> u8 list" | OtherBacking

record FileHandle =
  file_size :: u64
  file_backing :: FileBacking

definition FD_BASE :: u64 where "FD_BASE = 3"
definition MAX_OPEN_FILES :: nat where "MAX_OPEN_FILES = 16"

text \<open>
  The open files are an argument; a file of the legacy \<open>Ext2\<close> backing is the function that returns the
  bytes \<open>read_at\<close> stores for an offset and a length.
\<close>

definition read_file_into_mapping ::
  "FileHandle option list \<Rightarrow> u64 \<Rightarrow> u64 \<Rightarrow> u64 \<Rightarrow> u64 \<Rightarrow> user_memory \<Rightarrow> (nat, string) result \<times> user_memory" where
  "read_file_into_mapping files fd offset dest len mem =
     (if fd < FD_BASE then (Err ''Invalid file descriptor'', mem)
      else let idx = unat (fd - FD_BASE) in
      if MAX_OPEN_FILES \<le> idx then (Err ''Invalid file descriptor'', mem)
      else case files ! idx of
        None \<Rightarrow> (Err ''File not open'', mem)
      | Some h \<Rightarrow>
          let read_start = min offset (file_size h);
              to_read = unat (min len (saturating_sub (file_size h) read_start));
              pad = (\<lambda>n mem. if n < unat len then write_bytes (dest + of_nat n) 0 (len - of_nat n) mem else mem)
          in if to_read = 0 then (Ok 0, write_bytes dest 0 len mem)
          else case file_backing h of
            Inline data \<Rightarrow>
              let start = unat read_start; fin = min (start + to_read) (length data)
              in if start < length data then (Ok (fin - start), pad (fin - start) (copy_bytes dest (take (fin - start) (drop start data)) mem))
                 else (Ok 0, write_bytes dest 0 len mem)
          | Ext2 read_at \<Rightarrow>
              let bs = take to_read (read_at (unat read_start) to_read)
              in (Ok (length bs), pad (length bs) (copy_bytes dest bs mem))
          | OtherBacking \<Rightarrow> (Err ''Unsupported file backing type for mmap'', write_bytes dest 0 len mem))"

definition mmap_addr :: "u64 \<Rightarrow> u64 \<Rightarrow> bool \<Rightarrow> AddressSpace \<Rightarrow> ((u64, int) result \<times> AddressSpace) option" where
  "mmap_addr addr aligned_length is_fixed a =
     (if is_fixed then
        (if addr = 0 \<or> addr AND (PAGE_SIZE - 1) \<noteq> 0 then Some (Err ENO_INVAL, a)
         else do { a1 \<leftarrow> space_munmap addr aligned_length a; Some (Ok addr, a1) })
      else if addr \<noteq> 0 then do {
        let aligned_hint = page_up addr;
        hit \<leftarrow> vma_find (vmas a) aligned_hint;
        if hit = None then do {
          overlapping \<leftarrow> find_overlapping (vmas a) aligned_hint (aligned_hint + aligned_length) OVERLAP_MAX;
          if length overlapping = 0 then Some (Ok aligned_hint, a) else find_free_mmap_region aligned_length a }
        else find_free_mmap_region aligned_length a }
      else find_free_mmap_region aligned_length a)"

definition mmap_flags :: "u64 \<Rightarrow> VMAFlags" where
  "mmap_flags flags =
     (let is_anon = flags AND MAP_ANONYMOUS \<noteq> 0;
          f0 = from_mmap_flags flags;
          f1 = (if is_anon then flags_insert f0 FLAG_ANONYMOUS else f0);
          f2 = (if flags AND MAP_STACK \<noteq> 0 then flags_insert (flags_insert f1 FLAG_STACK) FLAG_GROWSDOWN else f1)
      in if flags AND MAP_POPULATE = 0 \<and> is_anon then flags_insert f2 FLAG_DEMAND else f2)"

text \<open>The closure of \<open>mmap_vma\<close>, with its early returns.\<close>

definition mmap_in_space ::
  "FileHandle option list \<Rightarrow> u64 \<Rightarrow> u64 \<Rightarrow> u64 \<Rightarrow> u64 \<Rightarrow> int \<Rightarrow> u64 \<Rightarrow> AddressSpace \<Rightarrow> VmSystem \<Rightarrow>
   ((u64, int) result \<times> AddressSpace \<times> VmSystem) option" where
  "mmap_in_space files addr aligned_length prot flags fd offset a s = do {
     let is_anon = flags AND MAP_ANONYMOUS \<noteq> 0;
     (r, a1) \<leftarrow> mmap_addr addr aligned_length (flags AND MAP_FIXED \<noteq> 0) a;
     case r of
       Err e \<Rightarrow> Some (Err e, a1, s)
     | Ok map_addr \<Rightarrow>
         if map_addr < USER_VIRT_BASE \<or> user_end < map_addr + aligned_length then Some (Err ENO_NOMEM, a1, s)
         else do {
           let backing = (if is_anon then Anonymous else if 0 \<le> fd then File (of_int fd) offset else Anonymous);
           (i, a2) \<leftarrow> add_vma (VMA_new map_addr (map_addr + aligned_length) (from_prot prot) (mmap_flags flags) backing) a1;
           if i = None then Some (Err ENO_NOMEM, a2, s)
           else do {
             let mem = (if flags AND MAP_POPULATE \<noteq> 0 \<or> \<not> is_anon then
                  if is_anon then write_bytes map_addr 0 aligned_length (user_mem s)
                  else if 0 \<le> fd then snd (read_file_into_mapping files (of_int fd) offset map_addr aligned_length (user_mem s))
                  else user_mem s
                else user_mem s);
             let a3 = bump (\<lambda>s. s\<lparr> mmap_count := mmap_count s + 1 \<rparr>) a2;
             (_, m) \<leftarrow> try_merge map_addr (vmas a3);
             Some (Ok map_addr, a3\<lparr> vmas := m \<rparr>, s\<lparr> user_mem := mem \<rparr>) } } }"

definition mmap_vma ::
  "FileHandle option list \<Rightarrow> u64 option \<Rightarrow> u64 \<Rightarrow> u64 \<Rightarrow> u64 \<Rightarrow> u64 \<Rightarrow> int \<Rightarrow> u64 \<Rightarrow> VmSystem \<Rightarrow> (u64 \<times> VmSystem) option" where
  "mmap_vma files cur addr len prot flags fd offset s =
     (if len = 0 then Some (MAP_FAILED, s\<lparr> vm_errno := ENO_INVAL \<rparr>)
      else do {
        (r, s1) \<leftarrow> with_current_address_space cur (mmap_in_space files addr (page_up len) prot flags fd offset) s;
        Some (case r of
            Ok (Ok a) \<Rightarrow> (a, s1\<lparr> vm_errno := 0 \<rparr>)
          | Ok (Err e) \<Rightarrow> (MAP_FAILED, s1\<lparr> vm_errno := e \<rparr>)
          | Err _ \<Rightarrow> (MAP_FAILED, s1\<lparr> vm_errno := ENO_NOMEM \<rparr>)) })"

section \<open>The other system calls\<close>

text \<open>A call of a method that only changes the address space.\<close>

definition in_space :: "(AddressSpace \<Rightarrow> AddressSpace option) \<Rightarrow> AddressSpace \<Rightarrow> VmSystem \<Rightarrow> (unit \<times> AddressSpace \<times> VmSystem) option" where
  "in_space f a s = do { a1 \<leftarrow> f a; Some ((), a1, s) }"

definition munmap_vma :: "u64 option \<Rightarrow> u64 \<Rightarrow> u64 \<Rightarrow> VmSystem \<Rightarrow> (u64 \<times> VmSystem) option" where
  "munmap_vma cur addr len s =
     (if addr AND (PAGE_SIZE - 1) \<noteq> 0 then Some (- 1, s\<lparr> vm_errno := ENO_INVAL \<rparr>)
      else if len = 0 then Some (- 1, s\<lparr> vm_errno := ENO_INVAL \<rparr>)
      else do {
        (r, s1) \<leftarrow> with_current_address_space cur (in_space (space_munmap addr (page_up len))) s;
        Some (case r of Ok _ \<Rightarrow> (0, s1\<lparr> vm_errno := 0 \<rparr>) | Err _ \<Rightarrow> (- 1, s1\<lparr> vm_errno := ENO_INVAL \<rparr>)) })"

definition mprotect_vma :: "u64 option \<Rightarrow> u64 \<Rightarrow> u64 \<Rightarrow> u64 \<Rightarrow> VmSystem \<Rightarrow> (u64 \<times> VmSystem) option" where
  "mprotect_vma cur addr len prot s =
     (if addr AND (PAGE_SIZE - 1) \<noteq> 0 then Some (- 1, s\<lparr> vm_errno := ENO_INVAL \<rparr>)
      else if len = 0 then Some (0, s\<lparr> vm_errno := 0 \<rparr>)
      else do {
        (r, s1) \<leftarrow> with_current_address_space cur (in_space (space_mprotect addr (page_up len) prot)) s;
        Some (case r of Ok _ \<Rightarrow> (0, s1\<lparr> vm_errno := 0 \<rparr>) | Err _ \<Rightarrow> (- 1, s1\<lparr> vm_errno := ENO_INVAL \<rparr>)) })"

definition brk_in_space :: "u64 \<Rightarrow> AddressSpace \<Rightarrow> VmSystem \<Rightarrow> (u64 \<times> AddressSpace \<times> VmSystem) option" where
  "brk_in_space addr a s =
     (if addr = 0 then Some (heap_end a, a, s)
      else do {
        (r, a1) \<leftarrow> space_brk addr a;
        Some (case r of
            Ok new_brk \<Rightarrow> (new_brk, a1,
              if heap_end a1 < new_brk then s\<lparr> user_mem := write_bytes (heap_end a1) 0 (new_brk - heap_end a1) (user_mem s) \<rparr> else s)
          | Err _ \<Rightarrow> (heap_end a1, a1, s\<lparr> vm_errno := ENO_NOMEM \<rparr>)) })"

definition brk_vma :: "u64 option \<Rightarrow> u64 \<Rightarrow> VmSystem \<Rightarrow> (u64 \<times> VmSystem) option" where
  "brk_vma cur addr s = do {
     (r, s1) \<leftarrow> with_current_address_space cur (brk_in_space addr) s;
     Some (case r of Ok brk \<Rightarrow> (brk, s1\<lparr> vm_errno := 0 \<rparr>) | Err _ \<Rightarrow> (HEAP_BASE, s1)) }"

definition handle_user_page_fault :: "u64 option \<Rightarrow> u64 \<Rightarrow> bool \<Rightarrow> VmSystem \<Rightarrow> ((unit, string) result \<times> VmSystem) option" where
  "handle_user_page_fault cur fault_addr is_w s = do {
     (r, s1) \<leftarrow> with_current_address_space cur (\<lambda>a s. do { (r, a1) \<leftarrow> handle_fault fault_addr is_w a; Some (r, a1, s) }) s;
     Some (case r of Ok r \<Rightarrow> r | Err e \<Rightarrow> Err e, s1) }"

definition get_vma_stats :: "u64 option \<Rightarrow> VmSystem \<Rightarrow> (VMAStats option \<times> VmSystem) option" where
  "get_vma_stats cur s = do {
     (r, s1) \<leftarrow> with_current_address_space cur (\<lambda>a s. Some (vm_stats (vmas a), a, s)) s;
     Some (case r of Ok st \<Rightarrow> Some st | Err _ \<Rightarrow> None, s1) }"

end
