(* ===== verification/Vma_Safety.thy ===== *)
theory Vma_Safety
  imports Vma_Space
begin

text \<open>
  Every operation on the area manager returns and keeps the pool well formed, whatever the areas and
  the arguments are: no index leaves the pool, no loop runs forever and no node is both free and
  linked.  The lemmas here need no order of the areas.
\<close>

section \<open>Calls that return\<close>

definition returns :: "('a \<Rightarrow> bool) \<Rightarrow> 'a option \<Rightarrow> bool" where
  "returns P x \<longleftrightarrow> (\<exists>r. x = Some r \<and> P r)"

lemma returns_Some [simp]: "returns P (Some r) = P r" and returns_None [simp]: "\<not> returns P None"
  by (simp_all add: returns_def)

lemma returns_bind: "returns P x \<Longrightarrow> (\<And>r. P r \<Longrightarrow> returns Q (f r)) \<Longrightarrow> returns Q (Option.bind x f)"
  by (auto simp: returns_def)

lemma returns_map: "returns P (map_option f x) = returns (\<lambda>r. P (f r)) x"
  by (auto simp: returns_def)

lemma returns_mono: "returns P x \<Longrightarrow> (\<And>r. P r \<Longrightarrow> Q r) \<Longrightarrow> returns Q x"
  by (auto simp: returns_def)

section \<open>The initial pool\<close>

definition vm_ok :: "VMAManager \<Rightarrow> bool" where
  "vm_ok m \<longleftrightarrow> (\<exists>t. vm_inv m t)"

lemma free_at_upto:
  assumes "k < n" "n \<le> MAX_VMAS" "\<forall>i. k \<le> i \<and> i < n - 1 \<longrightarrow> n_left (ns (int i)) = int (i + 1)" "n_left (ns (int (n - 1))) = - 1"
  shows "free_at ns (int k) (map int [k..<n])"
  using assms
proof (induction "n - k" arbitrary: k)
  case (Suc d)
  show ?case
  proof (cases "Suc k < n")
    case True
    then have "free_at ns (int (Suc k)) (map int [Suc k..<n])" by (intro Suc.hyps(1)) (use Suc.hyps(2) Suc.prems in auto)
    moreover have "n_left (ns (int k)) = int (Suc k)" using Suc.prems(3) True by simp
    ultimately show ?thesis using Suc.prems(1,2) by (simp add: upt_conv_Cons valid_idx_def)
  next
    case False
    then have "n = Suc k" using Suc.prems(1) by simp
    then show ?thesis using Suc.prems(2,4) by (simp add: valid_idx_def)
  qed
qed simp

lemma fold_slots:
  "fold (\<lambda>i ns. ns(int i := f i (ns (int i)))) [0..<n] ns = (\<lambda>j. if 0 \<le> j \<and> j < int n then f (nat j) (ns j) else ns j)"
proof (induction n)
  case (Suc n)
  have "(if 0 \<le> j \<and> j < 1 + int n then f (nat j) (ns j) else ns j) = ((\<lambda>j. if 0 \<le> j \<and> j < int n then f (nat j) (ns j) else ns j)(int n := f n (ns (int n)))) j" for j
    by auto
  then show ?case using Suc by (simp add: fun_eq_iff)
qed (auto simp: fun_eq_iff)

lemma valid_idx_image: "set (map int [0..<MAX_VMAS]) = Collect valid_idx"
proof -
  have "i \<in> int ` {0..<MAX_VMAS}" if "valid_idx i" for i using that by (intro image_eqI [of _ _ "nat i"]) (auto simp: valid_idx_def)
  then show ?thesis by (auto simp: valid_idx_def)
qed

lemma vm_inv_empty:
  assumes "vm_root m = - 1" "vm_count m = 0" "free_head m = 0"
    and "\<forall>i. i < MAX_VMAS - 1 \<longrightarrow> n_left (vm_nodes m (int i)) = int (i + 1)" "n_left (vm_nodes m (int (MAX_VMAS - 1))) = - 1"
  shows "vm_inv m Leaf"
proof -
  have "free_at (vm_nodes m) (int 0) (map int [0..<MAX_VMAS])" by (rule free_at_upto) (use assms in \<open>auto simp: MAX_VMAS_def\<close>)
  then have "free_at (vm_nodes m) (free_head m) (map int [0..<MAX_VMAS])" using assms(3) by simp
  moreover have "distinct (map int [0..<MAX_VMAS])" by (simp add: distinct_map)
  ultimately show ?thesis unfolding vm_inv_def
    using assms(1,2) valid_idx_image by (intro conjI exI [of _ "map int [0..<MAX_VMAS]"]) (simp_all add: vm_rep_def)
qed

lemma vm_inv_default: "vm_inv VMAManager_default Leaf"
  by (rule vm_inv_empty)
    (simp_all add: VMAManager_default_def vm_init_def VMAManager_new_def fold_slots [where f = "\<lambda>i n. n\<lparr> n_left := int (i + 1) \<rparr>", simplified] MAX_VMAS_def)

lemma vm_inv_clear: "vm_inv (vm_clear m) Leaf"
  by (rule vm_inv_empty)
    (simp_all add: vm_clear_def fold_slots [where f = "\<lambda>i n. VMANode_empty\<lparr> n_left := int (i + 1) \<rparr>", simplified] MAX_VMAS_def)

lemma vm_ok_default [simp]: "vm_ok VMAManager_default" and vm_ok_clear [simp]: "vm_ok (vm_clear m)"
  using vm_inv_default vm_inv_clear by (auto simp: vm_ok_def)

lemma vm_ok_stats [simp]: "vm_ok (m\<lparr> vm_stats := st \<rparr>) = vm_ok m"
  by (simp add: vm_ok_def vm_inv_def vm_rep_def)

section \<open>The operations\<close>

lemma vma_insert_total:
  assumes "vm_ok m"
  shows "returns (\<lambda>r. vm_ok (snd r)) (vma_insert v m)"
proof -
  obtain t where t: "vm_inv m t" using assms by (auto simp: vm_ok_def)
  consider "\<not> vma_is_valid v" | "vma_is_valid v" "size t = MAX_VMAS" | "vma_is_valid v" "size t < MAX_VMAS"
    using vm_inv_size [OF t] by linarith
  then show ?thesis
  proof cases
    case 1
    then show ?thesis using assms by (simp add: vma_insert_def)
  next
    case 2
    then show ?thesis using assms alloc_node_full [OF t] by (simp add: vma_insert_def)
  next
    case 3
    then obtain i m' where "vma_insert v m = Some (Some i, m')" "valid_idx i" "vm_inv m' (insert_tree v i t)"
      using vma_insert_rep [OF t] by blast
    then show ?thesis by (auto simp: vm_ok_def)
  qed
qed

lemma vma_remove_total:
  assumes "vm_ok m"
  shows "returns (\<lambda>r. vm_ok (snd r)) (vma_remove s m)"
proof -
  obtain t where t: "vm_inv m t" using assms by (auto simp: vm_ok_def)
  have z: "zip_at m [] t" "vm_root m = root_idx t" using t by (simp_all add: vm_inv_def vm_rep_def zip_at_root)
  let ?cs = "fst (seek s [] t)" and ?u = "snd (seek s [] t)"
  have p: "plug ?cs ?u = t" using seek_plug [of s "[]" t] by simp
  show ?thesis
  proof (cases ?u rule: root_idx.cases)
    case 1
    then show ?thesis using assms start_loop_zip [OF z(1), of s] z(2) by (simp add: vma_remove_def)
  next
    case (2 l x v c k r)
    have inv: "vm_inv m (plug ?cs (Node l (x, v, c, k) r))" using t p 2 by simp
    obtain m' t' where m': "remove_node x m = Some m'" "vm_inv m' t'" by (rule remove_node_rep [OF inv])
    have zx: "zip_at m ?cs (Node l (x, v, c, k) r)" using inv by (simp add: vm_inv_def vm_rep_plug)
    show ?thesis using start_loop_zip [OF z(1), of s] z(2) 2 zip_node(1,3) [OF zx] m' by (auto simp: vma_remove_def vm_ok_def vm_inv_def vm_rep_def)
  qed
qed

text \<open>Every area of the tree stands below some path.\<close>

lemma entry_path: "(x, v) \<in> set (entries t) \<Longrightarrow> \<exists>cs l c k r. t = plug cs (Node l (x, v, c, k) r)"
proof (induction t)
  case (Node l a r)
  obtain y w d q where a: "a = (y, w, d, q)" by (cases a)
  consider "(x, v) \<in> set (entries l)" | "(x, v) = (y, w)" | "(x, v) \<in> set (entries r)" using Node.prems a by auto
  then show ?case
  proof cases
    case 1
    then obtain cs l' c k r' where "l = plug cs (Node l' (x, v, c, k) r')" using Node.IH(1) by blast
    then have "Node l a r = plug (cs @ [LeftOf a r]) (Node l' (x, v, c, k) r')" by (simp add: plug_append)
    then show ?thesis by blast
  next
    case 2
    then have "Node l a r = plug [] (Node l (x, v, d, q) r)" using a by simp
    then show ?thesis by blast
  next
    case 3
    then obtain cs l' c k r' where "r = plug cs (Node l' (x, v, c, k) r')" using Node.IH(2) by blast
    then have "Node l a r = plug (cs @ [RightOf l a]) (Node l' (x, v, c, k) r')" by (simp add: plug_append)
    then show ?thesis by blast
  qed
qed simp

lemma vm_ok_store:
  assumes "vm_inv m t" "(x, v) \<in> set (entries t)"
  shows "vm_ok (m\<lparr> vm_nodes := (vm_nodes m)(x := (vm_nodes m x)\<lparr> n_vma := w \<rparr>) \<rparr>)"
proof -
  obtain cs l c k r where "t = plug cs (Node l (x, v, c, k) r)" using entry_path [OF assms(2)] by blast
  then show ?thesis using vm_inv_store [of m cs l x v c k r w] assms(1) by (auto simp: vm_ok_def)
qed

lemma modify_area_total:
  assumes "vm_ok m"
  shows "returns (\<lambda>r. vm_ok (snd r)) (modify_area s f m)"
proof -
  obtain t where t: "vm_inv m t" using assms by (auto simp: vm_ok_def)
  show ?thesis
  proof (cases "tfind s t")
    case None
    then show ?thesis using assms vma_find_mut_tree [OF t, of s] by (auto simp: modify_area_def)
  next
    case (Some e)
    have e: "(fst e, snd e) \<in> set (entries t)" using tfind_in [OF Some] by simp
    have "valid_idx (fst e)" using tree_at_vma [of "vm_nodes m" "- 1" t] vm_inv_tree [OF t] e by blast
    then show ?thesis using vma_find_mut_tree [OF t, of s] Some vm_ok_store [OF t e] by (simp add: modify_area_def upd_node_def)
  qed
qed

lemma overlapping_total:
  "tree_at (vm_nodes m) p t \<Longrightarrow> \<exists>ixs. find_overlapping_recursive m s e cap (root_idx t) buf = Some (buf @ ixs) \<and> set ixs \<subseteq> idx_set t"
proof (induction t arbitrary: p buf)
  case Leaf
  then show ?case by (subst find_overlapping_recursive.simps) simp
next
  case (Node l a r)
  obtain x v c k where a: "a = (x, v, c, k)" by (cases a)
  note n = tree_at_node [OF Node.prems [unfolded a]]
  show ?case
  proof (cases "cap \<le> length buf")
    case True
    then show ?thesis by (subst find_overlapping_recursive.simps) simp
  next
    case False
    obtain ixs where ixs: "(if 0 \<le> root_idx l then (case vma_node m (root_idx l) of None \<Rightarrow> Some buf
        | Some d \<Rightarrow> if s < n_max_end d then find_overlapping_recursive m s e cap (root_idx l) buf else Some buf) else Some buf) = Some (buf @ ixs)"
      "set ixs \<subseteq> idx_set l"
    proof (cases "0 \<le> root_idx l \<and> (\<exists>d. vma_node m (root_idx l) = Some d \<and> s < n_max_end d)")
      case True
      then show ?thesis using Node.IH(1) [OF n(5), of buf] that by auto
    next
      case False
      then show ?thesis using that [of "[]"] by (cases "vma_node m (root_idx l)") auto
    qed
    let ?b = "if vma_overlaps v s e \<and> length (buf @ ixs) < cap then (buf @ ixs) @ [x] else buf @ ixs"
    obtain js where js: "(if vma_start v < e then find_overlapping_recursive m s e cap (root_idx r) ?b else Some ?b) = Some (?b @ js)" "set js \<subseteq> idx_set r"
      using Node.IH(2) [OF n(6), of ?b] by (cases "vma_start v < e") auto
    have "find_overlapping_recursive m s e cap x buf = Some (?b @ js)"
      using n(2,3) False by (subst find_overlapping_recursive.simps)
        (simp only: ixs(1) js(1) cell_simps option.case Option.bind.simps Let_def de_Morgan_disj simp_thms if_False)
    then show ?thesis using ixs(2) js(2) a by (cases "vma_overlaps v s e \<and> length (buf @ ixs) < cap") auto
  qed
qed

lemma find_overlapping_total:
  assumes "vm_ok m"
  shows "\<exists>ixs. find_overlapping m s e cap = Some ixs \<and> (\<forall>i\<in>set ixs. valid_idx i)"
proof -
  obtain t where t: "tree_at (vm_nodes m) (- 1) t" "vm_root m = root_idx t" using assms vm_inv_tree by (auto simp: vm_ok_def)
  obtain ixs where "find_overlapping m s e cap = Some ixs" "set ixs \<subseteq> idx_set t"
    using overlapping_total [OF t(1), of s e cap "[]"] t(2) by (auto simp: find_overlapping_def)
  then show ?thesis using tree_at_valid [OF t(1)] by blast
qed

lemma previous_loop_total: "tree_at (vm_nodes m) p t \<Longrightarrow> \<exists>r. previous_loop m addr (root_idx t) res = Some r"
proof (induction t arbitrary: p res)
  case Leaf
  then show ?case by (subst previous_loop.simps) simp
next
  case (Node l a r)
  obtain x v c k where a: "a = (x, v, c, k)" by (cases a)
  show ?case using Node.IH tree_at_node [OF Node.prems [unfolded a]] a by (subst previous_loop.simps) auto
qed

lemma next_loop_total: "tree_at (vm_nodes m) p t \<Longrightarrow> \<exists>r. next_loop m addr (root_idx t) res = Some r"
proof (induction t arbitrary: p res)
  case Leaf
  then show ?case by (subst next_loop.simps) simp
next
  case (Node l a r)
  obtain x v c k where a: "a = (x, v, c, k)" by (cases a)
  show ?case using Node.IH tree_at_node [OF Node.prems [unfolded a]] a by (subst next_loop.simps) auto
qed

lemma absorb_total: "vm_ok m \<Longrightarrow> returns vm_ok (absorb keep e d m)"
  unfolding absorb_def
  by (rule returns_bind [OF modify_area_total], assumption, clarsimp, rule returns_bind [OF vma_remove_total], assumption)
    (clarsimp simp: count_merge_def)

lemma try_merge_total:
  assumes "vm_ok m"
  shows "returns (\<lambda>r. vm_ok (snd r)) (try_merge s m)"
proof -
  obtain t where t: "vm_inv m t" using assms by (auto simp: vm_ok_def)
  have z: "zip_at m [] t" "vm_root m = root_idx t" "tree_at (vm_nodes m) (- 1) t"
    using t by (simp_all add: vm_inv_def vm_rep_def zip_at_root)
  let ?u = "snd (seek s [] t)"
  show ?thesis
  proof (cases ?u rule: root_idx.cases)
    case 1
    then show ?thesis using assms start_loop_zip [OF z(1), of s] z(2) by (auto simp: try_merge_def)
  next
    case (2 l x v c k r)
    have zx: "zip_at m (fst (seek s [] t)) (Node l (x, v, c, k) r)"
      using z(1) seek_plug [of s "[]" t] 2 by (simp flip: vm_rep_plug)
    obtain pr nx where pn: "find_previous m (vma_start v) = Some pr" "find_next m (vma_end v) = Some nx"
      using previous_loop_total [OF z(3)] next_loop_total [OF z(3)] z(2) by (fastforce simp: find_previous_def find_next_def)
    show ?thesis using start_loop_zip [OF z(1), of s] z(2) 2 zip_node(1,3) [OF zx] pn assms absorb_total [OF assms]
      by (auto simp: try_merge_def Let_def returns_map split: option.split)
  qed
qed

lemma insert_all_total: "vm_ok m \<Longrightarrow> returns vm_ok (insert_all vs m)"
proof (induction vs arbitrary: m)
  case (Cons v vs)
  then show ?case using returns_bind [OF vma_insert_total [OF Cons.prems, of v], of vm_ok] by auto
qed simp

lemma searches_total:
  assumes "vm_ok m"
  shows "\<exists>r. vma_find m a = Some r" "\<exists>vs. vma_iter m = Some vs" "\<exists>r. find_free_region m lo hi sz = Some r"
  using assms vma_find_tree vma_iter_total find_free_region_tree unfolding vm_ok_def by blast+

end
