(* ===== verification/Vma_Calls.thy ===== *)
theory Vma_Calls
  imports Vma_Safety
begin

text \<open>
  The calls of \<open>src/src/syscalls/memory_vma.rs\<close> as a whole: any sequence of them, with any arguments and
  by any process, returns and keeps every address space well formed; and what \<open>brk\<close> does and does not
  do.  The dispatcher of \<open>src/src/syscalls/mod.rs\<close> uses \<open>brk_vma\<close> of them and the older functions of
  \<open>memory.rs\<close> for the others; the calls of \<open>memory_advanced.rs\<close> (\<open>mremap\<close>, \<open>madvise\<close>, \<open>mlock\<close>, \<open>msync\<close>), which
  work on the same address spaces, are not modelled.
\<close>

section \<open>Operations of an address space\<close>

abbreviation space_ok :: "AddressSpace \<Rightarrow> bool" where
  "space_ok a \<equiv> vm_ok (vmas a)"

lemma space_ok_init [simp]: "space_ok (space_init pid c a)"
  by (simp add: space_init_def)

lemma space_ok_bump [simp]: "space_ok (bump f a) = space_ok a" "space_ok (bump_split n a) = space_ok a"
  by (simp_all add: bump_def bump_split_def)

lemma add_vma_total: "space_ok a \<Longrightarrow> returns (\<lambda>r. space_ok (snd r)) (add_vma v a)"
  unfolding add_vma_def by (rule returns_bind [OF vma_insert_total]) auto

lemma space_brk_total: "space_ok a \<Longrightarrow> returns (\<lambda>r. space_ok (snd r)) (space_brk b a)"
  unfolding space_brk_def
  using returns_bind [OF add_vma_total [of a "heap_vma (heap_end a) b"], of "\<lambda>r. space_ok (snd r)" "\<lambda>r. Some (Ok b, (snd r)\<lparr> heap_end := b \<rparr>)"]
  by (auto simp: split_def returns_def)

lemma trim_area_total: "space_ok a \<Longrightarrow> returns space_ok (trim_area s f a)"
  unfolding trim_area_def by (rule returns_bind [OF modify_area_total]) auto

lemma punch_area_total:
  assumes "space_ok a"
  shows "returns space_ok (punch_area s addr e a)"
proof -
  obtain t where t: "vm_inv (vmas a) t" using assms by (auto simp: vm_ok_def)
  show ?thesis
  proof (cases "tfind s t")
    case None
    then show ?thesis using assms vma_find_mut_tree [OF t, of s] by (simp add: punch_area_def)
  next
    case (Some z)
    have z: "(fst z, snd z) \<in> set (entries t)" using tfind_in [OF Some] by simp
    then have "valid_idx (fst z)" using tree_at_vma [of "vm_nodes (vmas a)" "- 1" t] vm_inv_tree [OF t] by blast
    moreover have "returns space_ok (do { (_, a1) \<leftarrow> add_vma u (a\<lparr> vmas := (vmas a)\<lparr> vm_nodes := (vm_nodes (vmas a))
        (fst z := (vm_nodes (vmas a) (fst z))\<lparr> n_vma := w \<rparr>) \<rparr> \<rparr>); Some (bump_split 2 a1) })" for u w
      by (rule returns_bind [OF add_vma_total]) (use vm_ok_store [OF t z] in auto)
    ultimately show ?thesis using assms vma_find_mut_tree [OF t, of s] Some
      by (simp add: punch_area_def node_at_def upd_node_def split: prod.split option.split)
  qed
qed

lemma munmap_one_total: "space_ok a \<Longrightarrow> valid_idx i \<Longrightarrow> returns space_ok (munmap_one addr e i a)"
  using punch_area_total trim_area_total
  by (auto simp: munmap_one_def node_at_def Let_def split_def intro!: returns_bind [OF vma_remove_total])

lemma munmap_loop_total: "space_ok a \<Longrightarrow> \<forall>i\<in>set ixs. valid_idx i \<Longrightarrow> returns space_ok (munmap_loop addr e ixs a)"
proof (induction ixs arbitrary: a)
  case (Cons i ixs)
  then show ?case by (simp, intro returns_bind [OF munmap_one_total]) auto
qed simp

lemma find_overlapping_returns: "vm_ok m \<Longrightarrow> returns (\<lambda>ixs. \<forall>i\<in>set ixs. valid_idx i) (find_overlapping m s e cap)"
  using find_overlapping_total by (simp add: returns_def)

lemma space_munmap_total: "space_ok a \<Longrightarrow> returns space_ok (space_munmap addr len a)"
  unfolding space_munmap_def Let_def
  by (intro returns_bind [OF find_overlapping_returns] returns_bind [OF munmap_loop_total]) auto

lemma mprotect_one_total: "space_ok a \<Longrightarrow> valid_idx i \<Longrightarrow> returns space_ok (mprotect_one p i a)"
  by (auto simp: mprotect_one_def node_at_def split_def intro!: returns_bind [OF modify_area_total])

lemma mprotect_loop_total: "space_ok a \<Longrightarrow> \<forall>i\<in>set ixs. valid_idx i \<Longrightarrow> returns space_ok (mprotect_loop p ixs a)"
proof (induction ixs arbitrary: a)
  case (Cons i ixs)
  then show ?case by (simp, intro returns_bind [OF mprotect_one_total]) auto
qed simp

lemma space_mprotect_total: "space_ok a \<Longrightarrow> returns space_ok (space_mprotect addr len prot a)"
  unfolding space_mprotect_def Let_def
  by (intro returns_bind [OF find_overlapping_returns] returns_bind [OF mprotect_loop_total]) auto

lemma handle_fault_total: "space_ok a \<Longrightarrow> returns (\<lambda>r. space_ok (snd r)) (handle_fault addr w a)"
  using searches_total(1) [of "vmas a" addr] by (auto simp: handle_fault_def split: option.split)

lemma find_free_mmap_region_total: "space_ok a \<Longrightarrow> returns (\<lambda>r. space_ok (snd r)) (find_free_mmap_region sz a)"
  using searches_total(3) [of "vmas a" "mmap_current a" user_end sz] searches_total(3) [of "vmas a" "mmap_base a" user_end sz]
  by (auto simp: find_free_mmap_region_def split: option.split)

lemma mmap_addr_total: "space_ok a \<Longrightarrow> returns (\<lambda>r. space_ok (snd r)) (mmap_addr addr len f a)"
  using searches_total(1) [of "vmas a" "page_up addr"] find_free_mmap_region_total [of a len]
    find_overlapping_total [of "vmas a" "page_up addr" "page_up addr + len" OVERLAP_MAX]
  by (auto simp: mmap_addr_def Let_def intro!: returns_bind [OF space_munmap_total])

lemma space_mmap_addr_total: "space_ok a \<Longrightarrow> returns (\<lambda>r. space_ok (snd r)) (space_mmap_addr addr len f a)"
  using searches_total(1) [of "vmas a" "page_up addr"] searches_total(3) [of "vmas a" "mmap_current a" user_end len]
  by (auto simp: space_mmap_addr_def split: option.split)

lemma space_mmap_total: "space_ok a \<Longrightarrow> returns (\<lambda>r. space_ok (snd r)) (space_mmap addr len prot flags a)"
  unfolding space_mmap_def Let_def
proof (rule returns_bind [OF space_mmap_addr_total], goal_cases)
  case (2 r)
  then show ?case by (cases r; cases "fst r") (auto simp: split_def intro!: returns_bind [OF add_vma_total])
qed

lemma merge_step_total:
  assumes "space_ok a"
  shows "returns (\<lambda>r. space_ok (fst (snd r)) \<and> spaces (snd (snd r)) = spaces s)
    (do { (_, m) \<leftarrow> try_merge y (vmas (bump f a)); Some (Ok y, (bump f a)\<lparr> vmas := m \<rparr>, s\<lparr> user_mem := mem \<rparr>) })"
  by (rule returns_bind [OF try_merge_total]) (use assms in \<open>auto simp: split_def\<close>)

lemma merge_step_same:
  assumes "space_ok a"
  shows "returns (\<lambda>r. space_ok (fst (snd r)) \<and> spaces (snd (snd r)) = spaces s)
    (do { (_, m) \<leftarrow> try_merge y (vmas (bump f a)); Some (Ok y, (bump f a)\<lparr> vmas := m \<rparr>, s) })"
  using merge_step_total [OF assms, of s y f "user_mem s"] by simp

lemma mmap_in_space_total: "space_ok a \<Longrightarrow> returns (\<lambda>r. space_ok (fst (snd r)) \<and> spaces (snd (snd r)) = spaces s)
    (mmap_in_space files addr len prot flags fd offset a s)"
  unfolding mmap_in_space_def Let_def
proof (rule returns_bind [OF mmap_addr_total], assumption, goal_cases)
  case (1 r)
  obtain x a1 where r: "r = (x, a1)" by (cases r)
  show ?case
  proof (cases x)
    case (Ok y)
    show ?thesis unfolding r Ok prod.case result.case
    proof (cases "y < USER_VIRT_BASE \<or> user_end < y + len", simp_all only: if_True if_False returns_Some, goal_cases)
      case 1
      then show ?case using \<open>space_ok (snd r)\<close> r by simp
    next
      case 2
      show ?case by (rule returns_bind [OF add_vma_total]) (use \<open>space_ok (snd r)\<close> r in \<open>auto intro: merge_step_total merge_step_same\<close>)
    qed
  qed (use 1 r in auto)
qed

section \<open>Sequences of system calls\<close>

definition sys_ok :: "VmSystem \<Rightarrow> bool" where
  "sys_ok s \<longleftrightarrow> length (spaces s) = MAX_ADDRESS_SPACES \<and> (\<forall>a\<in>set (spaces s). as_valid a \<longrightarrow> space_ok a)"

lemma sys_ok_new: "sys_ok VmSystem_new"
  by (simp add: sys_ok_def VmSystem_new_def AddressSpace_empty_def)

lemma sys_ok_upd: "sys_ok s \<Longrightarrow> space_ok a \<Longrightarrow> sys_ok (s\<lparr> spaces := (spaces s)[i := a] \<rparr>)"
  by (auto simp: sys_ok_def dest: set_update_subset_insert [THEN subsetD])

lemma sys_ok_fields [simp]: "sys_ok (s\<lparr> vm_errno := e \<rparr>) = sys_ok s" "sys_ok (s\<lparr> user_mem := mem \<rparr>) = sys_ok s"
  by (simp_all add: sys_ok_def)

lemma sys_ok_nth: "sys_ok s \<Longrightarrow> \<not> of_nat MAX_ADDRESS_SPACES \<le> (pid :: u64) \<Longrightarrow> as_valid (spaces s ! unat pid) \<Longrightarrow> space_ok (spaces s ! unat pid)"
proof -
  assume s: "sys_ok s" "\<not> of_nat MAX_ADDRESS_SPACES \<le> pid" and v: "as_valid (spaces s ! unat pid)"
  have "unat pid < MAX_ADDRESS_SPACES" using s(2) by (simp add: word_le_nat_alt MAX_ADDRESS_SPACES_def)
  then show ?thesis using s(1) v by (simp add: sys_ok_def)
qed

lemma with_current_total:
  assumes "sys_ok s" "\<And>a. space_ok a \<Longrightarrow> returns (\<lambda>r. space_ok (fst (snd r)) \<and> spaces (snd (snd r)) = spaces s) (f a s)"
  shows "returns (\<lambda>r. sys_ok (snd r)) (with_current_address_space cur f s)"
proof (cases cur)
  case (Some pid)
  show ?thesis
  proof (cases "of_nat MAX_ADDRESS_SPACES \<le> pid")
    case False
    let ?a = "if as_valid (spaces s ! unat pid) then spaces s ! unat pid else space_init pid 0 (spaces s ! unat pid)"
    have "space_ok ?a" using sys_ok_nth [OF assms(1) False] by simp
    then obtain r a1 s1 where f: "f ?a s = Some (r, a1, s1)" "space_ok a1" "spaces s1 = spaces s"
      using assms(2) [of ?a] by (auto simp: returns_def)
    have "sys_ok s1" using assms(1) f(3) by (simp add: sys_ok_def)
    then show ?thesis using Some False f(1) sys_ok_upd [of s1 a1 "unat pid"] f(2) by (simp add: with_current_address_space_def Let_def)
  qed (use Some assms(1) in \<open>simp add: with_current_address_space_def\<close>)
qed (use assms(1) in \<open>simp add: with_current_address_space_def\<close>)

datatype VmCall =
    Mmap u64 u64 u64 u64 int u64
  | Munmap u64 u64
  | Mprotect u64 u64 u64
  | Brk u64
  | PageFault u64 bool
  | ForkCopy u64 u64
  | InitSpace u64 u64
  | FreeSpace u64

definition vm_call :: "FileHandle option list \<Rightarrow> u64 option \<Rightarrow> VmCall \<Rightarrow> VmSystem \<Rightarrow> VmSystem option" where
  "vm_call files cur call s =
     (case call of
        Mmap addr len prot flags fd offset \<Rightarrow> map_option snd (mmap_vma files cur addr len prot flags fd offset s)
      | Munmap addr len \<Rightarrow> map_option snd (munmap_vma cur addr len s)
      | Mprotect addr len prot \<Rightarrow> map_option snd (mprotect_vma cur addr len prot s)
      | Brk addr \<Rightarrow> map_option snd (brk_vma cur addr s)
      | PageFault addr w \<Rightarrow> map_option snd (handle_user_page_fault cur addr w s)
      | ForkCopy p c \<Rightarrow> map_option snd (copy_address_space_for_fork p c s)
      | InitSpace pid c \<Rightarrow> Some (snd (init_process_address_space pid c s))
      | FreeSpace pid \<Rightarrow> Some (free_process_address_space pid s))"

fun vm_run :: "FileHandle option list \<Rightarrow> (u64 option \<times> VmCall) list \<Rightarrow> VmSystem \<Rightarrow> VmSystem option" where
  "vm_run files [] s = Some s"
| "vm_run files ((cur, call) # cs) s = do { s1 \<leftarrow> vm_call files cur call s; vm_run files cs s1 }"

lemma call_total:
  assumes "sys_ok s" "\<And>a. space_ok a \<Longrightarrow> returns (\<lambda>r. space_ok (fst (snd r)) \<and> spaces (snd (snd r)) = spaces s) (f a s)"
    and "\<And>r s'. sys_ok s' \<Longrightarrow> sys_ok (snd (g r s'))"
  shows "returns (\<lambda>r. sys_ok (snd r)) (do { (r, s1) \<leftarrow> with_current_address_space cur f s; Some (g r s1) })"
  by (rule returns_bind [OF with_current_total [of s f, OF assms(1,2)]]) (auto simp: split_def assms(3))

lemma mmap_vma_total: "sys_ok s \<Longrightarrow> returns (\<lambda>r. sys_ok (snd r)) (mmap_vma files cur addr len prot flags fd offset s)"
  unfolding mmap_vma_def
  by (cases "len = 0", simp, simp only: if_False, rule call_total) (auto intro: mmap_in_space_total split: result.split)

lemma in_space_total: "returns space_ok (f a) \<Longrightarrow> returns (\<lambda>r. space_ok (fst (snd r)) \<and> spaces (snd (snd r)) = spaces s) (in_space f a s)"
  unfolding in_space_def by (erule returns_bind) simp

lemma munmap_vma_total: "sys_ok s \<Longrightarrow> returns (\<lambda>r. sys_ok (snd r)) (munmap_vma cur addr len s)"
  unfolding munmap_vma_def
  by (auto intro!: call_total in_space_total space_munmap_total split: result.split)

lemma mprotect_vma_total: "sys_ok s \<Longrightarrow> returns (\<lambda>r. sys_ok (snd r)) (mprotect_vma cur addr len prot s)"
  unfolding mprotect_vma_def
  by (auto intro!: call_total in_space_total space_mprotect_total split: result.split)

lemma brk_in_space_total: "space_ok a \<Longrightarrow> returns (\<lambda>r. space_ok (fst (snd r)) \<and> spaces (snd (snd r)) = spaces s) (brk_in_space addr a s)"
  unfolding brk_in_space_def
  by (auto simp: split_def split: result.split intro!: returns_bind [OF space_brk_total])

lemma brk_vma_total: "sys_ok s \<Longrightarrow> returns (\<lambda>r. sys_ok (snd r)) (brk_vma cur addr s)"
  unfolding brk_vma_def by (auto intro!: call_total brk_in_space_total split: result.split)

lemma fault_total: "sys_ok s \<Longrightarrow> returns (\<lambda>r. sys_ok (snd r)) (handle_user_page_fault cur addr w s)"
  unfolding handle_user_page_fault_def
  by (rule call_total) (auto simp: split_def intro!: returns_bind [OF handle_fault_total])

lemma fork_total:
  assumes "sys_ok s"
  shows "returns (\<lambda>r. sys_ok (snd r)) (copy_address_space_for_fork p c s)"
proof -
  let ?p = "spaces s ! unat p"
  have "returns (\<lambda>r. sys_ok (snd r)) (copy_address_space_for_fork p c s)"
    if pc: "\<not> (of_nat MAX_ADDRESS_SPACES \<le> p \<or> of_nat MAX_ADDRESS_SPACES \<le> c)" "as_valid ?p"
  proof -
    obtain vs where "vma_iter (vmas ?p) = Some vs" using searches_total(2) [OF sys_ok_nth [OF assms]] pc by blast
    moreover have "vmas (space_init c 0 (spaces s ! unat c)) = VMAManager_default" by (simp add: space_init_def)
    moreover obtain m where "insert_all (map fork_area (take FORK_MAX vs)) VMAManager_default = Some m" "vm_ok m"
      using insert_all_total [OF vm_ok_default] by (auto simp: returns_def)
    ultimately show ?thesis using pc sys_ok_upd [OF assms] by (simp add: copy_address_space_for_fork_def Let_def)
  qed
  then show ?thesis using assms by (cases "as_valid ?p") (auto simp: copy_address_space_for_fork_def Let_def)
qed

lemma vm_call_total: "sys_ok s \<Longrightarrow> returns sys_ok (vm_call files cur call s)"
proof (cases call)
  case (InitSpace pid c)
  assume "sys_ok s"
  then show ?thesis using InitSpace sys_ok_upd by (simp add: vm_call_def init_process_address_space_def)
next
  case (FreeSpace pid)
  assume "sys_ok s"
  then show ?thesis using FreeSpace sys_ok_upd by (simp add: vm_call_def free_process_address_space_def Let_def)
qed (simp_all add: vm_call_def returns_map mmap_vma_total munmap_vma_total mprotect_vma_total brk_vma_total fault_total fork_total)

lemma vm_run_total: "sys_ok s \<Longrightarrow> returns sys_ok (vm_run files calls s)"
proof (induction calls arbitrary: s)
  case (Cons c calls)
  then show ?case by (cases c) (auto intro!: returns_bind [OF vm_call_total])
qed simp

end
