(* ===== verification/Vma_Munmap.thy ===== *)
theory Vma_Munmap
  imports Vma_Calls
begin

text \<open>
  What \<open>munmap\<close> leaves mapped.  The loop reads the areas through indices collected beforehand while
  removals move areas between nodes; the area of a pending index stays readable there, and the area is
  found again by its start address.  The result is the list of areas with the range cut out.
\<close>

section \<open>Replacing an area by a part of it\<close>

lemma dominated_insert:
  fixes f :: "'a \<Rightarrow> u64"
  assumes "\<forall>e\<in>S'. \<exists>e'\<in>S. f e \<le> f e'"
  shows "\<forall>e\<in>insert a (S' \<union> T). \<exists>e'\<in>insert a (S \<union> T). f e \<le> f e'"
  using assms order_refl by blast

lemma ctx_max_ok_mono:
  "ctx_max_ok cs S \<Longrightarrow> \<forall>e\<in>S'. \<exists>e'\<in>S. vma_end (snd e) \<le> vma_end (snd e') \<Longrightarrow> ctx_max_ok cs S'"
proof (induction cs S arbitrary: S' rule: ctx_max_ok.induct)
  case (2 x v c k r cs S)
  have "ctx_max_ok cs (insert (x, v) (S' \<union> set (entries r)))" by (rule 2(1) [OF _ dominated_insert [OF 2(3)]]) (use 2(2) in simp)
  moreover have "vma_end (snd e) \<le> k" if e: "e \<in> S'" for e
  proof -
    obtain e' where "e' \<in> S" "vma_end (snd e) \<le> vma_end (snd e')" using 2(3) e by blast
    moreover have "vma_end (snd e') \<le> k" using 2(2) \<open>e' \<in> S\<close> by simp
    ultimately show ?thesis by order
  qed
  ultimately show ?case using 2(2) by auto
next
  case (3 l x v c k cs S)
  have "ctx_max_ok cs (insert (x, v) (S' \<union> set (entries l)))" by (rule 3(1) [OF _ dominated_insert [OF 3(3)]]) (use 3(2) in simp)
  moreover have "vma_end (snd e) \<le> k" if e: "e \<in> S'" for e
  proof -
    obtain e' where "e' \<in> S" "vma_end (snd e) \<le> vma_end (snd e')" using 3(3) e by blast
    moreover have "vma_end (snd e') \<le> k" using 3(2) \<open>e' \<in> S\<close> by simp
    ultimately show ?thesis by order
  qed
  ultimately show ?case using 3(2) by auto
qed simp

lemma max_ok_shrink:
  assumes "max_ok (plug cs (Node l (x, v, c, k) r))" "vma_end w \<le> vma_end v"
  shows "max_ok (plug cs (Node l (x, w, c, k) r))"
proof -
  have m: "max_ok (Node l (x, v, c, k) r)" "ctx_max_ok cs (set (entries (Node l (x, v, c, k) r)))" using assms(1) by (simp_all add: max_ok_plug)
  have "ctx_max_ok cs (set (entries (Node l (x, w, c, k) r)))" 
  proof (rule ctx_max_ok_mono [OF m(2)], rule ballI)
    fix e assume "e \<in> set (entries (Node l (x, w, c, k) r))"
    then consider "e = (x, w)" | "e \<in> set (entries (Node l (x, v, c, k) r))" by auto
    then show "\<exists>e'\<in>set (entries (Node l (x, v, c, k) r)). vma_end (snd e) \<le> vma_end (snd e')"
    proof cases
      case 1
      then show ?thesis using assms(2) by (intro bexI [of _ "(x, v)"]) simp_all
    qed (use order_refl in blast)
  qed
  moreover have "vma_end w \<le> k" using m(1) assms(2) by auto
  ultimately show ?thesis using m(1) by (simp add: max_ok_plug)
qed

definition part_of :: "VMA \<Rightarrow> VMA \<Rightarrow> bool" where
  "part_of w v \<longleftrightarrow> vma_is_valid w \<and> vma_start v \<le> vma_start w \<and> vma_end w \<le> vma_end v"

abbreviation store_area :: "int \<Rightarrow> VMA \<Rightarrow> VMAManager \<Rightarrow> VMAManager" where
  "store_area x w m \<equiv> m\<lparr> vm_nodes := (vm_nodes m)(x := (vm_nodes m x)\<lparr> n_vma := w \<rparr>) \<rparr>"

lemma ordered_part: "ordered (as @ (x, v) # bs) \<Longrightarrow> part_of w v \<Longrightarrow> ordered (as @ (x, w) # bs)"
proof -
  assume ord: "ordered (as @ (x, v) # bs)" and p: "part_of w v"
  have "vma_end (snd y) \<le> vma_start w" if "y \<in> set as" for y
  proof -
    have "vma_end (snd y) \<le> vma_start v" using ord that by simp
    then show ?thesis using p by (auto simp: part_of_def)
  qed
  moreover have "vma_end w \<le> start_of y" if "y \<in> set bs" for y
  proof -
    have "vma_end v \<le> start_of y" using ord that by simp
    then show ?thesis using p by (auto simp: part_of_def)
  qed
  ultimately show ?thesis using ord p by (simp add: part_of_def)
qed

lemma holds_store:
  assumes "holds m es" "(x, v) \<in> set es" "part_of w v"
  obtains as bs where "es = as @ (x, v) # bs" "holds (store_area x w m) (as @ (x, w) # bs)"
proof -
  obtain t where t: "vm_inv m t" "max_ok t" "entries t = es" and ord: "ordered es" using assms(1) by (auto simp: holds_def)
  obtain cs l c k r where p: "t = plug cs (Node l (x, v, c, k) r)" using entry_path assms(2) t(3) by blast
  let ?t = "plug cs (Node l (x, w, c, k) r)" and ?as = "before_hole cs @ entries l" and ?bs = "entries r @ after_hole cs"
  have e: "es = ?as @ (x, v) # ?bs" "entries ?t = ?as @ (x, w) # ?bs" using t(3) p by (auto simp: entries_plug)
  have "vm_inv (store_area x w m) ?t" using vm_inv_store t(1) p by blast
  moreover have "max_ok ?t" using max_ok_shrink t(2) p assms(3) unfolding part_of_def by blast
  moreover have "ordered (?as @ (x, w) # ?bs)" using ordered_part ord e(1) assms(3) by metis
  ultimately have "holds (store_area x w m) (?as @ (x, w) # ?bs)" using e(2) by (auto simp: holds_def)
  then show ?thesis using that e(1) by blast
qed

lemma holds_tree: "holds m es \<Longrightarrow> \<exists>t. vm_inv m t \<and> max_ok t \<and> entries t = es \<and> ordered (entries t)"
  by (auto simp: holds_def)

lemma holds_find_mut:
  assumes "holds m es" "(x, v) \<in> set es"
  shows "vma_find_mut m (vma_start v) = Some (Some x)" "valid_idx x" "n_vma (vm_nodes m x) = v"
proof -
  obtain t where t: "vm_inv m t" "entries t = es" "ordered (entries t)" using holds_tree [OF assms(1)] by blast
  then show "vma_find_mut m (vma_start v) = Some (Some x)" using vma_find_mut_tree [OF t(1)] tfind_start [OF t(3)] assms(2) by simp
  have "tree_at (vm_nodes m) (- 1) t" using vm_inv_tree [OF t(1)] by blast
  then show "valid_idx x" "n_vma (vm_nodes m x) = v" using tree_at_vma assms(2) t(2) by blast+
qed

lemma holds_overlapping: "holds m es \<Longrightarrow> find_overlapping m s e cap = Some (take cap (map fst (filter (meets s e) es)))"
  using find_overlapping_tree holds_tree by blast

lemma holds_stats [simp]: "holds (m\<lparr> vm_stats := st \<rparr>) es = holds m es"
  by (simp add: holds_def vm_inv_def vm_rep_def)

lemma trim_area_holds:
  assumes "holds (vmas a) es" "(x, v) \<in> set es" "part_of (f v) v"
  obtains as bs a' where "es = as @ (x, v) # bs" "trim_area (vma_start v) f a = Some a'" "holds (vmas a') (as @ (x, f v) # bs)"
    "\<forall>i. i \<noteq> x \<longrightarrow> n_vma (vm_nodes (vmas a') i) = n_vma (vm_nodes (vmas a) i)"
proof -
  note fm = holds_find_mut [OF assms(1,2)]
  obtain as bs where s: "es = as @ (x, v) # bs" "holds (store_area x (f v) (vmas a)) (as @ (x, f v) # bs)"
    by (rule holds_store [OF assms])
  let ?a = "bump_split 1 (a\<lparr> vmas := store_area x (f v) (vmas a) \<rparr>)"
  have "trim_area (vma_start v) f a = Some ?a" using fm by (simp add: trim_area_def modify_area_def upd_node_def)
  moreover have "holds (vmas ?a) (as @ (x, f v) # bs)" using s(2) by (simp add: bump_split_def bump_def)
  moreover have "\<forall>i. i \<noteq> x \<longrightarrow> n_vma (vm_nodes (vmas ?a) i) = n_vma (vm_nodes (vmas a) i)" by (simp add: bump_split_def bump_def)
  ultimately show ?thesis using that s(1) by blast
qed

section \<open>Cutting a range out of the areas\<close>

text \<open>
  What is left of an area without \<open>[addr, e)\<close>.  The part above the range keeps its place in a backing
  file only when the area also sticks out below.
\<close>

definition shift_backing :: "u64 \<Rightarrow> VMABacking \<Rightarrow> VMABacking" where
  "shift_backing d b = (case b of File i off \<Rightarrow> File i (off + d) | b \<Rightarrow> b)"

definition cut_area :: "u64 \<Rightarrow> u64 \<Rightarrow> VMA \<Rightarrow> VMA list" where
  "cut_area addr e v =
     (if \<not> vma_overlaps v addr e then [v]
      else (if vma_start v < addr then [v\<lparr> vma_end := addr \<rparr>] else []) @
           (if e < vma_end v
            then [v\<lparr> vma_start := e, vma_backing := (if vma_start v < addr then shift_backing (e - vma_start v) (vma_backing v) else vma_backing v) \<rparr>]
            else []))"

definition cut_areas :: "u64 \<Rightarrow> u64 \<Rightarrow> VMA list \<Rightarrow> VMA list" where
  "cut_areas addr e vs = concat (map (cut_area addr e) vs)"

lemma cut_area_clear: "addr < e \<Longrightarrow> w \<in> set (cut_area addr e v) \<Longrightarrow> \<not> vma_overlaps w addr e"
  by (auto simp: cut_area_def vma_overlaps_def split: if_splits)

text \<open>The range covers everything above or everything below the start of the area.\<close>

abbreviation punched :: "u64 \<Rightarrow> u64 \<Rightarrow> VMA \<Rightarrow> bool" where
  "punched addr e v \<equiv> vma_start v < addr \<and> e < vma_end v"

lemma munmap_one_holds:
  assumes "holds (vmas a) es" "(x, v) \<in> set es" "valid_idx j" "n_vma (vm_nodes (vmas a) j) = v" "vma_overlaps v addr e" "\<not> punched addr e v"
  obtains as bs a' es' where "munmap_one addr e j a = Some a'" "holds (vmas a') es'"
    "map snd es = as @ v # bs" "map snd es' = as @ cut_area addr e v @ bs"
    "\<forall>i. i \<noteq> x \<longrightarrow> n_vma (vm_nodes (vmas a') i) = n_vma (vm_nodes (vmas a) i)"
    "\<forall>(h, w)\<in>set es. h \<noteq> x \<longrightarrow> (h, w) \<in> set es' \<or> (x, w) \<in> set es'"
proof -
  have n: "node_at (vmas a) j = Some (vm_nodes (vmas a) j)" using assms(3) by (simp add: node_at_def)
  have ov: "vma_start v < e" "addr < vma_end v" using assms(5) by (simp_all add: vma_overlaps_def)
  have val: "vma_start v < vma_end v" using assms(1,2) by (auto simp: holds_def ordered_def vma_is_valid_def)
  consider (all) "addr \<le> vma_start v" "vma_end v \<le> e" | (upper) "vma_start v < addr" "vma_end v \<le> e" | (lower) "addr \<le> vma_start v" "e < vma_end v"
    using assms(6) by fastforce
  then show ?thesis
  proof cases
    case all
    obtain m' es' where m': "vma_remove (vma_start v) (vmas a) = Some (Some v, m')" "holds m' es'" "removed_at x es es'"
      "\<forall>i. i \<noteq> x \<longrightarrow> n_vma (vm_nodes m' i) = n_vma (vm_nodes (vmas a) i)" by (rule holds_remove [OF assms(1,2)])
    have ord: "ordered es" using assms(1) by (simp add: holds_def)
    have r: "map snd es' = remove1 v (map snd es)" "\<forall>(h, w)\<in>set es. h \<noteq> x \<longrightarrow> (h, w) \<in> set es' \<or> (x, w) \<in> set es'"
      using removed_at_areas [OF m'(3) ord holds_distinct [OF assms(1)] assms(2)] by auto
    obtain as bs where vs: "map snd es = as @ v # bs" using assms(2) by (metis split_list image_eqI snd_conv list.set_map)
    then have "map snd es' = as @ bs" using r(1) ordered_distinct [OF ord] by (simp add: remove1_append)
    moreover have "cut_area addr e v = []" using all ov by (auto simp: cut_area_def vma_overlaps_def)
    moreover have "munmap_one addr e j a = Some (a\<lparr> vmas := m' \<rparr>)" using n assms(4) all m'(1) by (simp add: munmap_one_def)
    ultimately show ?thesis using that vs r(2) m'(2,4) by simp
  next
    case upper
    then have "part_of (v\<lparr> vma_end := addr \<rparr>) v" using ov by (simp add: part_of_def vma_is_valid_def)
    then obtain as bs a' where t: "es = as @ (x, v) # bs" "trim_area (vma_start v) (\<lambda>v. v\<lparr> vma_end := addr \<rparr>) a = Some a'"
      "holds (vmas a') (as @ (x, v\<lparr> vma_end := addr \<rparr>) # bs)" "\<forall>i. i \<noteq> x \<longrightarrow> n_vma (vm_nodes (vmas a') i) = n_vma (vm_nodes (vmas a) i)"
      using trim_area_holds [OF assms(1,2), of "\<lambda>v. v\<lparr> vma_end := addr \<rparr>"] by blast
    have "munmap_one addr e j a = Some a'" using n assms(4) upper t(2) by (auto simp: munmap_one_def)
    moreover have "cut_area addr e v = [v\<lparr> vma_end := addr \<rparr>]" using upper ov by (simp add: cut_area_def vma_overlaps_def leD)
    ultimately show ?thesis by (intro that [OF _ t(3), of "map snd as" "map snd bs"]) (use t(1,4) in auto)
  next
    case lower
    then have "part_of (v\<lparr> vma_start := e \<rparr>) v" using ov by (simp add: part_of_def vma_is_valid_def)
    then obtain as bs a' where t: "es = as @ (x, v) # bs" "trim_area (vma_start v) (\<lambda>v. v\<lparr> vma_start := e \<rparr>) a = Some a'"
      "holds (vmas a') (as @ (x, v\<lparr> vma_start := e \<rparr>) # bs)" "\<forall>i. i \<noteq> x \<longrightarrow> n_vma (vm_nodes (vmas a') i) = n_vma (vm_nodes (vmas a) i)"
      using trim_area_holds [OF assms(1,2), of "\<lambda>v. v\<lparr> vma_start := e \<rparr>"] by blast
    have "munmap_one addr e j a = Some a'" using n assms(4) lower t(2) by (auto simp: munmap_one_def)
    moreover have "cut_area addr e v = [v\<lparr> vma_start := e \<rparr>]" using lower ov by (simp add: cut_area_def vma_overlaps_def leD)
    ultimately show ?thesis by (intro that [OF _ t(3), of "map snd as" "map snd bs"]) (use t(1,4) in auto)
  qed
qed

section \<open>The loop\<close>

text \<open>
  The pending indices \<open>rs\<close> with the areas they were collected for: each area is still held, by its own
  node or by one that is not pending, and can be read at its index.
\<close>

definition pending_ok :: "VMAManager \<Rightarrow> (int \<times> VMA) list \<Rightarrow> (int \<times> VMA) list \<Rightarrow> bool" where
  "pending_ok m es rs \<longleftrightarrow> distinct (map fst rs) \<and> distinct (map snd rs) \<and>
     (\<forall>(j, v)\<in>set rs. valid_idx j \<and> n_vma (vm_nodes m j) = v \<and> (\<exists>h. (h, v) \<in> set es \<and> (h = j \<or> h \<notin> fst ` set rs)))"

lemma pending_step:
  assumes "pending_ok m es ((j, v) # rs)" "(x, v) \<in> set es" "x = j \<or> x \<notin> fst ` set ((j, v) # rs)"
    and "\<forall>i. i \<noteq> x \<longrightarrow> n_vma (vm_nodes m' i) = n_vma (vm_nodes m i)"
    and "\<forall>(h, w)\<in>set es. h \<noteq> x \<longrightarrow> (h, w) \<in> set es' \<or> (x, w) \<in> set es'" "distinct (map fst es)"
  shows "pending_ok m' es' rs"
proof -
  have x: "x \<notin> fst ` set rs" using assms(1,3) by (auto simp: pending_ok_def)
  have d: "distinct (map fst rs)" "distinct (map snd rs)" "v \<notin> snd ` set rs" using assms(1) by (auto simp: pending_ok_def)
  have "valid_idx i \<and> n_vma (vm_nodes m' i) = w \<and> (\<exists>h. (h, w) \<in> set es' \<and> (h = i \<or> h \<notin> fst ` set rs))" if iw: "(i, w) \<in> set rs" for i w
  proof -
    have i: "valid_idx i" "n_vma (vm_nodes m i) = w" using assms(1) iw by (auto simp: pending_ok_def)
    obtain h where h: "(h, w) \<in> set es" "h = i \<or> h \<notin> fst ` set ((j, v) # rs)" using assms(1) iw by (fastforce simp: pending_ok_def)
    have "i \<noteq> x" using x iw by force
    have "w \<noteq> v" using d(3) iw by force
    then have "h \<noteq> x" using h(1) assms(2,6) by (auto dest: eq_key_imp_eq_value)
    then have "(h, w) \<in> set es' \<or> (x, w) \<in> set es'" using assms(5) h(1) by blast
    then show ?thesis using i \<open>i \<noteq> x\<close> assms(4) h(2) x by auto
  qed
  then show ?thesis using d by (auto simp: pending_ok_def)
qed

definition cut_some :: "u64 \<Rightarrow> u64 \<Rightarrow> VMA set \<Rightarrow> VMA list \<Rightarrow> VMA list" where
  "cut_some addr e S vs = concat (map (\<lambda>v. if v \<in> S then cut_area addr e v else [v]) vs)"

lemma cut_some_none: "set vs \<inter> S = {} \<Longrightarrow> cut_some addr e S vs = vs"
  by (induction vs) (auto simp: cut_some_def)

lemma cut_some_step:
  assumes "distinct (as @ v # bs)" "v \<notin> S" "addr < e" "\<forall>w\<in>S. vma_overlaps w addr e"
  shows "cut_some addr e S (as @ cut_area addr e v @ bs) = cut_some addr e (insert v S) (as @ v # bs)"
proof -
  have "set (cut_area addr e v) \<inter> S = {}" using cut_area_clear [OF assms(3)] assms(4) by blast
  then have "cut_some addr e S (cut_area addr e v) = cut_area addr e v" by (rule cut_some_none)
  moreover have "cut_some addr e (insert v S) vs = cut_some addr e S vs" if "v \<notin> set vs" for vs
    using that by (induction vs) (auto simp: cut_some_def)
  ultimately show ?thesis using assms(1) by (simp add: cut_some_def)
qed

lemma munmap_loop_holds:
  assumes "holds (vmas a) es" "pending_ok (vmas a) es rs" "addr < e" "\<forall>v\<in>snd ` set rs. vma_overlaps v addr e \<and> \<not> punched addr e v"
  shows "\<exists>a' es'. munmap_loop addr e (map fst rs) a = Some a' \<and> holds (vmas a') es' \<and> map snd es' = cut_some addr e (snd ` set rs) (map snd es)"
  using assms
proof (induction rs arbitrary: a es)
  case Nil
  then show ?case by (auto simp: cut_some_none)
next
  case (Cons z rs)
  obtain j v where z: "z = (j, v)" by (cases z)
  have j: "valid_idx j" "n_vma (vm_nodes (vmas a) j) = v" using Cons.prems(2) z by (auto simp: pending_ok_def)
  obtain x where x: "(x, v) \<in> set es" "x = j \<or> x \<notin> fst ` set ((j, v) # rs)" using Cons.prems(2) z by (auto simp: pending_ok_def)
  have ov: "vma_overlaps v addr e" "\<not> punched addr e v" using Cons.prems(4) z by auto
  obtain as bs a1 es1 where s: "munmap_one addr e j a = Some a1" "holds (vmas a1) es1"
    "map snd es = as @ v # bs" "map snd es1 = as @ cut_area addr e v @ bs"
    "\<forall>i. i \<noteq> x \<longrightarrow> n_vma (vm_nodes (vmas a1) i) = n_vma (vm_nodes (vmas a) i)"
    "\<forall>(h, w)\<in>set es. h \<noteq> x \<longrightarrow> (h, w) \<in> set es1 \<or> (x, w) \<in> set es1"
    by (rule munmap_one_holds [OF Cons.prems(1) x(1) j ov])
  have "pending_ok (vmas a1) es1 rs"
    using pending_step [OF _ x s(5,6) holds_distinct [OF Cons.prems(1)]] Cons.prems(2) z by simp
  then obtain a' es' where a': "munmap_loop addr e (map fst rs) a1 = Some a'" "holds (vmas a') es'"
    "map snd es' = cut_some addr e (snd ` set rs) (map snd es1)" using Cons.IH [OF s(2)] Cons.prems(3,4) by auto
  have "distinct (as @ v # bs)" using ordered_distinct [of es] Cons.prems(1) s(3) by (simp add: holds_def)
  moreover have "v \<notin> snd ` set rs" using Cons.prems(2) z by (auto simp: pending_ok_def)
  ultimately have "cut_some addr e (snd ` set rs) (map snd es1) = cut_some addr e (insert v (snd ` set rs)) (map snd es)"
    unfolding s(3,4) using Cons.prems(3,4) by (intro cut_some_step) auto
  then show ?case using a' s(1) z by auto
qed

section \<open>A hole in the middle of an area\<close>

definition page_aligned :: "u64 \<Rightarrow> bool" where
  "page_aligned a \<longleftrightarrow> a AND (PAGE_SIZE - 1) = 0"

lemma page_mask: "PAGE_SIZE - 1 = mask 12"
  by (simp add: PAGE_SIZE_def mask_eq_exp_minus_1)

lemma page_aligned_take_bit: "page_aligned a \<longleftrightarrow> take_bit 12 a = 0"
  unfolding page_aligned_def page_mask by (simp add: take_bit_eq_mask)

lemma page_aligned_add: "page_aligned a \<Longrightarrow> page_aligned b \<Longrightarrow> page_aligned (a + b)"
proof -
  assume "page_aligned a" "page_aligned b"
  then have "push_bit 12 (drop_bit 12 a) = a" "push_bit 12 (drop_bit 12 b) = b"
    using bits_ident [of 12 a] bits_ident [of 12 b] by (simp_all add: page_aligned_take_bit)
  then have "a + b = push_bit 12 (drop_bit 12 a + drop_bit 12 b)" by (simp add: push_bit_add)
  then show ?thesis by (simp add: page_aligned_take_bit take_bit_push_bit)
qed

lemma page_aligned_page_up [simp]: "page_aligned (page_up a)"
  unfolding page_aligned_def page_up_def page_mask by (simp add: and.assoc)

lemma page_up_aligned: "page_aligned a \<Longrightarrow> page_up a = a"
proof -
  assume "page_aligned a"
  then have z: "a AND mask 12 = 0" by (simp add: page_aligned_def page_mask)
  have "a + PAGE_SIZE - 1 = a + mask 12" by (simp flip: page_mask)
  also have "\<dots> = a OR mask 12" by (rule disjunctive_add_eq_or [OF z])
  finally have "page_up a = (a OR mask 12) AND NOT (mask 12)" unfolding page_up_def page_mask by simp
  also have "\<dots> = a AND NOT (mask 12)" by (simp add: bit.conj_disj_distrib2)
  also have "\<dots> = (a AND mask 12) OR (a AND NOT (mask 12))" using z by simp
  also have "\<dots> = a" by (simp flip: bit.conj_disj_distrib)
  finally show ?thesis .
qed

lemma ins_area_between:
  "\<forall>w\<in>set as. vma_start w \<le> vma_start u \<Longrightarrow> \<forall>w\<in>set bs. vma_start u < vma_start w \<Longrightarrow> ins_area u (as @ bs) = as @ u # bs"
proof (induction as)
  case Nil
  then show ?case by (cases bs) auto
next
  case (Cons w as)
  then show ?case by (auto simp: not_less)
qed

lemma punch_area_holds:
  assumes "holds (vmas a) es" "(x, v) \<in> set es" "punched addr e v" "addr < e" "page_aligned e" "length es < MAX_VMAS"
  obtains as bs a' es' where "punch_area (vma_start v) addr e a = Some a'" "holds (vmas a') es'"
    "map snd es = as @ v # bs" "map snd es' = as @ cut_area addr e v @ bs"
proof -
  let ?low = "v\<lparr> vma_end := addr \<rparr>" and ?up = "v\<lparr> vma_start := e, vma_backing := shift_backing (e - vma_start v) (vma_backing v) \<rparr>"
  note fm = holds_find_mut [OF assms(1,2)]
  have p: "part_of ?low v" using assms(3,4) by (auto simp: part_of_def vma_is_valid_def)
  obtain as bs where s: "es = as @ (x, v) # bs" "holds (store_area x ?low (vmas a)) (as @ (x, ?low) # bs)"
    by (rule holds_store [OF assms(1,2) p])
  have ord: "ordered (as @ (x, v) # bs)" using assms(1) s(1) by (simp add: holds_def)
  have before: "vma_end w \<le> vma_start v \<and> vma_start w \<le> vma_start v" if w: "w \<in> snd ` set as" for w
  proof -
    obtain h where h: "(h, w) \<in> set as" using w by auto
    then have "vma_start w < vma_end w" using ord ordered_valid [of as "(h, w)"] by (simp add: vma_is_valid_def)
    moreover have "vma_end w \<le> vma_start v" using ord h by auto
    ultimately show ?thesis by auto
  qed
  have behind: "vma_end v \<le> vma_start w" if "w \<in> snd ` set bs" for w using that ord by auto
  have c1: "\<not> vma_overlaps w e (vma_end v)" if "w \<in> snd ` set as" for w using before [OF that] assms(3,4) by (auto simp: vma_overlaps_def)
  have c2: "\<not> vma_overlaps w e (vma_end v)" if "w \<in> snd ` set bs" for w using behind [OF that] by (auto simp: vma_overlaps_def)
  have c3: "\<not> vma_overlaps ?low e (vma_end v)" using assms(4) by (auto simp: vma_overlaps_def)
  have "clear_of ?up (map snd (as @ (x, ?low) # bs))" using c1 c2 c3 by auto
  moreover have "vma_is_valid ?up" "length (as @ (x, ?low) # bs) < MAX_VMAS" using assms(3,6) s(1) by (simp_all add: vma_is_valid_def)
  ultimately obtain i m' where m': "vma_insert ?up (store_area x ?low (vmas a)) = Some (Some i, m')"
    "holds m' (ins_entry (i, ?up) (as @ (x, ?low) # bs))" using holds_insert [OF s(2), of ?up] by blast
  have "split_at e v = (Some ?up, v\<lparr> vma_end := e \<rparr>)"
    using assms(3,4) page_up_aligned [OF assms(5)] by (cases "vma_backing v") (auto simp: split_at_def shift_backing_def)
  then obtain a' where a': "punch_area (vma_start v) addr e a = Some a'" "vmas a' = m'\<lparr> vm_stats := (vm_stats m')\<lparr> split_count := split_count (vm_stats m') + 2 \<rparr> \<rparr>"
    using fm m'(1) by (simp add: punch_area_def node_at_def upd_node_def add_vma_def bump_split_def bump_def)
  have "map snd (ins_entry (i, ?up) (as @ (x, ?low) # bs)) = ins_area ?up ((map snd as @ [?low]) @ map snd bs)"
    by (simp add: ins_area_entry)
  also have "\<dots> = (map snd as @ [?low]) @ ?up # map snd bs"
  proof (intro ins_area_between ballI)
    fix w assume "w \<in> set (map snd as @ [?low])"
    then consider "w \<in> snd ` set as" | "w = ?low" by auto
    then show "vma_start w \<le> vma_start ?up" using before [of w] assms(3,4) by cases auto
  next
    fix w assume "w \<in> set (map snd bs)"
    then show "vma_start ?up < vma_start w" using behind [of w] assms(3) by auto
  qed
  also have "\<dots> = map snd as @ cut_area addr e v @ map snd bs"
    using assms(3,4) by (auto simp: cut_area_def vma_overlaps_def)
  finally show ?thesis using that [OF a'(1), of "ins_entry (i, ?up) (as @ (x, ?low) # bs)" "map snd as" "map snd bs"] a'(2) m'(2) s(1) by simp
qed

section \<open>The whole call\<close>

lemma cut_areas_append [simp]: "cut_areas addr e (as @ bs) = cut_areas addr e as @ cut_areas addr e bs"
  "cut_areas addr e (v # bs) = cut_area addr e v @ cut_areas addr e bs"
  by (simp_all add: cut_areas_def)

lemma cut_areas_clear: "\<forall>v\<in>set vs. \<not> vma_overlaps v addr e \<Longrightarrow> cut_areas addr e vs = vs"
  by (induction vs) (auto simp: cut_areas_def cut_area_def)

lemma cut_area_mapped:
  assumes "vma_is_valid v" "addr < e"
  shows "(\<exists>w\<in>set (cut_area addr e v). vma_contains w x) \<longleftrightarrow> vma_contains v x \<and> \<not> (addr \<le> x \<and> x < e)"
  using assms by (auto simp: cut_area_def vma_overlaps_def vma_contains_def vma_is_valid_def)

lemma cut_areas_mapped:
  assumes "\<forall>v\<in>set vs. vma_is_valid v" "addr < e"
  shows "(\<exists>w\<in>set (cut_areas addr e vs). vma_contains w x) \<longleftrightarrow> (\<exists>v\<in>set vs. vma_contains v x) \<and> \<not> (addr \<le> x \<and> x < e)"
  using assms
proof (induction vs)
  case Nil
  then show ?case by (simp add: cut_areas_def)
next
  case (Cons v vs)
  then show ?case using cut_area_mapped [of v addr e x] by (simp add: bex_Un) blast
qed

lemma punched_alone:
  assumes "disjoint_areas (as @ v # bs)" "punched addr e v" "addr < e"
  shows "\<forall>w\<in>set as \<union> set bs. \<not> vma_overlaps w addr e"
proof
  fix w assume "w \<in> set as \<union> set bs"
  then consider "vma_end w \<le> vma_start v" | "vma_end v \<le> vma_start w" using assms(1) by (auto simp: sorted_wrt_append)
  then show "\<not> vma_overlaps w addr e" using assms(2,3) by cases (auto simp: vma_overlaps_def)
qed

lemma munmap_punch:
  assumes "holds (vmas a) es" "(x, v) \<in> set es" "punched addr e v" "addr < e" "page_aligned e" "length es < MAX_VMAS"
  shows "filter (meets addr e) es = [(x, v)] \<and>
    (\<exists>a' es'. munmap_loop addr e [x] a = Some a' \<and> holds (vmas a') es' \<and> map snd es' = cut_areas addr e (map snd es))"
proof -
  obtain as bs where s: "es = as @ (x, v) # bs" using assms(2) by (meson split_list)
  have d: "disjoint_areas (map snd as @ v # map snd bs)" using assms(1) s by (simp add: holds_def ordered_map)
  note alone = punched_alone [OF d assms(3,4)]
  have v: "vma_overlaps v addr e" using assms(3,4) by (auto simp: vma_overlaps_def)
  have "filter (meets addr e) as = []" "filter (meets addr e) bs = []" using alone by (auto simp: filter_empty_conv)
  then have "filter (meets addr e) es = [(x, v)]" using s v by simp
  moreover obtain as' bs' a' es' where p: "punch_area (vma_start v) addr e a = Some a'" "holds (vmas a') es'"
    "map snd es = as' @ v # bs'" "map snd es' = as' @ cut_area addr e v @ bs'" by (rule punch_area_holds [OF assms])
  have "disjoint_areas (as' @ v # bs')" using assms(1) p(3) by (simp add: holds_def ordered_map)
  from punched_alone [OF this assms(3,4)] have "cut_areas addr e (map snd es) = map snd es'"
    unfolding p(3,4) by (simp add: cut_areas_clear)
  moreover have "munmap_one addr e x a = Some a'"
    using holds_find_mut(2,3) [OF assms(1,2)] assms(3,4) p(1) by (auto simp: munmap_one_def node_at_def)
  ultimately show ?thesis using p(2) by auto
qed

lemma munmap_trims:
  assumes "holds (vmas a) es" "\<forall>v\<in>snd ` set es. \<not> punched addr e v" "addr < e"
  shows "\<exists>a' es'. munmap_loop addr e (map fst (filter (meets addr e) es)) a = Some a' \<and> holds (vmas a') es' \<and>
    map snd es' = cut_areas addr e (map snd es)"
proof -
  let ?rs = "filter (meets addr e) es"
  have "distinct (map fst ?rs)" "distinct (map snd ?rs)"
    using holds_distinct [OF assms(1)] ordered_distinct [of es] assms(1) by (auto simp: holds_def distinct_map_filter)
  then have "pending_ok (vmas a) es ?rs" using holds_find_mut [OF assms(1)] by (auto simp: pending_ok_def)
  moreover have "\<forall>v\<in>snd ` set ?rs. vma_overlaps v addr e \<and> \<not> punched addr e v"
  proof
    fix v assume "v \<in> snd ` set ?rs"
    then have "vma_overlaps v addr e" "v \<in> snd ` set es" by auto
    then show "vma_overlaps v addr e \<and> \<not> punched addr e v" using bspec [OF assms(2)] by blast
  qed
  ultimately obtain a' es' where a': "munmap_loop addr e (map fst ?rs) a = Some a'" "holds (vmas a') es'"
    "map snd es' = cut_some addr e (snd ` set ?rs) (map snd es)"
    using munmap_loop_holds [OF assms(1) _ assms(3), of ?rs] by blast
  have "(if v \<in> snd ` set ?rs then cut_area addr e v else [v]) = cut_area addr e v" if "v \<in> set (map snd es)" for v
    using that by (auto simp: cut_area_def image_iff)
  then have "cut_some addr e (snd ` set ?rs) (map snd es) = cut_areas addr e (map snd es)"
    unfolding cut_some_def cut_areas_def by (intro arg_cong [of _ _ concat] map_cong) auto
  then show ?thesis using a' by auto
qed

lemma space_munmap_areas:
  assumes "vm_areas (vmas a) vs" "page_aligned addr" "addr < addr + page_up len"
    and "length (filter (\<lambda>v. vma_overlaps v addr (addr + page_up len)) vs) \<le> OVERLAP_MAX"
    and "(\<exists>v\<in>set vs. punched addr (addr + page_up len) v) \<longrightarrow> length vs < MAX_VMAS"
  shows "\<exists>a'. space_munmap addr len a = Some a' \<and> vm_areas (vmas a') (cut_areas addr (addr + page_up len) vs)"
proof -
  let ?e = "addr + page_up len"
  obtain es where es: "holds (vmas a) es" "map snd es = vs" using assms(1) by (auto simp: vm_areas_def)
  have "length (filter (meets addr ?e) es) \<le> OVERLAP_MAX" using assms(4) es(2) by (auto simp: filter_map o_def)
  then have f: "find_overlapping (vmas a) addr ?e OVERLAP_MAX = Some (map fst (filter (meets addr ?e) es))"
    using holds_overlapping [OF es(1)] by simp
  have e: "page_aligned ?e" using assms(2) page_aligned_add by simp
  have "\<exists>a' es'. munmap_loop addr ?e (map fst (filter (meets addr ?e) es)) a = Some a' \<and> holds (vmas a') es' \<and> map snd es' = cut_areas addr ?e vs"
  proof (cases "\<exists>v\<in>set vs. punched addr ?e v")
    case True
    then obtain x v where v: "(x, v) \<in> set es" "punched addr ?e v" using es(2) by auto
    have "length es < MAX_VMAS" using assms(5) True es(2) by auto
    then show ?thesis using munmap_punch [OF es(1) v assms(3) e] es(2) by auto
  next
    case False
    then have "\<forall>v\<in>snd ` set es. \<not> punched addr ?e v" unfolding es(2) [symmetric] set_map by blast
    then show ?thesis using munmap_trims [OF es(1) _ assms(3)] es(2) by blast
  qed
  then obtain a' es' where "munmap_loop addr ?e (map fst (filter (meets addr ?e) es)) a = Some a'" "holds (vmas a') es'" "map snd es' = cut_areas addr ?e vs" by blast
  then show ?thesis using f by (auto simp: space_munmap_def Let_def bump_def vm_areas_def)
qed

end
