(* ===== verification/Vma_Props.thy ===== *)
theory Vma_Props
  imports Vma_Munmap
begin

text \<open>
  The properties of the area manager and of the memory system calls, with concrete instances.
\<close>

section \<open>Insertion in any order\<close>

abbreviation starts_le :: "(int \<times> VMA) list \<Rightarrow> bool" where
  "starts_le es \<equiv> sorted_wrt (\<lambda>a b. start_of a \<le> start_of b) es"

lemma starts_le_ins: "starts_le es \<Longrightarrow> starts_le (ins_entry e es)"
proof (induction es)
  case (Cons a es)
  have "start_of e \<le> start_of y" if "start_of e < start_of a" "y \<in> set es" for y
  proof -
    have "start_of a \<le> start_of y" using Cons.prems that(2) by simp
    then show ?thesis using that(1) by order
  qed
  then show ?case using Cons by (auto simp: not_less)
qed simp

text \<open>A manager filled by insertions only: balanced, with its areas by start address.\<close>

definition grown :: "VMAManager \<Rightarrow> VMA list \<Rightarrow> bool" where
  "grown m vs \<longleftrightarrow> (\<exists>t. vm_inv m t \<and> balanced t \<and> max_ok t \<and> starts_le (entries t) \<and> map snd (entries t) = vs)"

lemma grown_default: "grown VMAManager_default []"
  unfolding grown_def by (rule exI [of _ Leaf]) (simp add: vm_inv_default balanced_def)

lemma grown_insert:
  assumes "grown m vs" "vma_is_valid v" "length vs < MAX_VMAS"
  shows "\<exists>i m'. vma_insert v m = Some (Some i, m') \<and> grown m' (ins_area v vs)"
proof -
  obtain t where t: "vm_inv m t" "balanced t" "max_ok t" "starts_le (entries t)" "map snd (entries t) = vs" using assms(1) by (auto simp: grown_def)
  have "size t < MAX_VMAS" using assms(3) t(5) length_entries [of t] by auto
  then obtain i m' where m': "vma_insert v m = Some (Some i, m')" "vm_inv m' (insert_tree v i t)" using vma_insert_rep [OF t(1) assms(2)] by blast
  have "entries (insert_tree v i t) = ins_entry (i, v) (entries t)" by (rule insert_tree_entries [OF t(4)])
  then show ?thesis using m' t insert_tree_balanced insert_tree_max_ok starts_le_ins [OF t(4)] ins_area_entry
    by (auto simp: grown_def intro!: exI [of _ "insert_tree v i t"])
qed

lemma grown_insert_all:
  "grown m vs \<Longrightarrow> \<forall>v\<in>set ws. vma_is_valid v \<Longrightarrow> length vs + length ws \<le> MAX_VMAS \<Longrightarrow>
   \<exists>m'. insert_all ws m = Some m' \<and> grown m' (fold ins_area ws vs)"
proof (induction ws arbitrary: m vs)
  case (Cons w ws)
  obtain i m1 where m1: "vma_insert w m = Some (Some i, m1)" "grown m1 (ins_area w vs)" using grown_insert [OF Cons.prems(1), of w] Cons.prems(2,3) by auto
  then show ?case using Cons.IH [OF m1(2)] Cons.prems(2,3) by auto
qed simp

lemma grown_height: "grown m vs \<Longrightarrow> \<exists>t. vm_inv m t \<and> height t \<le> 16 \<and> map snd (entries t) = vs"
  using balanced_height vm_inv_size by (auto simp: grown_def)

lemma grown_iter: "grown m vs \<Longrightarrow> vma_iter m = Some vs"
proof -
  assume "grown m vs"
  then obtain t where t: "vm_inv m t" "height t \<le> 16" "map snd (entries t) = vs" using grown_height by blast
  then show ?thesis using vma_iter_total [OF t(1)] titer_low [of t] by (simp add: ITER_DEPTH_def)
qed

lemma grown_areas: "grown m vs \<Longrightarrow> disjoint_areas vs \<Longrightarrow> vm_areas m vs"
proof -
  assume "grown m vs" and d: "disjoint_areas vs"
  then obtain t where "vm_inv m t" "max_ok t" "map snd (entries t) = vs" by (auto simp: grown_def)
  then show ?thesis unfolding vm_areas_def holds_def ordered_map using d by (intro exI [of _ "entries t"]) auto
qed

lemma fold_ins_sorted: "disjoint_areas (vs @ ws) \<Longrightarrow> fold ins_area ws vs = vs @ ws"
proof (induction ws arbitrary: vs)
  case (Cons w ws)
  have "vma_start u \<le> vma_start w" if "u \<in> set vs" for u
  proof -
    have "vma_start u < vma_end u" "vma_end u \<le> vma_start w" using Cons.prems that by (auto simp: sorted_wrt_append vma_is_valid_def)
    then show ?thesis by order
  qed
  then have "ins_area w vs = vs @ [w]" using ins_area_between [of vs w "[]"] by simp
  then show ?case using Cons.IH [of "vs @ [w]"] Cons.prems by simp
qed simp

lemma tree_at_in_use: "tree_at ns p t \<Longrightarrow> (x, v) \<in> set (entries t) \<Longrightarrow> n_in_use (ns x)"
  by (induction ns p t rule: tree_at.induct) auto

section \<open>The area manager\<close>

text \<open>
  C8: On a manager that holds disjoint areas, inserting a valid area that meets none of them succeeds
  while the pool has a free node; afterwards a lookup at an address of the new area returns it and
  every other lookup is unchanged.
\<close>

theorem area_insert_find:
  assumes "vm_areas m vs" "vma_is_valid v" "clear_of v vs" "length vs < MAX_VMAS"
  shows "\<exists>i m'. vma_insert v m = Some (Some i, m') \<and> vm_areas m' (ins_area v vs) \<and>
    (\<forall>a. vma_find m' a = (if vma_contains v a then Some (Some v) else vma_find m a))"
  by (rule tree_store.insert_find [OF assms])

text \<open>A manager with three one-page areas, and one more area.\<close>

definition page_area :: "u64 \<Rightarrow> VMA" where
  "page_area a = VMA_new a (a + 0x1000) 3 0 Anonymous"

definition three_pages :: "VMA list" where
  "three_pages = [page_area 0x2000, page_area 0x5000, page_area 0x8000]"

lemmas page_simps = page_area_def three_pages_def VMA_new_def vma_is_valid_def vma_overlaps_def vma_contains_def MAX_VMAS_def

lemma three_pages_grown: "\<exists>m. insert_all three_pages VMAManager_default = Some m \<and> grown m three_pages"
proof -
  have d: "disjoint_areas three_pages" by (simp add: page_simps)
  then have "fold ins_area three_pages [] = three_pages" using fold_ins_sorted [of "[]" three_pages] by simp
  then show ?thesis using grown_insert_all [OF grown_default, of three_pages] d by (simp add: page_simps)
qed

lemma three_pages_areas: "\<exists>m. vm_areas m three_pages \<and> vma_iter m = Some three_pages"
  using three_pages_grown grown_areas [of _ three_pages] grown_iter by (fastforce simp: page_simps)

theorem area_insert_find_witness:
  "\<exists>m i m'. vm_areas m three_pages \<and> vma_insert (page_area 0x3000) m = Some (Some i, m') \<and> vma_find m' 0x3800 = Some (Some (page_area 0x3000))"
proof -
  obtain m where m: "vm_areas m three_pages" using three_pages_areas by blast
  have "vma_is_valid (page_area 0x3000)" "clear_of (page_area 0x3000) three_pages" "length three_pages < MAX_VMAS"
    "vma_contains (page_area 0x3000) 0x3800" by (simp_all add: page_simps)
  then show ?thesis using area_insert_find [OF m, of "page_area 0x3000"] m by fastforce
qed



text \<open>
  C20: The pruned search for overlapping areas is exact in a well-formed tree of valid, disjoint areas
  whose recorded greatest end addresses are right (\<open>vm_areas\<close>, which insertions and removals keep but a
  merge can break): it returns the indices of the areas that meet the range, in address order,
  up to the capacity of the buffer, and no area is skipped by the test of the recorded end address.
\<close>

theorem find_overlapping_exact:
  assumes "vm_areas m vs"
  shows "\<exists>ixs. find_overlapping m s e cap = Some ixs \<and>
    map (get_vma_by_index m) ixs = map Some (take cap (filter (\<lambda>v. vma_overlaps v s e) vs))"
proof -
  obtain es where es: "holds m es" "map snd es = vs" using assms by (auto simp: vm_areas_def)
  have "get_vma_by_index m (fst z) = Some (snd z)" if "z \<in> set es" for z
  proof -
    obtain t where t: "vm_inv m t" "entries t = es" using es(1) by (auto simp: holds_def)
    then have "n_in_use (vm_nodes m (fst z))" using tree_at_in_use [of "vm_nodes m" "- 1" t] vm_inv_tree [OF t(1)] that by (metis prod.collapse)
    then show ?thesis using holds_find_mut(2,3) [OF es(1), of "fst z" "snd z"] that by (simp add: get_vma_by_index_def vma_node_def)
  qed
  then have "map (\<lambda>z. get_vma_by_index m (fst z)) (take cap (filter (meets s e) es)) = map (\<lambda>z. Some (snd z)) (take cap (filter (meets s e) es))"
    by (intro map_cong) (auto dest: in_set_takeD)
  then show ?thesis using holds_overlapping [OF es(1)] es(2) by (auto simp: filter_map take_map o_def)
qed

theorem find_overlapping_exact_witness:
  "\<exists>m ixs. vm_areas m three_pages \<and> find_overlapping m 0x5800 0x9000 16 = Some ixs \<and>
     map (get_vma_by_index m) ixs = [Some (page_area 0x5000), Some (page_area 0x8000)]"
proof -
  obtain m where m: "vm_areas m three_pages" using three_pages_areas by blast
  have "filter (\<lambda>v. vma_overlaps v 0x5800 0x9000) three_pages = [page_area 0x5000, page_area 0x8000]" by (simp add: page_simps)
  then show ?thesis using find_overlapping_exact [OF m, where s = "0x5800" and e = "0x9000" and cap = 16] m by auto
qed



text \<open>
  C19: Inserting up to 256 valid areas, in any order, into an empty manager succeeds and gives a
  red-black tree at most 16 high, so that the iterator, whose stack holds 32 indices, yields every
  area by start address.
\<close>

theorem insertions_balanced:
  assumes "\<forall>v\<in>set vs. vma_is_valid v" "length vs \<le> MAX_VMAS"
  shows "\<exists>m t. insert_all vs VMAManager_default = Some m \<and> vm_inv m t \<and> height t \<le> 16 \<and> vma_iter m = Some (fold ins_area vs [])"
proof -
  obtain m where "insert_all vs VMAManager_default = Some m" "grown m (fold ins_area vs [])"
    using grown_insert_all [OF grown_default assms(1)] assms(2) by auto
  then show ?thesis using grown_height grown_iter by blast
qed

theorem insertions_balanced_witness:
  "\<exists>m t. insert_all three_pages VMAManager_default = Some m \<and> vm_inv m t \<and> height t \<le> 16 \<and> vma_iter m = Some (fold ins_area three_pages [])"
  by (rule insertions_balanced) (simp_all add: page_simps)

section \<open>The memory system calls\<close>

text \<open>
  C6: Unmapping a page-aligned range removes exactly that range: the call returns, the areas that are
  left are the old ones with the range cut out, and an address is mapped afterwards exactly when it was
  mapped before and is outside the range.  This needs a tree that is well-formed, holds valid and
  disjoint areas and records the right greatest end addresses (\<open>vm_areas\<close>, which insertions, removals
  and this call keep but a merge can break), a range that is not empty and does not wrap, at
  most 16 areas in the range, and a free node when the range lies inside one area.
\<close>

theorem munmap_exact:
  assumes "vm_areas (vmas a) vs" "page_aligned addr" "addr < addr + page_up len"
    and "length (filter (\<lambda>v. vma_overlaps v addr (addr + page_up len)) vs) \<le> OVERLAP_MAX"
    and "(\<exists>v\<in>set vs. punched addr (addr + page_up len) v) \<longrightarrow> length vs < MAX_VMAS"
  shows "\<exists>a'. space_munmap addr len a = Some a' \<and> vm_areas (vmas a') (cut_areas addr (addr + page_up len) vs) \<and>
    (\<forall>x. vma_find (vmas a') x \<noteq> Some None \<longleftrightarrow> (\<exists>v\<in>set vs. vma_contains v x) \<and> \<not> (addr \<le> x \<and> x < addr + page_up len))"
proof -
  obtain a' where a': "space_munmap addr len a = Some a'" "vm_areas (vmas a') (cut_areas addr (addr + page_up len) vs)"
    using space_munmap_areas [OF assms] by blast
  have "\<forall>v\<in>set vs. vma_is_valid v" using tree_store.areas_disjoint [OF assms(1)] by blast
  from cut_areas_mapped [OF this assms(3)] show ?thesis using a' tree_store.find_law [OF a'(2)] by (auto simp: find_None_iff)
qed

theorem munmap_exact_witness:
  "\<exists>a a'. vm_areas (vmas a) three_pages \<and> space_munmap 0x5000 0x4000 a = Some a' \<and> vm_areas (vmas a') [page_area 0x2000]"
proof -
  obtain m where m: "vm_areas m three_pages" using three_pages_areas by blast
  let ?a = "AddressSpace_empty\<lparr> vmas := m \<rparr>"
  have "page_up 0x4000 = 0x4000" by (simp add: page_up_def PAGE_SIZE_def)
  moreover have "cut_areas 0x5000 0x9000 three_pages = [page_area 0x2000]" by (simp add: cut_areas_def cut_area_def page_simps)
  moreover have "page_aligned 0x5000" by (simp add: page_aligned_def PAGE_SIZE_def)
  moreover have "length (filter (\<lambda>v. vma_overlaps v 0x5000 0x9000) three_pages) \<le> OVERLAP_MAX" by (simp add: page_simps OVERLAP_MAX_def)
  moreover have "length three_pages < MAX_VMAS" by (simp add: page_simps)
  ultimately show ?thesis using munmap_exact [where a = ?a and vs = three_pages and addr = "0x5000" and len = "0x4000"] m by fastforce
qed

text \<open>
  C7: Every sequence of calls of \<open>memory_vma.rs\<close> (\<open>mmap_vma\<close>, \<open>munmap_vma\<close>, \<open>mprotect_vma\<close>, \<open>brk_vma\<close>, the page
  fault handler, fork, and the creation and release of an address space), by any processes and with any
  arguments, returns in a build without overflow checks: no index leaves the pool of nodes, no search
  or repair loop runs forever, and every address space in use stays a well-formed tree with its free
  list.
\<close>

theorem memory_calls_return:
  "\<exists>s. vm_run files calls VmSystem_new = Some s \<and> sys_ok s"
  using vm_run_total [OF sys_ok_new] by (simp add: returns_def)

end
