(* ===== verification/Vma_Merge.thy ===== *)
theory Vma_Merge
  imports Vma_Props
begin

text \<open>
  The other system calls, and a run in which merging two areas hides mapped memory from the search for
  overlapping areas: \<open>try_merge\<close> extends an area without raising the recorded greatest end address of
  its node.
\<close>

section \<open>Four pages and a merge\<close>

definition merge_pages :: "VMA list" where
  "merge_pages = [page_area 0x5000, page_area 0x2000, page_area 0x8000, page_area 0x1000]"

definition merged_area :: VMA where
  "merged_area = VMA_new 0x1000 0x3000 3 0 Anonymous"

abbreviation leaf_node :: "int \<Rightarrow> VMA \<Rightarrow> RBColor \<Rightarrow> u64 \<Rightarrow> area tree" where
  "leaf_node x v c k \<equiv> Node Leaf (x, v, c, k) Leaf"

text \<open>The tree after the four insertions, and after the merge.\<close>

definition tree_before :: "int \<Rightarrow> int \<Rightarrow> int \<Rightarrow> int \<Rightarrow> area tree" where
  "tree_before a b c d = Node (Node (leaf_node d (page_area 0x1000) Red 0x2000) (b, page_area 0x2000, Black, 0x3000) Leaf)
     (a, page_area 0x5000, Black, 0x9000) (leaf_node c (page_area 0x8000) Black 0x9000)"

definition tree_after :: "int \<Rightarrow> int \<Rightarrow> int \<Rightarrow> area tree" where
  "tree_after a c d = Node (leaf_node d merged_area Red 0x2000) (a, page_area 0x5000, Black, 0x9000) (leaf_node c (page_area 0x8000) Black 0x9000)"

lemma page_insert:
  assumes "vm_inv m t" "x \<in> {0x5000, 0x2000, 0x8000, 0x1000}" "size t < 200"
  shows "\<exists>i m'. vma_insert (page_area x) m = Some (Some i, m') \<and> vm_inv m' (insert_tree (page_area x) i t)"
proof -
  have "vma_is_valid (page_area x)" using assms(2) by (auto simp: page_simps)
  moreover have "size t < MAX_VMAS" using assms(3) by (simp add: MAX_VMAS_def)
  ultimately show ?thesis using vma_insert_rep [OF assms(1)] by blast
qed

lemma four_insertions:
  obtains m a b c d where "insert_all merge_pages VMAManager_default = Some m" "vm_inv m (tree_before a b c d)"
proof -
  obtain a m1 where m1: "vma_insert (page_area 0x5000) VMAManager_default = Some (Some a, m1)" "vm_inv m1 (insert_tree (page_area 0x5000) a Leaf)"
    using page_insert [OF vm_inv_default, of "0x5000"] by auto
  have t1: "insert_tree (page_area 0x5000) a Leaf = leaf_node a (page_area 0x5000) Black 0x6000" by (simp add: insert_tree_def page_simps)
  obtain b m2 where m2: "vma_insert (page_area 0x2000) m1 = Some (Some b, m2)"
    "vm_inv m2 (insert_tree (page_area 0x2000) b (leaf_node a (page_area 0x5000) Black 0x6000))"
    using page_insert [OF m1(2) [unfolded t1], of "0x2000"] by auto
  have t2: "insert_tree (page_area 0x2000) b (leaf_node a (page_area 0x5000) Black 0x6000) =
      Node (leaf_node b (page_area 0x2000) Red 0x3000) (a, page_area 0x5000, Black, 0x6000) Leaf"
    by (simp add: insert_tree_def page_simps max_def)
  obtain c m3 where m3: "vma_insert (page_area 0x8000) m2 = Some (Some c, m3)"
    "vm_inv m3 (insert_tree (page_area 0x8000) c (Node (leaf_node b (page_area 0x2000) Red 0x3000) (a, page_area 0x5000, Black, 0x6000) Leaf))"
    using page_insert [OF m2(2) [unfolded t2], of "0x8000"] by auto
  have t3: "insert_tree (page_area 0x8000) c (Node (leaf_node b (page_area 0x2000) Red 0x3000) (a, page_area 0x5000, Black, 0x6000) Leaf) =
      Node (leaf_node b (page_area 0x2000) Red 0x3000) (a, page_area 0x5000, Black, 0x9000) (leaf_node c (page_area 0x8000) Red 0x9000)"
    by (simp add: insert_tree_def page_simps max_def)
  obtain d m4 where m4: "vma_insert (page_area 0x1000) m3 = Some (Some d, m4)"
    "vm_inv m4 (insert_tree (page_area 0x1000) d (Node (leaf_node b (page_area 0x2000) Red 0x3000) (a, page_area 0x5000, Black, 0x9000) (leaf_node c (page_area 0x8000) Red 0x9000)))"
    using page_insert [OF m3(2) [unfolded t3], of "0x1000"] by auto
  have t4: "insert_tree (page_area 0x1000) d (Node (leaf_node b (page_area 0x2000) Red 0x3000) (a, page_area 0x5000, Black, 0x9000) (leaf_node c (page_area 0x8000) Red 0x9000)) = tree_before a b c d"
    by (simp add: insert_tree_def tree_before_def page_simps max_def)
  show ?thesis using that [of m4 a b c d] m1(1) m2(1) m3(1) m4(1) m4(2) [unfolded t4] by (simp add: merge_pages_def)
qed

lemma merge_four:
  assumes "vm_inv m (tree_before a b c d)"
  obtains m' where "try_merge 0x1000 m = Some (True, m')" "vm_inv m' (tree_after a c d)"
proof -
  let ?t = "tree_before a b c d"
  let ?n5 = "(a, page_area 0x5000, Black, 0x9000)" and ?n8 = "leaf_node c (page_area 0x8000) Black 0x9000" and ?n2 = "(b, page_area 0x2000, Black, 0x3000)"
  have z: "zip_at m [] ?t" "vm_root m = root_idx ?t" "tree_at (vm_nodes m) (- 1) ?t"
    using assms by (simp_all add: vm_inv_def vm_rep_def zip_at_root)
  have o: "ordered (entries ?t)" by (simp add: tree_before_def page_simps)
  have sk: "seek 0x1000 [] ?t = ([LeftOf ?n2 Leaf, LeftOf ?n5 ?n8], leaf_node d (page_area 0x1000) Red 0x2000)"
    by (simp add: tree_before_def page_simps)
  have zd: "zip_at m [LeftOf ?n2 Leaf, LeftOf ?n5 ?n8] (leaf_node d (page_area 0x1000) Red 0x2000)"
    using z(1) by (simp add: tree_before_def flip: vm_rep_plug)
  have prev: "find_previous m 0x1000 = Some None"
    using previous_loop_tree [OF z(3) o, of "0x1000" None] z(2) by (simp add: find_previous_def Let_def tree_before_def page_simps)
  have nxt: "find_next m 0x2000 = Some (Some (page_area 0x2000))"
    using next_loop_tree [OF z(3) o, of "0x2000" None] z(2) by (simp add: find_next_def tree_before_def page_simps)
  let ?m1 = "store_area d merged_area m"
  let ?l = "leaf_node d merged_area Red 0x2000"
  have "tfind 0x1000 ?t = Some (d, page_area 0x1000)" by (simp add: tree_before_def page_simps)
  then have mod: "modify_area 0x1000 (\<lambda>v. v\<lparr> vma_end := 0x3000 \<rparr>) m = Some (True, ?m1)"
    using vma_find_mut_tree [OF assms, of "0x1000"] zip_node(1,2) [OF zd]
    by (simp add: modify_area_def upd_node_def page_simps merged_area_def)
  have i1: "vm_inv ?m1 (plug [LeftOf ?n5 ?n8] (Node ?l ?n2 Leaf))"
    using vm_inv_store [of m "[LeftOf ?n2 Leaf, LeftOf ?n5 ?n8]" Leaf d "page_area 0x1000" Red "0x2000" Leaf merged_area] assms by (simp add: tree_before_def)
  obtain m2 where m2: "remove_node b ?m1 = Some m2" "vm_inv m2 (plug_max [LeftOf ?n5 ?n8] ?l)"
    by (rule remove_node_one [OF i1, where ch = ?l]) auto
  have z1: "zip_at ?m1 [] (plug [LeftOf ?n5 ?n8] (Node ?l ?n2 Leaf))" "vm_root ?m1 = a" using i1 vm_inv_tree [OF i1] by (simp_all add: vm_inv_def zip_at_root)
  have zb: "zip_at ?m1 [LeftOf ?n5 ?n8] (Node ?l ?n2 Leaf)" using i1 unfolding vm_inv_def vm_rep_plug by blast
  have "seek 0x2000 [] (plug [LeftOf ?n5 ?n8] (Node ?l ?n2 Leaf)) = ([LeftOf ?n5 ?n8], Node ?l ?n2 Leaf)" by (simp add: page_simps)
  then obtain m3 where m3: "vma_remove 0x2000 ?m1 = Some (Some (page_area 0x2000), m3)" "vm_inv m3 (plug_max [LeftOf ?n5 ?n8] ?l)"
    using start_loop_zip [OF z1(1), of "0x2000"] z1(2) zip_node(1,3) [OF zb] m2 by (simp add: vma_remove_def vm_inv_def vm_rep_def)
  have "plug_max [LeftOf ?n5 ?n8] ?l = tree_after a c d" by (simp add: tree_after_def page_simps max_def)
  moreover have "can_merge_with (page_area 0x1000) (page_area 0x2000)" by (simp add: can_merge_with_def page_simps)
  moreover have "vma_start (page_area 0x1000) = 0x1000" "vma_end (page_area 0x1000) = 0x2000" "vma_start (page_area 0x2000) = 0x2000" "vma_end (page_area 0x2000) = 0x3000"
    by (simp_all add: page_simps)
  ultimately show ?thesis using that [of "count_merge m3"] start_loop_zip [OF z(1), of "0x1000"] sk z(2) zip_node(1,3) [OF zd] prev nxt mod m3
    by (simp add: try_merge_def absorb_def count_merge_def vm_inv_def vm_rep_def)
qed

text \<open>
  C25: After four pages are mapped and the first is merged with its neighbour, the page at 0x2000 is
  still mapped, yet the search for areas in its range finds none, and unmapping it reports success and
  leaves it mapped.
\<close>

theorem merge_hides_area:
  "\<exists>m m' a'. insert_all merge_pages VMAManager_default = Some m \<and> try_merge 0x1000 m = Some (True, m') \<and>
     vma_find m' 0x2800 = Some (Some merged_area) \<and> find_overlapping m' 0x2000 0x3000 OVERLAP_MAX = Some [] \<and>
     space_munmap 0x2000 0x1000 (AddressSpace_empty\<lparr> vmas := m' \<rparr>) = Some a' \<and> vma_find (vmas a') 0x2800 = Some (Some merged_area)"
proof -
  obtain m a b c d where m: "insert_all merge_pages VMAManager_default = Some m" "vm_inv m (tree_before a b c d)" by (rule four_insertions)
  obtain m' where m': "try_merge 0x1000 m = Some (True, m')" "vm_inv m' (tree_after a c d)" by (rule merge_four [OF m(2)])
  have f: "vma_find n 0x2800 = Some (Some merged_area)" if "vm_inv n (tree_after a c d)" for n
    using vma_find_tree [OF that, of "0x2800"] by (simp add: tree_after_def merged_area_def page_simps)
  have t: "tree_at (vm_nodes m') (- 1) (tree_after a c d)" "vm_root m' = a" using vm_inv_tree [OF m'(2)] by (simp_all add: tree_after_def)
  note n = tree_at_node [OF t(1) [unfolded tree_after_def]]
  have "find_overlapping_recursive m' 0x2000 0x3000 OVERLAP_MAX a [] = Some []"
    using n(2,3) tree_at_node(2,4) [OF n(5)] by (subst find_overlapping_recursive.simps) (simp add: page_simps OVERLAP_MAX_def)
  then have ov: "find_overlapping m' 0x2000 0x3000 OVERLAP_MAX = Some []" using t(2) by (simp add: find_overlapping_def)
  let ?a = "bump (\<lambda>s. s\<lparr> munmap_count := munmap_count s + 1 \<rparr>) (AddressSpace_empty\<lparr> vmas := m' \<rparr>)"
  have "page_up 0x1000 = 0x1000" by (simp add: page_up_def PAGE_SIZE_def)
  then have "space_munmap 0x2000 0x1000 (AddressSpace_empty\<lparr> vmas := m' \<rparr>) = Some ?a" using ov by (simp add: space_munmap_def)
  moreover have "vm_inv (vmas ?a) (tree_after a c d)" using m'(2) by (simp add: bump_def vm_inv_def vm_rep_def)
  ultimately show ?thesis using m(1) m'(1) f [OF m'(2)] ov f by blast
qed

section \<open>The heap\<close>

lemma space_brk_end:
  assumes "space_brk b a = Some (Ok r, a')" "b \<noteq> 0"
  shows "r = b \<and> heap_end a' = b"
proof -
  have "\<not> b < heap_start a" "\<not> heap_start a + HEAP_SIZE < b" using assms by (auto simp: space_brk_def split: if_splits)
  then show ?thesis using assms by (auto simp: space_brk_def split: if_splits bind_splits)
qed

lemma brk_in_space_mem: "brk_in_space b a s = Some (r, a', s') \<Longrightarrow> user_mem s' = user_mem s"
  using space_brk_end [of b a] by (auto simp: brk_in_space_def split: if_splits bind_splits result.splits)

text \<open>
  C26: The heap system call returns and never writes user memory: the code that should zero the new
  part of the heap compares the new break with the already updated heap end.  For a process that has
  an address space it leaves the error number 0, also when the request was refused.
\<close>

theorem brk_never_zeroes:
  assumes "sys_ok s"
  shows "\<exists>r s'. brk_vma cur addr s = Some (r, s') \<and> user_mem s' = user_mem s \<and>
    (\<forall>pid. cur = Some pid \<longrightarrow> pid < of_nat MAX_ADDRESS_SPACES \<longrightarrow> vm_errno s' = 0)"
proof -
  obtain r s' where b: "brk_vma cur addr s = Some (r, s')" using brk_vma_total [OF assms, of cur addr] by (auto simp: returns_def)
  then have "user_mem s' = user_mem s"
    by (auto simp: brk_vma_def with_current_address_space_def Let_def split: bind_splits option.splits if_splits result.splits dest!: brk_in_space_mem)
  moreover have "vm_errno s' = 0" if "cur = Some pid" "pid < of_nat MAX_ADDRESS_SPACES" for pid
  proof -
    have "\<not> of_nat MAX_ADDRESS_SPACES \<le> pid" using that(2) by auto
    then show ?thesis using b that(1) by (auto simp: brk_vma_def with_current_address_space_def Let_def split: bind_splits)
  qed
  ultimately show ?thesis using b by blast
qed

theorem brk_never_zeroes_witness:
  "\<exists>r s'. brk_vma (Some 1) (HEAP_BASE + 0x4000) VmSystem_new = Some (r, s') \<and> user_mem s' = user_mem VmSystem_new \<and>
    (\<forall>pid. Some (1 :: u64) = Some pid \<longrightarrow> pid < of_nat MAX_ADDRESS_SPACES \<longrightarrow> vm_errno s' = 0)"
  by (rule brk_never_zeroes [OF sys_ok_new])

section \<open>Where \<open>mmap\<close> places an area\<close>

lemma region_free:
  assumes "vm_areas m vs" "vma_iter m = Some vs" "page_aligned len"
    and "unat lo + unat len < 2 ^ 64" "\<forall>v\<in>set vs. unat (vma_end v) + unat len < 2 ^ 64"
    and "find_free_region m lo hi len = Some (Some x)"
  shows "is_free vs x len"
proof -
  obtain es t where t: "vm_inv m t" "entries t = es" "map snd es = vs" "ordered es" using assms(1) by (auto simp: vm_areas_def holds_def)
  have "map snd (titer (tpush t [])) = vs" using vma_iter_total [OF t(1)] assms(2) by simp
  moreover have "disjoint_areas vs" using t(3,4) by (simp add: ordered_map)
  ultimately show ?thesis
    using find_free_region_tree [OF t(1), of lo hi len] region_lowest [of vs lo len hi] assms(3-) page_up_aligned [OF assms(3)] by (simp add: lowest_fit_def)
qed

lemma unat_bound: "(x :: u64) \<le> user_end \<Longrightarrow> unat x \<le> 46137344"
  using word_le_nat_alt [of x user_end] by (simp add: layout_defs)

lemma find_free_mmap_region_free:
  assumes "vm_areas (vmas a) vs" "vma_iter (vmas a) = Some vs" "page_aligned len" "unat len \<le> 2 ^ 63"
    and "\<forall>v\<in>set vs. vma_end v \<le> user_end" "mmap_current a \<le> user_end" "mmap_base a \<le> user_end"
    and "find_free_mmap_region len a = Some (Ok x, a')"
  shows "is_free vs x len \<and> vmas a' = vmas a"
proof -
  have b: "unat y + unat len < 2 ^ 64" if "y \<le> user_end" for y using unat_bound [OF that] assms(4) by simp
  then have ends: "\<forall>v\<in>set vs. unat (vma_end v) + unat len < 2 ^ 64" using assms(5) by blast
  note free = region_free [OF assms(1-3) _ ends, of _ user_end]
  show ?thesis using assms(8) free [OF b [OF assms(6)]] free [OF b [OF assms(7)]]
    by (auto simp: find_free_mmap_region_def split: bind_splits option.splits)
qed

text \<open>
  C23: Without \<open>MAP_FIXED\<close> the address chosen for a mapping of a whole number of pages meets no area
  that is mapped, whether the hint is used or a free region is searched for, and choosing it changes
  no area.  This needs valid, disjoint areas with the right recorded end addresses, below the end of
  the user region; an iterator that yields every area; a length of at most \<open>2^63\<close>; and the
  search bounds of the address space below the end of the user region.
\<close>

theorem mmap_address_free:
  assumes "vm_areas (vmas a) vs" "vma_iter (vmas a) = Some vs" "page_aligned len" "unat len \<le> 2 ^ 63"
    and "\<forall>v\<in>set vs. vma_end v \<le> user_end" "mmap_current a \<le> user_end" "mmap_base a \<le> user_end"
    and "mmap_addr addr len False a = Some (Ok x, a')"
  shows "is_free vs x len \<and> vmas a' = vmas a"
proof -
  have hint: "is_free vs h len" if "find_overlapping (vmas a) h (h + len) OVERLAP_MAX = Some []" for h
  proof -
    obtain es where es: "holds (vmas a) es" "map snd es = vs" using assms(1) by (auto simp: vm_areas_def)
    have "filter (meets h (h + len)) es = []" using holds_overlapping [OF es(1), of h "h + len" OVERLAP_MAX] that by (simp add: OVERLAP_MAX_def)
    then have "\<forall>v\<in>set vs. \<not> vma_overlaps v h (h + len)" using es(2) by (auto simp: filter_empty_conv)
    then show ?thesis by (auto simp: is_free_def vma_overlaps_def not_less)
  qed
  show ?thesis using assms(8) find_free_mmap_region_free [OF assms(1-7)] hint
    by (auto simp: mmap_addr_def Let_def split: if_splits bind_splits)
qed

text \<open>An address space that holds the three pages.\<close>

definition page_space :: "VMAManager \<Rightarrow> AddressSpace" where
  "page_space m = (space_init 1 0 AddressSpace_empty)\<lparr> vmas := m \<rparr>"

lemma page_space_hint:
  assumes "vm_areas m three_pages"
  shows "mmap_addr 0x9000 0x1000 False (page_space m) = Some (Ok 0x9000, page_space m)"
proof -
  obtain es where es: "holds m es" "map snd es = three_pages" using assms by (auto simp: vm_areas_def)
  have "page_up 0x9000 = 0x9000" by (simp add: page_up_def PAGE_SIZE_def)
  moreover have "vma_find m 0x9000 = Some None" using tree_store.find_law [OF assms] by (simp add: page_simps)
  moreover have "\<forall>v\<in>set (map snd es). \<not> vma_overlaps v 0x9000 0xA000" unfolding es(2) by (simp add: page_simps)
  then have "filter (meets 0x9000 0xA000) es = []" by (auto simp: filter_empty_conv)
  then have "find_overlapping m 0x9000 0xA000 OVERLAP_MAX = Some []" using holds_overlapping [OF es(1)] by simp
  ultimately show ?thesis by (simp add: mmap_addr_def page_space_def)
qed

theorem mmap_address_free_witness:
  "\<exists>m. vm_areas m three_pages \<and> mmap_addr 0x9000 0x1000 False (page_space m) = Some (Ok 0x9000, page_space m) \<and> is_free three_pages 0x9000 0x1000"
proof -
  obtain m where m: "vm_areas m three_pages" "vma_iter m = Some three_pages" using three_pages_areas by blast
  have v: "vmas (page_space m) = m" by (simp add: page_space_def)
  have "page_aligned 0x1000" "unat (0x1000 :: u64) \<le> 2 ^ 63" "\<forall>v\<in>set three_pages. vma_end v \<le> user_end"
    "mmap_current (page_space m) \<le> user_end" "mmap_base (page_space m) \<le> user_end"
    by (simp_all add: page_aligned_def PAGE_SIZE_def page_simps layout_defs page_space_def space_init_def)
  then have "is_free three_pages 0x9000 0x1000"
    using mmap_address_free [where a = "page_space m" and vs = three_pages, OF _ _ _ _ _ _ _ page_space_hint [OF m(1)]] m v by simp
  then show ?thesis using m(1) page_space_hint [OF m(1)] by blast
qed

section \<open>Copying an address space for a fork\<close>

lemma fork_area_bounds [simp]: "vma_start (fork_area v) = vma_start v" "vma_end (fork_area v) = vma_end v"
  by (simp_all add: fork_area_def)

lemma fork_areas_disjoint: "disjoint_areas (map fork_area vs) = disjoint_areas vs"
  by (simp add: sorted_wrt_map vma_is_valid_def)

text \<open>
  C24: A fork gives the child exactly the parent's areas, with writable private areas marked
  copy-on-write, and the parent's heap, stack and mapping bounds; every other address space is
  unchanged.  This needs PIDs below 64, a parent with a valid address space of at most 64 disjoint areas
  with the right recorded end addresses, and an iterator that yields every area of the parent.
\<close>

theorem fork_copies_areas:
  assumes "length (spaces s) = MAX_ADDRESS_SPACES" "parent < of_nat MAX_ADDRESS_SPACES" "child < of_nat MAX_ADDRESS_SPACES"
    and "p = spaces s ! unat parent" "as_valid p" "vm_areas (vmas p) vs" "vma_iter (vmas p) = Some vs" "length vs \<le> FORK_MAX"
  shows "\<exists>s' c. copy_address_space_for_fork parent child s = Some (Ok (), s') \<and> spaces s' = (spaces s)[unat child := c] \<and>
    as_valid c \<and> as_pid c = child \<and> vm_areas (vmas c) (map fork_area vs) \<and>
    (heap_start c, heap_end c, stack_start c, stack_end c, mmap_base c, mmap_current c) =
    (heap_start p, heap_end p, stack_start p, stack_end p, mmap_base p, mmap_current p)"
proof -
  let ?ws = "map fork_area vs"
  have d: "disjoint_areas ?ws" using tree_store.areas_disjoint [OF assms(6)] fork_areas_disjoint by blast
  then have "fold ins_area ?ws [] = ?ws" using fold_ins_sorted [of "[]" ?ws] by simp
  then obtain m where m: "insert_all ?ws VMAManager_default = Some m" "vm_areas m ?ws"
    using grown_insert_all [OF grown_default, of ?ws] grown_areas [OF _ d] d assms(8) by (auto simp: FORK_MAX_def MAX_VMAS_def)
  let ?c = "(space_init child 0 (spaces s ! unat child))\<lparr> heap_start := heap_start p, heap_end := heap_end p,
    stack_start := stack_start p, stack_end := stack_end p, mmap_base := mmap_base p, mmap_current := mmap_current p, vmas := m \<rparr>"
  have "take FORK_MAX vs = vs" using assms(8) by simp
  moreover have "\<not> of_nat MAX_ADDRESS_SPACES \<le> parent" "\<not> of_nat MAX_ADDRESS_SPACES \<le> child" using assms(2,3) by auto
  ultimately show ?thesis using assms(4-7) m
    by (intro exI [of _ "s\<lparr> spaces := (spaces s)[unat child := ?c] \<rparr>"] exI [of _ ?c]) (simp add: copy_address_space_for_fork_def Let_def space_init_def)
qed

theorem fork_copies_areas_witness:
  "\<exists>m s' c. copy_address_space_for_fork 1 2 (VmSystem_new\<lparr> spaces := (spaces VmSystem_new)[1 := page_space m] \<rparr>) = Some (Ok (), s') \<and>
     spaces s' ! 2 = c \<and> vm_areas (vmas c) (map fork_area three_pages)"
proof -
  obtain m where m: "vm_areas m three_pages" "vma_iter m = Some three_pages" using three_pages_areas by blast
  let ?s = "VmSystem_new\<lparr> spaces := (spaces VmSystem_new)[1 := page_space m] \<rparr>"
  have s: "length (spaces ?s) = MAX_ADDRESS_SPACES" "spaces ?s ! unat (1 :: u64) = page_space m"
    by (simp_all add: VmSystem_new_def MAX_ADDRESS_SPACES_def)
  have p: "as_valid (page_space m)" "vmas (page_space m) = m" by (simp_all add: page_space_def space_init_def)
  have "(1 :: u64) < of_nat MAX_ADDRESS_SPACES" "(2 :: u64) < of_nat MAX_ADDRESS_SPACES" "length three_pages \<le> FORK_MAX"
    by (simp_all add: MAX_ADDRESS_SPACES_def FORK_MAX_def page_simps)
  then obtain s' c where "copy_address_space_for_fork 1 2 ?s = Some (Ok (), s')" "spaces s' = (spaces ?s)[unat (2 :: u64) := c]"
    "vm_areas (vmas c) (map fork_area three_pages)"
    using fork_copies_areas [where s = ?s and parent = 1 and child = 2 and p = "page_space m" and vs = three_pages] s p m by auto
  moreover from this have "spaces s' ! 2 = c" using s(1) by (simp add: MAX_ADDRESS_SPACES_def)
  ultimately show ?thesis by blast
qed

end
