(* ===== verification/Big_Int.thy ===== *)
theory Big_Int
  imports Kernel_Prelude "HOL-Library.Monad_Syntax"
begin

text \<open>
  Big integers of the module signature check: \<open>BigInt\<close> of \<open>src/src/kmod/crypto.rs\<close>, lines 545 to 1030.
  A number is an array of 64 little-endian 64-bit limbs and the count of significant limbs; products
  live in arrays of 128 limbs.  The carry of the multiplication is a 128-bit word.  The loops that may
  not end (\<open>mod_reduce\<close>, \<open>mod_mul\<close>) are partial functions, where \<^term>\<open>None\<close> is no return.  The functions
  the source marks as dead code (\<open>mul_add_limb\<close>, \<open>shl1\<close>, \<open>shr1\<close>, \<open>extended_clz\<close>, \<open>extended_ge_mod\<close>,
  \<open>extended_sub_mod\<close>) have no callers and are left out.
\<close>

type_synonym u128 = "128 word"

definition MAX_RSA_BYTES :: nat where "MAX_RSA_BYTES = 512"

definition MAX_RSA_LIMBS :: nat where "MAX_RSA_LIMBS = 64"

record BigInt =
  limbs :: "u64 list"
  blen :: nat

datatype Ordering = Less | Equal | Greater

section \<open>Bytes and bits of the standard library\<close>

text \<open>\<open>from_be_bytes\<close>, \<open>to_be_bytes\<close> and \<open>leading_zeros\<close> of the integer types, \<open>rchunks\<close> of slices.\<close>

definition from_be_bytes :: "u8 list \<Rightarrow> 'w::len word" where
  "from_be_bytes bs = foldl (\<lambda>acc b. 256 * acc + ucast b) 0 bs"

fun nat_be_bytes :: "nat \<Rightarrow> nat \<Rightarrow> u8 list" where
  "nat_be_bytes 0 n = []"
| "nat_be_bytes (Suc k) n = nat_be_bytes k (n div 256) @ [of_nat n]"

definition to_be_bytes :: "'w::len word \<Rightarrow> u8 list" where
  "to_be_bytes w = nat_be_bytes (LENGTH('w) div 8) (unat w)"

fun bit_length :: "nat \<Rightarrow> nat" where
  "bit_length n = (if n = 0 then 0 else Suc (bit_length (n div 2)))"

definition leading_zeros :: "u64 \<Rightarrow> nat" where
  "leading_zeros w = 64 - bit_length (unat w)"

function rchunks :: "nat \<Rightarrow> 'a list \<Rightarrow> 'a list list" where
  "rchunks n xs =
     (if xs = [] \<or> n = 0 then []
      else drop (length xs - n) xs # rchunks n (take (length xs - n) xs))"
  by auto
termination by (relation "measure (\<lambda>(n, xs). length xs)") auto

declare bit_length.simps [simp del] rchunks.simps [simp del]

section \<open>Numbers and bytes\<close>

definition bi_zero :: BigInt where
  "bi_zero = \<lparr> limbs = replicate MAX_RSA_LIMBS 0, blen = 0 \<rparr>"

fun normalize_loop :: "u64 list \<Rightarrow> nat \<Rightarrow> nat" where
  "normalize_loop xs 0 = 0"
| "normalize_loop xs (Suc n) = (if xs ! n = 0 then normalize_loop xs n else Suc n)"

definition bi_normalize :: "BigInt \<Rightarrow> BigInt" where
  "bi_normalize b = b\<lparr> blen := normalize_loop (limbs b) (blen b) \<rparr>"

definition from_bytes_be :: "u8 list \<Rightarrow> BigInt option" where
  "from_bytes_be bytes =
     (if MAX_RSA_BYTES < length bytes then None
      else let significant = dropWhile (\<lambda>b. b = 0) bytes in
        if significant = [] then Some bi_zero
        else let r = fold (\<lambda>(i, chunk) r. r[i := from_be_bytes (replicate (8 - length chunk) 0 @ chunk)])
                       (enumerate 0 (rchunks 8 significant)) (limbs bi_zero)
          in Some (bi_normalize \<lparr> limbs = r, blen = (length significant + 7) div 8 \<rparr>))"

text \<open>One byte of the output loop: leading zeros are dropped.\<close>

definition push_byte :: "u8 \<Rightarrow> u8 list \<times> bool \<Rightarrow> u8 list \<times> bool" where
  "push_byte b s = (if snd s \<or> b \<noteq> 0 then (fst s @ [b], True) else s)"

definition to_bytes_be :: "BigInt \<Rightarrow> u8 list" where
  "to_bytes_be b =
     (if blen b = 0 then [0]
      else let r = fst (fold (\<lambda>i s. fold push_byte (to_be_bytes (limbs b ! i)) s) (rev [0..<blen b]) ([], False))
        in if r = [] then [0] else r)"

definition bi_is_zero :: "BigInt \<Rightarrow> bool" where
  "bi_is_zero b \<longleftrightarrow> blen b = 0"

section \<open>Comparison and subtraction\<close>

text \<open>The comparison loops run over the indices from the top; the first difference decides.\<close>

fun cmp_loop :: "u64 list \<Rightarrow> u64 list \<Rightarrow> nat \<Rightarrow> Ordering" where
  "cmp_loop xs ys 0 = Equal"
| "cmp_loop xs ys (Suc n) =
     (if xs ! n \<noteq> ys ! n then (if xs ! n < ys ! n then Less else Greater) else cmp_loop xs ys n)"

definition bi_cmp :: "BigInt \<Rightarrow> BigInt \<Rightarrow> Ordering" where
  "bi_cmp a b =
     (if blen a \<noteq> blen b then (if blen a < blen b then Less else Greater)
      else cmp_loop (limbs a) (limbs b) (blen a))"

definition bi_ge :: "BigInt \<Rightarrow> BigInt \<Rightarrow> bool" where
  "bi_ge a b \<longleftrightarrow> bi_cmp a b = Greater \<or> bi_cmp a b = Equal"

text \<open>Two \<open>overflowing_sub\<close>: the difference and the new borrow.\<close>

definition sub_limb :: "u64 \<Rightarrow> u64 \<Rightarrow> u64 \<Rightarrow> u64 \<times> u64" where
  "sub_limb a b borrow =
     (let diff = a - b in (diff - borrow, of_bool (a < b) + of_bool (diff < borrow)))"

definition bi_sub :: "BigInt \<Rightarrow> BigInt \<Rightarrow> BigInt" where
  "bi_sub a b =
     (let r = fold (\<lambda>i (r, borrow).
                let (d, c) = sub_limb (limbs a ! i) (if i < blen b then limbs b ! i else 0) borrow in (r[i := d], c))
              [0..<blen a] (limbs bi_zero, 0)
      in bi_normalize \<lparr> limbs = fst r, blen = blen a \<rparr>)"

partial_function (option) reduce_loop :: "BigInt \<Rightarrow> BigInt \<Rightarrow> BigInt option" where
  [code]: "reduce_loop m r = (if bi_ge r m then reduce_loop m (bi_sub r m) else Some r)"

definition mod_reduce :: "BigInt \<Rightarrow> BigInt \<Rightarrow> BigInt option" where
  "mod_reduce a m = (if bi_cmp a m = Less then Some a else reduce_loop m a)"

section \<open>Multiplication\<close>

definition mul_step :: "u64 \<Rightarrow> BigInt \<Rightarrow> nat \<Rightarrow> nat \<Rightarrow> u64 list \<times> u128 \<Rightarrow> u64 list \<times> u128" where
  "mul_step x b i j s =
     (let product = ucast x * ucast (limbs b ! j) + ucast (fst s ! (i + j)) + snd s
      in ((fst s)[i + j := ucast product], drop_bit 64 product))"

function propagate :: "nat \<Rightarrow> u64 list \<times> u128 \<Rightarrow> u64 list" where
  "propagate k s =
     (if snd s \<noteq> 0 \<and> k < MAX_RSA_LIMBS * 2 then
        let total = ucast (fst s ! k) + snd s in propagate (k + 1) ((fst s)[k := ucast total], drop_bit 64 total)
      else fst s)"
  by auto
termination by (relation "measure (\<lambda>(k, s). MAX_RSA_LIMBS * 2 - k)") auto

declare propagate.simps [simp del]

definition mul_row :: "BigInt \<Rightarrow> BigInt \<Rightarrow> nat \<Rightarrow> u64 list \<Rightarrow> u64 list" where
  "mul_row a b i r = propagate (i + blen b) (fold (mul_step (limbs a ! i) b i) [0..<blen b] (r, 0))"

definition full_mul :: "BigInt \<Rightarrow> BigInt \<Rightarrow> u64 list" where
  "full_mul a b = fold (mul_row a b) [0..<blen a] (replicate (MAX_RSA_LIMBS * 2) 0)"

section \<open>Reduction of a product\<close>

definition extended_shl :: "u64 list \<Rightarrow> nat \<Rightarrow> nat \<Rightarrow> u64 list" where
  "extended_shl xs len n =
     (if n = 0 then xs
      else let word_shift = n div 64; bit_shift = n mod 64 in
        if len \<le> word_shift then fold (\<lambda>i r. r[i := 0]) [0..<len] xs
        else let r = (if bit_shift = 0 then fold (\<lambda>i r. r[i := r ! (i - word_shift)]) (rev [word_shift..<len]) xs
                      else let r = fold (\<lambda>i r. r[i := push_bit bit_shift (r ! (i - word_shift)) OR
                                                    drop_bit (64 - bit_shift) (r ! (i - word_shift - 1))])
                                     (rev [word_shift + 1..<len]) xs
                        in r[word_shift := push_bit bit_shift (r ! 0)])
          in fold (\<lambda>i r. r[i := 0]) [0..<word_shift] r)"

definition shifted_modulus :: "BigInt \<Rightarrow> nat \<Rightarrow> u64 list" where
  "shifted_modulus m shift =
     extended_shl (fold (\<lambda>i r. r[i := limbs m ! i]) [0..<blen m] (replicate (MAX_RSA_LIMBS * 2) 0)) (MAX_RSA_LIMBS * 2) shift"

text \<open>The loop that looks for a greater limb from the top, then the one that compares all limbs.\<close>

definition can_subtract :: "u64 list \<Rightarrow> u64 list \<Rightarrow> bool" where
  "can_subtract p s \<longleftrightarrow> cmp_loop p s (MAX_RSA_LIMBS * 2) = Greater \<or> (\<forall>i < MAX_RSA_LIMBS * 2. p ! i = s ! i)"

definition subtract_limbs :: "u64 list \<Rightarrow> u64 list \<Rightarrow> u64 list" where
  "subtract_limbs p s =
     fst (fold (\<lambda>i (r, borrow). let (d, c) = sub_limb (r ! i) (s ! i) borrow in (r[i := d], c)) [0..<MAX_RSA_LIMBS * 2] (p, 0))"

definition copy_result :: "u64 list \<Rightarrow> nat \<Rightarrow> BigInt" where
  "copy_result p eff_len =
     (let n = min eff_len MAX_RSA_LIMBS
      in bi_normalize \<lparr> limbs = fold (\<lambda>i r. r[i := p ! i]) [0..<n] (limbs bi_zero), blen = n \<rparr>)"

text \<open>
  One iteration of the loop of \<open>mod_mul\<close>: subtract the modulus shifted to the length of the product, or
  shifted one bit less when that is too much; the loop breaks (\<^term>\<open>None\<close>) when neither fits.
\<close>

definition mod_mul_step :: "BigInt \<Rightarrow> nat \<Rightarrow> u64 list \<Rightarrow> nat \<Rightarrow> u64 list option" where
  "mod_mul_step m mod_bits p eff_len =
     (let prod_bits = eff_len * 64 - leading_zeros (p ! (eff_len - 1)); shift = prod_bits - mod_bits
      in if prod_bits < mod_bits then None
         else if can_subtract p (shifted_modulus m shift) then Some (subtract_limbs p (shifted_modulus m shift))
         else if shift = 0 then None
         else if can_subtract p (shifted_modulus m (shift - 1)) then Some (subtract_limbs p (shifted_modulus m (shift - 1)))
         else None)"

partial_function (option) mod_mul_loop :: "BigInt \<Rightarrow> nat \<Rightarrow> u64 list \<Rightarrow> nat \<Rightarrow> BigInt option" where
  [code]: "mod_mul_loop m mod_bits p eff_len =
     (case mod_mul_step m mod_bits p eff_len of
        None \<Rightarrow> Some (copy_result p eff_len)
      | Some p1 \<Rightarrow>
          if normalize_loop p1 eff_len = 0 then Some bi_zero
          else mod_mul_loop m mod_bits p1 (normalize_loop p1 eff_len))"

definition mod_mul :: "BigInt \<Rightarrow> BigInt \<Rightarrow> BigInt \<Rightarrow> BigInt option" where
  "mod_mul a b m =
     (if bi_is_zero a \<or> bi_is_zero b then Some bi_zero
      else let product = full_mul a b; eff_len = normalize_loop product (MAX_RSA_LIMBS * 2) in
        if eff_len = 0 then Some bi_zero
        else if blen m = 0 then None
        else mod_mul_loop m (blen m * 64 - leading_zeros (limbs m ! (blen m - 1))) product eff_len)"

section \<open>Exponentiation\<close>

text \<open>The 64 rounds of one limb of the exponent.\<close>

fun exp_limb :: "nat \<Rightarrow> BigInt \<Rightarrow> u64 \<Rightarrow> BigInt \<times> BigInt \<Rightarrow> (BigInt \<times> BigInt) option" where
  "exp_limb 0 m limb s = Some s"
| "exp_limb (Suc k) m limb (r, base_pow) = do {
     r1 \<leftarrow> (if limb AND 1 \<noteq> 0 then mod_mul r base_pow m else Some r);
     base_pow1 \<leftarrow> mod_mul base_pow base_pow m;
     exp_limb k m (drop_bit 1 limb) (r1, base_pow1) }"

fun exp_loop :: "u64 list \<Rightarrow> BigInt \<Rightarrow> BigInt \<times> BigInt \<Rightarrow> (BigInt \<times> BigInt) option" where
  "exp_loop [] m s = Some s"
| "exp_loop (limb # es) m s = do { s1 \<leftarrow> exp_limb 64 m limb s; exp_loop es m s1 }"

definition mod_exp :: "BigInt \<Rightarrow> BigInt \<Rightarrow> BigInt \<Rightarrow> BigInt option" where
  "mod_exp base e m =
     (if bi_is_zero m then Some bi_zero
      else do {
        base_pow \<leftarrow> mod_reduce base m;
        (r, _) \<leftarrow> exp_loop (take (blen e) (limbs e)) m (\<lparr> limbs = (limbs bi_zero)[0 := 1], blen = 1 \<rparr>, base_pow);
        Some r })"

end
