(* ===== verification/Big_Value.thy ===== *)
theory Big_Value
  imports Big_Int
begin

text \<open>
  The value of an array of limbs, and what comparison, subtraction, multiplication and the shift of
  \<open>Big_Int\<close> compute on values.
\<close>

section \<open>Values\<close>

fun lval :: "u64 list \<Rightarrow> nat" where
  "lval [] = 0"
| "lval (x # xs) = unat x + 2 ^ 64 * lval xs"

definition bval :: "BigInt \<Rightarrow> nat" where
  "bval b = lval (limbs b)"

text \<open>The significant limbs are counted exactly and the others are zero.\<close>

definition bi_ok :: "BigInt \<Rightarrow> bool" where
  "bi_ok b \<longleftrightarrow> length (limbs b) = 64 \<and> blen b \<le> 64 \<and> (\<forall>i. blen b \<le> i \<and> i < 64 \<longrightarrow> limbs b ! i = 0) \<and>
     (0 < blen b \<longrightarrow> limbs b ! (blen b - 1) \<noteq> 0)"

lemma unat_u64: "unat (x :: u64) < 2 ^ 64"
  using unsigned_less [of x] by simp

lemma lval_append: "lval (xs @ ys) = lval xs + 2 ^ (64 * length xs) * lval ys"
  by (induction xs) (simp_all add: algebra_simps power_add)

lemma lval_replicate [simp]: "lval (replicate n 0) = 0"
  by (induction n) auto

lemma lval_less: "lval xs < 2 ^ (64 * length xs)"
proof (induction xs)
  case (Cons x xs)
  have "unat x < 2 ^ 64" by (rule unat_u64)
  moreover have "2 ^ 64 * (lval xs + 1) \<le> (2 ^ 64 :: nat) * 2 ^ (64 * length xs)" using Cons.IH by (intro mult_le_mono2) simp
  ultimately show ?case by (simp add: power_add)
qed simp

lemma lval_take_Suc: "n < length xs \<Longrightarrow> lval (take (Suc n) xs) = lval (take n xs) + 2 ^ (64 * n) * unat (xs ! n)"
  by (simp add: take_Suc_conv_app_nth lval_append)

lemma lval_take_less: "lval (take n xs) < 2 ^ (64 * n)"
proof -
  have "lval (take n xs) < 2 ^ (64 * length (take n xs))" by (rule lval_less)
  also have "\<dots> \<le> (2::nat) ^ (64 * n)" by (intro power_increasing) auto
  finally show ?thesis .
qed

lemma lval_update: "i < length xs \<Longrightarrow> lval (xs[i := v]) + 2 ^ (64 * i) * unat (xs ! i) = lval xs + 2 ^ (64 * i) * unat v"
proof (induction xs arbitrary: i)
  case (Cons x xs)
  then show ?case
  proof (cases i)
    case (Suc k)
    then have ih: "lval (xs[k := v]) + 2 ^ (64 * k) * unat (xs ! k) = lval xs + 2 ^ (64 * k) * unat v" using Cons by simp
    have "2 ^ 64 * (lval (xs[k := v]) + 2 ^ (64 * k) * unat (xs ! k)) = 2 ^ 64 * (lval xs + 2 ^ (64 * k) * unat v)"
      by (simp only: ih)
    then show ?thesis using Suc by (simp add: algebra_simps power_add)
  qed simp
qed simp

lemma lval_zeros: "(\<And>i. i < length xs \<Longrightarrow> xs ! i = 0) \<Longrightarrow> lval xs = 0"
proof (induction xs)
  case (Cons x xs)
  have "x = 0" using Cons.prems [of 0] by simp
  moreover have "lval xs = 0" using Cons.prems [of "Suc _"] by (intro Cons.IH) simp
  ultimately show ?case by simp
qed simp

lemma lval_take_high:
  assumes "\<And>i. n \<le> i \<Longrightarrow> i < length xs \<Longrightarrow> xs ! i = 0"
  shows "lval (take n xs) = lval xs"
proof -
  have "lval (drop n xs) = 0" using assms by (intro lval_zeros) simp
  then show ?thesis using lval_append [of "take n xs" "drop n xs"] by simp
qed

lemma lval_high_lower:
  assumes "n < length xs" "xs ! n \<noteq> 0"
  shows "2 ^ (64 * n) \<le> lval xs"
proof -
  have "1 \<le> unat (xs ! n)" using assms(2) by (simp add: Suc_le_eq unat_gt_0)
  then have "2 ^ (64 * n) \<le> 2 ^ (64 * n) * unat (xs ! n)" by simp
  also have "\<dots> \<le> lval (take (Suc n) xs)" using assms(1) by (simp add: lval_take_Suc)
  also have "\<dots> \<le> lval xs" using lval_append [of "take (Suc n) xs" "drop (Suc n) xs"] by simp
  finally show ?thesis .
qed

section \<open>Well-formed numbers\<close>

lemma bi_zero_ok [simp]: "bi_ok bi_zero" "bval bi_zero = 0"
  by (simp_all add: bi_ok_def bi_zero_def bval_def MAX_RSA_LIMBS_def)

lemma bi_take: "bi_ok b \<Longrightarrow> lval (take (blen b) (limbs b)) = bval b"
  unfolding bval_def by (intro lval_take_high) (auto simp: bi_ok_def)

lemma bval_upper: "bi_ok b \<Longrightarrow> bval b < 2 ^ (64 * blen b)"
  using lval_take_less [of "blen b" "limbs b"] by (simp add: bi_take)

lemma bval_lower: "bi_ok b \<Longrightarrow> 0 < blen b \<Longrightarrow> 2 ^ (64 * (blen b - 1)) \<le> bval b"
  unfolding bval_def by (intro lval_high_lower) (auto simp: bi_ok_def)

lemma bval_zero_iff: "bi_ok b \<Longrightarrow> bval b = 0 \<longleftrightarrow> blen b = 0"
  using bval_upper [of b] bval_lower [of b] by (cases "blen b") (auto dest!: order.strict_trans2 [rotated, of _ _ 0])

lemma normalize_loop_le: "normalize_loop xs n \<le> n"
  by (induction n) auto

lemma normalize_loop_high: "normalize_loop xs n \<le> i \<Longrightarrow> i < n \<Longrightarrow> xs ! i = 0"
proof (induction n)
  case (Suc n)
  then show ?case by (cases "i = n") (auto split: if_splits)
qed simp

lemma normalize_loop_top: "0 < normalize_loop xs n \<Longrightarrow> xs ! (normalize_loop xs n - 1) \<noteq> 0"
  by (induction n) auto

lemma normalize_ok:
  assumes "length (limbs b) = 64" "blen b \<le> 64" "\<And>i. blen b \<le> i \<Longrightarrow> i < 64 \<Longrightarrow> limbs b ! i = 0"
  shows "bi_ok (bi_normalize b)" "bval (bi_normalize b) = lval (limbs b)"
proof -
  have "limbs b ! i = 0" if "normalize_loop (limbs b) (blen b) \<le> i" "i < 64" for i
    using normalize_loop_high [OF that(1)] assms(3) [of i] that(2) by (cases "i < blen b") auto
  moreover have "normalize_loop (limbs b) (blen b) \<le> 64" using normalize_loop_le [of "limbs b" "blen b"] assms(2) by simp
  ultimately show "bi_ok (bi_normalize b)" using assms(1) normalize_loop_top [of "limbs b" "blen b"]
    by (simp add: bi_ok_def bi_normalize_def)
qed (simp add: bval_def bi_normalize_def)

section \<open>Comparison\<close>

lemma high_limb_less:
  fixes a b k x y :: nat
  assumes "a < 2 ^ k" "b < 2 ^ k" "x < y"
  shows "a + 2 ^ k * x < b + 2 ^ k * y"
proof -
  have "a + 2 ^ k * x < 2 ^ k * (x + 1)" using assms(1) by simp
  also have "\<dots> \<le> 2 ^ k * y" using assms(3) by (intro mult_le_mono2) simp
  finally show ?thesis by simp
qed

lemma cmp_loop_value:
  "n \<le> length xs \<Longrightarrow> n \<le> length ys \<Longrightarrow>
   cmp_loop xs ys n = (if lval (take n xs) < lval (take n ys) then Less
                       else if lval (take n xs) = lval (take n ys) then Equal else Greater)"
proof (induction n)
  case (Suc n)
  have l: "lval (take n xs) < 2 ^ (64 * n)" "lval (take n ys) < 2 ^ (64 * n)" by (rule lval_take_less)+
  consider "xs ! n = ys ! n" | "xs ! n < ys ! n" | "ys ! n < xs ! n" by (meson linorder_neqE)
  then show ?case
  proof cases
    case 1
    then show ?thesis using Suc by (simp add: lval_take_Suc)
  next
    case 2
    then have "lval (take (Suc n) xs) < lval (take (Suc n) ys)"
      using high_limb_less [OF l, of "unat (xs ! n)" "unat (ys ! n)"] Suc.prems by (simp add: lval_take_Suc word_less_nat_alt)
    then show ?thesis using 2 by auto
  next
    case 3
    then have "lval (take (Suc n) ys) < lval (take (Suc n) xs)"
      using high_limb_less [OF l(2,1), of "unat (ys ! n)" "unat (xs ! n)"] Suc.prems by (simp add: lval_take_Suc word_less_nat_alt)
    then show ?thesis using 3 by auto
  qed
qed simp

lemma blen_less_value:
  assumes "bi_ok a" "bi_ok b" "blen a < blen b"
  shows "bval a < bval b"
proof -
  have "bval a < 2 ^ (64 * blen a)" using assms(1) by (rule bval_upper)
  also have "\<dots> \<le> (2::nat) ^ (64 * (blen b - 1))" using assms(3) by (intro power_increasing) auto
  also have "\<dots> \<le> bval b" using assms(2,3) by (intro bval_lower) auto
  finally show ?thesis .
qed

lemma bi_cmp_value:
  assumes "bi_ok a" "bi_ok b"
  shows "bi_cmp a b = (if bval a < bval b then Less else if bval a = bval b then Equal else Greater)"
proof (cases "blen a = blen b")
  case True
  have "blen a \<le> length (limbs a)" "blen b \<le> length (limbs b)" using assms by (auto simp: bi_ok_def)
  then show ?thesis using True cmp_loop_value [of "blen a" "limbs a" "limbs b"] bi_take [OF assms(1)] bi_take [OF assms(2)]
    by (simp add: bi_cmp_def)
next
  case False
  then show ?thesis using blen_less_value [OF assms] blen_less_value [OF assms(2,1)] by (auto simp: bi_cmp_def)
qed

lemma bi_ge_value: "bi_ok a \<Longrightarrow> bi_ok b \<Longrightarrow> bi_ge a b \<longleftrightarrow> bval b \<le> bval a"
  by (auto simp: bi_ge_def bi_cmp_value)

section \<open>Subtraction\<close>

lemma sub_limb_value:
  assumes "sub_limb a b c = (d, c1)" "unat c \<le> 1"
  shows "unat d + unat b + unat c = unat a + 2 ^ 64 * unat c1" "unat c1 \<le> 1"
proof -
  have d: "d = a - b - c" and c1: "c1 = of_bool (a < b) + of_bool (a - b < c)"
    using assms(1) by (auto simp: sub_limb_def Let_def)
  have ab: "unat (a - b) + unat b = unat a + (if a < b then 2 ^ 64 else 0)"
    using unat_u64 [of a] unat_u64 [of b] by (auto simp: unat_sub_if' word_less_nat_alt)
  have dc: "unat d + unat c = unat (a - b) + (if a - b < c then 2 ^ 64 else 0)"
    using unat_u64 [of "a - b"] unat_u64 [of c] by (auto simp: d unat_sub_if' word_less_nat_alt)
  have "\<not> (a < b \<and> a - b < c)"
  proof
    assume h: "a < b \<and> a - b < c"
    then have "unat (a - b) = 0" using assms(2) by (simp add: word_less_nat_alt)
    then show False using ab h unat_u64 [of b] by simp
  qed
  then show "unat d + unat b + unat c = unat a + 2 ^ 64 * unat c1" "unat c1 \<le> 1"
    using ab dc by (auto simp: c1 split: if_splits)
qed

text \<open>
  The subtraction loop, for any source \<open>x\<close> of the minuend that is not disturbed by the limbs written so
  far: the array written to, or another one.
\<close>

lemma sub_fold:
  assumes "fold (\<lambda>i (r, c). let (d, c1) = sub_limb (x i r) (y i) c in (r[i := d], c1)) [0..<n] (r0, 0) = (r, c)"
    and "n \<le> length r0" "n \<le> length xs" "n \<le> length ys"
    and "\<And>i r. i < n \<Longrightarrow> (\<forall>j. i \<le> j \<and> j < length r0 \<longrightarrow> r ! j = r0 ! j) \<Longrightarrow> x i r = xs ! i" "\<And>i. i < n \<Longrightarrow> y i = ys ! i"
  shows "length r = length r0 \<and> (\<forall>j. n \<le> j \<and> j < length r0 \<longrightarrow> r ! j = r0 ! j) \<and> unat c \<le> 1 \<and>
    lval r + lval (take n r0) + lval (take n ys) = lval r0 + lval (take n xs) + 2 ^ (64 * n) * unat c"
  using assms
proof (induction n arbitrary: r c)
  case (Suc n)
  let ?f = "\<lambda>i (r, c). let (d, c1) = sub_limb (x i r) (y i) c in (r[i := d], c1)"
  obtain q e where q: "fold ?f [0..<n] (r0, 0) = (q, e)" by fastforce
  have ih: "length q = length r0" "\<forall>j. n \<le> j \<and> j < length r0 \<longrightarrow> q ! j = r0 ! j" "unat e \<le> 1"
    "lval q + lval (take n r0) + lval (take n ys) = lval r0 + lval (take n xs) + 2 ^ (64 * n) * unat e"
    using Suc.IH [OF q] Suc.prems(2-6) by auto
  have xy: "x n q = xs ! n" "y n = ys ! n" using Suc.prems(5) [of n q] Suc.prems(6) [of n] ih(2) by auto
  obtain d where d: "sub_limb (xs ! n) (ys ! n) e = (d, c)" and r: "r = q[n := d]"
    using Suc.prems(1) q xy by (auto split: prod.splits)
  note v = sub_limb_value [OF d ih(3)]
  have qn: "q ! n = r0 ! n" using ih(2) Suc.prems(2) by simp
  have "lval r + 2 ^ (64 * n) * unat (r0 ! n) = lval q + 2 ^ (64 * n) * unat d"
    using lval_update [of n q d] ih(1) Suc.prems(2) by (simp add: r qn)
  moreover have "2 ^ (64 * n) * (unat d + unat (ys ! n) + unat e) = 2 ^ (64 * n) * (unat (xs ! n) + 2 ^ 64 * unat c)"
    using v(1) by simp
  moreover have "2 ^ (64 * Suc n) * unat c = 2 ^ (64 * n) * (2 ^ 64 * unat c)" by (simp add: power_add)
  ultimately have "lval r + lval (take (Suc n) r0) + lval (take (Suc n) ys) =
      lval r0 + lval (take (Suc n) xs) + 2 ^ (64 * Suc n) * unat c"
    using ih(4) lval_take_Suc [of n r0] lval_take_Suc [of n xs] lval_take_Suc [of n ys] Suc.prems(2,3,4)
    unfolding distrib_left Suc_le_eq by linarith
  then show ?case using ih(1,2) v(2) by (auto simp: r)
qed simp

lemma bi_sub_value:
  assumes "bi_ok a" "bi_ok b" "bval b \<le> bval a"
  shows "bi_ok (bi_sub a b)" "bval (bi_sub a b) = bval a - bval b"
proof -
  let ?z = "limbs bi_zero"
  obtain r c where f: "fold (\<lambda>i (r, borrow). let (d, c) = sub_limb (limbs a ! i) (if i < blen b then limbs b ! i else 0) borrow
      in (r[i := d], c)) [0..<blen a] (?z, 0) = (r, c)" by fastforce
  have l: "blen a \<le> 64" "length ?z = 64" "length (limbs a) = 64" "length (limbs b) = 64" "lval ?z = 0"
    using assms by (auto simp: bi_ok_def bi_zero_def MAX_RSA_LIMBS_def)
  have le: "blen b \<le> blen a" using blen_less_value [OF assms(1,2)] assms(3) by (meson not_le)
  have "lval (take (blen a) (limbs b)) = bval b"
    unfolding bval_def using assms(2) le by (intro lval_take_high) (auto simp: bi_ok_def)
  moreover have "lval (take (blen a) ?z) = 0" by (simp add: bi_zero_def MAX_RSA_LIMBS_def)
  moreover have "length r = length ?z \<and> (\<forall>j. blen a \<le> j \<and> j < length ?z \<longrightarrow> r ! j = ?z ! j) \<and> unat c \<le> 1 \<and>
      lval r + lval (take (blen a) ?z) + lval (take (blen a) (limbs b)) =
      lval ?z + lval (take (blen a) (limbs a)) + 2 ^ (64 * blen a) * unat c"
    using assms(2) l by (intro sub_fold [OF f]) (auto simp: bi_ok_def)
  ultimately have r: "length r = 64" "\<forall>j. blen a \<le> j \<and> j < 64 \<longrightarrow> r ! j = 0" "lval r + bval b = bval a + 2 ^ (64 * blen a) * unat c"
    using bi_take [OF assms(1)] l by (auto simp: bi_zero_def MAX_RSA_LIMBS_def)
  have "lval r = lval (take (blen a) r)" using r(1,2) by (intro lval_take_high [symmetric]) auto
  then have "lval r < 2 ^ (64 * blen a)" using lval_take_less [of "blen a" r] by simp
  then have "unat c = 0" using r(3) assms(3) by (cases "unat c") auto
  then have v: "lval r = bval a - bval b" using r(3) by simp
  have s: "bi_sub a b = bi_normalize \<lparr> limbs = r, blen = blen a \<rparr>" unfolding bi_sub_def f by simp
  show "bi_ok (bi_sub a b)" "bval (bi_sub a b) = bval a - bval b"
    using r(1,2) l(1) v normalize_ok [of "\<lparr> limbs = r, blen = blen a \<rparr>"] unfolding s by auto
qed

lemma max_limbs2: "MAX_RSA_LIMBS * 2 = 128"
  by (simp add: MAX_RSA_LIMBS_def)

lemma subtract_limbs_value:
  assumes "length p = MAX_RSA_LIMBS * 2" "length s = MAX_RSA_LIMBS * 2" "lval s \<le> lval p"
  shows "length (subtract_limbs p s) = MAX_RSA_LIMBS * 2" "lval (subtract_limbs p s) = lval p - lval s"
proof -
  obtain r c where f: "fold (\<lambda>i (r, borrow). let (d, c) = sub_limb (r ! i) (s ! i) borrow in (r[i := d], c))
      [0..<MAX_RSA_LIMBS * 2] (p, 0) = (r, c)" by fastforce
  have r: "length r = length p" "lval r + lval s = lval p + 2 ^ (64 * length p) * unat c"
    using sub_fold [OF f, of p s] assms(1,2) by auto
  have "lval r < 2 ^ (64 * length p)" using lval_less [of r] r(1) by simp
  then have "unat c = 0" using r(2) assms(3) by (cases "unat c") auto
  then show "length (subtract_limbs p s) = MAX_RSA_LIMBS * 2" "lval (subtract_limbs p s) = lval p - lval s"
    using r assms(1) unfolding subtract_limbs_def f by simp_all
qed

section \<open>Multiplication\<close>

lemma u128_sum:
  assumes "unat c < 2 ^ 64"
  shows "unat (ucast (x :: u64) * ucast (y :: u64) + ucast (z :: u64) + c :: u128) = unat x * unat y + unat z + unat c"
proof -
  have u: "unat (ucast w :: u128) = unat w" if "True" for w :: u64
    using unat_u64 [of w] by (simp add: unsigned_ucast_eq take_bit_nat_eq_self)
  have "unat x * unat y \<le> (2 ^ 64 - 1) * (2 ^ 64 - 1)" using unat_u64 [of x] unat_u64 [of y] by (intro mult_le_mono) auto
  then have b: "unat x * unat y + unat z + unat c < 2 ^ 128" using unat_u64 [of z] assms by simp
  then have "unat (ucast x * ucast y :: u128) = unat x * unat y"
    using unat_mult_lem [of "ucast x :: u128" "ucast y"] by (simp add: u)
  moreover from this have "unat (ucast x * ucast y + ucast z :: u128) = unat x * unat y + unat z"
    using b unat_add_lem [of "ucast x * ucast y :: u128" "ucast z"] by (simp add: u)
  ultimately show ?thesis using b unat_add_lem [of "ucast x * ucast y + ucast z :: u128" c] by simp
qed

lemma u128_split: "unat (ucast (p :: u128) :: u64) + 2 ^ 64 * unat (drop_bit 64 p) = unat p" "unat (drop_bit 64 p) < 2 ^ 64"
proof -
  have d: "unat (drop_bit 64 p) = unat p div 2 ^ 64" unfolding unat_drop_bit_eq by (rule drop_bit_eq_div)
  have m: "unat (ucast p :: u64) = unat p mod 2 ^ 64" by (simp add: unsigned_ucast_eq take_bit_eq_mod)
  show "unat (ucast p :: u64) + 2 ^ 64 * unat (drop_bit 64 p) = unat p" by (simp add: d m)
  have "unat p < 2 ^ 128" using unsigned_less [of p] by simp
  then show "unat (drop_bit 64 p) < 2 ^ 64" unfolding d by (simp add: less_mult_imp_div_less)
qed

lemma mul_step_value:
  assumes "mul_step x b i j (r, c) = (r1, c1)" "unat c < 2 ^ 64" "i + j < length r"
  shows "length r1 = length r" "unat c1 < 2 ^ 64"
    "lval r1 + 2 ^ (64 * Suc (i + j)) * unat c1 = lval r + 2 ^ (64 * (i + j)) * (unat x * unat (limbs b ! j) + unat c)"
proof -
  define p :: u128 where "p = ucast x * ucast (limbs b ! j) + ucast (r ! (i + j)) + c"
  have s: "r1 = r[i + j := ucast p]" "c1 = drop_bit 64 p" using assms(1) by (auto simp: mul_step_def p_def Let_def)
  have v: "unat p = unat x * unat (limbs b ! j) + unat (r ! (i + j)) + unat c"
    using u128_sum [OF assms(2)] by (simp add: p_def)
  have "2 ^ (64 * (i + j)) * (unat (ucast p :: u64) + 2 ^ 64 * unat c1) =
      2 ^ (64 * (i + j)) * (unat x * unat (limbs b ! j) + unat (r ! (i + j)) + unat c)"
    using u128_split(1) [of p] by (simp only: s(2) v)
  moreover have "2 ^ (64 * Suc (i + j)) * unat c1 = 2 ^ (64 * (i + j)) * (2 ^ 64 * unat c1)"
    by (simp only: mult_Suc_right power_add mult.assoc mult.left_commute)
  ultimately show "lval r1 + 2 ^ (64 * Suc (i + j)) * unat c1 = lval r + 2 ^ (64 * (i + j)) * (unat x * unat (limbs b ! j) + unat c)"
    using lval_update [OF assms(3), of "ucast p"] unfolding s(1) distrib_left by linarith
qed (use assms(1) u128_split(2) in \<open>auto simp: mul_step_def Let_def\<close>)

lemma mul_fold:
  "fold (mul_step x b i) [0..<n] (r0, 0) = (r, c) \<Longrightarrow> i + n \<le> length r0 \<Longrightarrow> n \<le> length (limbs b) \<Longrightarrow>
   length r = length r0 \<and> unat c < 2 ^ 64 \<and>
   lval r + 2 ^ (64 * (i + n)) * unat c = lval r0 + 2 ^ (64 * i) * (unat x * lval (take n (limbs b)))"
proof (induction n arbitrary: r c)
  case (Suc n)
  obtain q e where q: "fold (mul_step x b i) [0..<n] (r0, 0) = (q, e)" by fastforce
  have ih: "length q = length r0" "unat e < 2 ^ 64"
    "lval q + 2 ^ (64 * (i + n)) * unat e = lval r0 + 2 ^ (64 * i) * (unat x * lval (take n (limbs b)))"
    using Suc.IH [OF q] Suc.prems(2,3) by auto
  have st: "mul_step x b i n (q, e) = (r, c)" using Suc.prems(1) q by simp
  have n: "i + n < length q" using ih(1) Suc.prems(2) by simp
  note v = mul_step_value [OF st ih(2) n]
  have "lval (take (Suc n) (limbs b)) = lval (take n (limbs b)) + 2 ^ (64 * n) * unat (limbs b ! n)"
    using Suc.prems(3) by (simp add: lval_take_Suc)
  then have "2 ^ (64 * i) * (unat x * lval (take (Suc n) (limbs b))) =
      2 ^ (64 * i) * (unat x * lval (take n (limbs b))) + 2 ^ (64 * (i + n)) * (unat x * unat (limbs b ! n))"
    by (simp add: algebra_simps power_add)
  moreover have "2 ^ (64 * (i + n)) * (unat x * unat (limbs b ! n) + unat e) =
      2 ^ (64 * (i + n)) * (unat x * unat (limbs b ! n)) + 2 ^ (64 * (i + n)) * unat e" by (rule distrib_left)
  ultimately have "lval r + 2 ^ (64 * Suc (i + n)) * unat c = lval r0 + 2 ^ (64 * i) * (unat x * lval (take (Suc n) (limbs b)))"
    using v(3) ih(3) by linarith
  then show ?case using v(1,2) ih(1) by (simp only: add_Suc_right)
qed simp

lemma propagate_value:
  "length (fst s) = N \<Longrightarrow> N = MAX_RSA_LIMBS * 2 \<Longrightarrow> k \<le> N \<Longrightarrow> unat (snd s) < 2 ^ 64 \<Longrightarrow>
   length (propagate k s) = N \<and> (\<exists>e. lval (propagate k s) + 2 ^ (64 * N) * e = lval (fst s) + 2 ^ (64 * k) * unat (snd s))"
proof (induction k s rule: propagate.induct)
  case (1 k s)
  show ?case
  proof (cases "snd s \<noteq> 0 \<and> k < MAX_RSA_LIMBS * 2")
    case True
    obtain r1 c1 where st: "mul_step 0 bi_zero k 0 s = (r1, c1)" by fastforce
    have r1: "(r1, c1) = ((fst s)[k := ucast (ucast (fst s ! k) + snd s)], drop_bit 64 (ucast (fst s ! k) + snd s))"
      using st by (simp add: mul_step_def Let_def)
    have p: "propagate k s = propagate (k + 1) (r1, c1)"
      unfolding r1 by (subst propagate.simps) (use True in \<open>simp add: Let_def\<close>)
    have v: "length r1 = N" "unat c1 < 2 ^ 64" "lval r1 + 2 ^ (64 * Suc k) * unat c1 = lval (fst s) + 2 ^ (64 * k) * unat (snd s)"
      using mul_step_value [of 0 bi_zero k 0 "fst s" "snd s" r1 c1] st 1(2-5) True by auto
    have "length (propagate (k + 1) (r1, c1)) = N \<and>
        (\<exists>e. lval (propagate (k + 1) (r1, c1)) + 2 ^ (64 * N) * e = lval r1 + 2 ^ (64 * (k + 1)) * unat c1)"
      using 1(1) [OF _ refl] v(1,2) True 1(3) r1 by simp
    then show ?thesis using v(3) by (simp only: p Suc_eq_plus1)
  next
    case False
    then have p: "propagate k s = fst s" by (subst propagate.simps) auto
    have "snd s = 0 \<or> k = N" using False 1(3,4) by auto
    then show ?thesis using 1(2) unfolding p by (cases "snd s = 0") (auto intro: exI [of _ 0])
  qed
qed

lemma mul_row_value:
  assumes "length r = N" "N = MAX_RSA_LIMBS * 2" "bi_ok a" "bi_ok b" "i < blen a"
  shows "length (mul_row a b i r) = N"
    "\<exists>e. lval (mul_row a b i r) + 2 ^ (64 * N) * e = lval r + 2 ^ (64 * i) * (unat (limbs a ! i) * bval b)"
proof -
  obtain q c where q: "fold (mul_step (limbs a ! i) b i) [0..<blen b] (r, 0) = (q, c)" by fastforce
  have b: "i + blen b \<le> length r" "blen b \<le> length (limbs b)" using assms by (auto simp: bi_ok_def max_limbs2)
  from mul_fold [OF q b]
  have v: "length q = N" "unat c < 2 ^ 64" "lval q + 2 ^ (64 * (i + blen b)) * unat c = lval r + 2 ^ (64 * i) * (unat (limbs a ! i) * bval b)"
    using assms(1) by (simp_all add: bi_take [OF assms(4)])
  have "length (propagate (i + blen b) (q, c)) = N \<and>
      (\<exists>e. lval (propagate (i + blen b) (q, c)) + 2 ^ (64 * N) * e = lval q + 2 ^ (64 * (i + blen b)) * unat c)"
    using propagate_value [of "(q, c)" N "i + blen b"] v(1,2) assms(1,2) b(1) by simp
  then show "length (mul_row a b i r) = N"
    "\<exists>e. lval (mul_row a b i r) + 2 ^ (64 * N) * e = lval r + 2 ^ (64 * i) * (unat (limbs a ! i) * bval b)"
    unfolding mul_row_def q v(3) by auto
qed

lemma mul_rows_value:
  assumes "bi_ok a" "bi_ok b" "N = MAX_RSA_LIMBS * 2"
  shows "n \<le> blen a \<Longrightarrow> length (fold (mul_row a b) [0..<n] (replicate N 0)) = N \<and>
    lval (fold (mul_row a b) [0..<n] (replicate N 0)) = lval (take n (limbs a)) * bval b"
proof (induction n)
  case (Suc n)
  let ?r = "fold (mul_row a b) [0..<n] (replicate N 0)"
  have ih: "length ?r = N" "lval ?r = lval (take n (limbs a)) * bval b" using Suc by auto
  have n: "n < blen a" using Suc.prems by simp
  obtain e where e: "lval (mul_row a b n ?r) + 2 ^ (64 * N) * e = lval ?r + 2 ^ (64 * n) * (unat (limbs a ! n) * bval b)"
    using mul_row_value(2) [OF ih(1) assms(3,1,2) n] by blast
  have "lval (take (Suc n) (limbs a)) = lval (take n (limbs a)) + 2 ^ (64 * n) * unat (limbs a ! n)"
    using n assms(1) by (intro lval_take_Suc) (auto simp: bi_ok_def)
  then have e1: "lval (mul_row a b n ?r) + 2 ^ (64 * N) * e = lval (take (Suc n) (limbs a)) * bval b"
    by (simp only: e ih(2) distrib_right mult.assoc)
  have "lval (take (Suc n) (limbs a)) * bval b < 2 ^ (64 * Suc n) * 2 ^ (64 * blen b)"
    by (intro mult_strict_mono lval_take_less bval_upper assms(2)) auto
  also have "\<dots> \<le> (2 :: nat) ^ (64 * N)" unfolding power_add [symmetric]
    using n assms by (intro power_increasing) (auto simp: bi_ok_def max_limbs2)
  finally have "e = 0" using e1 by (cases e) auto
  then show ?case using e1 mul_row_value(1) [OF ih(1) assms(3,1,2) n] by simp
qed simp

lemma full_mul_value:
  assumes "bi_ok a" "bi_ok b"
  shows "length (full_mul a b) = MAX_RSA_LIMBS * 2" "lval (full_mul a b) = bval a * bval b"
  using mul_rows_value [OF assms refl order_refl] by (simp_all add: full_mul_def bi_take [OF assms(1)])

end
