(* ===== verification/Big_Mod.thy ===== *)
theory Big_Mod
  imports Big_Value
begin

text \<open>
  Modular arithmetic on big integers: the shift, the repeated subtraction of \<open>mod_mul\<close> and
  \<open>mod_reduce\<close>, and the square-and-multiply loop of \<open>mod_exp\<close> return and compute remainders of products
  and powers.
\<close>

section \<open>Loops over arrays\<close>

lemma fold_copy:
  "n \<le> length xs \<Longrightarrow> n \<le> length r \<Longrightarrow> fold (\<lambda>i r. r[i := xs ! i]) [0..<n] r = take n xs @ drop n r"
proof (induction n)
  case (Suc n)
  then have "drop n r = r ! n # drop (Suc n) r" by (simp add: Cons_nth_drop_Suc)
  then show ?case using Suc by (simp add: take_Suc_conv_app_nth list_update_append)
qed simp

lemma fold_clear: "n \<le> length r \<Longrightarrow> fold (\<lambda>i r. r[i := 0]) [0..<n] r = replicate n 0 @ drop n r"
proof (induction n)
  case (Suc n)
  then have "drop n r = r ! n # drop (Suc n) r" by (simp add: Cons_nth_drop_Suc)
  then show ?case using Suc by (simp add: list_update_append replicate_append_same [symmetric])
qed simp

text \<open>A loop from the top that writes an entry computed from entries at or below it.\<close>

lemma fold_down:
  assumes "\<And>r i. (\<forall>j \<le> i. r ! j = xs ! j) \<Longrightarrow> a \<le> i \<Longrightarrow> g r i = g xs i"
  shows "b \<le> length r \<Longrightarrow> (\<forall>j < b. r ! j = xs ! j) \<Longrightarrow>
    length (fold (\<lambda>i r. r[i := g r i]) (rev [a..<b]) r) = length r \<and>
    (\<forall>k < length r. fold (\<lambda>i r. r[i := g r i]) (rev [a..<b]) r ! k = (if a \<le> k \<and> k < b then g xs k else r ! k))"
proof (induction b arbitrary: r)
  case (Suc b)
  show ?case
  proof (cases "a \<le> b")
    case True
    let ?r = "r[b := g r b]"
    have "\<forall>j < b. ?r ! j = xs ! j" using Suc.prems(2) by simp
    from Suc.IH [OF _ this] Suc.prems(1)
    have ih: "length (fold (\<lambda>i r. r[i := g r i]) (rev [a..<b]) ?r) = length r"
      "\<forall>k < length r. fold (\<lambda>i r. r[i := g r i]) (rev [a..<b]) ?r ! k = (if a \<le> k \<and> k < b then g xs k else ?r ! k)" by simp_all
    have "g r b = g xs b" using assms [of b r] Suc.prems(2) True by simp
    moreover have "fold (\<lambda>i r. r[i := g r i]) (rev [a..<Suc b]) r = fold (\<lambda>i r. r[i := g r i]) (rev [a..<b]) ?r" using True by simp
    ultimately show ?thesis using ih Suc.prems(1) True by (auto simp: nth_list_update less_Suc_eq)
  qed (use Suc.prems in auto)
qed simp

section \<open>The shift\<close>

lemma bit_lval: "bit (lval xs) k \<longleftrightarrow> k < 64 * length xs \<and> bit (xs ! (k div 64)) (k mod 64)"
proof (induction xs arbitrary: k)
  case (Cons x xs)
  let ?n = "lval (x # xs)"
  show ?case
  proof (cases "k < 64")
    case True
    have "take_bit 64 ?n = unat x" using unat_u64 [of x] by (simp add: take_bit_eq_mod)
    then have "bit ?n k \<longleftrightarrow> bit (unat x) k" using True by (metis bit_take_bit_iff)
    then show ?thesis using True by (simp add: bit_unsigned_iff)
  next
    case False
    then obtain j where j: "k = 64 + j" using le_Suc_ex by (metis not_less)
    have "drop_bit 64 ?n = lval xs" using unat_u64 [of x] by (simp add: drop_bit_eq_div)
    then have "bit ?n k \<longleftrightarrow> bit (lval xs) j" unfolding j by (metis bit_drop_bit_eq comp_apply)
    moreover have "k div 64 = Suc (j div 64)" "k mod 64 = j mod 64" by (simp_all add: j)
    ultimately show ?thesis using Cons.IH [of j] by (simp add: j)
  qed
qed simp

lemma bit_lval_index: "b < 64 \<Longrightarrow> bit (lval xs) (64 * a + b) \<longleftrightarrow> a < length xs \<and> bit (xs ! a) b"
proof -
  assume b: "b < 64"
  then have "64 * a + b < 64 * length xs \<longleftrightarrow> a < length xs" by linarith
  then show ?thesis using b by (simp add: bit_lval)
qed

lemma bit_below:
  assumes "(x :: nat) < 2 ^ m" "m \<le> k"
  shows "\<not> bit x k"
proof -
  have "x < 2 ^ k" using assms power_increasing [of m k "2 :: nat"] by linarith
  then show ?thesis by (simp add: bit_iff_odd)
qed

definition shl_limb :: "u64 list \<Rightarrow> nat \<Rightarrow> nat \<Rightarrow> nat \<Rightarrow> u64" where
  "shl_limb xs ws bs i = (if i < ws then 0 else
     push_bit bs (xs ! (i - ws)) OR (if bs = 0 \<or> i = ws then 0 else drop_bit (64 - bs) (xs ! (i - ws - 1))))"

lemma extended_shl_nth:
  assumes "length xs = len" "n div 64 < len" "i < len"
  shows "extended_shl xs len n ! i = shl_limb xs (n div 64) (n mod 64) i" "length (extended_shl xs len n) = len"
proof -
  let ?ws = "n div 64" and ?bs = "n mod 64"
  let ?c = "fold (\<lambda>i r. r[i := r ! (i - ?ws)]) (rev [?ws..<len]) xs"
  have c: "length ?c = len \<and> (\<forall>k < len. ?c ! k = (if ?ws \<le> k \<and> k < len then xs ! (k - ?ws) else xs ! k))"
    using fold_down [of xs ?ws "\<lambda>r i. r ! (i - ?ws)" len xs] assms(1) by simp
  let ?g = "\<lambda>r i. push_bit ?bs (r ! (i - ?ws)) OR drop_bit (64 - ?bs) (r ! (i - ?ws - 1))"
  let ?d = "fold (\<lambda>i r. r[i := ?g r i]) (rev [?ws + 1..<len]) xs"
  have d: "length ?d = len \<and> (\<forall>k < len. ?d ! k = (if ?ws + 1 \<le> k \<and> k < len then ?g xs k else xs ! k))"
    using fold_down [of xs "?ws + 1" ?g len xs] assms(1) by simp
  have "len \<noteq> 0" using assms(3) by simp
  then show "length (extended_shl xs len n) = len" using c d assms(1,2)
    by (auto simp: extended_shl_def Let_def fold_clear)
  show "extended_shl xs len n ! i = shl_limb xs ?ws ?bs i"
  proof (cases "?bs = 0")
    case True
    then show ?thesis using c assms \<open>len \<noteq> 0\<close> by (auto simp: extended_shl_def Let_def fold_clear nth_append shl_limb_def)
  next
    case False
    then have "n \<noteq> 0" by (cases n) auto
    then show ?thesis using d assms False
      by (auto simp: extended_shl_def Let_def fold_clear nth_append shl_limb_def nth_list_update)
  qed
qed

lemma bit_shl_limb:
  assumes "j < 64" "bs < 64"
  shows "bit (shl_limb xs ws bs i) j \<longleftrightarrow>
    (if bs \<le> j then ws \<le> i \<and> bit (xs ! (i - ws)) (j - bs) else ws < i \<and> bit (xs ! (i - ws - 1)) (64 + j - bs))"
proof -
  have "bit (drop_bit (64 - bs) w) j \<longleftrightarrow> (j < bs \<and> bit w (64 + j - bs))" for w :: u64
    using assms bit_imp_le_length [of w "64 - bs + j"] by (auto simp: bit_drop_bit_eq)
  then show ?thesis using assms by (auto simp: shl_limb_def bit_or_iff bit_push_bit_iff)
qed

lemma extended_shl_value:
  assumes "length xs = len" "0 < lval xs" "lval xs * 2 ^ n < 2 ^ (64 * len)"
  shows "length (extended_shl xs len n) = len" "lval (extended_shl xs len n) = lval xs * 2 ^ n"
proof -
  let ?ws = "n div 64" and ?bs = "n mod 64" and ?r = "extended_shl xs len n"
  have "(2 :: nat) ^ n \<le> lval xs * 2 ^ n" using assms(2) by simp
  also have "\<dots> < 2 ^ (64 * len)" by (rule assms(3))
  finally have n: "n < 64 * len" by (rule power_less_imp_less_exp [rotated]) simp
  then have ws: "?ws < len" by (simp add: less_mult_imp_div_less mult.commute)
  then show l: "length ?r = len" using extended_shl_nth(2) [OF assms(1) ws] by blast
  show "lval ?r = lval xs * 2 ^ n"
  proof (rule bit_eqI)
    fix k
    show "bit (lval ?r) k \<longleftrightarrow> bit (lval xs * 2 ^ n) k"
    proof (cases "k < 64 * len")
      case True
      define i j where "i = k div 64" and "j = k mod 64"
      have k: "k = 64 * i + j" "j < 64" by (simp_all add: i_def j_def)
      have i: "i < len" using True by (simp add: i_def less_mult_imp_div_less mult.commute)
      have n2: "n = 64 * ?ws + ?bs" by simp
      have "bit (lval ?r) k \<longleftrightarrow> bit (shl_limb xs ?ws ?bs i) j"
        using True by (simp add: bit_lval l extended_shl_nth(1) [OF assms(1) ws i] flip: i_def j_def)
      also have "\<dots> \<longleftrightarrow> n \<le> k \<and> bit (lval xs) (k - n)"
      proof (cases "?bs \<le> j")
        case True
        then have "n \<le> k \<longleftrightarrow> ?ws \<le> i" using k n2 by linarith
        moreover have "k - n = 64 * (i - ?ws) + (j - ?bs)" if "?ws \<le> i" using that True k n2 by linarith
        ultimately show ?thesis using True k(2) i assms(1) bit_lval_index [of "j - ?bs" xs "i - ?ws"] by (auto simp: bit_shl_limb)
      next
        case False
        then have "n \<le> k \<longleftrightarrow> ?ws < i" using k n2 by linarith
        moreover have "k - n = 64 * (i - ?ws - 1) + (64 + j - ?bs)" if "?ws < i" using that False k n2 by linarith
        ultimately show ?thesis using False k(2) i assms(1) bit_lval_index [of "64 + j - ?bs" xs "i - ?ws - 1"]
          by (auto simp: bit_shl_limb)
      qed
      also have "\<dots> \<longleftrightarrow> bit (lval xs * 2 ^ n) k" by (simp add: bit_push_bit_iff_nat flip: push_bit_eq_mult)
      finally show ?thesis .
    next
      case False
      then show ?thesis using bit_below [OF assms(3)] by (simp add: bit_lval l)
    qed
  qed
qed

lemma shifted_modulus_value:
  assumes "bi_ok m" "0 < bval m" "N = MAX_RSA_LIMBS * 2" "bval m * 2 ^ n < 2 ^ (64 * N)"
  shows "length (shifted_modulus m n) = N" "lval (shifted_modulus m n) = bval m * 2 ^ n"
proof -
  let ?c = "fold (\<lambda>i r. r[i := limbs m ! i]) [0..<blen m] (replicate N 0)"
  have "?c = take (blen m) (limbs m) @ drop (blen m) (replicate N 0)"
    using assms(1,3) by (intro fold_copy) (auto simp: bi_ok_def max_limbs2)
  then have c: "length ?c = N" "lval ?c = bval m"
    using assms(1,3) by (auto simp: lval_append bi_take bi_ok_def max_limbs2)
  have "0 < lval ?c" "lval ?c * 2 ^ n < 2 ^ (64 * N)" using assms(2,4) unfolding c(2) by auto
  from extended_shl_value [OF c(1) this]
  show "length (shifted_modulus m n) = N" "lval (shifted_modulus m n) = bval m * 2 ^ n"
    unfolding c(2) shifted_modulus_def assms(3) [symmetric] by auto
qed

end
