(* ===== verification/Big_Exp.thy ===== *)
theory Big_Exp
  imports Big_Mod
begin

text \<open>
  Remainders of products and powers: \<open>mod_mul\<close>, \<open>mod_reduce\<close> and \<open>mod_exp\<close> of \<open>Big_Int\<close> return, and
  their results are the remainders of the mathematical product, number and power.
\<close>

section \<open>Bit lengths\<close>

lemma bit_length_eq: "2 ^ k \<le> n \<Longrightarrow> n < 2 ^ Suc k \<Longrightarrow> bit_length n = Suc k"
proof (induction k arbitrary: n)
  case 0
  then have "n = 1" by simp
  then show ?case by (simp add: bit_length.simps)
next
  case (Suc k)
  then have "bit_length (n div 2) = Suc k" by (intro Suc.IH) auto
  moreover have "n \<noteq> 0" using Suc.prems(1) by (cases n) auto
  ultimately show ?case by (subst bit_length.simps) simp
qed

lemma bit_length_bounds:
  assumes "0 < n"
  obtains k where "bit_length n = Suc k" "2 ^ k \<le> n" "n < 2 ^ Suc k"
proof -
  have "\<exists>k. 2 ^ k \<le> n \<and> n < 2 ^ Suc k" using assms
  proof (induction n rule: less_induct)
    case (less n)
    show ?case
    proof (cases "n = 1")
      case False
      then have "0 < n div 2" "n div 2 < n" using less.prems by auto
      from less.IH [OF this(2,1)] obtain k where "2 ^ k \<le> n div 2" "n div 2 < 2 ^ Suc k" by blast
      then have "2 ^ Suc k \<le> n \<and> n < 2 ^ Suc (Suc k)" by simp linarith
      then show ?thesis by blast
    qed (auto intro: exI [of _ 0])
  qed
  then show ?thesis using that bit_length_eq by blast
qed

text \<open>The bit count the code takes from the top limb is the bit length of the value.\<close>

lemma top_limb_bits:
  assumes "0 < e" "e \<le> length p" "p ! (e - 1) \<noteq> 0" "lval p < 2 ^ (64 * e)"
  shows "e * 64 - leading_zeros (p ! (e - 1)) = bit_length (lval p)"
proof -
  obtain d where d: "e = Suc d" using assms(1) by (cases e) auto
  let ?t = "unat (p ! d)"
  have "0 < ?t" using assms(3) d by (simp add: unat_gt_0)
  then obtain k where k: "bit_length ?t = Suc k" "2 ^ k \<le> ?t" "?t < 2 ^ Suc k" by (rule bit_length_bounds)
  have "(2 :: nat) ^ k < 2 ^ 64" using k(2) unat_u64 [of "p ! d"] by linarith
  then have k64: "k < 64" by (rule power_less_imp_less_exp [rotated]) simp
  have h: "p ! i = 0" if "e \<le> i" "i < length p" for i
  proof (rule ccontr)
    assume "p ! i \<noteq> 0"
    then have "2 ^ (64 * i) \<le> lval p" using that(2) by (intro lval_high_lower)
    moreover have "(2 :: nat) ^ (64 * e) \<le> 2 ^ (64 * i)" using that(1) by (intro power_increasing) auto
    ultimately show False using assms(4) by linarith
  qed
  have v: "lval p = lval (take d p) + 2 ^ (64 * d) * ?t"
    using lval_take_high [of e p] h lval_take_Suc [of d p] assms(2) d by simp
  have "2 ^ (64 * d + k) \<le> lval p" unfolding v power_add using k(2) by (intro trans_le_add2 mult_le_mono2)
  moreover have "lval p < 2 ^ Suc (64 * d + k)"
  proof -
    have "lval p < 2 ^ (64 * d) * (?t + 1)" using lval_take_less [of d p] by (simp add: v)
    also have "\<dots> \<le> 2 ^ (64 * d) * 2 ^ Suc k" using k(3) by (intro mult_le_mono2) simp
    finally show ?thesis by (simp add: power_add)
  qed
  ultimately have "bit_length (lval p) = Suc (64 * d + k)" by (rule bit_length_eq)
  then show ?thesis using k(1) k64 by (simp add: d leading_zeros_def)
qed

lemma modulus_bits:
  assumes "bi_ok m" "0 < bval m"
  shows "0 < blen m" "blen m * 64 - leading_zeros (limbs m ! (blen m - 1)) = bit_length (bval m)"
proof -
  show b: "0 < blen m" using assms bval_zero_iff [of m] by simp
  show "blen m * 64 - leading_zeros (limbs m ! (blen m - 1)) = bit_length (bval m)"
    unfolding bval_def using assms(1) b bval_upper [OF assms(1)] by (intro top_limb_bits) (auto simp: bi_ok_def bval_def)
qed

section \<open>One subtraction\<close>

lemma can_subtract_value:
  assumes "length p = MAX_RSA_LIMBS * 2" "length s = MAX_RSA_LIMBS * 2"
  shows "can_subtract p s \<longleftrightarrow> lval s \<le> lval p"
proof -
  have "p = s \<longleftrightarrow> (\<forall>i < MAX_RSA_LIMBS * 2. p ! i = s ! i)" using assms by (auto intro: nth_equalityI)
  moreover have "p = s \<Longrightarrow> lval s \<le> lval p" by simp
  moreover have "lval p = lval s \<Longrightarrow> p = s"
  proof -
    assume v: "lval p = lval s"
    have "p ! i = s ! i" if "i < length p" for i
    proof (rule bit_word_eqI)
      fix j assume "j < LENGTH(64)"
      then have "j < 64" by simp
      then show "bit (p ! i) j \<longleftrightarrow> bit (s ! i) j" using v that assms bit_lval_index [of j p i] bit_lval_index [of j s i] by simp
    qed
    then show "p = s" using assms by (intro nth_equalityI) auto
  qed
  ultimately show ?thesis using assms cmp_loop_value [of "MAX_RSA_LIMBS * 2" p s]
    unfolding can_subtract_def by (auto split: if_splits)
qed

text \<open>Subtracting the shifted modulus.\<close>

lemma subtract_shifted:
  assumes ok: "bi_ok m" "0 < bval m" and p: "length p = MAX_RSA_LIMBS * 2"
    and fits: "bval m * 2 ^ s < 2 ^ (64 * (MAX_RSA_LIMBS * 2))"
  shows "can_subtract p (shifted_modulus m s) \<longleftrightarrow> bval m * 2 ^ s \<le> lval p"
    and "bval m * 2 ^ s \<le> lval p \<Longrightarrow> length (subtract_limbs p (shifted_modulus m s)) = MAX_RSA_LIMBS * 2 \<and>
      lval (subtract_limbs p (shifted_modulus m s)) < lval p \<and>
      lval (subtract_limbs p (shifted_modulus m s)) mod bval m = lval p mod bval m"
proof -
  note v = shifted_modulus_value [OF ok refl fits]
  show "can_subtract p (shifted_modulus m s) \<longleftrightarrow> bval m * 2 ^ s \<le> lval p"
    using can_subtract_value [OF p v(1)] v(2) by simp
  have pos: "0 < bval m * 2 ^ s" using ok(2) by simp
  assume le: "bval m * 2 ^ s \<le> lval p"
  then have lt: "lval p - bval m * 2 ^ s < lval p" using pos by linarith
  from le have w: "length (subtract_limbs p (shifted_modulus m s)) = MAX_RSA_LIMBS * 2"
    "lval (subtract_limbs p (shifted_modulus m s)) = lval p - bval m * 2 ^ s"
    using subtract_limbs_value [OF p v(1)] v(2) by simp_all
  have "lval p mod bval m = (lval p - bval m * 2 ^ s + bval m * 2 ^ s) mod bval m" using le by simp
  also have "\<dots> = (lval p - bval m * 2 ^ s) mod bval m" by (rule mod_mult_self2)
  finally show "length (subtract_limbs p (shifted_modulus m s)) = MAX_RSA_LIMBS * 2 \<and>
      lval (subtract_limbs p (shifted_modulus m s)) < lval p \<and>
      lval (subtract_limbs p (shifted_modulus m s)) mod bval m = lval p mod bval m"
    using w lt by simp
qed

text \<open>What one iteration of the loop of \<open>mod_mul\<close> does to the value.\<close>

lemma mod_mul_step_value:
  assumes ok: "bi_ok m" "0 < bval m"
    and p: "length p = MAX_RSA_LIMBS * 2" "0 < e" "e \<le> MAX_RSA_LIMBS * 2" "p ! (e - 1) \<noteq> 0" "lval p < 2 ^ (64 * e)"
  shows "case mod_mul_step m (bit_length (bval m)) p e of
      None \<Rightarrow> lval p < bval m
    | Some p1 \<Rightarrow> length p1 = MAX_RSA_LIMBS * 2 \<and> lval p1 < lval p \<and> lval p1 mod bval m = lval p mod bval m"
proof -
  have "(2 :: nat) ^ (64 * (e - 1)) \<le> lval p" using p by (intro lval_high_lower) auto
  then have "0 < lval p" by (rule order.strict_trans2 [rotated]) simp
  then obtain k where k: "bit_length (lval p) = Suc k" "2 ^ k \<le> lval p" "lval p < 2 ^ Suc k" by (rule bit_length_bounds)
  obtain l where l: "bit_length (bval m) = Suc l" "2 ^ l \<le> bval m" "bval m < 2 ^ Suc l" using ok(2) by (rule bit_length_bounds)
  have bits: "e * 64 - leading_zeros (p ! (e - 1)) = Suc k" using top_limb_bits [of e p] p k(1) by simp
  have st: "mod_mul_step m (bit_length (bval m)) p e =
     (if k < l then None
      else if can_subtract p (shifted_modulus m (k - l)) then Some (subtract_limbs p (shifted_modulus m (k - l)))
      else if k - l = 0 then None
      else if can_subtract p (shifted_modulus m (k - l - 1)) then Some (subtract_limbs p (shifted_modulus m (k - l - 1)))
      else None)" unfolding mod_mul_step_def Let_def bits l(1) by simp
  have "(2 :: nat) ^ k < 2 ^ (64 * (MAX_RSA_LIMBS * 2))" using k(2) lval_less [of p] unfolding p(1) by linarith
  then have kN: "k < 64 * (MAX_RSA_LIMBS * 2)" by (rule power_less_imp_less_exp [rotated]) simp
  have fits: "bval m * 2 ^ s < 2 ^ (64 * (MAX_RSA_LIMBS * 2))" if "l + s \<le> k" for s
  proof -
    have "bval m * 2 ^ s < 2 ^ Suc l * 2 ^ s" using l(3) by simp
    also have "\<dots> \<le> 2 ^ (64 * (MAX_RSA_LIMBS * 2))" unfolding power_add [symmetric] using that kN by (intro power_increasing) auto
    finally show ?thesis .
  qed
  note sub = subtract_shifted [OF ok p(1) fits]
  have less: "lval p < bval m" if "k < l"
  proof -
    have "(2 :: nat) ^ Suc k \<le> 2 ^ l" using that by (intro power_increasing) auto
    then show ?thesis using k(3) l(2) by linarith
  qed
  have half: "bval m * 2 ^ (k - l - 1) \<le> lval p" if "l < k"
  proof -
    have "bval m * 2 ^ (k - l - 1) \<le> 2 ^ Suc l * 2 ^ (k - l - 1)" using l(3) by (intro mult_le_mono1) simp
    also have "\<dots> = 2 ^ k" unfolding power_add [symmetric] using that by simp
    finally show ?thesis using k(2) by linarith
  qed
  consider "k < l" | "l \<le> k" "bval m * 2 ^ (k - l) \<le> lval p" | "k = l" "lval p < bval m" | "l < k" "\<not> bval m * 2 ^ (k - l) \<le> lval p"
    by fastforce
  then show ?thesis
  proof cases
    case 1
    then show ?thesis using less by (simp add: st)
  next
    case 2
    then show ?thesis using sub [of "k - l"] by (simp add: st)
  next
    case 3
    then show ?thesis using sub(1) [of 0] by (simp add: st)
  next
    case 4
    then show ?thesis using sub(1) [of "k - l"] sub [of "k - l - 1"] half by (simp add: st)
  qed
qed

text \<open>The copied result, when the product is already below the modulus.\<close>

lemma copy_result_value:
  assumes "length p = MAX_RSA_LIMBS * 2" "0 < e" "e \<le> MAX_RSA_LIMBS * 2" "p ! (e - 1) \<noteq> 0" "lval p < 2 ^ (64 * e)"
    and "lval p < bval m" "bi_ok m"
  shows "bi_ok (copy_result p e)" "bval (copy_result p e) = lval p"
proof -
  have "(2 :: nat) ^ (64 * (e - 1)) \<le> lval p" using assms(1-4) by (intro lval_high_lower) auto
  then have "(2 :: nat) ^ (64 * (e - 1)) < 2 ^ (64 * blen m)" using bval_upper [OF assms(7)] assms(6) by linarith
  then have "64 * (e - 1) < 64 * blen m" by (rule power_less_imp_less_exp [rotated]) simp
  then have e: "e \<le> 64" using assms(7) by (auto simp: bi_ok_def)
  have z: "lval (drop e p) = 0"
  proof -
    have "lval p = lval (take e p) + 2 ^ (64 * e) * lval (drop e p)"
      using lval_append [of "take e p" "drop e p"] assms(1,3) by simp
    then show ?thesis using assms(5) by (cases "lval (drop e p)") auto
  qed
  have l: "fold (\<lambda>i r. r[i := p ! i]) [0..<e] (limbs bi_zero) = take e p @ replicate (64 - e) 0"
    using e assms(1,3) by (subst fold_copy) (simp_all add: bi_zero_def MAX_RSA_LIMBS_def)
  let ?b = "\<lparr> limbs = take e p @ replicate (64 - e) 0, blen = e \<rparr>"
  have c: "copy_result p e = bi_normalize ?b" using e by (simp add: copy_result_def l MAX_RSA_LIMBS_def min_def)
  have "lval (limbs ?b) = lval p"
    using lval_append [of "take e p" "drop e p"] z by (simp add: lval_append)
  then show "bi_ok (copy_result p e)" "bval (copy_result p e) = lval p"
    using normalize_ok [of ?b] e assms(1,3) unfolding c by (auto simp: nth_append)
qed

section \<open>Products and remainders\<close>

lemma mod_mul_loop_value:
  assumes ok: "bi_ok m" "0 < bval m"
  shows "length p = MAX_RSA_LIMBS * 2 \<Longrightarrow> 0 < e \<Longrightarrow> e \<le> MAX_RSA_LIMBS * 2 \<Longrightarrow> p ! (e - 1) \<noteq> 0 \<Longrightarrow> lval p < 2 ^ (64 * e) \<Longrightarrow>
    \<exists>r. mod_mul_loop m (bit_length (bval m)) p e = Some r \<and> bi_ok r \<and> bval r = lval p mod bval m"
proof (induction "lval p" arbitrary: p e rule: less_induct)
  case less
  note st = mod_mul_step_value [OF ok less.prems]
  show ?case
  proof (cases "mod_mul_step m (bit_length (bval m)) p e")
    case None
    then show ?thesis using st copy_result_value [OF less.prems _ ok(1)] by (subst mod_mul_loop.simps) simp
  next
    case (Some p1)
    then have v: "length p1 = MAX_RSA_LIMBS * 2" "lval p1 < lval p" "lval p1 mod bval m = lval p mod bval m" using st by auto
    let ?n = "normalize_loop p1 e"
    have h: "p1 ! i = 0" if "?n \<le> i" "i < length p1" for i
    proof (cases "i < e")
      case False
      show ?thesis
      proof (rule ccontr)
        assume "p1 ! i \<noteq> 0"
        then have "2 ^ (64 * i) \<le> lval p1" using that(2) by (intro lval_high_lower)
        moreover have "(2 :: nat) ^ (64 * e) \<le> 2 ^ (64 * i)" using False by (intro power_increasing) auto
        ultimately show False using v(2) less.prems(5) by linarith
      qed
    qed (use normalize_loop_high that in auto)
    have t: "lval (take ?n p1) = lval p1" using h by (intro lval_take_high)
    show ?thesis
    proof (cases "?n = 0")
      case True
      then show ?thesis using Some v(3) t by (subst mod_mul_loop.simps) simp
    next
      case False
      have "\<exists>r. mod_mul_loop m (bit_length (bval m)) p1 ?n = Some r \<and> bi_ok r \<and> bval r = lval p1 mod bval m"
        using False v(1) normalize_loop_le [of p1 e] less.prems(3) normalize_loop_top [of p1 e] lval_take_less [of ?n p1] t
        by (intro less.hyps [OF v(2)]) auto
      then show ?thesis using Some False v(3) by (subst mod_mul_loop.simps) simp
    qed
  qed
qed

lemma mod_mul_value:
  assumes "bi_ok a" "bi_ok b" "bi_ok m" "0 < bval m"
  shows "\<exists>r. mod_mul a b m = Some r \<and> bi_ok r \<and> bval r = bval a * bval b mod bval m"
proof (cases "blen a = 0 \<or> blen b = 0")
  case True
  then have "bval a = 0 \<or> bval b = 0" using bval_zero_iff [OF assms(1)] bval_zero_iff [OF assms(2)] by auto
  then show ?thesis using True by (auto simp: mod_mul_def bi_is_zero_def)
next
  case False
  let ?p = "full_mul a b" and ?e = "normalize_loop (full_mul a b) (MAX_RSA_LIMBS * 2)"
  note p = full_mul_value [OF assms(1,2)]
  have t: "lval (take ?e ?p) = lval ?p" unfolding p(1) [symmetric]
    by (intro lval_take_high) (rule normalize_loop_high)
  have "0 < lval ?p" using False bval_zero_iff [OF assms(1)] bval_zero_iff [OF assms(2)] by (simp add: p(2))
  then have e: "0 < ?e" using t by (cases ?e) auto
  have "\<exists>r. mod_mul_loop m (bit_length (bval m)) ?p ?e = Some r \<and> bi_ok r \<and> bval r = lval ?p mod bval m"
    using lval_take_less [of ?e ?p] t
    by (intro mod_mul_loop_value assms(3,4) p(1) e normalize_loop_le normalize_loop_top [OF e]) simp
  then show ?thesis using False e modulus_bits [OF assms(3,4)] p(2) by (simp add: mod_mul_def bi_is_zero_def Let_def)
qed

lemma reduce_loop_value:
  assumes "bi_ok m" "0 < bval m"
  shows "bi_ok a \<Longrightarrow> \<exists>r. reduce_loop m a = Some r \<and> bi_ok r \<and> bval r = bval a mod bval m"
proof (induction "bval a" arbitrary: a rule: less_induct)
  case less
  show ?case
  proof (cases "bval m \<le> bval a")
    case True
    note s = bi_sub_value [OF less.prems assms(1) True]
    have "\<exists>r. reduce_loop m (bi_sub a m) = Some r \<and> bi_ok r \<and> bval r = bval (bi_sub a m) mod bval m"
      using s True assms(2) by (intro less.hyps) auto
    then show ?thesis using True less.prems assms(1) s(2) le_mod_geq [OF True]
      by (subst reduce_loop.simps) (simp add: bi_ge_value)
  next
    case False
    then show ?thesis using less.prems assms(1) by (subst reduce_loop.simps) (simp add: bi_ge_value)
  qed
qed

lemma mod_reduce_value:
  assumes "bi_ok a" "bi_ok m" "0 < bval m"
  shows "\<exists>r. mod_reduce a m = Some r \<and> bi_ok r \<and> bval r = bval a mod bval m"
  using reduce_loop_value [OF assms(2,3,1)] assms by (auto simp: mod_reduce_def bi_cmp_value)

section \<open>Powers\<close>

lemma exp_limb_value:
  assumes "bi_ok m" "0 < bval m"
  shows "bi_ok r \<Longrightarrow> bi_ok b \<Longrightarrow> bval b < bval m \<Longrightarrow>
    \<exists>r1 b1. exp_limb k m x (r, b) = Some (r1, b1) \<and> bi_ok r1 \<and> bi_ok b1 \<and> bval b1 = bval b ^ 2 ^ k mod bval m \<and>
      bval r1 mod bval m = bval r * bval b ^ (unat x mod 2 ^ k) mod bval m \<and>
      (bval r1 < bval m \<or> bval r1 = bval r \<and> unat x mod 2 ^ k = 0)"
proof (induction k arbitrary: x r b)
  case (Suc k)
  let ?M = "bval m"
  obtain b2 where b2: "mod_mul b b m = Some b2" "bi_ok b2" "bval b2 = bval b * bval b mod ?M"
    using mod_mul_value [OF Suc.prems(2,2) assms] by blast
  have odd: "x AND 1 \<noteq> 0 \<longleftrightarrow> odd (unat x)" by (simp add: and_one_eq mod_2_eq_odd bit_unsigned_iff flip: bit_0)
  have split: "unat x mod 2 ^ Suc k = unat x mod 2 + 2 * (unat (drop_bit 1 x) mod 2 ^ k)"
    by (simp only: unat_drop_bit_eq) (simp add: drop_bit_eq_div mod_mult2_eq)
  obtain r2 where r2: "(if x AND 1 \<noteq> 0 then mod_mul r b m else Some r) = Some r2" "bi_ok r2"
    "bval r2 mod ?M = bval r * bval b ^ (unat x mod 2) mod ?M" "bval r2 < ?M \<or> bval r2 = bval r \<and> unat x mod 2 = 0"
    using mod_mul_value [OF Suc.prems(1,2) assms] Suc.prems(1) assms(2) odd by (cases "odd (unat x)") (auto simp: odd_iff_mod_2_eq_one)
  obtain r1 b1 where i: "exp_limb k m (drop_bit 1 x) (r2, b2) = Some (r1, b1)" "bi_ok r1" "bi_ok b1" "bval b1 = bval b2 ^ 2 ^ k mod ?M"
    "bval r1 mod ?M = bval r2 * bval b2 ^ (unat (drop_bit 1 x) mod 2 ^ k) mod ?M"
    "bval r1 < ?M \<or> bval r1 = bval r2 \<and> unat (drop_bit 1 x) mod 2 ^ k = 0"
    using Suc.IH [OF r2(2) b2(2), of "drop_bit 1 x"] b2(3) assms(2) by auto
  have "bval b1 = bval b ^ 2 ^ Suc k mod ?M"
    by (simp add: i(4) b2(3) power_mod power_mult_distrib flip: power_add mult_2)
  moreover have "bval r1 mod ?M = bval r * bval b ^ (unat x mod 2 ^ Suc k) mod ?M"
  proof -
    let ?j = "unat (drop_bit 1 x) mod 2 ^ k"
    have "bval r1 mod ?M = (bval r2 mod ?M) * (bval b2 ^ ?j mod ?M) mod ?M" by (simp only: i(5) mod_mult_eq)
    also have "bval b2 ^ ?j mod ?M = (bval b * bval b) ^ ?j mod ?M" by (simp only: b2(3) power_mod)
    also have "(bval r2 mod ?M) * ((bval b * bval b) ^ ?j mod ?M) mod ?M = bval r * bval b ^ (unat x mod 2) * (bval b * bval b) ^ ?j mod ?M"
      by (simp only: r2(3) mod_mult_eq)
    also have "bval r * bval b ^ (unat x mod 2) * (bval b * bval b) ^ ?j = bval r * bval b ^ (unat x mod 2 ^ Suc k)"
      by (simp only: split power_add power_mult power2_eq_square mult.assoc)
    finally show ?thesis .
  qed
  moreover have "bval r1 < ?M \<or> bval r1 = bval r \<and> unat x mod 2 ^ Suc k = 0" using i(6) r2(4) unfolding split by auto
  ultimately show ?case using b2(1) r2(1) i(1-3) by simp
qed simp

lemma exp_loop_value:
  assumes "bi_ok m" "0 < bval m"
  shows "bi_ok r \<Longrightarrow> bi_ok b \<Longrightarrow> bval b < bval m \<Longrightarrow>
    \<exists>r1 b1. exp_loop es m (r, b) = Some (r1, b1) \<and> bi_ok r1 \<and> bval r1 mod bval m = bval r * bval b ^ lval es mod bval m \<and>
      (bval r1 < bval m \<or> bval r1 = bval r \<and> lval es = 0)"
proof (induction es arbitrary: r b)
  case (Cons x es)
  let ?M = "bval m"
  have x: "unat x mod 2 ^ 64 = unat x" using unat_u64 [of x] by simp
  obtain r2 b2 where s: "exp_limb 64 m x (r, b) = Some (r2, b2)" "bi_ok r2" "bi_ok b2" "bval b2 = bval b ^ 2 ^ 64 mod ?M"
    "bval r2 mod ?M = bval r * bval b ^ unat x mod ?M" "bval r2 < ?M \<or> bval r2 = bval r \<and> unat x = 0"
    using exp_limb_value [OF assms Cons.prems, of 64 x] unfolding x by blast
  have "bval b2 < ?M" using assms(2) by (simp add: s(4))
  from Cons.IH [OF s(2,3) this] obtain r1 b1 where i: "exp_loop es m (r2, b2) = Some (r1, b1)" "bi_ok r1"
    "bval r1 mod ?M = bval r2 * bval b2 ^ lval es mod ?M" "bval r1 < ?M \<or> bval r1 = bval r2 \<and> lval es = 0" by blast
  have "bval r1 mod ?M = (bval r2 mod ?M) * (bval b2 ^ lval es mod ?M) mod ?M" by (simp only: i(3) mod_mult_eq)
  also have "bval b2 ^ lval es mod ?M = (bval b ^ 2 ^ 64) ^ lval es mod ?M" by (simp only: s(4) power_mod)
  also have "(bval r2 mod ?M) * ((bval b ^ 2 ^ 64) ^ lval es mod ?M) mod ?M = bval r * bval b ^ unat x * (bval b ^ 2 ^ 64) ^ lval es mod ?M"
    by (simp only: s(5) mod_mult_eq)
  also have "bval r * bval b ^ unat x * (bval b ^ 2 ^ 64) ^ lval es = bval r * bval b ^ lval (x # es)"
    by (simp only: lval.simps power_add power_mult mult.assoc)
  finally have "bval r1 mod ?M = bval r * bval b ^ lval (x # es) mod ?M" .
  moreover have "bval r1 < ?M \<or> bval r1 = bval r \<and> lval (x # es) = 0" using i(4) s(6) by auto
  ultimately show ?case using s(1) i(1,2) by simp
qed simp

lemma bi_one_ok: "bi_ok \<lparr> limbs = (limbs bi_zero)[0 := 1], blen = 1 \<rparr>" "bval \<lparr> limbs = (limbs bi_zero)[0 := 1], blen = 1 \<rparr> = 1"
  using lval_update [of 0 "limbs bi_zero" 1] by (simp_all add: bi_ok_def bval_def bi_zero_def MAX_RSA_LIMBS_def nth_list_update)

lemma mod_exp_value:
  assumes "bi_ok base" "bi_ok e" "bi_ok m" "0 < bval m" "0 < bval e \<or> 1 < bval m"
  shows "\<exists>r. mod_exp base e m = Some r \<and> bi_ok r \<and> bval r = bval base ^ bval e mod bval m"
proof -
  obtain b where b: "mod_reduce base m = Some b" "bi_ok b" "bval b = bval base mod bval m"
    using mod_reduce_value [OF assms(1,3,4)] by blast
  then have "bval b < bval m" using assms(4) by simp
  from exp_loop_value [OF assms(3,4) bi_one_ok(1) b(2) this, of "take (blen e) (limbs e)"]
  obtain r b1 where r: "exp_loop (take (blen e) (limbs e)) m (\<lparr> limbs = (limbs bi_zero)[0 := 1], blen = 1 \<rparr>, b) = Some (r, b1)" "bi_ok r"
    "bval r mod bval m = bval b ^ bval e mod bval m" "bval r < bval m \<or> bval r = 1 \<and> bval e = 0"
    unfolding bi_take [OF assms(2)] bi_one_ok(2) by auto
  have "\<not> bi_is_zero m" using assms(3,4) bval_zero_iff [of m] by (simp add: bi_is_zero_def)
  then have "mod_exp base e m = Some r" using b(1) r(1) by (simp add: mod_exp_def)
  moreover have "bval r < bval m" using r(4) assms(5) by auto
  ultimately show ?thesis using r(2,3) by (simp add: b(3) power_mod)
qed

end
