(* ===== verification/Big_Bytes.thy ===== *)
theory Big_Bytes
  imports Big_Exp
begin

text \<open>
  Big integers and bytes: \<open>from_bytes_be\<close> and \<open>to_bytes_be\<close> are inverse to each other on well-formed
  numbers and keep the value of the big-endian byte string.
\<close>

section \<open>Values of byte strings\<close>

definition be_val :: "u8 list \<Rightarrow> nat" where
  "be_val bs = foldl (\<lambda>a b. 256 * a + unat b) 0 bs"

lemma be_val_simps [simp]: "be_val [] = 0" "be_val (bs @ [b]) = 256 * be_val bs + unat b"
  by (simp_all add: be_val_def)

lemma unat_u8: "unat (b :: u8) < 256"
  using unsigned_less [of b] by simp

lemma be_val_append: "be_val (xs @ ys) = be_val xs * 256 ^ length ys + be_val ys"
proof (induction ys rule: rev_induct)
  case (snoc y ys)
  then show ?case by (simp flip: append_assoc)
qed simp

lemma be_val_less: "be_val bs < 256 ^ length bs"
proof (induction bs rule: rev_induct)
  case (snoc b bs)
  then have "256 * (be_val bs + 1) \<le> 256 * 256 ^ length bs" by (intro mult_le_mono2) simp
  then show ?case using unat_u8 [of b] by simp
qed simp

lemma be_val_Cons: "be_val (b # bs) = unat b * 256 ^ length bs + be_val bs"
  using be_val_append [of "[b]" bs] be_val_simps(2) [of "[]" b] by simp

lemma be_val_zeros [simp]: "be_val (replicate n 0) = 0"
  by (induction n) (simp_all add: be_val_Cons)

lemma be_val_dropWhile: "be_val (dropWhile (\<lambda>b. b = 0) bs) = be_val bs"
  by (induction bs) (simp_all add: be_val_Cons)

lemma be_val_inj: "length xs = length ys \<Longrightarrow> be_val xs = be_val ys \<Longrightarrow> xs = ys"
proof (induction xs ys rule: list_induct2)
  case (Cons x xs y ys)
  have "unat x = unat y"
  proof (rule ccontr)
    assume "unat x \<noteq> unat y"
    then consider "unat x + 1 \<le> unat y" | "unat y + 1 \<le> unat x" by linarith
    then show False
    proof cases
      case 1
      then have "(unat x + 1) * 256 ^ length ys \<le> unat y * 256 ^ length ys" by (rule mult_le_mono1)
      then show False using Cons be_val_less [of xs] by (simp add: be_val_Cons)
    next
      case 2
      then have "(unat y + 1) * 256 ^ length ys \<le> unat x * 256 ^ length ys" by (rule mult_le_mono1)
      then show False using Cons be_val_less [of ys] by (simp add: be_val_Cons)
    qed
  qed
  then show ?case using Cons by (simp add: be_val_Cons word_unat_eq_iff)
qed simp

lemma from_be_bytes_value:
  "length bs * 8 \<le> LENGTH('w) \<Longrightarrow> unat (from_be_bytes bs :: 'w::len word) = be_val bs"
proof (induction bs rule: rev_induct)
  case (snoc b bs)
  let ?a = "from_be_bytes bs :: 'w word"
  have ih: "unat ?a = be_val bs" using snoc by simp
  have "256 * be_val bs + unat b < 256 ^ length (bs @ [b])" using be_val_less [of "bs @ [b]"] by simp
  also have "\<dots> = 2 ^ (8 * length (bs @ [b]))" by (simp add: power_mult power_add)
  also have "\<dots> \<le> 2 ^ LENGTH('w)" using snoc.prems by (intro power_increasing) auto
  finally have lt: "256 * be_val bs + unat b < 2 ^ LENGTH('w)" .
  have "from_be_bytes (bs @ [b]) = (of_nat (256 * unat ?a + unat b) :: 'w word)"
    by (simp add: from_be_bytes_def)
  then have "unat (from_be_bytes (bs @ [b]) :: 'w word) = (256 * be_val bs + unat b) mod 2 ^ LENGTH('w)"
    unfolding ih by (simp only: unat_of_nat)
  then show ?case using lt by simp
qed (simp add: from_be_bytes_def)

lemma nat_be_bytes [simp]: "length (nat_be_bytes k n) = k" "be_val (nat_be_bytes k n) = n mod 256 ^ k"
proof (induction k arbitrary: n)
  case (Suc k)
  {
    case 1
    show ?case using Suc(1) by simp
  next
    case 2
    have "unat (of_nat n :: u8) = n mod 256" by (simp add: unat_of_nat)
    then show ?case using Suc(2) [of "n div 256"] by (simp add: mod_mult2_eq)
  }
qed simp_all

lemma to_be_bytes_u64 [simp]: "length (to_be_bytes (w :: u64)) = 8" "be_val (to_be_bytes (w :: u64)) = unat w"
  using unat_u64 [of w] by (simp_all add: to_be_bytes_def)

section \<open>Reading bytes\<close>

abbreviation limb_of :: "u8 list \<Rightarrow> u64" where
  "limb_of chunk \<equiv> from_be_bytes (replicate (8 - length chunk) 0 @ chunk)"

lemma fold_enumerate:
  "k + length cs \<le> length r \<Longrightarrow>
   fold (\<lambda>(i, c) r. r[i := f c]) (enumerate k cs) r = take k r @ map f cs @ drop (k + length cs) r"
proof (induction cs arbitrary: k r)
  case (Cons c cs)
  then have "fold (\<lambda>(i, c) r. r[i := f c]) (enumerate k (c # cs)) r =
      take (Suc k) (r[k := f c]) @ map f cs @ drop (Suc k + length cs) (r[k := f c])" by simp
  also have "take (Suc k) (r[k := f c]) = take k r @ [f c]" using Cons.prems by (simp add: take_Suc_conv_app_nth)
  finally show ?case by simp
qed simp

lemma rchunks_length: "length (rchunks 8 s) = (length s + 7) div 8"
proof (induction "8 :: nat" s rule: rchunks.induct)
  case (1 s)
  show ?case
  proof (cases "s = []")
    case False
    then have pos: "1 \<le> length s" by (simp add: Suc_le_eq)
    have "length (rchunks 8 s) = Suc (length (rchunks 8 (take (length s - 8) s)))" using False by (subst rchunks.simps) simp
    also have "\<dots> = Suc ((length s - 8 + 7) div 8)" using 1 False by simp
    also have "\<dots> = (length s + 7) div 8" 
    proof (cases "length s \<le> 8")
      case True
      then have "(length s + 7) div 8 = 1" using pos by (intro div_nat_eqI) simp_all
      then show ?thesis using True by simp
    next
      case False
      then obtain k where "length s = k + 8" using le_Suc_ex by (metis add.commute nat_le_linear)
      then show ?thesis by simp
    qed
    finally show ?thesis .
  qed (simp add: rchunks.simps)
qed

lemma rchunks_value: "lval (map limb_of (rchunks 8 s)) = be_val s"
proof (induction "8 :: nat" s rule: rchunks.induct)
  case (1 s)
  show ?case
  proof (cases "s = []")
    case False
    let ?t = "take (length s - 8) s" and ?d = "drop (length s - 8) s"
    have "unat (limb_of ?d) = be_val (replicate (8 - length ?d) 0 @ ?d)" by (rule from_be_bytes_value) simp
    then have d: "unat (limb_of ?d) = be_val ?d" by (simp add: be_val_append)
    have "be_val s = be_val ?t * 256 ^ length ?d + be_val ?d" using be_val_append [of ?t ?d] by simp
    also have "be_val ?t * 256 ^ length ?d = 2 ^ 64 * be_val ?t" by (cases "8 \<le> length s") auto
    finally show ?thesis using 1 False d by (subst rchunks.simps) simp
  qed (simp add: rchunks.simps)
qed

lemma from_bytes_be_value:
  assumes "length bytes \<le> MAX_RSA_BYTES"
  shows "\<exists>b. from_bytes_be bytes = Some b \<and> bi_ok b \<and> bval b = be_val bytes"
proof -
  let ?s = "dropWhile (\<lambda>b. b = 0) bytes"
  let ?n = "(length ?s + 7) div 8"
  show ?thesis
  proof (cases "?s = []")
    case True
    then have "be_val bytes = 0" using be_val_dropWhile [of bytes] unfolding True by simp
    then show ?thesis using True assms by (simp add: from_bytes_be_def)
  next
    case False
    have "length ?s \<le> length bytes" by (rule length_dropWhile_le)
    then have n: "?n \<le> 64" using assms by (simp add: MAX_RSA_BYTES_def)
    have f: "fold (\<lambda>(i, chunk) r. r[i := limb_of chunk]) (enumerate 0 (rchunks 8 ?s)) (limbs bi_zero) =
        map limb_of (rchunks 8 ?s) @ replicate (64 - ?n) 0"
      using n by (subst fold_enumerate) (simp_all add: rchunks_length bi_zero_def MAX_RSA_LIMBS_def)
    let ?b = "\<lparr> limbs = map limb_of (rchunks 8 ?s) @ replicate (64 - ?n) 0, blen = ?n \<rparr>"
    have "from_bytes_be bytes = Some (bi_normalize ?b)" using False assms by (auto simp: from_bytes_be_def Let_def f)
    moreover have "bi_ok (bi_normalize ?b)" "bval (bi_normalize ?b) = lval (limbs ?b)"
      using n normalize_ok [of ?b] by (auto simp: rchunks_length nth_append)
    moreover have "lval (limbs ?b) = be_val bytes" by (simp add: lval_append rchunks_value be_val_dropWhile)
    ultimately show ?thesis by simp
  qed
qed

section \<open>Writing bytes\<close>

lemma fold_push_byte:
  "fold push_byte bs (out, started) = (out @ (if started then bs else dropWhile (\<lambda>b. b = 0) bs), started \<or> (\<exists>b \<in> set bs. b \<noteq> 0))"
  by (induction bs arbitrary: out started) (auto simp: push_byte_def)

lemma concat_limbs_value:
  "n \<le> length xs \<Longrightarrow> be_val (concat (map (\<lambda>i. to_be_bytes (xs ! i)) (rev [0..<n]))) = lval (take n xs) \<and>
   length (concat (map (\<lambda>i. to_be_bytes (xs ! i)) (rev [0..<n]))) = 8 * n"
proof (induction n)
  case (Suc n)
  have "(256 :: nat) ^ (8 * n) = 2 ^ (64 * n)" by (simp add: power_mult)
  then show ?case using Suc by (simp add: be_val_append lval_take_Suc)
qed simp

lemma to_bytes_be_eq:
  assumes "bi_ok b"
  shows "be_val (to_bytes_be b) = bval b" "to_bytes_be b = [0] \<or> hd (to_bytes_be b) \<noteq> 0" "to_bytes_be b \<noteq> []"
proof -
  let ?c = "concat (map (\<lambda>i. to_be_bytes (limbs b ! i)) (rev [0..<blen b]))"
  have "fold (\<lambda>i s. fold push_byte (to_be_bytes (limbs b ! i)) s) ixs s = fold push_byte (concat (map (\<lambda>i. to_be_bytes (limbs b ! i)) ixs)) s"
    for ixs s by (induction ixs arbitrary: s) auto
  then have t: "to_bytes_be b = (if blen b = 0 \<or> dropWhile (\<lambda>b. b = 0) ?c = [] then [0] else dropWhile (\<lambda>b. b = 0) ?c)"
    by (simp add: to_bytes_be_def Let_def fold_push_byte)
  have c: "be_val (dropWhile (\<lambda>b. b = 0) ?c) = bval b"
    using concat_limbs_value [of "blen b" "limbs b"] assms bi_take [OF assms] by (simp add: be_val_dropWhile bi_ok_def)
  have "be_val [0] = 0" by (simp add: be_val_def)
  moreover have "bval b = 0" if "blen b = 0 \<or> dropWhile (\<lambda>b. b = 0) ?c = []"
    using that c bval_zero_iff [OF assms] by (elim disjE) simp_all
  ultimately show "be_val (to_bytes_be b) = bval b" using c t by (auto split: if_splits)
  show "to_bytes_be b = [0] \<or> hd (to_bytes_be b) \<noteq> 0" using t hd_dropWhile [of "\<lambda>b. b = 0" ?c] by auto
  show "to_bytes_be b \<noteq> []" using t by auto
qed

lemma to_bytes_be_length:
  assumes "bi_ok b" "bval b < 256 ^ k" "0 < k"
  shows "length (to_bytes_be b) \<le> k"
proof (cases "to_bytes_be b = [0]")
  case False
  then obtain x xs where x: "to_bytes_be b = x # xs" "x \<noteq> 0" using to_bytes_be_eq(2,3) [OF assms(1)] by (cases "to_bytes_be b") auto
  then have "1 \<le> unat x" by (simp add: Suc_le_eq unat_gt_0)
  then have "256 ^ length xs \<le> unat x * 256 ^ length xs" by simp
  also have "\<dots> \<le> bval b" using to_bytes_be_eq(1) [OF assms(1)] x(1) by (simp add: be_val_Cons)
  also have "\<dots> < 256 ^ k" by (rule assms(2))
  finally have "length xs < k" by (rule power_less_imp_less_exp [rotated]) simp
  then show ?thesis by (simp add: x(1))
qed (use assms(3) in simp)

text \<open>A well-formed number is determined by its value, so reading back what was written gives the number.\<close>

lemma bi_ok_inj:
  assumes "bi_ok a" "bi_ok b" "bval a = bval b"
  shows "a = b"
proof -
  have "limbs a ! i = limbs b ! i" if "i < 64" for i
  proof (rule bit_word_eqI)
    fix j assume "j < LENGTH(64)"
    then have "j < 64" by simp
    then show "bit (limbs a ! i) j \<longleftrightarrow> bit (limbs b ! i) j"
      using bit_lval_index [of j "limbs a" i] bit_lval_index [of j "limbs b" i] assms that by (simp add: bval_def bi_ok_def)
  qed
  then have "limbs a = limbs b" using assms(1,2) by (intro nth_equalityI) (auto simp: bi_ok_def)
  moreover have "blen a = blen b"
    using blen_less_value [OF assms(1,2)] blen_less_value [OF assms(2,1)] assms(3) by (metis linorder_neqE_nat less_irrefl)
  ultimately show ?thesis by simp
qed

lemma bytes_roundtrip:
  assumes "bi_ok b"
  shows "from_bytes_be (to_bytes_be b) = Some b"
proof -
  have "length (to_bytes_be b) \<le> 8 * blen b" if "0 < blen b"
  proof (rule to_bytes_be_length [OF assms])
    have "(2 :: nat) ^ (64 * blen b) = 256 ^ (8 * blen b)" by (simp add: power_mult)
    then show "bval b < 256 ^ (8 * blen b)" using bval_upper [OF assms] by simp
  qed (use that in simp)
  then have "length (to_bytes_be b) \<le> MAX_RSA_BYTES"
    using assms by (cases "blen b = 0") (auto simp: to_bytes_be_def MAX_RSA_BYTES_def bi_ok_def)
  from from_bytes_be_value [OF this] obtain c where "from_bytes_be (to_bytes_be b) = Some c" "bi_ok c" "bval c = bval b"
    using to_bytes_be_eq(1) [OF assms] by auto
  then show ?thesis using bi_ok_inj [OF _ assms] by simp
qed

section \<open>Properties\<close>

text \<open>
  C9: \<open>mod_exp\<close> returns for every base, exponent and non-zero modulus, and its result is the well-formed
  number whose value is the remainder of the power.  The only exception is the exponent 0 with the
  modulus 1, where the code returns 1.
\<close>

theorem mod_exp_correct:
  assumes "bi_ok base" "bi_ok e" "bi_ok m" "0 < bval m" "0 < bval e \<or> 1 < bval m"
  shows "\<exists>r. mod_exp base e m = Some r \<and> bi_ok r \<and> bval r = bval base ^ bval e mod bval m"
  by (rule mod_exp_value [OF assms])

lemma small_number:
  assumes "n < 256"
  shows "\<exists>b. from_bytes_be [of_nat n] = Some b \<and> bi_ok b \<and> bval b = n"
proof -
  have "be_val [of_nat n] = n" using assms be_val_Cons [of "of_nat n" "[]"] by (simp add: unat_of_nat)
  then show ?thesis using from_bytes_be_value [of "[of_nat n]"] by (simp add: MAX_RSA_BYTES_def)
qed

theorem mod_exp_correct_witness:
  "\<exists>b e m r. from_bytes_be [7] = Some b \<and> from_bytes_be [13] = Some e \<and> from_bytes_be [11] = Some m \<and>
     mod_exp b e m = Some r \<and> bval r = 2"
proof -
  obtain b where b: "from_bytes_be [7] = Some b" "bi_ok b" "bval b = 7" using small_number [of 7] by auto
  obtain e where e: "from_bytes_be [13] = Some e" "bi_ok e" "bval e = 13" using small_number [of 13] by auto
  obtain m where m: "from_bytes_be [11] = Some m" "bi_ok m" "bval m = 11" using small_number [of 11] by auto
  have "\<exists>r. mod_exp b e m = Some r \<and> bi_ok r \<and> bval r = bval b ^ bval e mod bval m"
    by (rule mod_exp_correct) (simp_all add: b e m)
  then show ?thesis using b(1,3) e(1,3) m(1,3) by auto
qed

text \<open>
  C40: Every byte string of at most 512 bytes is read as the well-formed number with its big-endian value,
  longer ones are refused; and writing a well-formed number and reading it back gives the same number,
  the bytes written being minimal.
\<close>

theorem bigint_bytes_roundtrip:
  "(case from_bytes_be bytes of
      None \<Rightarrow> 512 < length bytes
    | Some b \<Rightarrow> length bytes \<le> 512 \<and> bi_ok b \<and> bval b = be_val bytes \<and>
        from_bytes_be (to_bytes_be b) = Some b \<and> be_val (to_bytes_be b) = be_val bytes \<and>
        (to_bytes_be b = [0] \<or> hd (to_bytes_be b) \<noteq> 0))"
proof (cases "length bytes \<le> MAX_RSA_BYTES")
  case True
  then obtain b where b: "from_bytes_be bytes = Some b" "bi_ok b" "bval b = be_val bytes" using from_bytes_be_value by blast
  then show ?thesis using True bytes_roundtrip [OF b(2)] to_bytes_be_eq [OF b(2)] by (simp add: MAX_RSA_BYTES_def)
next
  case False
  then show ?thesis by (simp add: from_bytes_be_def MAX_RSA_BYTES_def)
qed

theorem bigint_bytes_roundtrip_witness:
  "\<exists>b. from_bytes_be [0, 1, 2] = Some b \<and> bval b = 258 \<and> from_bytes_be (to_bytes_be b) = Some b \<and> hd (to_bytes_be b) \<noteq> 0"
proof -
  have v: "be_val [0, 1, 2] = 258" by (simp add: be_val_def)
  obtain b where b: "from_bytes_be [0, 1, 2] = Some b" using from_bytes_be_value [of "[0, 1, 2]"] by (auto simp: MAX_RSA_BYTES_def)
  have "be_val [0] = 0" by (simp add: be_val_def)
  then show ?thesis using bigint_bytes_roundtrip [of "[0, 1, 2]"] b v by auto
qed

end
