(* ===== verification/Spec2Isabelle.thy ===== *)
theory Spec2Isabelle
  imports Pipe Socketpair Ipc_Channel Pty Signal_State Futex Sched_Lock Vma_Merge Big_Bytes
begin

text \<open>
  Verification library of the NexaOS kernel.  The sources are the Rust files under \<open>src/src\<close>.

  \<^bold>\<open>The program.\<close>  NexaOS is a monolithic kernel.  The parts modelled here are inter-process
  communication (message channels, pipes, socketpairs, pseudo-terminals, signals, futexes), process
  identifiers and the process table, the scheduler with its run queues, policy, NUMA placement and context
  switch, the virtual memory areas with the memory system calls, and the big integers that check module
  signatures.  They interact as follows.  Process operations and the scheduler share the process table
  and the PID manager; futexes and terminals put processes to sleep and wake them through the process
  operations; a scheduling decision stores the registers of the old process and loads those of the new
  one; the memory system calls work on one address space per process.

  \<^bold>\<open>Conventions.\<close>  A \<open>u8\<close> to \<open>u128\<close> is a word of that width, so \<open>+\<close>, \<open>-\<close> and \<open>*\<close> wrap, as in a
  build without overflow checks (the development profile has them and panics instead); a \<open>usize\<close> is a
  natural number; \<open>i32\<close> and \<open>i64\<close> are integers with saturation or wrap-around written out.  A
  struct is a record with the fields of the source, an enum a datatype with its variants, a static table
  a list or a function in the record of the component's state.  A lock that is held for a whole operation
  makes that operation one step; an operation that releases the process table's lock half-way is one
  function for sequential statements and a sequence of locked sections in \<open>Sched_Lock\<close>; where the code
  takes a lock twice the lock is explicit.  Errors are
  values: \<^typ>\<open>('a, 'e) result\<close> where the code returns a \<open>Result\<close>, \<^typ>\<open>'a option\<close> where it returns an
  \<open>Option\<close>.  In the theories of the areas and of the big integers the outer \<^term>\<open>None\<close> says that the
  code does not return, because it indexes out of bounds or loops.  Log lines are left out.

  \<^bold>\<open>Theories.\<close>

  \<^item> \<open>Kernel_Prelude\<close>: machine types, results, saturating arithmetic, first matching slot of a table.
  \<^item> \<open>Ring_Buffer\<close>: the copy loops of \<open>ipc/pipe.rs\<close> and the interfaces of byte queues and message queues,
    with histories of accepted and delivered items; interpreted by \<open>Pipe\<close>, \<open>Socketpair\<close>, \<open>Ipc_Channel\<close>
    and \<open>Pty\<close>.
  \<^item> \<open>Pipe\<close>, \<open>Socketpair\<close> (\<open>ipc/pipe.rs\<close>), \<open>Ipc_Channel\<close> (\<open>ipc/core.rs\<close>), \<open>Pty\<close> (\<open>tty/pty.rs\<close>): every
    operation; what is read is what was written, in order, for every sequence of calls; end of file,
    refusals and the wakeups of registered terminal readers.
  \<^item> \<open>Bit_Table\<close>: sets kept as bits, with the interface interpreted by \<open>Signal_State\<close>
    (\<open>ipc/signal.rs\<close>), \<open>Cpu_Mask\<close> (\<open>scheduler/types.rs\<close>) and \<open>Pid_Alloc\<close> (\<open>process/pid_tree.rs\<close>).
  \<^item> \<open>Pid_Alloc\<close>, \<open>Pid_Radix\<close> (\<open>process/pid_tree.rs\<close>): bitmap, radix tree and PID manager; the manager
    refines, for every call and argument, a relational specification over a set of allocated PIDs, a
    partial map from the low 18 bits of a PID to table indices, the legacy counter and the nodes in use.
  \<^item> \<open>Sched_Types\<close> (\<open>process/types.rs\<close>, \<open>scheduler/types.rs\<close>), \<open>Sched_Priority\<close> (\<open>scheduler/priority.rs\<close>),
    \<open>Numa\<close> (\<open>mm/numa.rs\<close>), \<open>Selection\<close> (the interface of scans that keep the best candidate),
    \<open>Percpu_Runqueue\<close> (\<open>scheduler/percpu.rs\<close>): virtual time arithmetic, policy changes, topology tables
    from firmware bytes, and run queues that neither lose nor duplicate entries and pick the earliest
    eligible deadline.
  \<^item> \<open>Process_Table\<close> (\<open>scheduler/table.rs\<close>), \<open>Process_Ops\<close> (\<open>scheduler/process.rs\<close>), \<open>Futex\<close>
    (\<open>syscalls/thread.rs\<close>): lookup, creation, wakeups, termination, waiting; what each operation may do
    to an entry of the table.
  \<^item> \<open>Sched_Core\<close>, \<open>Sched_Switch\<close>, \<open>Sched_Run\<close> (\<open>scheduler/core.rs\<close>, \<open>scheduler/context.rs\<close>,
    \<open>interrupts/gs_context.rs\<close>): the choice of the next process, the timer tick, the context switch as
    its stores and loads, and runs in which all CPUs interleave operations.
  \<^item> \<open>Sched_Lock\<close> (\<open>scheduler/process.rs\<close>, \<open>scheduler/core.rs\<close>, \<open>scheduler/priority.rs\<close>): runs in which all
    CPUs interleave locked sections; the invariant of the process table and that no wake is lost.
    A process that is chosen by \<open>schedule\<close> is running in the table before it is the CPU's current one, so
    the statement about running and current processes is one about whole operations, in \<open>Sched_Run\<close>.
  \<^item> \<open>Vma\<close>, \<open>Vma_Tree\<close>, \<open>Vma_Space\<close> (\<open>mm/vma.rs\<close>, \<open>syscalls/memory_vma.rs\<close>): the model of areas, of the
    interval tree in its pool of 256 nodes, of address spaces and of the system calls.
    \<open>Vma_Shape\<close>, \<open>Vma_Free\<close>, \<open>Vma_Insert\<close>, \<open>Vma_Remove\<close> show that the linked nodes are a tree and that
    the operations are functions on trees; \<open>Vma_Search\<close>, \<open>Vma_Iter\<close>, \<open>Vma_Balance\<close> treat searches, the
    iterator and the red-black invariant; \<open>Vma_Store\<close> has the interface of a store of disjoint areas and
    its instance; \<open>Vma_Safety\<close> and \<open>Vma_Calls\<close> show that every call returns; \<open>Vma_Munmap\<close>, \<open>Vma_Props\<close>
    and \<open>Vma_Merge\<close> hold the effects of the calls.
  \<^item> \<open>Big_Int\<close> (\<open>kmod/crypto.rs\<close>): the model of big integers.  \<open>Big_Value\<close>, \<open>Big_Mod\<close>, \<open>Big_Exp\<close> and
    \<open>Big_Bytes\<close> show what the limb loops compute: differences, products, shifts, remainders, powers, and
    the conversion from and to bytes.

  \<^bold>\<open>What the lemmas show.\<close>  For each component: a well-formedness invariant and its preservation by
  every operation; the effect of each operation, refusals included; and, where the component has a
  contract, the refinement of an abstract specification through a locale that is interpreted on the
  definitions of the model.  Several theorems state that the code does something it does not mean to do,
  as concrete runs or as general statements: lost futex wakes, a process current on two CPUs, a program
  that restarts after sleeping, an area that a merge hides, a heap that is never zeroed.

  \<^bold>\<open>Bounds and fuel.\<close>  There is no fuel.  Loops over arrays are folds or recursions over their indices;
  loops that might not end are partial functions, and the theorems say that they return.  Table sizes are
  those of the source: 64 processes, 256 areas, 32 entries of the iterator's stack, 64 limbs.  One-line
  constants are part of the definitions that use them and are not listed one by one.

  \<^bold>\<open>Not modelled.\<close>  Page tables, the buddy and slab allocators and swap work on raw memory through
  pointers; ELF loading and the entry to user mode write raw memory and registers; drivers and interrupt
  entry are port access and assembly.  File systems, the network stack, the user-space driver framework,
  the remaining system calls (among them \<open>mremap\<close>, \<open>madvise\<close>, \<open>mlock\<close> and \<open>msync\<close> on the modelled address
  spaces, and the older \<open>mmap\<close>, \<open>munmap\<close> and \<open>mprotect\<close> of \<open>syscalls/memory.rs\<close> that the dispatcher
  uses), the hash functions and the certificate parser of module signatures, and the
  load balancing requests and statistics of the scheduler are outside the model so far.  Of
  \<open>syscalls/thread.rs\<close> only the clone flags and the futex calls are modelled, of \<open>kmod/crypto.rs\<close> only the
  big integers, without the functions the source marks as dead code.
\<close>

end
